(* ===== verification/Telly_Prelude.thy ===== *)
theory Telly_Prelude
  imports Main "HOL-Library.Word"
begin

text \<open>
  Shared vocabulary of the development: the faults a C operation can run into, results that are
  either a fault or a value, bytes and C strings as memory, and the lemma collections
  (\<open>res_simps\<close>, \<open>cyc\<close>) that carry the component proofs.

  A C function is modelled by a function into \<open>'a res\<close> whenever it can dereference an invalid
  pointer, read past an object, fail an \<open>ASSERT\<close>, execute undefined behaviour or never return.
  The faults are values, so a theorem that a function returns \<open>Inr x\<close> says that none of them
  happens.
\<close>

named_theorems res_simps "unfolding of the result combinators"
named_theorems cyc "arithmetic of positions in a circular array"

section \<open>Faults and results\<close>

datatype fault =
    NullDeref       \<comment> \<open>a NULL pointer is dereferenced\<close>
  | OutOfBounds     \<comment> \<open>an access outside the allocated object\<close>
  | UseAfterFree    \<comment> \<open>a freed object is accessed\<close>
  | AssertFailed    \<comment> \<open>an \<open>ASSERT\<close> of \<open>headers/telly.h\<close> fails and the process aborts\<close>
  | DivByZero       \<comment> \<open>\<open>x % 0\<close>\<close>
  | Undefined       \<comment> \<open>undefined behaviour of the language, \<open>unreachable()\<close> included\<close>
  | Endless         \<comment> \<open>a loop that never ends\<close>

type_synonym 'a res = "fault + 'a"

definition bind_res :: "'a res \<Rightarrow> ('a \<Rightarrow> 'b res) \<Rightarrow> 'b res" where
  "bind_res r k = (case r of Inl f \<Rightarrow> Inl f | Inr a \<Rightarrow> k a)"

lemma bind_res_Inl [simp, res_simps]: "bind_res (Inl f) k = Inl f"
  by (simp add: bind_res_def)

lemma bind_res_Inr [simp, res_simps]: "bind_res (Inr a) k = k a"
  by (simp add: bind_res_def)

lemma bind_res_assoc: "bind_res (bind_res r k) l = bind_res r (\<lambda>a. bind_res (k a) l)"
  by (cases r) simp_all

lemma bind_res_InrE:
  assumes "bind_res r k = Inr b"
  obtains a where "r = Inr a" and "k a = Inr b"
  using assms by (cases r) simp_all

lemma bind_res_eq_Inr_iff: "bind_res r k = Inr b \<longleftrightarrow> (\<exists>a. r = Inr a \<and> k a = Inr b)"
  by (cases r) simp_all

lemma bind_res_cong [fundef_cong]:
  "\<lbrakk>r = r'; \<And>a. r' = Inr a \<Longrightarrow> k a = k' a\<rbrakk> \<Longrightarrow> bind_res r k = bind_res r' k'"
  by (cases r') simp_all

text \<open>A loop that \<open>partial_function (option)\<close> models: \<open>None\<close> is a loop that does not return.\<close>

definition of_loop :: "'a option \<Rightarrow> 'a res" where
  "of_loop x = (case x of None \<Rightarrow> Inl Endless | Some a \<Rightarrow> Inr a)"

lemma of_loop_simps [simp, res_simps]: "of_loop None = Inl Endless" "of_loop (Some a) = Inr a"
  by (simp_all add: of_loop_def)

text \<open>\<open>ASSERT\<close> of \<open>headers/telly.h\<close>: the process aborts when the condition fails.\<close>

definition assert_that :: "bool \<Rightarrow> unit res" where
  "assert_that b = (if b then Inr () else Inl AssertFailed)"

lemma assert_that_simps [simp, res_simps]: "assert_that True = Inr ()" "assert_that False = Inl AssertFailed"
  by (simp_all add: assert_that_def)

section \<open>Bytes, memory and C strings\<close>

type_synonym bytes = "char list"

abbreviation code :: "char \<Rightarrow> nat" where
  "code c \<equiv> of_char c"

abbreviation NUL :: char where
  "NUL \<equiv> CHR 0x00"

abbreviation CRLF :: bytes where
  "CRLF \<equiv> [CHR 0x0D, CHR 0x0A]"

text \<open>
  A \<open>string_t\<close> (\<open>headers/utils/string.h\<close>) is a pointer and a length. The pointer is the memory
  that can be read from it on, which is at least the string itself but usually longer: an
  argument of a command points into the read buffer, and the bytes of the next arguments follow
  it. \<open>str_bytes\<close> is the string, \<open>c_string\<close> what a function that looks for a
  terminating NUL (\<open>strcmp\<close>, \<open>mpz_set_str\<close>) sees.
\<close>

record string_t =
  str_mem :: bytes
  str_len :: nat

definition str_bytes :: "string_t \<Rightarrow> bytes" where
  "str_bytes s = take (str_len s) (str_mem s)"

definition c_string :: "bytes \<Rightarrow> bytes" where
  "c_string m = takeWhile (\<lambda>c. c \<noteq> NUL) m"

definition wf_string :: "string_t \<Rightarrow> bool" where
  "wf_string s \<longleftrightarrow> str_len s \<le> length (str_mem s)"

lemma str_bytes_length [simp]: "wf_string s \<Longrightarrow> length (str_bytes s) = str_len s"
  by (simp add: str_bytes_def wf_string_def)

text \<open>A string as an argument of a RESP command: the bytes, then the memory that follows.\<close>

definition arg :: "bytes \<Rightarrow> bytes \<Rightarrow> string_t" where
  "arg s rest = \<lparr>str_mem = s @ rest, str_len = length s\<rparr>"

lemma arg_simps [simp]:
  "str_bytes (arg s rest) = s" "str_len (arg s rest) = length s"
  "str_mem (arg s rest) = s @ rest" "wf_string (arg s rest)"
  by (simp_all add: arg_def str_bytes_def wf_string_def)

lemma wf_string_arg: "wf_string s \<Longrightarrow> s = arg (str_bytes s) (drop (str_len s) (str_mem s))"
  by (cases s) (simp add: arg_def str_bytes_def wf_string_def)

text \<open>Reading and writing one byte of a block of memory.\<close>

definition mem_get :: "'a list \<Rightarrow> nat \<Rightarrow> 'a res" where
  "mem_get m i = (if i < length m then Inr (m ! i) else Inl OutOfBounds)"

definition mem_put :: "'a list \<Rightarrow> nat \<Rightarrow> 'a list \<Rightarrow> 'a list res" where
  "mem_put m i xs = (if i + length xs \<le> length m
     then Inr (take i m @ xs @ drop (i + length xs) m) else Inl OutOfBounds)"

lemma mem_get_simps [simp]: "i < length m \<Longrightarrow> mem_get m i = Inr (m ! i)"
  by (simp add: mem_get_def)

lemma mem_put_length: "mem_put m i xs = Inr m' \<Longrightarrow> length m' = length m"
  by (auto simp: mem_put_def split: if_splits)

section \<open>Positions in a circular array\<close>

text \<open>
  \<open>cnext n i\<close> is \<open>(i + 1) % n\<close>; \<open>cdist n a b\<close> is the number of forward steps from position \<open>a\<close>
  to position \<open>b\<close> of an array of \<open>n\<close> slots. A position \<open>p\<close> lies on the way from \<open>a\<close> to \<open>b\<close>
  (\<open>b\<close> excluded) exactly when \<open>cdist n a p < cdist n a b\<close>.
\<close>

definition cnext :: "nat \<Rightarrow> nat \<Rightarrow> nat" where
  "cnext n i = (i + 1) mod n"

definition cdist :: "nat \<Rightarrow> nat \<Rightarrow> nat \<Rightarrow> nat" where
  "cdist n a b = (if a \<le> b then b - a else n - a + b)"

lemma cnext_if [cyc]: "i < n \<Longrightarrow> cnext n i = (if i + 1 = n then 0 else i + 1)"
  by (simp add: cnext_def)

lemma cnext_less [simp]: "0 < n \<Longrightarrow> cnext n i < n"
  by (simp add: cnext_def)

lemma cnext_less_idx: "s < n \<Longrightarrow> cnext n i < n"
  by (simp add: cnext_def)

lemma cdist_self [simp]: "cdist n a a = 0"
  by (simp add: cdist_def)

lemma cdist_less: "\<lbrakk>a < n; b < n\<rbrakk> \<Longrightarrow> cdist n a b < n"
  by (auto simp: cdist_def)

lemma cdist_eq_0_iff: "\<lbrakk>a < n; b < n\<rbrakk> \<Longrightarrow> cdist n a b = 0 \<longleftrightarrow> a = b"
  by (auto simp: cdist_def)

lemma cdist_cnext: "\<lbrakk>a < n; b < n; cnext n b \<noteq> a\<rbrakk> \<Longrightarrow> cdist n a (cnext n b) = Suc (cdist n a b)"
  by (auto simp: cdist_def cyc)

lemma cdist_cnext_left: "\<lbrakk>a < n; b < n; a \<noteq> b\<rbrakk> \<Longrightarrow> cdist n a b = Suc (cdist n (cnext n a) b)"
  by (auto simp: cdist_def cyc)

lemma cdist_mod: "\<lbrakk>a < n; b < n\<rbrakk> \<Longrightarrow> (a + cdist n a b) mod n = b"
  by (auto simp: cdist_def)

section \<open>Lists\<close>

lemma takeWhile_append_stop: "\<lbrakk>list_all P xs; \<not> P y\<rbrakk> \<Longrightarrow> takeWhile P (xs @ y # ys) = xs"
  by (induction xs) simp_all

lemma sum_list_replicate_0 [simp]: "sum_list (replicate n (0::nat)) = 0"
  by (induction n) simp_all

end
