(* ===== verification/Text.thy ===== *)
theory Text
  imports Telly_Prelude
begin

text \<open>
  \<open>src/utils/string.c\<close>: the hash of keys, equality of strings and upper-casing in place (the
  date text is in \<open>Cmd_Generic\<close>). Characters are signed, as on x86-64: \<open>string_hash\<close> extends the sign of
  a byte above 127.
\<close>

unbundle bit_operations_syntax

section \<open>\<open>string_hash\<close>, \<open>string_compare\<close>\<close>

definition sext_char :: "char \<Rightarrow> 64 word" where
  "sext_char c = signed_take_bit 7 (of_nat (code c))"

fun hash_loop :: "bytes \<Rightarrow> 64 word \<Rightarrow> 64 word \<Rightarrow> 64 word" where
  "hash_loop [] n ret = ret"
| "hash_loop (c # cs) n ret =
     (let v = n OR sext_char c;
          r = unat (((drop_bit 2 v) XOR v) AND 15);
          ret = (push_bit r ret) OR (drop_bit (32 - r) ret);
          ret = ret AND 0xFFFFFFFF;
          ret = ret XOR (v * v)
      in hash_loop cs (n + 0x100) ret)"

definition string_hash :: "bytes \<Rightarrow> 64 word" where
  "string_hash s = (if s = [] then 0 else let ret = hash_loop s 0x100 0 in (drop_bit 16 ret) XOR ret)"

text \<open>The pointers compared may be NULL (a free slot of a table): then the answer is false.\<close>

definition string_compare :: "bytes option \<Rightarrow> bytes option \<Rightarrow> bool" where
  "string_compare a b = (case a of None \<Rightarrow> False
     | Some s \<Rightarrow> (case b of None \<Rightarrow> False | Some t \<Rightarrow> length s = length t \<and> s = t))"

lemma string_compare_iff: "string_compare a (Some k) \<longleftrightarrow> a = Some k"
  by (auto simp: string_compare_def split: option.splits)

text \<open>\<open>SSTREQ\<close> compares lengths, then bytes; \<open>streq\<close> compares up to the terminating NUL.\<close>

definition SSTREQ :: "string_t \<Rightarrow> bytes \<Rightarrow> bool" where
  "SSTREQ s t \<longleftrightarrow> str_len s = length t \<and> take (str_len s) (str_mem s) = t"

definition streq :: "bytes \<Rightarrow> bytes \<Rightarrow> bool" where
  "streq m t \<longleftrightarrow> c_string m = t"

lemma SSTREQ_bytes: "wf_string s \<Longrightarrow> SSTREQ s t \<longleftrightarrow> str_bytes s = t"
  by (auto simp: SSTREQ_def str_bytes_def wf_string_def)

text \<open>
  \<open>streq\<close> on an argument whose bytes hold no NUL: true only when a NUL follows directly.
\<close>

lemma streq_arg:
  assumes "NUL \<notin> set s"
  shows "streq (str_mem (arg s (c # rest))) t \<longleftrightarrow> (if c = NUL then s = t else t = s @ c_string (c # rest))"
proof -
  have "c_string (s @ c # rest) = s @ c_string (c # rest)"
    using assms by (induction s) (auto simp: c_string_def)
  then show ?thesis by (auto simp: streq_def c_string_def)
qed

section \<open>\<open>to_uppercase\<close>\<close>

definition upper_char :: "char \<Rightarrow> char" where
  "upper_char c = (if 97 \<le> code c \<and> code c \<le> 122 then char_of (code c XOR 32) else c)"

definition to_uppercase :: "string_t \<Rightarrow> string_t" where
  "to_uppercase s = s\<lparr>str_mem := map upper_char (take (str_len s) (str_mem s)) @ drop (str_len s) (str_mem s)\<rparr>"

lemma xor_32: "\<lbrakk>97 \<le> n; n \<le> 122\<rbrakk> \<Longrightarrow> n XOR 32 = n - (32::nat)"
proof -
  assume n: "97 \<le> n" "n \<le> 122"
  have all: "\<forall>n \<in> set [97..<123]. n XOR 32 = n - (32::nat)" by code_simp
  have "n \<in> set [97..<123]" unfolding set_upt using n by simp
  then show ?thesis using all by blast
qed

lemma upper_char_code: "code (upper_char c) = (if 97 \<le> code c \<and> code c \<le> 122 then code c - 32 else code c)"
  by (auto simp: upper_char_def xor_32)

lemma upper_char_idem: "upper_char (upper_char c) = upper_char c"
proof -
  have "code (upper_char (upper_char c)) = code (upper_char c)" by (simp add: upper_char_code) linarith
  then show ?thesis using of_char_eq_iff by blast
qed

lemma to_uppercase_arg [simp]: "to_uppercase (arg s rest) = arg (map upper_char s) rest"
  by (simp add: to_uppercase_def arg_def)

end
