(* ===== verification/Number.thy ===== *)
theory Number
  imports Telly_Prelude
begin

text \<open>
  \<open>src/utils/number.c\<close>: recognising integers and doubles, reading an unsigned 64-bit number,
  printing a signed one, and the digit, bit and byte counts. The recognisers read memory through
  the pointer of a \<open>string_t\<close>, so a read past the readable memory is a fault. \<open>atoull_s\<close>
  keeps its 64-bit accumulator; \<open>errno\<close> is part of its result.
\<close>

unbundle bit_operations_syntax

section \<open>Digits\<close>

definition is_digit :: "char \<Rightarrow> bool" where
  "is_digit c \<longleftrightarrow> 48 \<le> code c \<and> code c \<le> 57"

definition digit_val :: "char \<Rightarrow> nat" where
  "digit_val c = code c - 48"

text \<open>The value a run of decimal digits denotes.\<close>

definition dec_val :: "bytes \<Rightarrow> nat" where
  "dec_val s = foldl (\<lambda>n c. 10 * n + digit_val c) 0 s"

lemma digit_val_less: "is_digit c \<Longrightarrow> digit_val c < 10"
  unfolding is_digit_def digit_val_def by linarith

lemma dec_val_snoc [simp]: "dec_val (s @ [c]) = 10 * dec_val s + digit_val c"
  by (simp add: dec_val_def)

lemma dec_val_Nil [simp]: "dec_val [] = 0"
  by (simp add: dec_val_def)

lemma foldl_dec: "foldl (\<lambda>n c. 10 * n + digit_val c) a s = a * 10 ^ length s + dec_val s"
proof (induction s arbitrary: a)
  case Nil
  then show ?case by simp
next
  case (Cons c s)
  have "foldl (\<lambda>n c. 10 * n + digit_val c) a (c # s) =
      (10 * a + digit_val c) * 10 ^ length s + dec_val s"
    using Cons by simp
  moreover have "dec_val (c # s) = digit_val c * 10 ^ length s + dec_val s"
    using Cons [of "digit_val c"] by (simp add: dec_val_def)
  ultimately show ?case by (simp add: algebra_simps)
qed

lemma dec_val_Cons: "dec_val (c # s) = digit_val c * 10 ^ length s + dec_val s"
  using foldl_dec [of "digit_val c" s] by (simp add: dec_val_def)

lemma dec_val_bound: "list_all is_digit s \<Longrightarrow> dec_val s < 10 ^ length s"
proof (induction s rule: rev_induct)
  case (snoc c s)
  then show ?case using digit_val_less [of c] by simp
qed simp

section \<open>\<open>try_parse_integer\<close>, \<open>try_parse_double\<close>\<close>

text \<open>
  The digit loop does not look at the length: it runs as long as the memory holds digits and
  counts the length down, which ends below zero when the digits run past the string. The C
  counter is a \<open>uint64_t\<close> and wraps there; only the test against zero at the end reads it, and
  no memory holds \<open>2 ^ 64\<close> digits, so an \<open>int\<close> gives the same answer.
\<close>

fun skip_digits :: "bytes \<Rightarrow> int \<Rightarrow> (bytes \<times> int) res" where
  "skip_digits [] len = Inl OutOfBounds"
| "skip_digits (c # m) len = (if is_digit c then skip_digits m (len - 1) else Inr (c # m, len))"

definition try_parse_integer :: "string_t \<Rightarrow> bool res" where
  "try_parse_integer s =
     bind_res (mem_get (str_mem s) 0) (\<lambda>c.
       if c = CHR ''-'' then
         let v = tl (str_mem s); len = int (str_len s) - 1 in
         if len = 0 then Inr False
         else bind_res (mem_get v 0) (\<lambda>d.
           if d = CHR ''0'' then Inr False
           else bind_res (skip_digits v len) (\<lambda>(v', len'). Inr (len' = 0)))
       else bind_res (skip_digits (str_mem s) (int (str_len s))) (\<lambda>(v', len').
         Inr (length v' \<noteq> length (str_mem s) \<and> len' = 0)))"

fun scan_double :: "bytes \<Rightarrow> int \<Rightarrow> bool \<Rightarrow> bool res" where
  "scan_double m len point =
     (if len = 0 then Inr point
      else case m of [] \<Rightarrow> Inl OutOfBounds
      | c # m' \<Rightarrow>
          if c = CHR ''.'' then (if point then Inr False else scan_double m' (len - 1) True)
          else if \<not> is_digit c then Inr False
          else scan_double m' (len - 1) point)"

declare scan_double.simps [simp del]

definition try_parse_double :: "string_t \<Rightarrow> bool res" where
  "try_parse_double s =
     bind_res (mem_get (str_mem s) 0) (\<lambda>c.
       if c = CHR ''-'' then scan_double (tl (str_mem s)) (int (str_len s) - 1) False
       else scan_double (str_mem s) (int (str_len s)) False)"

text \<open>What the recognisers accept, as a property of the string alone.\<close>

definition int_literal :: "bytes \<Rightarrow> bool" where
  "int_literal s = (case s of [] \<Rightarrow> False
     | c # t \<Rightarrow> if c = CHR ''-'' then t \<noteq> [] \<and> hd t \<noteq> CHR ''0'' \<and> list_all is_digit t
               else list_all is_digit s)"

definition double_literal :: "bytes \<Rightarrow> bool" where
  "double_literal s = (let t = (case s of [] \<Rightarrow> [] | c # t \<Rightarrow> if c = CHR ''-'' then t else s)
     in list_all (\<lambda>c. is_digit c \<or> c = CHR ''.'') t \<and> length (filter (\<lambda>c. c = CHR ''.'') t) = 1)"

lemma not_digit [simp]: "\<not> is_digit (CHR ''-'')" "\<not> is_digit (CHR ''.'')" "\<not> is_digit (CHR 0x0D)"
    "\<not> is_digit NUL" "\<not> is_digit (CHR ''+'')"
  by (simp_all add: is_digit_def)

lemma skip_digits_run:
  "\<not> is_digit c \<Longrightarrow> \<exists>v n. skip_digits (s @ c # rest) len = Inr (v, len - int n) \<and>
     length v + n = length (s @ c # rest) \<and> n \<le> length s \<and> (n = length s \<longleftrightarrow> list_all is_digit s)"
proof (induction s arbitrary: len)
  case Nil
  then show ?case by auto
next
  case (Cons d s)
  show ?case
  proof (cases "is_digit d")
    case False
    then show ?thesis by (intro exI [of _ "d # s @ c # rest"] exI [of _ 0]) simp
  next
    case True
    obtain v n where "skip_digits (s @ c # rest) (len - 1) = Inr (v, len - 1 - int n)"
        "length v + n = length (s @ c # rest)" "n \<le> length s" "n = length s \<longleftrightarrow> list_all is_digit s"
      using Cons.IH [OF Cons.prems, of "len - 1"] by blast
    with True show ?thesis by (intro exI [of _ v] exI [of _ "Suc n"]) simp
  qed
qed

lemma scan_double_run:
  "scan_double (s @ rest) (int (length s)) point =
     Inr (list_all (\<lambda>c. is_digit c \<or> c = CHR ''.'') s \<and>
          length (filter (\<lambda>c. c = CHR ''.'') s) + (if point then 1 else 0) = 1)"
proof (induction s arbitrary: point)
  case Nil
  then show ?case by (simp add: scan_double.simps)
next
  case (Cons d s)
  show ?case
  proof (cases "d = CHR ''.''")
    case True
    have "scan_double ((d # s) @ rest) (int (length (d # s))) point =
        (if point then Inr False else scan_double (s @ rest) (int (length s)) True)"
      using True by (subst scan_double.simps) simp
    with True show ?thesis by (simp add: Cons.IH)
  next
    case False
    have "scan_double ((d # s) @ rest) (int (length (d # s))) point =
        (if \<not> is_digit d then Inr False else scan_double (s @ rest) (int (length s)) point)"
      using False by (subst scan_double.simps) simp
    with False show ?thesis by (simp add: Cons.IH)
  qed
qed

text \<open>
  On an argument followed by a byte that is no digit (the CR of the protocol, the space or NUL of
  an inline command) the recognisers decide exactly the two literal forms.
\<close>

lemma skip_digits_arg:
  assumes "\<not> is_digit c"
  shows "\<exists>v l. skip_digits (s @ c # rest) (int (length s)) = Inr (v, l) \<and>
     (l = 0 \<longleftrightarrow> list_all is_digit s) \<and>
     (length v = length (s @ c # rest) \<longleftrightarrow> \<not> (s \<noteq> [] \<and> is_digit (hd s)))"
proof -
  obtain v n where v: "skip_digits (s @ c # rest) (int (length s)) = Inr (v, int (length s) - int n)"
      "length v + n = length (s @ c # rest)" "n \<le> length s" "n = length s \<longleftrightarrow> list_all is_digit s"
    using skip_digits_run [OF assms, of s rest "int (length s)"] by blast
  have "n = 0 \<longleftrightarrow> \<not> (s \<noteq> [] \<and> is_digit (hd s))"
  proof (cases s)
    case Nil
    then show ?thesis using v by simp
  next
    case (Cons d t)
    show ?thesis
    proof (cases "is_digit d")
      case False
      then have "skip_digits (s @ c # rest) (int (length s)) = Inr (s @ c # rest, int (length s))"
        using Cons by simp
      then show ?thesis using v Cons False by simp
    next
      case True
      obtain v' n' where "skip_digits (t @ c # rest) (int (length s) - 1) =
          Inr (v', int (length s) - 1 - int n')" "length v' + n' = length (t @ c # rest)"
        using skip_digits_run [OF assms, of t rest "int (length s) - 1"] by blast
      then show ?thesis using v Cons True by auto
    qed
  qed
  with v show ?thesis by (intro exI [of _ v] exI [of _ "int (length s) - int n"]) auto
qed

lemma try_parse_integer_arg:
  assumes "\<not> is_digit c" "c \<noteq> CHR ''-''"
  shows "try_parse_integer (arg s (c # rest)) = Inr (int_literal s)"
proof (cases "s \<noteq> [] \<and> hd s = CHR ''-''")
  case True
  then obtain t where s: "s = CHR ''-'' # t" by (cases s) auto
  obtain v l where v: "skip_digits (t @ c # rest) (int (length t)) = Inr (v, l)"
      "l = 0 \<longleftrightarrow> list_all is_digit t"
    using skip_digits_arg [OF assms(1), of t rest] by blast
  show ?thesis
    using v assms by (cases t) (auto simp: s try_parse_integer_def int_literal_def mem_get_def)
next
  case False
  obtain v l where v: "skip_digits (s @ c # rest) (int (length s)) = Inr (v, l)"
      "l = 0 \<longleftrightarrow> list_all is_digit s"
      "length v = length (s @ c # rest) \<longleftrightarrow> \<not> (s \<noteq> [] \<and> is_digit (hd s))"
    using skip_digits_arg [OF assms(1), of s rest] by blast
  show ?thesis
    using v assms False
    by (cases s) (auto simp: try_parse_integer_def int_literal_def mem_get_def)
qed

lemma try_parse_double_arg:
  assumes "c \<noteq> CHR ''-''"
  shows "try_parse_double (arg s (c # rest)) = Inr (double_literal s)"
proof (cases s)
  case Nil
  then show ?thesis using assms
    by (simp add: try_parse_double_def double_literal_def mem_get_def scan_double.simps)
next
  case (Cons d t)
  then show ?thesis
    using scan_double_run [of t "c # rest" False] scan_double_run [of s "c # rest" False]
    by (auto simp: try_parse_double_def double_literal_def mem_get_def Let_def)
qed

lemma int_not_double: "int_literal s \<Longrightarrow> \<not> double_literal s"
proof -
  have *: "list_all is_digit t \<Longrightarrow> filter (\<lambda>c. c = CHR ''.'') t = []" for t
    by (induction t) auto
  show "int_literal s \<Longrightarrow> \<not> double_literal s"
    by (auto simp: int_literal_def double_literal_def Let_def * split: list.splits if_splits)
qed

section \<open>\<open>atoull_s\<close>\<close>

datatype errno = E_OK | EINVAL | ERANGE

abbreviation UINT64_MAX :: "64 word" where
  "UINT64_MAX \<equiv> - 1"

definition max_div_10 :: "64 word" where
  "max_div_10 = 1844674407370955161"

definition max_mod_10 :: "64 word" where
  "max_mod_10 = 5"

fun strip_zeros :: "bytes \<Rightarrow> nat \<Rightarrow> (bytes \<times> nat) res" where
  "strip_zeros m 0 = Inr (m, 0)"
| "strip_zeros [] (Suc l) = Inl OutOfBounds"
| "strip_zeros (c # m) (Suc l) = (if c = CHR ''0'' then strip_zeros m l else Inr (c # m, Suc l))"

fun atoull_loop :: "bytes \<Rightarrow> nat \<Rightarrow> 64 word \<Rightarrow> (64 word \<times> errno) res" where
  "atoull_loop m 0 result = Inr (result, E_OK)"
| "atoull_loop [] (Suc l) result = Inl OutOfBounds"
| "atoull_loop (c # m) (Suc l) result =
     (if \<not> is_digit c then Inr (UINT64_MAX, EINVAL)
      else let digit = of_nat (digit_val c) in
        if result > max_div_10 \<or> (result = max_div_10 \<and> digit > max_mod_10) then Inr (UINT64_MAX, ERANGE)
        else atoull_loop m l (result * 10 + digit))"

definition atoull_s :: "string_t \<Rightarrow> (64 word \<times> errno) res" where
  "atoull_s s =
     bind_res (assert_that (str_len s \<noteq> 0)) (\<lambda>_.
     bind_res (mem_get (str_mem s) 0) (\<lambda>c.
       if c = CHR ''-'' then Inr (UINT64_MAX, EINVAL)
       else let v = (if c = CHR ''+'' then tl (str_mem s) else str_mem s);
                len = (if c = CHR ''+'' then str_len s - 1 else str_len s) in
         if len = 0 then Inr (UINT64_MAX, EINVAL)
         else bind_res (strip_zeros v len) (\<lambda>(v', len').
           if len' = 0 then Inr (0, E_OK)
           else if len' > 20 then Inr (UINT64_MAX, ERANGE)
           else atoull_loop v' len' 0)))"

lemma atoull_loop_digits:
  "list_all is_digit s \<Longrightarrow>
   atoull_loop (s @ rest) (length s) r =
     (if unat r * 10 ^ length s + dec_val s < 2 ^ 64
      then Inr (of_nat (unat r * 10 ^ length s + dec_val s), E_OK) else Inr (UINT64_MAX, ERANGE))"
proof (induction s arbitrary: r)
  case Nil
  have "unat r < 2 ^ 64" using unsigned_less [of r] by simp
  then show ?case by simp
next
  case (Cons c s)
  let ?d = "digit_val c" and ?P = "10 ^ length s :: nat"
  have d: "?d < 10" and c: "is_digit c" and s: "list_all is_digit s"
    using Cons.prems by (simp_all add: digit_val_less)
  have ud: "unat (of_nat ?d :: 64 word) = ?d"
    using d by (simp add: unat_of_nat)
  have total: "unat r * 10 ^ length (c # s) + dec_val (c # s) = (unat r * 10 + ?d) * ?P + dec_val s"
    by (simp add: dec_val_Cons algebra_simps)
  have guard: "(r > max_div_10 \<or> (r = max_div_10 \<and> (of_nat ?d :: 64 word) > max_mod_10)) \<longleftrightarrow>
      2 ^ 64 \<le> unat r * 10 + ?d"
    using d ud by (auto simp: word_less_nat_alt max_div_10_def max_mod_10_def word_unat_eq_iff)
  show ?case
  proof (cases "2 ^ 64 \<le> unat r * 10 + ?d")
    case True
    have "(2::nat) ^ 64 \<le> 2 ^ 64 * ?P" by simp
    also have "\<dots> \<le> (unat r * 10 + ?d) * ?P" using True by (rule mult_right_mono) simp
    finally have "\<not> unat r * 10 ^ length (c # s) + dec_val (c # s) < 2 ^ 64"
      by (subst total) linarith
    then show ?thesis using True guard c by (simp add: Let_def)
  next
    case False
    have "unat (r * 10 + of_nat ?d) = unat r * 10 + ?d"
      using False by (simp add: unat_word_ariths ud)
    then have u: "unat (r * 10 + of_nat ?d) * ?P + dec_val s = unat r * 10 ^ length (c # s) + dec_val (c # s)"
      by (simp only: total)
    have "atoull_loop ((c # s) @ rest) (length (c # s)) r =
        atoull_loop (s @ rest) (length s) (r * 10 + of_nat ?d)"
      using False guard c by (auto simp: Let_def)
    also note Cons.IH [OF s, of "r * 10 + of_nat ?d", unfolded u]
    finally show ?thesis .
  qed
qed

lemma dec_val_zero: "digit_val CHR ''0'' = 0"
  by (simp add: digit_val_def)

lemma strip_zeros_digits:
  "\<exists>z t. s = z @ t \<and> strip_zeros (s @ rest) (length s) = Inr (t @ rest, length t) \<and>
     dec_val s = dec_val t \<and> (t = [] \<or> hd t \<noteq> CHR ''0'')"
proof (induction s)
  case (Cons c s)
  show ?case
  proof (cases "c = CHR ''0''")
    case True
    obtain z t where "s = z @ t" "strip_zeros (s @ rest) (length s) = Inr (t @ rest, length t)"
        "dec_val s = dec_val t" "t = [] \<or> hd t \<noteq> CHR ''0''"
      using Cons.IH by blast
    with True show ?thesis
      by (intro exI [of _ "c # z"] exI [of _ t]) (simp add: dec_val_Cons dec_val_zero)
  next
    case False
    then show ?thesis by (intro exI [of _ "[]"] exI [of _ "c # s"]) simp
  qed
qed simp

lemma dec_val_leading:
  assumes "is_digit c" "c \<noteq> CHR ''0''" shows "10 ^ length s \<le> dec_val (c # s)"
proof -
  have "code c \<noteq> code CHR ''0''" using assms(2) of_char_eq_iff by blast
  then have "code c \<noteq> 48" by simp
  then have "1 \<le> digit_val c" using assms(1) unfolding digit_val_def is_digit_def by linarith
  then show ?thesis by (cases "digit_val c") (simp_all add: dec_val_Cons)
qed

text \<open>The result of \<open>atoull_s\<close> on digits, the optional plus sign included.\<close>

definition u64_of_digits :: "bytes \<Rightarrow> 64 word \<times> errno" where
  "u64_of_digits s = (if dec_val s < 2 ^ 64 then (of_nat (dec_val s), E_OK) else (UINT64_MAX, ERANGE))"

lemma atoull_s_core:
  assumes "list_all is_digit s" "s \<noteq> []"
  shows "bind_res (strip_zeros (s @ rest) (length s)) (\<lambda>(v', len').
           if len' = 0 then Inr (0, E_OK)
           else if len' > 20 then Inr (UINT64_MAX, ERANGE)
           else atoull_loop v' len' 0) = Inr (u64_of_digits s)"
proof -
  obtain z t where t: "s = z @ t" "strip_zeros (s @ rest) (length s) = Inr (t @ rest, length t)"
      "dec_val s = dec_val t" "t = [] \<or> hd t \<noteq> CHR ''0''"
    using strip_zeros_digits by blast
  have digits: "list_all is_digit t" using assms(1) t(1) by simp
  show ?thesis
  proof (cases "length t > 20")
    case True
    then obtain c u where c: "t = c # u" by (cases t) auto
    have "(2::nat) ^ 64 \<le> 10 ^ 20" by simp
    also have "\<dots> \<le> 10 ^ length u" using True c by (intro power_increasing) simp_all
    also have "\<dots> \<le> dec_val t" using dec_val_leading [of c u] digits t(4) c by simp
    finally have "\<not> dec_val s < 2 ^ 64" using t(3) by simp
    then show ?thesis using True t(2) c by (simp add: u64_of_digits_def)
  next
    case False
    then show ?thesis
      using t atoull_loop_digits [OF digits, of rest 0] by (auto simp: u64_of_digits_def)
  qed
qed

lemma atoull_s_digits:
  assumes "list_all is_digit s" "s \<noteq> []"
  shows "atoull_s (arg s rest) = Inr (u64_of_digits s)"
    and "atoull_s (arg (CHR ''+'' # s) rest) = Inr (u64_of_digits s)"
proof -
  obtain c t where s: "s = c # t" using assms(2) by (cases s) auto
  have "c \<noteq> CHR ''-''" "c \<noteq> CHR ''+''" using assms(1) s by auto
  then show "atoull_s (arg s rest) = Inr (u64_of_digits s)"
    using atoull_s_core [OF assms, of rest] s by (simp add: atoull_s_def mem_get_def Let_def)
  show "atoull_s (arg (CHR ''+'' # s) rest) = Inr (u64_of_digits s)"
    using atoull_s_core [OF assms, of rest] assms(2) by (simp add: atoull_s_def mem_get_def Let_def)
qed

section \<open>Digit, bit and byte counts\<close>

text \<open>\<open>nbits n\<close> is \<open>64 - __builtin_clzll(n)\<close> of a nonzero 64-bit \<open>n\<close>.\<close>

fun nbits :: "nat \<Rightarrow> nat" where
  "nbits n = (if n = 0 then 0 else Suc (nbits (n div 2)))"

declare nbits.simps [simp del]

definition POW10_TABLE :: "nat list" where
  "POW10_TABLE = [
     1, 10, 100, 1000,
     10000, 100000, 1000000, 10000000,
     100000000, 1000000000, 10000000000, 100000000000,
     1000000000000, 10000000000000, 100000000000000, 1000000000000000,
     10000000000000000, 100000000000000000, 1000000000000000000, 10000000000000000000]"

definition get_digit_count :: "64 word \<Rightarrow> nat" where
  "get_digit_count v =
     (if v = 0 then 1
      else let approximate_digits = (nbits (unat v) * 308) div 2 ^ 10 in
        (approximate_digits + (if unat v \<ge> POW10_TABLE ! approximate_digits then 1 else 0)) mod 256)"

definition get_bit_count :: "64 word \<Rightarrow> nat" where
  "get_bit_count v = (if v = 0 then 0 else nbits (unat v))"

definition get_byte_count :: "64 word \<Rightarrow> nat" where
  "get_byte_count v = (if v = 0 then 0 else (nbits (unat v) + 7) div 8)"

text \<open>The reference: decimal notation.\<close>

definition digit_char :: "nat \<Rightarrow> char" where
  "digit_char d = char_of (48 + d)"

fun decimal :: "nat \<Rightarrow> bytes" where
  "decimal n = (if n < 10 then [digit_char n] else decimal (n div 10) @ [digit_char (n mod 10)])"

declare decimal.simps [simp del]

lemma digit_char_props [simp]:
  assumes "d < 10" shows "code (digit_char d) = 48 + d" "is_digit (digit_char d)" "digit_val (digit_char d) = d"
proof -
  show c: "code (digit_char d) = 48 + d" using assms by (simp add: digit_char_def)
  show "is_digit (digit_char d)" using assms by (simp add: is_digit_def c)
  show "digit_val (digit_char d) = d" by (simp add: digit_val_def c)
qed

lemma decimal_digits: "list_all is_digit (decimal n)"
  by (induction n rule: decimal.induct) (subst decimal.simps, auto)

lemma decimal_val: "dec_val (decimal n) = n"
proof (induction n rule: decimal.induct)
  case (1 n)
  show ?case
  proof (cases "n < 10")
    case True
    then show ?thesis by (subst decimal.simps) (simp add: dec_val_def)
  next
    case False
    then show ?thesis using 1 by (subst decimal.simps) simp
  qed
qed

lemma decimal_not_Nil [simp]: "decimal n \<noteq> []"
  by (subst decimal.simps) simp

lemma decimal_length: "0 < n \<Longrightarrow> 10 ^ (length (decimal n) - 1) \<le> n \<and> n < 10 ^ length (decimal n)"
proof (induction n rule: decimal.induct)
  case (1 n)
  show ?case
  proof (cases "n < 10")
    case True
    then show ?thesis using 1 by (subst (1 2) decimal.simps) simp
  next
    case False
    let ?l = "length (decimal (n div 10))"
    have ih: "10 ^ (?l - 1) \<le> n div 10" "n div 10 < 10 ^ ?l" using 1(1) False by auto
    obtain k where l: "?l = Suc k" by (cases "decimal (n div 10)") auto
    have "10 ^ ?l \<le> n" using ih(1) unfolding l by (simp add: less_eq_div_iff_mult_less_eq mult.commute)
    moreover have "n < 10 ^ Suc ?l" using ih(2) by simp
    moreover have "length (decimal n) = Suc ?l" using False by (subst decimal.simps) simp
    ultimately show ?thesis by simp
  qed
qed

lemma decimal_length_eq:
  assumes "10 ^ k \<le> n" "n < 10 ^ Suc k" shows "length (decimal n) = Suc k"
proof -
  have "0 < n" using assms(1) by (metis gr0I not_one_le_zero power_eq_0_iff le_zero_eq one_neq_zero zero_less_power zero_less_numeral not_less)
  then have l: "10 ^ (length (decimal n) - 1) \<le> n" "n < 10 ^ length (decimal n)"
    using decimal_length by auto
  have "(10::nat) ^ (length (decimal n) - 1) < 10 ^ Suc k" using l(1) assms(2) by (rule le_less_trans)
  then have "length (decimal n) - 1 < Suc k" by (rule power_less_imp_less_exp [rotated]) simp
  moreover have "(10::nat) ^ k < 10 ^ length (decimal n)" using assms(1) l(2) by (rule le_less_trans)
  then have "k < length (decimal n)" by (rule power_less_imp_less_exp [rotated]) simp
  ultimately show ?thesis by linarith
qed

lemma nbits_bounds: "0 < n \<Longrightarrow> 2 ^ (nbits n - 1) \<le> n \<and> n < 2 ^ nbits n \<and> 0 < nbits n"
proof (induction n rule: nbits.induct)
  case (1 n)
  show ?case
  proof (cases "n = 1")
    case True
    then show ?thesis by (simp add: nbits.simps)
  next
    case False
    have ih: "2 ^ (nbits (n div 2) - 1) \<le> n div 2" "n div 2 < 2 ^ nbits (n div 2)" "0 < nbits (n div 2)"
      using 1 False by auto
    have n: "nbits n = Suc (nbits (n div 2))" using 1(2) by (simp add: nbits.simps [of n])
    obtain b where b: "nbits (n div 2) = Suc b" using ih(3) by (cases "nbits (n div 2)") auto
    show ?thesis using ih unfolding n b by simp linarith
  qed
qed

lemma nbits_le: assumes "n < 2 ^ k" shows "nbits n \<le> k"
proof (cases "n = 0")
  case False
  then have "2 ^ (nbits n - 1) \<le> n" "0 < nbits n" using nbits_bounds by auto
  then have "(2::nat) ^ (nbits n - 1) < 2 ^ k" using assms by (meson le_less_trans)
  then have "nbits n - 1 < k" by (rule power_less_imp_less_exp [rotated]) simp
  then show ?thesis by linarith
qed (simp add: nbits.simps)

text \<open>
  The multiplication by 308/1024 estimates \<open>log 10 2\<close>; these are the facts that make the
  estimate off by at most one for every number of bits up to 64.
\<close>

lemma digit_estimate:
  "list_all (\<lambda>b. let a = (b * 308) div 2 ^ 10 in
     a < 20 \<and> POW10_TABLE ! a = 10 ^ a \<and> (a = 0 \<or> 10 ^ (a - 1) \<le> (2::nat) ^ (b - 1)) \<and> (2::nat) ^ b \<le> 10 ^ Suc a) [1..<65]"
proof -
  have "[1..<65] = (1::nat) # [2..<65]" by (simp add: upt_conv_Cons)
  then show ?thesis by (simp add: POW10_TABLE_def)
qed

lemma get_digit_count_decimal: "get_digit_count v = length (decimal (unat v))"
proof (cases "v = 0")
  case True
  then show ?thesis by (simp add: get_digit_count_def decimal.simps)
next
  case False
  let ?n = "unat v"
  define a where "a = (nbits ?n * 308) div 2 ^ 10"
  have n: "0 < ?n" using False by (simp add: unat_gt_0)
  have "?n < 2 ^ 64" using unsigned_less [of v] by simp
  then have "nbits ?n \<in> set [1..<65]" using nbits_le [of ?n 64] nbits_bounds [OF n] by auto
  then have e: "a < 20" "POW10_TABLE ! a = 10 ^ a" "a = 0 \<or> 10 ^ (a - 1) \<le> (2::nat) ^ (nbits ?n - 1)"
      "(2::nat) ^ nbits ?n \<le> 10 ^ Suc a"
    using digit_estimate unfolding a_def list_all_iff by (auto simp only: Let_def)
  have upper: "?n < 10 ^ Suc a" using e(4) nbits_bounds [OF n] by linarith
  have gd: "get_digit_count v = a + (if 10 ^ a \<le> ?n then 1 else 0)"
    unfolding get_digit_count_def Let_def a_def [symmetric] e(2) using False e(1) by simp
  show ?thesis
  proof (cases "10 ^ a \<le> ?n")
    case True
    then show ?thesis using gd decimal_length_eq [OF True upper] by simp
  next
    case below: False
    then have "a \<noteq> 0" using n by (cases "a = 0") auto
    then obtain b where b: "a = Suc b" by (cases a) auto
    then have "10 ^ b \<le> (2::nat) ^ (nbits ?n - 1)" using e(3) by simp
    then have "10 ^ b \<le> ?n" using nbits_bounds [OF n] by linarith
    then show ?thesis using gd below decimal_length_eq [of b ?n] b by simp
  qed
qed

section \<open>\<open>ltoa\<close>\<close>

text \<open>
  \<open>ltoa\<close> writes from the right end, two digits at a time; \<open>pos\<close> is a \<open>uint8_t\<close>. The negation
  \<open>-(value + 1) + 1\<close> is computed in \<open>int64_t\<close>: for \<open>INT64_MIN\<close> it overflows, which is undefined.
\<close>

definition two_digits :: "nat \<Rightarrow> bytes" where
  "two_digits r = [digit_char (r div 10), digit_char (r mod 10)]"

function ltoa_loop :: "bytes \<Rightarrow> nat \<Rightarrow> nat \<Rightarrow> (bytes \<times> nat \<times> nat) res" where
  "ltoa_loop dst uval pos =
     (if uval \<ge> 100
      then bind_res (mem_put dst ((pos + 254) mod 256) (two_digits (uval mod 100))) (\<lambda>dst'.
           ltoa_loop dst' (uval div 100) ((pos + 254) mod 256))
      else Inr (dst, uval, pos))"
  by pat_completeness auto
termination
  by (relation "measure (\<lambda>(dst, uval, pos). uval)") auto

declare ltoa_loop.simps [simp del]

definition ltoa_last :: "bytes \<Rightarrow> nat \<Rightarrow> nat \<Rightarrow> bytes res" where
  "ltoa_last dst uval pos =
     (if pos \<noteq> 0
      then if uval \<ge> 10 then mem_put dst ((pos + 254) mod 256) (two_digits uval)
           else mem_put dst (pos - 1) [digit_char uval]
      else Inr dst)"

definition ltoa :: "64 word \<Rightarrow> bytes \<Rightarrow> (bytes \<times> nat) res" where
  "ltoa v dst =
     (let val = sint v; neg = val < 0 in
      if val = - (2 ^ 63) then Inl Undefined
      else let uval = (if neg then nat (- (val + 1) + 1) else nat val);
               total_len = get_digit_count (of_nat uval) + (if neg then 1 else 0) in
        bind_res (mem_put dst total_len [NUL]) (\<lambda>dst.
        bind_res (ltoa_loop dst uval total_len) (\<lambda>(dst, uval, pos).
        bind_res (ltoa_last dst uval pos) (\<lambda>dst.
        if neg then bind_res (mem_put dst 0 ''-'') (\<lambda>dst. Inr (dst, total_len))
        else Inr (dst, total_len)))))"

lemma decimal_100:
  assumes "100 \<le> n" shows "decimal n = decimal (n div 100) @ two_digits (n mod 100)"
proof -
  have 1: "decimal n = decimal (n div 10) @ [digit_char (n mod 10)]" using assms by (subst decimal.simps) simp
  have 2: "decimal (n div 10) = decimal (n div 10 div 10) @ [digit_char (n div 10 mod 10)]"
    using assms by (subst decimal.simps) simp
  have "n div 10 div 10 = n div 100" by (simp add: div_mult2_eq [symmetric])
  moreover have "n mod 100 div 10 = n div 10 mod 10"
    using mod_mult2_eq [of n 10 10] by simp
  moreover have "n mod 100 mod 10 = n mod 10" by (simp add: mod_mod_cancel)
  ultimately show ?thesis by (simp add: 1 2 two_digits_def)
qed

lemma decimal_small: "n < 100 \<Longrightarrow> decimal n = (if n \<ge> 10 then two_digits n else [digit_char n])"
  by (subst decimal.simps, subst decimal.simps) (auto simp: two_digits_def)

lemma mem_put_at: "length p = k \<Longrightarrow> mem_put (p @ xs @ q) k ys = Inr (p @ ys @ q)" if "length xs = length ys"
  using that by (simp add: mem_put_def)

lemma two_digits_length [simp]: "length (two_digits r) = 2"
  by (simp add: two_digits_def)

text \<open>The digits go into the last \<open>length (decimal uval)\<close> places before \<open>pos\<close>.\<close>

lemma ltoa_digits:
  assumes "length w = length (decimal uval)" "length p + length w < 256"
  shows "bind_res (ltoa_loop (p @ w @ q) uval (length p + length w)) (\<lambda>(dst, uval, pos). ltoa_last dst uval pos)
       = Inr (p @ decimal uval @ q)"
  using assms
proof (induction uval arbitrary: w q rule: less_induct)
  case (less n)
  show ?case
  proof (cases "100 \<le> n")
    case True
    let ?l = "length (decimal (n div 100))"
    have len: "length w = ?l + 2" using less.prems(1) decimal_100 [OF True] by simp
    define u where "u = take ?l w"
    define x where "x = drop ?l w"
    have w: "w = u @ x" "length u = ?l" "length x = 2" using len by (simp_all add: u_def x_def)
    have pos: "(length p + length w + 254) mod 256 = length p + ?l"
      using less.prems(2) len by (simp add: mod_if)
    have put: "mem_put (p @ w @ q) (length p + ?l) (two_digits (n mod 100)) =
        Inr (p @ u @ two_digits (n mod 100) @ q)"
      using mem_put_at [of x "two_digits (n mod 100)" "p @ u" "length p + ?l" q] w by simp
    have "ltoa_loop (p @ w @ q) n (length p + length w) =
        ltoa_loop (p @ u @ two_digits (n mod 100) @ q) (n div 100) (length p + length u)"
      using True by (subst ltoa_loop.simps) (simp add: pos put w(2))
    then show ?thesis
      using less.IH [of "n div 100" u "two_digits (n mod 100) @ q"] True less.prems(2) w len
      by (simp add: decimal_100)
  next
    case False
    have loop: "ltoa_loop (p @ w @ q) n (length p + length w) = Inr (p @ w @ q, n, length p + length w)"
      using False by (subst ltoa_loop.simps) simp
    have ne: "length w \<noteq> 0" using less.prems(1) by simp
    show ?thesis
    proof (cases "10 \<le> n")
      case True
      then have l: "length w = 2" using less.prems(1) False by (simp add: decimal_small)
      then have "(length p + length w + 254) mod 256 = length p" using less.prems(2) by (simp add: mod_if)
      then show ?thesis
        using True False l ne mem_put_at [of w "two_digits n" p "length p" q]
        unfolding loop by (simp add: ltoa_last_def decimal_small)
    next
      case small: False
      then have l: "length w = 1" using less.prems(1) by (simp add: decimal_small)
      then show ?thesis
        using small ne mem_put_at [of w "[digit_char n]" p "length p" q]
        unfolding loop by (simp add: ltoa_last_def decimal_small)
    qed
  qed
qed

text \<open>The text of a signed number.\<close>

definition int_text :: "int \<Rightarrow> bytes" where
  "int_text i = (if i < 0 then CHR ''-'' # decimal (nat (- i)) else decimal (nat i))"

lemma ltoa_text:
  assumes min: "sint v \<noteq> - (2 ^ 63)" and room: "length (int_text (sint v)) < length dst"
  shows "ltoa v dst = Inr (int_text (sint v) @ NUL # drop (Suc (length (int_text (sint v)))) dst,
                          length (int_text (sint v)))"
proof -
  define u where "u = nat \<bar>sint v\<bar>"
  define k where "k = (if sint v < 0 then 1 else 0::nat)"
  have range: "- (2 ^ 63) \<le> sint v" "sint v < 2 ^ 63" using sint_range_size [of v] by (auto simp: size_word_def)
  then have u64: "u < 2 ^ 63" using min by (auto simp: u_def)
  have dc: "get_digit_count (of_nat u) = length (decimal u)"
    using u64 by (simp add: get_digit_count_decimal unat_of_nat)
  have dl: "length (decimal u) \<le> 19"
  proof (cases "u = 0")
    case False
    then have "10 ^ (length (decimal u) - 1) \<le> u" using decimal_length by blast
    also have "\<dots> < 10 ^ 19" using u64 by simp
    finally have "length (decimal u) - 1 < 19" by (rule power_less_imp_less_exp [rotated]) simp
    then show ?thesis by simp
  qed (simp add: decimal.simps)
  have il: "length (int_text (sint v)) = k + length (decimal u)"
    by (auto simp: int_text_def k_def u_def abs_if)
  define w where "w = take (length (decimal u)) (drop k dst)"
  define q where "q = NUL # drop (Suc (k + length (decimal u))) dst"
  have wl: "length w = length (decimal u)" using room il by (simp add: w_def)
  have put: "mem_put dst (k + length (decimal u)) [NUL] = Inr (take k dst @ w @ q)"
    using room il by (simp add: mem_put_def w_def q_def take_add)
  have pl: "length (take k dst) = k" using room il by simp
  have digits: "bind_res (ltoa_loop (take k dst @ w @ q) u (k + length (decimal u))) (\<lambda>(dst, uval, pos). ltoa_last dst uval pos)
       = Inr (take k dst @ decimal u @ q)"
    using ltoa_digits [of w u "take k dst" q] wl pl dl by (simp add: k_def)
  have uv: "(if sint v < 0 then nat (- (sint v + 1) + 1) else nat (sint v)) = u"
    by (auto simp: u_def)
  have "ltoa v dst = bind_res (bind_res (ltoa_loop (take k dst @ w @ q) u (k + length (decimal u))) (\<lambda>(dst, uval, pos). ltoa_last dst uval pos))
      (\<lambda>dst. if sint v < 0 then bind_res (mem_put dst 0 ''-'') (\<lambda>dst. Inr (dst, k + length (decimal u)))
        else Inr (dst, k + length (decimal u)))"
    using min put unfolding ltoa_def Let_def uv dc
    by (simp add: k_def add.commute bind_res_assoc case_prod_unfold)
  also have "\<dots> = Inr (int_text (sint v) @ q, k + length (decimal u))"
  proof (cases "sint v < 0")
    case True
    then have "mem_put (take k dst @ decimal u @ q) 0 ''-'' = Inr (''-'' @ decimal u @ q)"
      using mem_put_at [of "take k dst" "''-''" "[]" 0 "decimal u @ q"] pl by (simp add: k_def)
    moreover have "int_text (sint v) = ''-'' @ decimal u"
      using True by (simp add: int_text_def u_def abs_if)
    ultimately show ?thesis using True unfolding digits by simp
  next
    case False
    then have "int_text (sint v) = decimal u" by (simp add: int_text_def u_def)
    with False show ?thesis unfolding digits by (simp add: k_def)
  qed
  finally show ?thesis by (simp add: il q_def)
qed

lemma ltoa_min: "sint v = - (2 ^ 63) \<Longrightarrow> ltoa v dst = Inl Undefined"
  by (simp add: ltoa_def)

end
