(* ===== verification/LinkedList.thy ===== *)
theory LinkedList
  imports Telly_Prelude
begin

text \<open>
  \<open>src/utils/linkedlist.c\<close>: a doubly linked list over an explicit store. \<open>ll_nodes\<close> holds the live
  nodes of the list by their address; a pointer is an optional address (\<open>None\<close> is NULL) and may
  dangle: following a pointer to a freed node is \<open>UseAfterFree\<close>. Nothing in the operations resets
  the outer pointers of the end nodes, which is why the invariant comes in two strengths:
  \<open>chain\<close> (what insertions and removals keep) and \<open>closed\<close> (what the traversals to NULL need).
\<close>

section \<open>Nodes and lists\<close>

record 'a node =
  nd_data :: 'a
  nd_prev :: "nat option"
  nd_next :: "nat option"

record 'a linkedlist =
  ll_nodes :: "nat \<rightharpoonup> 'a node"
  ll_begin :: "nat option"
  ll_end :: "nat option"
  ll_size :: nat

datatype direction = LL_BACK | LL_FRONT

definition node_at :: "'a linkedlist \<Rightarrow> nat option \<Rightarrow> 'a node res" where
  "node_at l p = (case p of None \<Rightarrow> Inl NullDeref
     | Some a \<Rightarrow> (case ll_nodes l a of None \<Rightarrow> Inl UseAfterFree | Some n \<Rightarrow> Inr n))"

definition ll_create_node :: "'a \<Rightarrow> 'a node" where
  "ll_create_node d = \<lparr>nd_data = d, nd_prev = None, nd_next = None\<rparr>"

definition ll_create :: "bool \<Rightarrow> 'a linkedlist option" where
  "ll_create ok = (if ok then Some \<lparr>ll_nodes = Map.empty, ll_begin = None, ll_end = None, ll_size = 0\<rparr> else None)"

definition set_next :: "'a linkedlist \<Rightarrow> nat option \<Rightarrow> nat option \<Rightarrow> 'a linkedlist res" where
  "set_next l p q = bind_res (node_at l p) (\<lambda>n. Inr (l\<lparr>ll_nodes := (ll_nodes l)(the p \<mapsto> n\<lparr>nd_next := q\<rparr>)\<rparr>))"

definition set_prev :: "'a linkedlist \<Rightarrow> nat option \<Rightarrow> nat option \<Rightarrow> 'a linkedlist res" where
  "set_prev l p q = bind_res (node_at l p) (\<lambda>n. Inr (l\<lparr>ll_nodes := (ll_nodes l)(the p \<mapsto> n\<lparr>nd_prev := q\<rparr>)\<rparr>))"

text \<open>
  \<open>fresh\<close>: the address \<open>malloc\<close> returns, or \<open>None\<close>. The result is the list and the new node.
\<close>

definition ll_insert_back :: "nat option \<Rightarrow> 'a linkedlist \<Rightarrow> 'a \<Rightarrow> ('a linkedlist \<times> nat option) res" where
  "ll_insert_back fresh l d =
     (case fresh of None \<Rightarrow> Inr (l, None)
      | Some a \<Rightarrow>
          let l = l\<lparr>ll_nodes := (ll_nodes l)(a \<mapsto> ll_create_node d)\<rparr> in
          if ll_size l = 0 then Inr (l\<lparr>ll_begin := Some a, ll_end := Some a, ll_size := 1\<rparr>, Some a)
          else let old_node = ll_end l in
            bind_res (set_next l (ll_end l) (Some a)) (\<lambda>l.
            bind_res (set_prev (l\<lparr>ll_end := Some a\<rparr>) (Some a) old_node) (\<lambda>l.
              Inr (l\<lparr>ll_size := ll_size l + 1\<rparr>, Some a))))"

definition ll_insert_front :: "nat option \<Rightarrow> 'a linkedlist \<Rightarrow> 'a \<Rightarrow> ('a linkedlist \<times> nat option) res" where
  "ll_insert_front fresh l d =
     (case fresh of None \<Rightarrow> Inr (l, None)
      | Some a \<Rightarrow>
          let l = l\<lparr>ll_nodes := (ll_nodes l)(a \<mapsto> ll_create_node d)\<rparr> in
          if ll_size l = 0 then Inr (l\<lparr>ll_begin := Some a, ll_end := Some a, ll_size := 1\<rparr>, Some a)
          else let old_node = ll_begin l in
            bind_res (set_prev l (ll_begin l) (Some a)) (\<lambda>l.
            bind_res (set_next (l\<lparr>ll_begin := Some a\<rparr>) (Some a) old_node) (\<lambda>l.
              Inr (l\<lparr>ll_size := ll_size l + 1\<rparr>, Some a))))"

text \<open>The removals hand the data of the node to \<open>free_data\<close>: it is part of the result.\<close>

definition ll_remove_front :: "'a linkedlist \<Rightarrow> ('a linkedlist \<times> 'a option) res" where
  "ll_remove_front l =
     (if ll_size l = 0 then Inr (l, None)
      else bind_res (node_at l (ll_begin l)) (\<lambda>front.
        let l' = l\<lparr>ll_begin := nd_next front, ll_nodes := (ll_nodes l)(the (ll_begin l) := None)\<rparr>;
            l' = (if ll_size l' = 1 then l'\<lparr>ll_end := None\<rparr> else l')
        in Inr (l'\<lparr>ll_size := ll_size l' - 1\<rparr>, Some (nd_data front))))"

definition ll_remove_back :: "'a linkedlist \<Rightarrow> ('a linkedlist \<times> 'a option) res" where
  "ll_remove_back l =
     (if ll_size l = 0 then Inr (l, None)
      else bind_res (node_at l (ll_end l)) (\<lambda>back.
        let l' = l\<lparr>ll_end := nd_prev back, ll_nodes := (ll_nodes l)(the (ll_end l) := None)\<rparr>;
            l' = (if ll_size l' = 1 then l'\<lparr>ll_begin := None\<rparr> else l')
        in Inr (l'\<lparr>ll_size := ll_size l' - 1\<rparr>, Some (nd_data back))))"

partial_function (option) search_loop ::
  "'a linkedlist \<Rightarrow> ('a \<Rightarrow> bool) \<Rightarrow> ('a node \<Rightarrow> nat option) \<Rightarrow> nat option \<Rightarrow> nat option res option" where
  "search_loop l cmp step p =
     (if p = None then Some (Inr None)
      else case node_at l p of
        Inl f \<Rightarrow> Some (Inl f)
      | Inr n \<Rightarrow> if cmp (nd_data n) then Some (Inr p) else search_loop l cmp step (step n))"

definition flat_loop :: "'a res option \<Rightarrow> 'a res" where
  "flat_loop r = bind_res (of_loop r) (\<lambda>x. x)"

text \<open>The search from the back follows \<open>next\<close>, the one from the front \<open>prev\<close>.\<close>

definition ll_search_node :: "'a linkedlist \<Rightarrow> direction \<Rightarrow> ('a \<Rightarrow> bool) \<Rightarrow> nat option res" where
  "ll_search_node l dir cmp = (case dir of
       LL_BACK \<Rightarrow> flat_loop (search_loop l cmp nd_next (ll_end l))
     | LL_FRONT \<Rightarrow> flat_loop (search_loop l cmp nd_prev (ll_begin l)))"

fun index_loop :: "'a linkedlist \<Rightarrow> ('a node \<Rightarrow> nat option) \<Rightarrow> nat option \<Rightarrow> nat \<Rightarrow> nat option res" where
  "index_loop l step p 0 = Inr p"
| "index_loop l step p (Suc index) =
     (if p = None then Inr None else bind_res (node_at l p) (\<lambda>n. index_loop l step (step n) index))"

definition ll_get_from_index :: "'a linkedlist \<Rightarrow> nat \<Rightarrow> direction \<Rightarrow> nat option res" where
  "ll_get_from_index l index dir = (case dir of
       LL_FRONT \<Rightarrow> index_loop l nd_next (ll_begin l) index
     | LL_BACK \<Rightarrow> index_loop l nd_prev (ll_end l) index)"

text \<open>\<open>ll_clear\<close> frees every node, from the first on; the freed data is collected.\<close>

partial_function (option) clear_loop :: "'a linkedlist \<Rightarrow> nat option \<Rightarrow> 'a list \<Rightarrow> ('a linkedlist \<times> 'a list) res option" where
  "clear_loop l p freed =
     (if p = None then Some (Inr (l, freed))
      else case node_at l p of
        Inl f \<Rightarrow> Some (Inl f)
      | Inr n \<Rightarrow> clear_loop (l\<lparr>ll_nodes := (ll_nodes l)(the p := None)\<rparr>) (nd_next n) (freed @ [nd_data n]))"

definition ll_clear :: "'a linkedlist \<Rightarrow> ('a linkedlist \<times> 'a list) res" where
  "ll_clear l = flat_loop (clear_loop l (ll_begin l) [])"

definition ll_free :: "'a linkedlist \<Rightarrow> 'a list res" where
  "ll_free l = bind_res (ll_clear l) (\<lambda>(l, freed). Inr freed)"

section \<open>Chains\<close>

text \<open>The pairs of neighbours of a list.\<close>

fun adj :: "'a list \<Rightarrow> ('a \<times> 'a) set" where
  "adj (p # q # ps) = insert (p, q) (adj (q # ps))"
| "adj _ = {}"

lemma adj_snoc: "ps \<noteq> [] \<Longrightarrow> adj (ps @ [a]) = insert (last ps, a) (adj ps)"
  by (induction ps rule: adj.induct) auto

lemma adj_cons: "ps \<noteq> [] \<Longrightarrow> adj (a # ps) = insert (a, hd ps) (adj ps)"
  by (cases ps) auto

lemma adjD: "\<lbrakk>(p, q) \<in> adj ps; distinct ps\<rbrakk> \<Longrightarrow> p \<in> set ps \<and> q \<in> set ps \<and> p \<noteq> last ps \<and> q \<noteq> hd ps"
  by (induction ps rule: adj.induct) (auto split: if_splits dest: last_in_set)

lemma adj_nth: "Suc i < length ps \<Longrightarrow> (ps ! i, ps ! Suc i) \<in> adj ps"
proof (induction ps arbitrary: i rule: adj.induct)
  case (1 p q ps)
  then show ?case by (cases i) auto
qed simp_all

text \<open>
  \<open>chain l ps\<close>: the nodes of the list are exactly \<open>ps\<close>, in this order, linked in both directions.
  The \<open>prev\<close> of the first and the \<open>next\<close> of the last node are not constrained.
\<close>

abbreviation nd :: "'a linkedlist \<Rightarrow> nat \<Rightarrow> 'a node" where
  "nd l p \<equiv> the (ll_nodes l p)"

definition linked :: "'a linkedlist \<Rightarrow> nat list \<Rightarrow> bool" where
  "linked l ps \<longleftrightarrow> (\<forall>p q. (p, q) \<in> adj ps \<longrightarrow> nd_next (nd l p) = Some q \<and> nd_prev (nd l q) = Some p)"

definition chain :: "'a linkedlist \<Rightarrow> nat list \<Rightarrow> bool" where
  "chain l ps \<longleftrightarrow> distinct ps \<and> dom (ll_nodes l) = set ps \<and> ll_size l = length ps \<and> linked l ps \<and>
     (ps \<noteq> [] \<longrightarrow> ll_begin l = Some (hd ps) \<and> ll_end l = Some (last ps))"

definition closed :: "'a linkedlist \<Rightarrow> bool" where
  "closed l \<longleftrightarrow> (if ll_size l = 0 then ll_begin l = None \<and> ll_end l = None
     else nd_prev (nd l (the (ll_begin l))) = None \<and> nd_next (nd l (the (ll_end l))) = None)"

text \<open>Half of \<open>closed\<close>: following \<open>next\<close> from the first node on ends at NULL.\<close>

definition ended :: "'a linkedlist \<Rightarrow> bool" where
  "ended l \<longleftrightarrow> (if ll_size l = 0 then ll_begin l = None else nd_next (nd l (the (ll_end l))) = None)"

lemma closed_ended: "closed l \<Longrightarrow> ended l"
  by (simp add: closed_def ended_def split: if_splits)

definition data_of :: "'a linkedlist \<Rightarrow> nat list \<Rightarrow> 'a list" where
  "data_of l ps = map (\<lambda>p. nd_data (nd l p)) ps"

text \<open>The list a structure stands for: \<open>size\<close> nodes from \<open>begin\<close> on.\<close>

fun walk :: "'a linkedlist \<Rightarrow> nat option \<Rightarrow> nat \<Rightarrow> nat list" where
  "walk l p 0 = []"
| "walk l p (Suc n) = (case p of None \<Rightarrow> []
     | Some a \<Rightarrow> (case ll_nodes l a of None \<Rightarrow> [] | Some x \<Rightarrow> a # walk l (nd_next x) n))"

definition ll_ptrs :: "'a linkedlist \<Rightarrow> nat list" where
  "ll_ptrs l = walk l (ll_begin l) (ll_size l)"

definition ll_list :: "'a linkedlist \<Rightarrow> 'a list" where
  "ll_list l = data_of l (ll_ptrs l)"

definition wf_list :: "'a linkedlist \<Rightarrow> bool" where
  "wf_list l \<longleftrightarrow> chain l (ll_ptrs l)"

lemma chain_live: "\<lbrakk>chain l ps; p \<in> set ps\<rbrakk> \<Longrightarrow> \<exists>n. ll_nodes l p = Some n"
  unfolding chain_def by blast

lemma chain_next: "\<lbrakk>chain l ps; Suc i < length ps\<rbrakk> \<Longrightarrow> nd_next (nd l (ps ! i)) = Some (ps ! Suc i)"
  using adj_nth [of i ps] by (simp add: chain_def linked_def)

lemma chain_prev: "\<lbrakk>chain l ps; Suc i < length ps\<rbrakk> \<Longrightarrow> nd_prev (nd l (ps ! Suc i)) = Some (ps ! i)"
  using adj_nth [of i ps] by (simp add: chain_def linked_def)

lemma chain_node_at: "\<lbrakk>chain l ps; p \<in> set ps\<rbrakk> \<Longrightarrow> node_at l (Some p) = Inr (nd l p)"
  using chain_live [of l ps p] by (auto simp: node_at_def)

lemma walk_chain:
  assumes "chain l ps"
  shows "i + n \<le> length ps \<Longrightarrow> (i < length ps \<Longrightarrow> q = Some (ps ! i)) \<Longrightarrow> walk l q n = take n (drop i ps)"
proof (induction n arbitrary: i q)
  case (Suc n)
  then have i: "i < length ps" "q = Some (ps ! i)" by simp_all
  obtain x where x: "ll_nodes l (ps ! i) = Some x" using chain_live [OF assms, of "ps ! i"] i by auto
  have "Suc i < length ps \<Longrightarrow> nd_next x = Some (ps ! Suc i)" using chain_next [OF assms, of i] x by simp
  then have "walk l (nd_next x) n = take n (drop (Suc i) ps)" using Suc.IH [of "Suc i" "nd_next x"] Suc.prems(1) by simp
  then show ?case using i x by (simp add: Cons_nth_drop_Suc [symmetric])
qed simp

lemma chain_ptrs:
  assumes "chain l ps" shows "ll_ptrs l = ps"
proof -
  have "0 < length ps \<Longrightarrow> ll_begin l = Some (ps ! 0)" using assms by (cases ps) (simp_all add: chain_def)
  then have "walk l (ll_begin l) (length ps) = take (length ps) (drop 0 ps)" by (intro walk_chain [OF assms]) simp_all
  then show ?thesis using assms by (simp add: ll_ptrs_def chain_def)
qed

lemma wf_listI: "chain l ps \<Longrightarrow> wf_list l \<and> ll_list l = data_of l ps \<and> ll_ptrs l = ps"
  by (simp add: wf_list_def ll_list_def chain_ptrs)

lemma wf_list_size: "wf_list l \<Longrightarrow> ll_size l = length (ll_list l)"
  by (simp add: wf_list_def ll_list_def data_of_def chain_def)

lemma wf_create: "\<exists>l. ll_create True = Some l \<and> wf_list l \<and> closed l \<and> ll_list l = []"
  by (simp add: ll_create_def wf_list_def ll_list_def ll_ptrs_def chain_def closed_def data_of_def linked_def)

section \<open>Insertions\<close>

lemma insert_back_chain:
  assumes c: "chain l ps" and a: "a \<notin> dom (ll_nodes l)"
  shows "\<exists>l'. ll_insert_back (Some a) l d = Inr (l', Some a) \<and> chain l' (ps @ [a]) \<and>
    data_of l' (ps @ [a]) = data_of l ps @ [d] \<and> (closed l \<longrightarrow> closed l') \<and> ended l' \<and>
    dom (ll_nodes l') = insert a (dom (ll_nodes l))"
proof (cases "ps = []")
  case True
  then show ?thesis using c a
    by (simp add: ended_def ll_insert_back_def chain_def ll_create_node_def data_of_def closed_def linked_def)
next
  case False
  let ?e = "last ps"
  have e: "ll_end l = Some ?e" "a \<notin> set ps" "?e \<in> set ps" "ll_size l = length ps" "length ps \<noteq> 0"
    using c a False by (auto simp: chain_def)
  have ae: "a \<noteq> ?e" "?e \<noteq> a" using e by metis+
  obtain n where n: "ll_nodes l ?e = Some n" using chain_live [OF c e(3)] by blast
  let ?l = "l\<lparr>ll_nodes := (ll_nodes l)(a \<mapsto> \<lparr>nd_data = d, nd_prev = Some ?e, nd_next = None\<rparr>, ?e \<mapsto> n\<lparr>nd_next := Some a\<rparr>),
              ll_end := Some a, ll_size := length ps + 1\<rparr>"
  have "ll_insert_back (Some a) l d = Inr (?l, Some a)"
    using e ae n by (simp add: ll_insert_back_def Let_def set_next_def set_prev_def node_at_def
        ll_create_node_def fun_upd_twist)
  moreover have "linked ?l (ps @ [a])"
    unfolding linked_def adj_snoc [OF False]
  proof (intro allI impI)
    fix p q assume "(p, q) \<in> insert (?e, a) (adj ps)"
    then consider "p = ?e" "q = a" | "(p, q) \<in> adj ps" by blast
    then show "nd_next (nd ?l p) = Some q \<and> nd_prev (nd ?l q) = Some p"
    proof cases
      case 2
      then have pq: "p \<in> set ps" "q \<in> set ps" "p \<noteq> ?e" using adjD c unfolding chain_def by metis+
      have "p \<noteq> a" "q \<noteq> a" using pq e(2) by metis+
      moreover have "nd_next (nd l p) = Some q" "nd_prev (nd l q) = Some p"
        using c 2 by (simp_all add: chain_def linked_def)
      ultimately show ?thesis using pq(3) n by (cases "q = ?e") auto
    qed (use ae in simp)
  qed
  then have "chain ?l (ps @ [a])" using c e False n by (auto simp: chain_def)
  moreover have "data_of ?l (ps @ [a]) = data_of l ps @ [d]" using e n ae by (auto simp: data_of_def)
  moreover have "closed ?l" if "closed l"
  proof -
    have b: "ll_begin l = Some (hd ps)" "hd ps \<noteq> a" using c False e(2) by (auto simp: chain_def)
    then have "nd_prev (nd l (hd ps)) = None" using that e(4,5) by (simp add: closed_def)
    then show ?thesis using b n ae by (auto simp: closed_def)
  qed
  moreover have "ended ?l" "dom (ll_nodes ?l) = insert a (dom (ll_nodes l))" using n ae by (auto simp: ended_def)
  ultimately show ?thesis by blast
qed

lemma insert_front_chain:
  assumes c: "chain l ps" and a: "a \<notin> dom (ll_nodes l)"
  shows "\<exists>l'. ll_insert_front (Some a) l d = Inr (l', Some a) \<and> chain l' (a # ps) \<and>
    data_of l' (a # ps) = d # data_of l ps \<and> (closed l \<longrightarrow> closed l') \<and> (ended l \<longrightarrow> ended l') \<and>
    dom (ll_nodes l') = insert a (dom (ll_nodes l))"
proof (cases "ps = []")
  case True
  then show ?thesis using c a
    by (simp add: ended_def ll_insert_front_def chain_def ll_create_node_def data_of_def closed_def linked_def)
next
  case False
  let ?b = "hd ps"
  have b: "ll_begin l = Some ?b" "a \<notin> set ps" "?b \<in> set ps" "ll_size l = length ps" "length ps \<noteq> 0"
    using c a False by (auto simp: chain_def)
  have ab: "a \<noteq> ?b" "?b \<noteq> a" using b by metis+
  obtain n where n: "ll_nodes l ?b = Some n" using chain_live [OF c b(3)] by blast
  let ?l = "l\<lparr>ll_nodes := (ll_nodes l)(a \<mapsto> \<lparr>nd_data = d, nd_prev = None, nd_next = Some ?b\<rparr>, ?b \<mapsto> n\<lparr>nd_prev := Some a\<rparr>),
              ll_begin := Some a, ll_size := length ps + 1\<rparr>"
  have "ll_insert_front (Some a) l d = Inr (?l, Some a)"
    using b ab n by (simp add: ll_insert_front_def Let_def set_next_def set_prev_def node_at_def
        ll_create_node_def fun_upd_twist)
  moreover have "linked ?l (a # ps)"
    unfolding linked_def adj_cons [OF False]
  proof (intro allI impI)
    fix p q assume "(p, q) \<in> insert (a, ?b) (adj ps)"
    then consider "p = a" "q = ?b" | "(p, q) \<in> adj ps" by blast
    then show "nd_next (nd ?l p) = Some q \<and> nd_prev (nd ?l q) = Some p"
    proof cases
      case 2
      then have pq: "p \<in> set ps" "q \<in> set ps" "q \<noteq> ?b" using adjD c unfolding chain_def by metis+
      have "p \<noteq> a" "q \<noteq> a" using pq b(2) by metis+
      moreover have "nd_next (nd l p) = Some q" "nd_prev (nd l q) = Some p"
        using c 2 by (simp_all add: chain_def linked_def)
      ultimately show ?thesis using pq(3) n by (cases "p = ?b") auto
    qed (use ab in simp)
  qed
  then have "chain ?l (a # ps)" using c b False n by (auto simp: chain_def)
  moreover have "data_of ?l (a # ps) = d # data_of l ps" using b n ab by (auto simp: data_of_def)
  moreover have "closed ?l" if "closed l"
  proof -
    have e: "ll_end l = Some (last ps)" "last ps \<noteq> a" using c False b(2) by (auto simp: chain_def)
    then have "nd_next (nd l (last ps)) = None" using that b(4,5) by (simp add: closed_def)
    then show ?thesis using e n ab by (auto simp: closed_def)
  qed
  moreover have "ended ?l" if "ended l"
  proof -
    have e: "ll_end l = Some (last ps)" "last ps \<noteq> a" using c False b(2) by (auto simp: chain_def)
    then have "nd_next (nd l (last ps)) = None" using that b(4,5) by (simp add: ended_def)
    then show ?thesis using e n ab by (auto simp: ended_def)
  qed
  moreover have "dom (ll_nodes ?l) = insert a (dom (ll_nodes l))" using n by auto
  ultimately show ?thesis by blast
qed

section \<open>Removals\<close>

lemma adj_butlast: "adj (butlast ps) \<subseteq> adj ps"
proof (induction ps rule: adj.induct)
  case (1 p q ps)
  then show ?case by (cases ps) auto
qed simp_all

lemma adj_tl: "adj (tl ps) \<subseteq> adj ps"
  by (cases ps rule: adj.cases) auto

lemma linked_remove:
  assumes "linked l ps" "adj qs \<subseteq> adj ps" "a \<notin> set qs" "distinct qs"
    and "ll_nodes l' = (ll_nodes l)(a := None)"
  shows "linked l' qs"
  unfolding linked_def
proof (intro allI impI)
  fix p q assume pq: "(p, q) \<in> adj qs"
  then have "p \<in> set qs" "q \<in> set qs" using adjD assms(4) by metis+
  then have "p \<noteq> a" "q \<noteq> a" using assms(3) by metis+
  then show "nd_next (nd l' p) = Some q \<and> nd_prev (nd l' q) = Some p"
    using pq assms(1,2,5) unfolding linked_def by auto
qed

lemma remove_back_chain:
  assumes c: "chain l (ps @ [a])"
  shows "\<exists>l'. ll_remove_back l = Inr (l', Some (nd_data (nd l a))) \<and> chain l' ps \<and> data_of l' ps = data_of l ps \<and>
    (ps \<noteq> [] \<longrightarrow> nd_next (nd l' (last ps)) = Some a) \<and> ll_nodes l' = (ll_nodes l)(a := None)"
proof -
  have d: "distinct ps" "a \<notin> set ps" "ll_end l = Some a" "ll_size l = Suc (length ps)"
      "dom (ll_nodes l) = insert a (set ps)" "linked l (ps @ [a])" "ll_begin l = Some (hd (ps @ [a]))"
    using c by (simp_all add: chain_def)
  let ?l = "l\<lparr>ll_end := nd_prev (nd l a), ll_nodes := (ll_nodes l)(a := None), ll_size := length ps,
              ll_begin := if ps = [] then None else ll_begin l\<rparr>"
  have "node_at l (Some a) = Inr (nd l a)" by (rule chain_node_at [OF c]) simp
  then have r: "ll_remove_back l = Inr (?l, Some (nd_data (nd l a)))"
    using d by (simp add: ll_remove_back_def Let_def)
  have adj_sub: "adj ps \<subseteq> adj (ps @ [a])" using adj_butlast [of "ps @ [a]"] by simp
  have "linked ?l ps" by (rule linked_remove [OF d(6) adj_sub d(2,1)]) simp
  moreover have ends: "nd_prev (nd l a) = Some (last ps)" "nd_next (nd l (last ps)) = Some a" if "ps \<noteq> []"
    using d(6) that by (simp_all add: linked_def adj_snoc)
  ultimately have "chain ?l ps" using d by (auto simp: chain_def)
  moreover have "data_of ?l ps = data_of l ps" using d(2) by (auto simp: data_of_def)
  moreover have "ps \<noteq> [] \<longrightarrow> nd_next (nd ?l (last ps)) = Some a" using ends(2) d(2) by auto
  ultimately show ?thesis using r by auto
qed

lemma remove_front_chain:
  assumes c: "chain l (a # ps)"
  shows "\<exists>l'. ll_remove_front l = Inr (l', Some (nd_data (nd l a))) \<and> chain l' ps \<and> data_of l' ps = data_of l ps \<and>
    (ps \<noteq> [] \<longrightarrow> nd_prev (nd l' (hd ps)) = Some a) \<and> ll_nodes l' = (ll_nodes l)(a := None) \<and> (ended l \<longrightarrow> ended l')"
proof -
  have d: "distinct ps" "a \<notin> set ps" "ll_begin l = Some a" "ll_size l = Suc (length ps)"
      "dom (ll_nodes l) = insert a (set ps)" "linked l (a # ps)" "ll_end l = Some (last (a # ps))"
    using c by (simp_all add: chain_def)
  let ?l = "l\<lparr>ll_begin := nd_next (nd l a), ll_nodes := (ll_nodes l)(a := None), ll_size := length ps,
              ll_end := if ps = [] then None else ll_end l\<rparr>"
  have "node_at l (Some a) = Inr (nd l a)" by (rule chain_node_at [OF c]) simp
  then have r: "ll_remove_front l = Inr (?l, Some (nd_data (nd l a)))"
    using d by (simp add: ll_remove_front_def Let_def)
  have adj_sub: "adj ps \<subseteq> adj (a # ps)" using adj_tl [of "a # ps"] by simp
  have "linked ?l ps" by (rule linked_remove [OF d(6) adj_sub d(2,1)]) simp
  moreover have ends: "nd_next (nd l a) = Some (hd ps)" "nd_prev (nd l (hd ps)) = Some a" if "ps \<noteq> []"
    using d(6) that by (simp_all add: linked_def adj_cons)
  ultimately have "chain ?l ps" using d by (auto simp: chain_def)
  moreover have "data_of ?l ps = data_of l ps" using d(2) by (auto simp: data_of_def)
  moreover have "ps \<noteq> [] \<longrightarrow> nd_prev (nd ?l (hd ps)) = Some a" using ends(2) d(2) by auto
  moreover have "ended ?l" if "ended l"
  proof -
    have "last ps \<noteq> a" if "ps \<noteq> []" using that d(2) last_in_set by metis
    then show ?thesis using that d by (auto simp: ended_def)
  qed
  ultimately show ?thesis using r by auto
qed

section \<open>Lookups\<close>

lemma index_front_chain:
  assumes c: "chain l ps"
  shows "i + n < length ps \<Longrightarrow> index_loop l nd_next (Some (ps ! i)) n = Inr (Some (ps ! (i + n)))"
proof (induction n arbitrary: i)
  case (Suc n)
  then have "node_at l (Some (ps ! i)) = Inr (nd l (ps ! i))" "nd_next (nd l (ps ! i)) = Some (ps ! Suc i)"
    using chain_node_at [OF c, of "ps ! i"] chain_next [OF c, of i] by simp_all
  then show ?case using Suc.IH [of "Suc i"] Suc.prems by simp
qed simp

lemma index_back_chain:
  assumes c: "chain l ps"
  shows "i < length ps \<Longrightarrow> n \<le> i \<Longrightarrow> index_loop l nd_prev (Some (ps ! i)) n = Inr (Some (ps ! (i - n)))"
proof (induction n arbitrary: i)
  case (Suc n)
  then obtain j where j: "i = Suc j" by (cases i) auto
  then have "node_at l (Some (ps ! i)) = Inr (nd l (ps ! i))" "nd_prev (nd l (ps ! i)) = Some (ps ! j)"
    using chain_node_at [OF c, of "ps ! i"] chain_prev [OF c, of j] Suc.prems(1) by simp_all
  then show ?case using Suc.IH [of j] Suc.prems j by simp
qed simp

lemma chain_ends:
  assumes "chain l ps" "ps \<noteq> []"
  shows "ll_begin l = Some (ps ! 0)" and "ll_end l = Some (ps ! (length ps - 1))"
  using assms by (simp_all add: chain_def hd_conv_nth last_conv_nth)

lemma index_in_range:
  assumes c: "chain l ps" and n: "n < length ps"
  shows "ll_get_from_index l n LL_FRONT = Inr (Some (ps ! n))"
    and "ll_get_from_index l n LL_BACK = Inr (Some (ps ! (length ps - 1 - n)))"
proof -
  have "ps \<noteq> []" using n by auto
  then show "ll_get_from_index l n LL_FRONT = Inr (Some (ps ! n))"
    using index_front_chain [OF c, of 0 n] chain_ends [OF c] n by (simp add: ll_get_from_index_def)
  show "ll_get_from_index l n LL_BACK = Inr (Some (ps ! (length ps - 1 - n)))"
    using index_back_chain [OF c, of "length ps - 1" n] chain_ends [OF c] n \<open>ps \<noteq> []\<close>
    by (simp add: ll_get_from_index_def)
qed

lemma index_loop_None [simp]: "index_loop l step None n = Inr None"
  by (cases n) simp_all

lemma index_loop_add: "index_loop l step p (m + n) = bind_res (index_loop l step p m) (\<lambda>q. index_loop l step q n)"
  by (induction m arbitrary: p) (simp_all add: bind_res_assoc)

text \<open>Past the ends: NULL on a closed list, a freed node when the end node points to one.\<close>

lemma index_past_end:
  assumes c: "chain l ps" and ne: "ps \<noteq> []" and n: "length ps \<le> n"
  shows "ll_get_from_index l n LL_FRONT = index_loop l nd_next (nd_next (nd l (last ps))) (n - length ps)"
    and "ll_get_from_index l n LL_BACK = index_loop l nd_prev (nd_prev (nd l (hd ps))) (n - length ps)"
proof -
  have n': "n = (length ps - 1) + Suc (n - length ps)" using n ne by (cases ps) auto
  have split: "index_loop l step p n =
      bind_res (index_loop l step p (length ps - 1)) (\<lambda>q. index_loop l step q (Suc (n - length ps)))" for step p
    using index_loop_add [of l step p "length ps - 1" "Suc (n - length ps)"] by (simp only: n' [symmetric])
  have at: "node_at l (Some (last ps)) = Inr (nd l (last ps))" "node_at l (Some (hd ps)) = Inr (nd l (hd ps))"
    using chain_node_at [OF c] ne by simp_all
  have to: "index_loop l nd_next (ll_begin l) (length ps - 1) = Inr (Some (last ps))"
      "index_loop l nd_prev (ll_end l) (length ps - 1) = Inr (Some (hd ps))"
    using index_in_range [OF c, of "length ps - 1"] ne
    by (simp_all add: ll_get_from_index_def last_conv_nth hd_conv_nth)
  show "ll_get_from_index l n LL_FRONT = index_loop l nd_next (nd_next (nd l (last ps))) (n - length ps)"
    by (simp add: ll_get_from_index_def split to [unfolded One_nat_def] at)
  show "ll_get_from_index l n LL_BACK = index_loop l nd_prev (nd_prev (nd l (hd ps))) (n - length ps)"
    by (simp add: ll_get_from_index_def split to [unfolded One_nat_def] at)
qed

lemma index_past_end_closed:
  assumes c: "chain l ps" and cl: "closed l" and n: "length ps \<le> n"
  shows "ll_get_from_index l n dir = Inr None"
proof (cases "ps = []")
  case True
  then show ?thesis using c cl by (cases dir) (simp_all add: ll_get_from_index_def closed_def chain_def)
next
  case False
  then have "nd_next (nd l (last ps)) = None" "nd_prev (nd l (hd ps)) = None"
    using c cl by (simp_all add: closed_def chain_def)
  then show ?thesis using index_past_end [OF c False n] by (cases dir) simp_all
qed

lemma index_past_end_ended:
  assumes c: "chain l ps" and cl: "ended l" and n: "length ps \<le> n"
  shows "ll_get_from_index l n LL_FRONT = Inr None"
proof (cases "ps = []")
  case True
  then show ?thesis using c cl by (simp add: ll_get_from_index_def ended_def chain_def)
next
  case False
  then have "nd_next (nd l (last ps)) = None" using c cl by (simp add: ended_def chain_def)
  then show ?thesis using index_past_end(1) [OF c False n] by simp
qed

lemma index_past_removed_back:
  assumes c: "chain l (ps @ [a])" and ne: "ps \<noteq> []" and r: "ll_remove_back l = Inr (l', x)"
  shows "ll_get_from_index l' (length ps + 1 + n) LL_FRONT = Inl UseAfterFree"
proof -
  have p: "chain l' ps" "nd_next (nd l' (last ps)) = Some a" "ll_nodes l' a = None"
    using remove_back_chain [OF c] r ne by auto
  then show ?thesis using index_past_end(1) [OF p(1) ne, of "length ps + 1 + n"] by (simp add: node_at_def)
qed

lemma index_past_removed_front:
  assumes c: "chain l (a # ps)" and ne: "ps \<noteq> []" and r: "ll_remove_front l = Inr (l', x)"
  shows "ll_get_from_index l' (length ps + 1 + n) LL_BACK = Inl UseAfterFree"
proof -
  have p: "chain l' ps" "nd_prev (nd l' (hd ps)) = Some a" "ll_nodes l' a = None"
    using remove_front_chain [OF c] r ne by auto
  then show ?thesis using index_past_end(2) [OF p(1) ne, of "length ps + 1 + n"] by (simp add: node_at_def)
qed

lemma search_loop_None [simp]: "search_loop l cmp step None = Some (Inr None)"
  by (subst search_loop.simps) simp

lemma search_loop_Some:
  "node_at l (Some a) = Inr n \<Longrightarrow>
   search_loop l cmp step (Some a) = (if cmp (nd_data n) then Some (Inr (Some a)) else search_loop l cmp step (step n))"
  by (subst search_loop.simps) simp

text \<open>The two searches look at one node only, the one they start from.\<close>

lemma search_closed:
  assumes c: "chain l ps" and cl: "closed l" and ne: "ps \<noteq> []"
  shows "ll_search_node l LL_BACK cmp = Inr (if cmp (nd_data (nd l (last ps))) then Some (last ps) else None)"
    and "ll_search_node l LL_FRONT cmp = Inr (if cmp (nd_data (nd l (hd ps))) then Some (hd ps) else None)"
proof -
  have e: "nd_next (nd l (last ps)) = None" "nd_prev (nd l (hd ps)) = None" "ll_end l = Some (last ps)" "ll_begin l = Some (hd ps)"
    using c cl ne by (simp_all add: closed_def chain_def)
  have "node_at l (Some (last ps)) = Inr (nd l (last ps))" "node_at l (Some (hd ps)) = Inr (nd l (hd ps))"
    using chain_node_at [OF c] ne by simp_all
  then show "ll_search_node l LL_BACK cmp = Inr (if cmp (nd_data (nd l (last ps))) then Some (last ps) else None)"
    and "ll_search_node l LL_FRONT cmp = Inr (if cmp (nd_data (nd l (hd ps))) then Some (hd ps) else None)"
    using e by (simp_all add: ll_search_node_def flat_loop_def search_loop_Some)
qed

section \<open>Freeing a list\<close>

lemma clear_loop_None [simp]: "clear_loop l None freed = Some (Inr (l, freed))"
  by (subst clear_loop.simps) simp

lemma clear_loop_Some:
  "ll_nodes l a = Some n \<Longrightarrow>
   clear_loop l (Some a) freed = clear_loop (l\<lparr>ll_nodes := (ll_nodes l)(a := None)\<rparr>) (nd_next n) (freed @ [nd_data n])"
  by (subst clear_loop.simps) (simp add: node_at_def)

lemma clear_loop_dangling: "ll_nodes l a = None \<Longrightarrow> clear_loop l (Some a) freed = Some (Inl UseAfterFree)"
  by (subst clear_loop.simps) (simp add: node_at_def)

lemma clear_loop_chain:
  "\<lbrakk>distinct ps; set ps \<subseteq> dom (ll_nodes l); \<forall>p q. (p, q) \<in> adj ps \<longrightarrow> nd_next (nd l p) = Some q; ps \<noteq> []\<rbrakk> \<Longrightarrow>
   clear_loop l (Some (hd ps)) freed =
   clear_loop (l\<lparr>ll_nodes := ll_nodes l |` (- set ps)\<rparr>) (nd_next (nd l (last ps))) (freed @ data_of l ps)"
proof (induction ps arbitrary: l freed)
  case (Cons a ps)
  obtain n where n: "ll_nodes l a = Some n" using Cons.prems(2) by auto
  let ?l = "l\<lparr>ll_nodes := (ll_nodes l)(a := None)\<rparr>"
  have step: "clear_loop l (Some a) freed = clear_loop ?l (nd_next n) (freed @ [nd_data n])"
    by (rule clear_loop_Some [OF n])
  show ?case
  proof (cases "ps = []")
    case True
    have "ll_nodes l |` (- {a}) = (ll_nodes l)(a := None)" by (auto simp: restrict_map_def)
    then show ?thesis using step True n by (simp add: data_of_def del: restrict_map_insert) (simp add: fun_upd_def)
  next
    case False
    have nx: "nd_next n = Some (hd ps)" using Cons.prems(3) n False by (simp add: adj_cons)
    have same: "nd ?l p = nd l p" if "p \<in> set ps" for p using that Cons.prems(1) by auto
    have "\<forall>p q. (p, q) \<in> adj ps \<longrightarrow> nd_next (nd ?l p) = Some q"
    proof (intro allI impI)
      fix p q assume pq: "(p, q) \<in> adj ps"
      then have "p \<in> set ps" using adjD Cons.prems(1) by fastforce
      then show "nd_next (nd ?l p) = Some q" using same Cons.prems(3) pq False by (auto simp: adj_cons)
    qed
    moreover have "set ps \<subseteq> dom (ll_nodes ?l)" "distinct ps" using Cons.prems(1,2) by auto
    ultimately have "clear_loop ?l (Some (hd ps)) (freed @ [nd_data n]) =
        clear_loop (?l\<lparr>ll_nodes := ll_nodes ?l |` (- set ps)\<rparr>) (nd_next (nd ?l (last ps))) ((freed @ [nd_data n]) @ data_of ?l ps)"
      using Cons.IH [of ?l] False by blast
    moreover have "ll_nodes ?l |` (- set ps) = ll_nodes l |` (- set (a # ps))" by (auto simp: restrict_map_def)
    moreover have "data_of ?l ps = data_of l ps" unfolding data_of_def using same by (auto intro!: map_cong)
    moreover have "nd ?l (last ps) = nd l (last ps)" using same False by simp
    moreover have "data_of l (a # ps) = nd_data n # data_of l ps" using n by (simp add: data_of_def)
    moreover have "last (a # ps) = last ps" "hd (a # ps) = a" using False by simp_all
    ultimately show ?thesis using step nx by simp
  qed
qed simp

lemma clear_of_chain:
  assumes c: "chain l ps" and ne: "ps \<noteq> []"
  shows "ll_clear l = flat_loop (clear_loop (l\<lparr>ll_nodes := Map.empty\<rparr>) (nd_next (nd l (last ps))) (data_of l ps))"
proof -
  have "ll_nodes l x = None" if "x \<notin> set ps" for x using c that unfolding chain_def by blast
  then have "ll_nodes l |` (- set ps) = Map.empty" by (auto simp: restrict_map_def)
  then show ?thesis using clear_loop_chain [of ps l "[]"] c ne by (simp add: ll_clear_def chain_def linked_def)
qed

lemma clear_ended:
  assumes c: "chain l ps" and cl: "ended l"
  shows "\<exists>l'. ll_clear l = Inr (l', data_of l ps) \<and> ll_nodes l' = Map.empty"
proof (cases "ps = []")
  case True
  then show ?thesis using c cl by (simp add: ll_clear_def ended_def chain_def flat_loop_def data_of_def)
next
  case False
  then have "nd_next (nd l (last ps)) = None" using c cl by (simp add: ended_def chain_def)
  then show ?thesis using clear_of_chain [OF c False] by (simp add: flat_loop_def)
qed

text \<open>A list that lost its last node to \<open>ll_remove_back\<close> and still has others cannot be freed.\<close>

lemma clear_after_remove_back:
  assumes c: "chain l (ps @ [a])" and ne: "ps \<noteq> []" and r: "ll_remove_back l = Inr (l', x)"
  shows "ll_clear l' = Inl UseAfterFree"
proof -
  have p: "chain l' ps" "nd_next (nd l' (last ps)) = Some a" using remove_back_chain [OF c] r ne by auto
  then show ?thesis using clear_of_chain [OF p(1) ne] by (simp add: clear_loop_dangling flat_loop_def)
qed

section \<open>The contract of a double-ended list\<close>

text \<open>
  The contract the list commands rely on. \<open>fresh l p\<close>: the address \<open>p\<close> that \<open>malloc\<close> returns is not
  one of a live node, or it is NULL.
\<close>

locale deque =
  fixes inv :: "'l \<Rightarrow> bool"
    and vals :: "'l \<Rightarrow> 'a list"
    and fresh :: "'l \<Rightarrow> 'p option \<Rightarrow> bool"
    and push_back :: "'p option \<Rightarrow> 'l \<Rightarrow> 'a \<Rightarrow> ('l \<times> 'p option) res"
    and push_front :: "'p option \<Rightarrow> 'l \<Rightarrow> 'a \<Rightarrow> ('l \<times> 'p option) res"
    and pop_back :: "'l \<Rightarrow> ('l \<times> 'a option) res"
    and pop_front :: "'l \<Rightarrow> ('l \<times> 'a option) res"
    and nth_front :: "'l \<Rightarrow> nat \<Rightarrow> 'a option res"
  assumes push_back_law: "\<lbrakk>inv l; fresh l p\<rbrakk> \<Longrightarrow> \<exists>l'. push_back p l x = Inr (l', p) \<and> inv l' \<and>
      vals l' = (if p = None then vals l else vals l @ [x])"
    and push_front_law: "\<lbrakk>inv l; fresh l p\<rbrakk> \<Longrightarrow> \<exists>l'. push_front p l x = Inr (l', p) \<and> inv l' \<and>
      vals l' = (if p = None then vals l else x # vals l)"
    and pop_back_law: "\<lbrakk>inv l; vals l = xs @ [x]\<rbrakk> \<Longrightarrow> \<exists>l'. pop_back l = Inr (l', Some x) \<and> inv l' \<and> vals l' = xs"
    and pop_front_law: "\<lbrakk>inv l; vals l = x # xs\<rbrakk> \<Longrightarrow> \<exists>l'. pop_front l = Inr (l', Some x) \<and> inv l' \<and> vals l' = xs"
    and nth_law: "\<lbrakk>inv l; i < length (vals l)\<rbrakk> \<Longrightarrow> nth_front l i = Inr (Some (vals l ! i))"
begin

text \<open>A stack at either end, a queue from one end to the other.\<close>

lemma push_pop_back:
  assumes "inv l" "fresh l (Some p)"
  shows "\<exists>l1 l2. push_back (Some p) l x = Inr (l1, Some p) \<and> pop_back l1 = Inr (l2, Some x) \<and> inv l2 \<and> vals l2 = vals l"
proof -
  obtain l1 where l1: "push_back (Some p) l x = Inr (l1, Some p)" "inv l1" "vals l1 = vals l @ [x]"
    using push_back_law [OF assms, of x] by auto
  then show ?thesis using pop_back_law [OF l1(2,3)] by blast
qed

lemma push_pop_front:
  assumes "inv l" "fresh l (Some p)"
  shows "\<exists>l1 l2. push_front (Some p) l x = Inr (l1, Some p) \<and> pop_front l1 = Inr (l2, Some x) \<and> inv l2 \<and> vals l2 = vals l"
proof -
  obtain l1 where l1: "push_front (Some p) l x = Inr (l1, Some p)" "inv l1" "vals l1 = x # vals l"
    using push_front_law [OF assms, of x] by auto
  then show ?thesis using pop_front_law [OF l1(2,3)] by blast
qed

end

definition fresh_node :: "'a linkedlist \<Rightarrow> nat option \<Rightarrow> bool" where
  "fresh_node l p \<longleftrightarrow> (case p of None \<Rightarrow> True | Some a \<Rightarrow> a \<notin> dom (ll_nodes l))"

definition data_at :: "'a linkedlist \<Rightarrow> nat \<Rightarrow> 'a option res" where
  "data_at l i = bind_res (ll_get_from_index l i LL_FRONT) (\<lambda>p.
     if p = None then Inr None else bind_res (node_at l p) (\<lambda>n. Inr (Some (nd_data n))))"

lemma ll_list_length: "wf_list l \<Longrightarrow> length (ll_ptrs l) = length (ll_list l)"
  by (simp add: ll_list_def data_of_def)

interpretation ll: deque wf_list ll_list fresh_node ll_insert_back ll_insert_front ll_remove_back ll_remove_front data_at
proof unfold_locales
  fix l :: "'a linkedlist" and p x
  assume wf: "wf_list l" and fr: "fresh_node l p"
  show "\<exists>l'. ll_insert_back p l x = Inr (l', p) \<and> wf_list l' \<and> ll_list l' = (if p = None then ll_list l else ll_list l @ [x])"
  proof (cases p)
    case (Some a)
    obtain l' where l': "ll_insert_back (Some a) l x = Inr (l', Some a)" "chain l' (ll_ptrs l @ [a])"
        "data_of l' (ll_ptrs l @ [a]) = data_of l (ll_ptrs l) @ [x]"
      using insert_back_chain [of l "ll_ptrs l" a x] wf fr Some by (auto simp: wf_list_def fresh_node_def)
    then show ?thesis using Some wf_listI [OF l'(2)] by (simp add: ll_list_def [of l])
  qed (use wf in \<open>simp add: ll_insert_back_def\<close>)
  show "\<exists>l'. ll_insert_front p l x = Inr (l', p) \<and> wf_list l' \<and> ll_list l' = (if p = None then ll_list l else x # ll_list l)"
  proof (cases p)
    case (Some a)
    obtain l' where l': "ll_insert_front (Some a) l x = Inr (l', Some a)" "chain l' (a # ll_ptrs l)"
        "data_of l' (a # ll_ptrs l) = x # data_of l (ll_ptrs l)"
      using insert_front_chain [of l "ll_ptrs l" a x] wf fr Some by (auto simp: wf_list_def fresh_node_def)
    then show ?thesis using Some wf_listI [OF l'(2)] by (simp add: ll_list_def [of l])
  qed (use wf in \<open>simp add: ll_insert_front_def\<close>)
next
  fix l :: "'a linkedlist" and xs x
  assume wf: "wf_list l" and v: "ll_list l = xs @ [x]"
  obtain ps a where ps: "ll_ptrs l = ps @ [a]"
    using v by (cases "ll_ptrs l" rule: rev_cases) (auto simp: ll_list_def data_of_def)
  then have c: "chain l (ps @ [a])" using wf by (simp add: wf_list_def)
  have "data_of l ps = xs" "nd_data (nd l a) = x" using v ps by (simp_all add: ll_list_def data_of_def)
  then show "\<exists>l'. ll_remove_back l = Inr (l', Some x) \<and> wf_list l' \<and> ll_list l' = xs"
    using remove_back_chain [OF c] wf_listI by metis
next
  fix l :: "'a linkedlist" and x xs
  assume wf: "wf_list l" and v: "ll_list l = x # xs"
  obtain a ps where ps: "ll_ptrs l = a # ps"
    using v by (cases "ll_ptrs l") (auto simp: ll_list_def data_of_def)
  then have c: "chain l (a # ps)" using wf by (simp add: wf_list_def)
  have "data_of l ps = xs" "nd_data (nd l a) = x" using v ps by (simp_all add: ll_list_def data_of_def)
  then show "\<exists>l'. ll_remove_front l = Inr (l', Some x) \<and> wf_list l' \<and> ll_list l' = xs"
    using remove_front_chain [OF c] wf_listI by metis
next
  fix l :: "'a linkedlist" and i
  assume wf: "wf_list l" and i: "i < length (ll_list l)"
  then have c: "chain l (ll_ptrs l)" and i': "i < length (ll_ptrs l)" by (simp_all add: wf_list_def ll_list_length)
  then show "data_at l i = Inr (Some (ll_list l ! i))"
    using index_in_range(1) [OF c i'] chain_node_at [OF c, of "ll_ptrs l ! i"]
    by (simp add: data_at_def ll_list_def data_of_def)
qed

end
