(* ===== verification/HashTable.thy ===== *)
theory HashTable
  imports Telly_Prelude
begin

text \<open>
  \<open>src/utils/hashtable.c\<close>: an open-addressing table with linear probing and backward-shift
  deletion. An element of the array is \<open>None\<close> when its key pointer is NULL, otherwise the pair of
  key and value. The two function members \<open>hash\<close> and \<open>key_compare\<close> are members of the record.

  Capacities and counts are natural numbers: an array of \<open>2 ^ 51\<close> slots of 16 bytes does not fit
  in any address space, and below that bound the \<open>double\<close> product \<open>capacity * 0.75\<close> is exact, so the
  load test is \<open>4 * count < 3 * capacity\<close>. The loops that search a free slot are
  \<open>partial_function\<close>s: \<open>None\<close> means that they run for ever.
\<close>

section \<open>The table and its operations\<close>

type_synonym ('k, 'v) slots = "('k \<times> 'v) option list"

record ('k, 'v) hashtable =
  ht_capacity :: nat
  ht_count :: nat
  ht_elements :: "('k, 'v) slots"
  ht_hash :: "'k \<Rightarrow> 64 word"
  ht_compare :: "'k option \<Rightarrow> 'k option \<Rightarrow> bool"

definition slot_key :: "('k \<times> 'v) option \<Rightarrow> 'k option" where
  "slot_key e = map_option fst e"

definition home :: "('k \<Rightarrow> 64 word) \<Rightarrow> nat \<Rightarrow> 'k \<Rightarrow> nat" where
  "home h n k = unat (h k) mod n"

text \<open>\<open>ok1\<close>, \<open>ok2\<close>: whether the two allocations succeed; the array is cleared by the loop.\<close>

definition create_hashtable ::
  "bool \<Rightarrow> bool \<Rightarrow> nat \<Rightarrow> ('k \<Rightarrow> 64 word) \<Rightarrow> ('k option \<Rightarrow> 'k option \<Rightarrow> bool) \<Rightarrow> ('k, 'v) hashtable option" where
  "create_hashtable ok1 ok2 capacity hash key_compare =
     (if \<not> ok1 then None else if \<not> ok2 then None
      else Some \<lparr>ht_capacity = capacity, ht_count = 0, ht_elements = replicate capacity None,
                 ht_hash = hash, ht_compare = key_compare\<rparr>)"

partial_function (option) free_slot :: "('k, 'v) slots \<Rightarrow> nat \<Rightarrow> nat option" where
  "free_slot es index =
     (case es ! index of None \<Rightarrow> Some index | Some e \<Rightarrow> free_slot es (cnext (length es) index))"

fun rehash :: "('k \<Rightarrow> 64 word) \<Rightarrow> ('k, 'v) slots \<Rightarrow> ('k, 'v) slots \<Rightarrow> ('k, 'v) slots option" where
  "rehash h [] elements = Some elements"
| "rehash h (None # old) elements = rehash h old elements"
| "rehash h (Some e # old) elements =
     (case free_slot elements (home h (length elements) (fst e)) of
        None \<Rightarrow> None
      | Some index \<Rightarrow> rehash h old (elements[index := Some e]))"

text \<open>
  \<open>mem n\<close> is what the allocator returns for an array of \<open>n\<close> elements: NULL, or a block with the
  contents that happen to be there. \<open>grow_hashtable\<close> does not clear the block.
\<close>

definition grow_hashtable ::
  "(nat \<Rightarrow> ('k, 'v) slots option) \<Rightarrow> ('k, 'v) hashtable \<Rightarrow> (('k, 'v) hashtable \<times> int) res" where
  "grow_hashtable mem t =
     (if 4 * ht_count t < 3 * ht_capacity t then Inr (t, 0)
      else let new_capacity = 2 * ht_capacity t in
        case mem new_capacity of
          None \<Rightarrow> Inr (t, - 1)
        | Some block \<Rightarrow>
            bind_res (of_loop (rehash (ht_hash t) (ht_elements t) block)) (\<lambda>elements.
              Inr (t\<lparr>ht_elements := elements, ht_capacity := new_capacity\<rparr>, 1)))"

partial_function (option) probe_insert ::
  "('k option \<Rightarrow> 'k option \<Rightarrow> bool) \<Rightarrow> ('k, 'v) slots \<Rightarrow> 'k \<Rightarrow> nat \<Rightarrow> nat option" where
  "probe_insert cmp es key index =
     (case es ! index of
        None \<Rightarrow> Some index
      | Some e \<Rightarrow> if cmp (Some (fst e)) (Some key) then Some index
                 else probe_insert cmp es key (cnext (length es) index))"

text \<open>The result is the table and the element returned, by its position (\<open>None\<close> for NULL).\<close>

definition insert_into_hashtable ::
  "(nat \<Rightarrow> ('k, 'v) slots option) \<Rightarrow> ('k, 'v) hashtable \<Rightarrow> 'k \<Rightarrow> 'v \<Rightarrow>
   (('k, 'v) hashtable \<times> nat option) res" where
  "insert_into_hashtable mem t key val =
     bind_res (grow_hashtable mem t) (\<lambda>(t, grown).
       if grown < 0 then Inr (t, None)
       else if ht_capacity t = 0 then Inl DivByZero
       else bind_res (of_loop (probe_insert (ht_compare t) (ht_elements t) key
                        (home (ht_hash t) (ht_capacity t) key))) (\<lambda>index.
         case ht_elements t ! index of
           Some _ \<Rightarrow> Inr (t, Some index)
         | None \<Rightarrow> Inr (t\<lparr>ht_elements := (ht_elements t)[index := Some (key, val)],
                          ht_count := ht_count t + 1\<rparr>, Some index)))"

text \<open>The search loop shared by \<open>get\<close>, \<open>exist\<close> and \<open>delete\<close>: it stops when it is wraps_not at \<open>start\<close>.\<close>

partial_function (option) find_loop ::
  "('k option \<Rightarrow> 'k option \<Rightarrow> bool) \<Rightarrow> ('k, 'v) slots \<Rightarrow> 'k \<Rightarrow> nat \<Rightarrow> nat \<Rightarrow> nat option option" where
  "find_loop cmp es key start index =
     (if cmp (slot_key (es ! index)) (Some key) then Some (Some index)
      else if es ! index = None then Some None
      else let index = cnext (length es) index in
        if index = start then Some None else find_loop cmp es key start index)"

definition get_from_hashtable :: "('k, 'v) hashtable \<Rightarrow> 'k \<Rightarrow> nat option res" where
  "get_from_hashtable t key =
     (if ht_capacity t = 0 then Inl DivByZero
      else let start = home (ht_hash t) (ht_capacity t) key in
        of_loop (find_loop (ht_compare t) (ht_elements t) key start start))"

definition exist_in_hashtable :: "('k, 'v) hashtable \<Rightarrow> 'k \<Rightarrow> bool res" where
  "exist_in_hashtable t key =
     (if ht_capacity t = 0 then Inl DivByZero
      else let start = home (ht_hash t) (ht_capacity t) key in
        bind_res (of_loop (find_loop (ht_compare t) (ht_elements t) key start start)) (\<lambda>found.
          Inr (found \<noteq> None)))"

text \<open>
  The loops of \<open>delete_from_hashtable\<close> after the element is found, with \<open>elements[deletion]\<close>
  already cleared: the inner loop looks for an element that may move into the hole, the outer
  one moves it and goes on with the hole it leaves.
\<close>

definition may_stay :: "nat \<Rightarrow> nat \<Rightarrow> nat \<Rightarrow> bool" where
  "may_stay deletion ideal current =
     (if deletion \<le> current then deletion < ideal \<and> ideal \<le> current
      else deletion < ideal \<or> ideal \<le> current)"

partial_function (option) shift_loop ::
  "('k \<Rightarrow> 64 word) \<Rightarrow> ('k, 'v) slots \<Rightarrow> nat \<Rightarrow> nat \<Rightarrow> ('k, 'v) slots option" where
  "shift_loop h es deletion current =
     (let current = cnext (length es) current in
      case es ! current of
        None \<Rightarrow> Some es
      | Some e \<Rightarrow>
          if may_stay deletion (home h (length es) (fst e)) current then shift_loop h es deletion current
          else shift_loop h (es[deletion := Some e, current := None]) current current)"

definition delete_from_hashtable :: "('k, 'v) hashtable \<Rightarrow> 'k \<Rightarrow> (('k, 'v) hashtable \<times> bool) res" where
  "delete_from_hashtable t key =
     (if ht_capacity t = 0 then Inl DivByZero
      else let start = home (ht_hash t) (ht_capacity t) key in
        bind_res (of_loop (find_loop (ht_compare t) (ht_elements t) key start start)) (\<lambda>found.
          case found of
            None \<Rightarrow> Inr (t, False)
          | Some deletion \<Rightarrow>
              bind_res (of_loop (shift_loop (ht_hash t) ((ht_elements t)[deletion := None]) deletion deletion)) (\<lambda>elements.
                Inr (t\<lparr>ht_elements := elements, ht_count := ht_count t - 1\<rparr>, True))))"

text \<open>\<open>foreach_hashtable\<close> visits the occupied slots in array order.\<close>

definition foreach_hashtable :: "('k, 'v) hashtable \<Rightarrow> ('k \<times> 'v) list" where
  "foreach_hashtable t = List.map_filter id (ht_elements t)"

definition clear_hashtable :: "('k, 'v) hashtable \<Rightarrow> ('k, 'v) hashtable" where
  "clear_hashtable t = t\<lparr>ht_elements := map (\<lambda>_. None) (ht_elements t), ht_count := 0\<rparr>"

section \<open>Well-formed arrays\<close>

definition in_slots :: "('k, 'v) slots \<Rightarrow> nat \<Rightarrow> 'k \<Rightarrow> 'v \<Rightarrow> bool" where
  "in_slots es i k v \<longleftrightarrow> i < length es \<and> es ! i = Some (k, v)"

definition uniq :: "('k, 'v) slots \<Rightarrow> bool" where
  "uniq es \<longleftrightarrow> (\<forall>i j k v w. in_slots es i k v \<longrightarrow> in_slots es j k w \<longrightarrow> i = j)"

text \<open>
  The probing invariant: between the home of a key and its slot no slot is free, but for the
  slots in \<open>holes\<close>.
\<close>

definition chained :: "('k \<Rightarrow> 64 word) \<Rightarrow> nat set \<Rightarrow> ('k, 'v) slots \<Rightarrow> bool" where
  "chained h holes es \<longleftrightarrow> (\<forall>i k v p. in_slots es i k v \<longrightarrow> p < length es \<longrightarrow>
     cdist (length es) (home h (length es) k) p < cdist (length es) (home h (length es) k) i \<longrightarrow>
     es ! p \<noteq> None \<or> p \<in> holes)"

definition occupied :: "('k, 'v) slots \<Rightarrow> nat" where
  "occupied es = length (filter (\<lambda>e. e \<noteq> None) es)"

definition key_eq :: "('k option \<Rightarrow> 'k option \<Rightarrow> bool) \<Rightarrow> bool" where
  "key_eq cmp \<longleftrightarrow> (\<forall>a k. cmp a (Some k) \<longleftrightarrow> a = Some k)"

definition wf_table :: "('k, 'v) hashtable \<Rightarrow> bool" where
  "wf_table t \<longleftrightarrow> 0 < ht_capacity t \<and> length (ht_elements t) = ht_capacity t \<and>
     ht_count t = occupied (ht_elements t) \<and> uniq (ht_elements t) \<and>
     chained (ht_hash t) {} (ht_elements t) \<and> key_eq (ht_compare t)"

text \<open>The map a table stands for.\<close>

definition ht_map :: "('k, 'v) hashtable \<Rightarrow> 'k \<Rightarrow> 'v option" where
  "ht_map t k = map_of (foreach_hashtable t) k"

lemma home_less [simp]: "0 < n \<Longrightarrow> home h n k < n"
  by (simp add: home_def)

lemma uniqD: "\<lbrakk>uniq es; in_slots es i k v; in_slots es j k w\<rbrakk> \<Longrightarrow> i = j"
  unfolding uniq_def by blast

lemma chainedD:
  "\<lbrakk>chained h holes es; in_slots es i k v; p < length es;
    cdist (length es) (home h (length es) k) p < cdist (length es) (home h (length es) k) i\<rbrakk>
   \<Longrightarrow> es ! p \<noteq> None \<or> p \<in> holes"
  unfolding chained_def by blast

lemma in_slots_update:
  "d < length es \<Longrightarrow> in_slots (es[d := x]) i k v \<longleftrightarrow> (if i = d then x = Some (k, v) else in_slots es i k v)"
  by (auto simp: in_slots_def nth_list_update)

lemma occupied_simps [simp]:
  "occupied [] = 0" "occupied (e # es) = (if e = None then 0 else 1) + occupied es"
  by (simp_all add: occupied_def)

lemma occupied_update:
  "d < length es \<Longrightarrow> occupied (es[d := x]) + (if es ! d = None then 0 else 1) =
     occupied es + (if x = None then 0 else 1)"
proof (induction es arbitrary: d)
  case (Cons e es)
  show ?case
  proof (cases d)
    case (Suc d')
    then show ?thesis using Cons.IH [of d'] Cons.prems by simp
  qed simp
qed simp

lemma occupied_le: "occupied es \<le> length es"
  by (simp add: occupied_def)

lemma occupied_full_iff: "occupied es < length es \<longleftrightarrow> (\<exists>p < length es. es ! p = None)"
proof -
  have "occupied es < length es \<longleftrightarrow> None \<in> set es"
  proof (induction es)
    case (Cons e es)
    then show ?case using occupied_le [of es] by (auto simp del: not_None_eq)
  qed simp
  then show ?thesis by (simp add: in_set_conv_nth)
qed

definition entries :: "('k, 'v) slots \<Rightarrow> ('k \<times> 'v) list" where
  "entries es = List.map_filter id es"

lemma entries_simps [simp]:
  "entries [] = []" "entries (None # es) = entries es" "entries (Some kv # es) = kv # entries es"
  by (simp_all add: entries_def List.map_filter_def)

lemma set_entries: "kv \<in> set (entries es) \<longleftrightarrow> Some kv \<in> set es"
proof (induction es)
  case (Cons e es)
  then show ?case by (cases e) auto
qed simp

lemma length_entries: "length (entries es) = occupied es"
proof (induction es)
  case (Cons e es)
  then show ?case by (cases e) auto
qed simp

lemma entries_replicate_None [simp]: "entries (replicate n None) = []"
  by (induction n) simp_all

lemma occupied_replicate_None [simp]: "occupied (replicate n None) = 0"
  by (simp add: occupied_def)

lemma foreach_entries: "foreach_hashtable t = entries (ht_elements t)"
  by (simp add: foreach_hashtable_def entries_def)

lemma entries_in_slots: "(k, v) \<in> set (entries es) \<longleftrightarrow> (\<exists>i. in_slots es i k v)"
  unfolding set_entries by (auto simp: in_set_conv_nth in_slots_def)

lemma uniq_distinct: "uniq es \<Longrightarrow> distinct (map fst (entries es))"
proof (induction es)
  case (Cons e es)
  have u: "uniq es"
    using Cons.prems unfolding uniq_def in_slots_def by (metis Suc_less_eq length_Cons nat.inject nth_Cons_Suc)
  show ?case
  proof (cases e)
    case None
    then show ?thesis using Cons.IH [OF u] by simp
  next
    case (Some kv)
    have "fst kv \<notin> fst ` set (entries es)"
    proof
      assume "fst kv \<in> fst ` set (entries es)"
      then obtain w where "(fst kv, w) \<in> set (entries es)" by auto
      then obtain j where "in_slots es j (fst kv) w" by (auto simp: entries_in_slots)
      then have "in_slots (e # es) (Suc j) (fst kv) w" by (simp add: in_slots_def)
      moreover have "in_slots (e # es) 0 (fst kv) (snd kv)" by (simp add: Some in_slots_def)
      ultimately show False using uniqD [OF Cons.prems] by blast
    qed
    then show ?thesis using Cons.IH [OF u] Some by simp
  qed
qed simp

lemma ht_map_iff:
  assumes "wf_table t" shows "ht_map t k = Some v \<longleftrightarrow> (\<exists>i. in_slots (ht_elements t) i k v)"
proof -
  have "distinct (map fst (foreach_hashtable t))"
    using assms uniq_distinct unfolding wf_table_def foreach_entries by blast
  then show ?thesis by (simp add: ht_map_def map_of_eq_Some_iff foreach_entries entries_in_slots)
qed

lemma ht_map_None_iff:
  assumes "wf_table t" shows "ht_map t k = None \<longleftrightarrow> (\<forall>i v. \<not> in_slots (ht_elements t) i k v)"
  using ht_map_iff [OF assms, of k] by (metis not_None_eq)

lemma ht_map_eqI:
  assumes "wf_table t" "\<And>k v. m k = Some v \<longleftrightarrow> (\<exists>i. in_slots (ht_elements t) i k v)"
  shows "ht_map t = m"
proof
  fix k
  show "ht_map t k = m k"
    using ht_map_iff [OF assms(1), of k] assms(2) [of k] by (metis option.exhaust)
qed

section \<open>Searching\<close>

text \<open>
  \<open>clear_path es s i\<close>: the slots from \<open>s\<close> up to \<open>i\<close>, \<open>i\<close> excluded, are occupied;
  \<open>misses k es s i\<close>: by keys other than \<open>k\<close>.
\<close>

definition clear_path :: "('k, 'v) slots \<Rightarrow> nat \<Rightarrow> nat \<Rightarrow> bool" where
  "clear_path es s i \<longleftrightarrow> (\<forall>p < length es. cdist (length es) s p < cdist (length es) s i \<longrightarrow> es ! p \<noteq> None)"

definition misses :: "'k \<Rightarrow> ('k, 'v) slots \<Rightarrow> nat \<Rightarrow> nat \<Rightarrow> bool" where
  "misses k es s i \<longleftrightarrow> (\<forall>p < length es. cdist (length es) s p < cdist (length es) s i \<longrightarrow>
     es ! p \<noteq> None \<and> slot_key (es ! p) \<noteq> Some k)"

lemma misses_clear: "misses k es s i \<Longrightarrow> clear_path es s i"
  by (simp add: misses_def clear_path_def)

lemma misses_self [simp]: "misses k es s s"
  by (simp add: misses_def)

lemma clear_path_self [simp]: "clear_path es s s"
  by (simp add: clear_path_def)

lemma cdist_step_iff:
  assumes "s < n" "i < n" "p < n" "cnext n i \<noteq> s"
  shows "cdist n s p < cdist n s (cnext n i) \<longleftrightarrow> cdist n s p < cdist n s i \<or> p = i"
proof -
  have "cdist n s (cnext n i) = Suc (cdist n s i)" using assms by (simp add: cdist_cnext)
  moreover have "cdist n s p = cdist n s i \<longleftrightarrow> p = i" using assms by (auto simp: cdist_def split: if_splits)
  ultimately show ?thesis by (auto simp: less_Suc_eq)
qed

lemma cdist_back_at_start:
  assumes "s < n" "i < n" "cnext n i = s" "p < n"
  shows "cdist n s p < cdist n s i \<or> p = i"
  using assms by (auto simp: cdist_def cyc split: if_splits)

lemma cdist_inj: "\<lbrakk>s < n; i < n; j < n; cdist n s i = cdist n s j\<rbrakk> \<Longrightarrow> i = j"
  by (auto simp: cdist_def split: if_splits)

lemma misses_step:
  assumes "misses k es s i" "s < length es" "i < length es" "cnext (length es) i \<noteq> s"
    and "es ! i \<noteq> None" "slot_key (es ! i) \<noteq> Some k"
  shows "misses k es s (cnext (length es) i)"
  using assms cdist_step_iff [OF assms(2,3) _ assms(4)] unfolding misses_def by metis

lemma clear_path_step:
  assumes "clear_path es s i" "s < length es" "i < length es" "cnext (length es) i \<noteq> s" "es ! i \<noteq> None"
  shows "clear_path es s (cnext (length es) i)"
  using assms cdist_step_iff [OF assms(2,3) _ assms(4)] unfolding clear_path_def by metis

text \<open>The search of \<open>get\<close>, \<open>exist\<close> and \<open>delete\<close> always returns, and finds the key if it is there.\<close>

definition found_ok :: "('k, 'v) slots \<Rightarrow> 'k \<Rightarrow> nat option \<Rightarrow> bool" where
  "found_ok es k r = (case r of None \<Rightarrow> (\<forall>i v. \<not> in_slots es i k v) | Some i \<Rightarrow> (\<exists>v. in_slots es i k v))"

lemma find_loop_correct:
  assumes cmp: "key_eq cmp" and s: "s < length es"
    and chain: "\<And>j v. in_slots es j k v \<Longrightarrow> clear_path es s j"
  shows "\<lbrakk>i < length es; misses k es s i\<rbrakk> \<Longrightarrow> \<exists>r. find_loop cmp es k s i = Some r \<and> found_ok es k r"
proof (induction "length es - cdist (length es) s i" arbitrary: i rule: less_induct)
  case less
  show ?case
  proof (cases "slot_key (es ! i) = Some k")
    case True
    then have "find_loop cmp es k s i = Some (Some i)"
      using cmp by (subst find_loop.simps) (simp add: key_eq_def)
    moreover have "found_ok es k (Some i)"
      using True less.prems by (auto simp: found_ok_def in_slots_def slot_key_def)
    ultimately show ?thesis by blast
  next
    case no_key: False
    then have step: "find_loop cmp es k s i =
        (if es ! i = None then Some None
         else if cnext (length es) i = s then Some None else find_loop cmp es k s (cnext (length es) i))"
      using cmp by (subst find_loop.simps) (simp add: key_eq_def Let_def)
    show ?thesis
    proof (cases "es ! i = None")
      case True
      have "\<not> in_slots es j k v" for j v
      proof
        assume j: "in_slots es j k v"
        then have "j < length es" "slot_key (es ! j) = Some k" by (auto simp: in_slots_def slot_key_def)
        then have "\<not> cdist (length es) s j < cdist (length es) s i"
          using less.prems(2) unfolding misses_def by blast
        moreover have "\<not> cdist (length es) s i < cdist (length es) s j"
          using chain [OF j] True less.prems(1) unfolding clear_path_def by blast
        ultimately have "j = i" using cdist_inj [OF s \<open>j < length es\<close> less.prems(1)] by linarith
        then show False using \<open>slot_key (es ! j) = Some k\<close> no_key by blast
      qed
      then show ?thesis using True step by (simp add: found_ok_def)
    next
      case occupied: False
      show ?thesis
      proof (cases "cnext (length es) i = s")
        case True
        have "\<not> in_slots es j k v" for j v
          using cdist_back_at_start [OF s less.prems(1) True, of j] less.prems(2) no_key
          unfolding misses_def in_slots_def slot_key_def by (metis fst_conv option.map(2))
        then show ?thesis using True occupied step by (simp add: found_ok_def)
      next
        case False
        have "cdist (length es) s (cnext (length es) i) = Suc (cdist (length es) s i)"
          using False s less.prems(1) by (simp add: cdist_cnext)
        then have "length es - cdist (length es) s (cnext (length es) i) < length es - cdist (length es) s i"
          using cdist_less [OF s less.prems(1)] by linarith
        moreover have "cnext (length es) i < length es" using s by (rule cnext_less_idx)
        moreover have "misses k es s (cnext (length es) i)"
          by (rule misses_step [OF less.prems(2) s less.prems(1) False occupied no_key])
        ultimately have "\<exists>r. find_loop cmp es k s (cnext (length es) i) = Some r \<and> found_ok es k r"
          by (rule less.hyps)
        moreover have "find_loop cmp es k s i = find_loop cmp es k s (cnext (length es) i)"
          using step False occupied by presburger
        ultimately show ?thesis by (simp only:)
      qed
    qed
  qed
qed

lemma probe_insert_correct:
  assumes cmp: "key_eq cmp" and s: "s < length es" and free: "q < length es" "es ! q = None"
  shows "\<lbrakk>i < length es; misses k es s i\<rbrakk> \<Longrightarrow>
    \<exists>j. probe_insert cmp es k i = Some j \<and> j < length es \<and> misses k es s j \<and>
        (es ! j = None \<or> slot_key (es ! j) = Some k)"
proof (induction "length es - cdist (length es) s i" arbitrary: i rule: less_induct)
  case less
  show ?case
  proof (cases "es ! i = None \<or> slot_key (es ! i) = Some k")
    case True
    then have "probe_insert cmp es k i = Some i"
      using cmp by (subst probe_insert.simps) (auto simp: key_eq_def slot_key_def split: option.splits)
    with True less.prems show ?thesis by blast
  next
    case False
    then have step: "probe_insert cmp es k i = probe_insert cmp es k (cnext (length es) i)"
      using cmp by (subst probe_insert.simps) (auto simp: key_eq_def slot_key_def split: option.splits)
    have wraps_not: "cnext (length es) i \<noteq> s"
      using cdist_back_at_start [OF s less.prems(1) _ free(1)] free False less.prems(2)
      unfolding misses_def by blast
    have "cdist (length es) s (cnext (length es) i) = Suc (cdist (length es) s i)"
      using wraps_not s less.prems(1) by (simp add: cdist_cnext)
    then have "length es - cdist (length es) s (cnext (length es) i) < length es - cdist (length es) s i"
      using cdist_less [OF s less.prems(1)] by linarith
    moreover have "cnext (length es) i < length es" using s by (rule cnext_less_idx)
    moreover have "misses k es s (cnext (length es) i)"
      by (rule misses_step [OF less.prems(2) s less.prems(1) wraps_not]) (use False in simp_all)
    ultimately show ?thesis using less.hyps unfolding step by blast
  qed
qed

lemma free_slot_correct:
  assumes s: "s < length es" and free: "q < length es" "es ! q = None"
  shows "\<lbrakk>i < length es; clear_path es s i\<rbrakk> \<Longrightarrow>
    \<exists>j. free_slot es i = Some j \<and> j < length es \<and> clear_path es s j \<and> es ! j = None"
proof (induction "length es - cdist (length es) s i" arbitrary: i rule: less_induct)
  case less
  show ?case
  proof (cases "es ! i = None")
    case True
    then have "free_slot es i = Some i" by (subst free_slot.simps) simp
    with True less.prems show ?thesis by blast
  next
    case False
    then have step: "free_slot es i = free_slot es (cnext (length es) i)"
      by (subst free_slot.simps) (auto split: option.splits)
    have wraps_not: "cnext (length es) i \<noteq> s"
      using cdist_back_at_start [OF s less.prems(1) _ free(1)] free False less.prems(2)
      unfolding clear_path_def by blast
    have "cdist (length es) s (cnext (length es) i) = Suc (cdist (length es) s i)"
      using wraps_not s less.prems(1) by (simp add: cdist_cnext)
    then have "length es - cdist (length es) s (cnext (length es) i) < length es - cdist (length es) s i"
      using cdist_less [OF s less.prems(1)] by linarith
    moreover have "cnext (length es) i < length es" using s by (rule cnext_less_idx)
    moreover have "clear_path es s (cnext (length es) i)"
      by (rule clear_path_step [OF less.prems(2) s less.prems(1) wraps_not False])
    ultimately show ?thesis using less.hyps unfolding step by blast
  qed
qed

lemma chained_clear_path:
  assumes "chained h {} es" "in_slots es j k v" shows "clear_path es (home h (length es) k) j"
  using assms unfolding chained_def clear_path_def by blast

lemma find_from_home:
  assumes "key_eq cmp" "chained h {} es" "0 < length es"
  shows "\<exists>r. find_loop cmp es k (home h (length es) k) (home h (length es) k) = Some r \<and> found_ok es k r"
  using assms chained_clear_path [OF assms(2)] by (intro find_loop_correct) simp_all

section \<open>Filling a free slot\<close>

lemma chained_fill:
  assumes "chained h {} es" "i < length es" "es ! i = None" "clear_path es (home h (length es) k) i"
  shows "chained h {} (es[i := Some (k, v)])"
proof -
  have "es[i := Some (k, v)] ! p \<noteq> None"
    if "in_slots (es[i := Some (k, v)]) j k' v'" "p < length es"
       "cdist (length es) (home h (length es) k') p < cdist (length es) (home h (length es) k') j" for j k' v' p
  proof (cases "p = i")
    case False
    show ?thesis
    proof (cases "j = i")
      case True
      then have "k' = k" using that(1) assms(2) by (simp add: in_slots_update)
      then show ?thesis using assms(4) that(2,3) True False unfolding clear_path_def by simp
    next
      case ji: False
      then have "in_slots es j k' v'" using that(1) assms(2) by (simp add: in_slots_update)
      then have "es ! p \<noteq> None" using chainedD [OF assms(1) _ that(2,3)] by blast
      then show ?thesis using False by (metis nth_list_update_neq)
    qed
  qed (simp add: assms(2))
  then show ?thesis unfolding chained_def by (simp only: length_list_update) blast
qed

lemma uniq_fill:
  assumes "uniq es" "i < length es" "\<And>j v. \<not> in_slots es j k v"
  shows "uniq (es[i := Some (k, v)])"
  using assms unfolding uniq_def by (simp add: in_slots_update) blast

text \<open>What an array holds, as a set of pairs.\<close>

definition holds :: "('k, 'v) slots \<Rightarrow> ('k \<times> 'v) set" where
  "holds es = {(k, v). \<exists>i. in_slots es i k v}"

lemma holds_entries: "holds es = set (entries es)"
  by (auto simp: holds_def entries_in_slots)

lemma holds_fill:
  assumes "i < length es" "es ! i = None"
  shows "holds (es[i := Some (k, v)]) = insert (k, v) (holds es)"
proof -
  have "in_slots (es[i := Some (k, v)]) j a b \<longleftrightarrow> (j = i \<and> (a, b) = (k, v)) \<or> in_slots es j a b" for j a b
    using assms by (auto simp: in_slots_update) (auto simp: in_slots_def)
  then show ?thesis unfolding holds_def by blast
qed

lemma free_of_occupied: "occupied es < length es \<Longrightarrow> \<exists>q < length es. es ! q = None"
  by (simp only: occupied_full_iff)

section \<open>Growing\<close>

lemma rehash_correct:
  "\<lbrakk>0 < length es; occupied es + length (entries old) < length es; uniq es; chained h {} es;
    distinct (map fst (entries old)); fst ` set (entries old) \<inter> fst ` holds es = {}\<rbrakk> \<Longrightarrow>
   \<exists>es'. rehash h old es = Some es' \<and> length es' = length es \<and> uniq es' \<and> chained h {} es' \<and>
     holds es' = holds es \<union> set (entries old) \<and> occupied es' = occupied es + length (entries old)"
proof (induction h old es rule: rehash.induct)
  case (3 h e old es)
  obtain k v where e: "e = (k, v)" by (cases e)
  let ?s = "home h (length es) k"
  obtain q where q: "q < length es" "es ! q = None" using free_of_occupied [of es] 3(3) by auto
  obtain i where i: "free_slot es ?s = Some i" "i < length es" "clear_path es ?s i" "es ! i = None"
    using free_slot_correct [of ?s es q ?s] q 3(2) by auto
  have absent: "\<not> in_slots es j k w" for j w
    using 3(7) e by (force simp: holds_def)
  let ?es = "es[i := Some (k, v)]"
  have "uniq ?es" by (rule uniq_fill [OF 3(4) i(2) absent])
  moreover have "chained h {} ?es" by (rule chained_fill [OF 3(5) i(2,4,3)])
  moreover have ho: "holds ?es = insert (k, v) (holds es)" by (rule holds_fill [OF i(2,4)])
  moreover have oc: "occupied ?es = Suc (occupied es)"
    using occupied_update [OF i(2), of "Some (k, v)"] i(4) by simp
  moreover have "fst ` set (entries old) \<inter> fst ` holds ?es = {}" using 3(6,7) ho e by auto
  ultimately have "\<exists>es'. rehash h old ?es = Some es' \<and> length es' = length ?es \<and> uniq es' \<and> chained h {} es' \<and>
     holds es' = holds ?es \<union> set (entries old) \<and> occupied es' = occupied ?es + length (entries old)"
    using 3(1) [of i] i(1) e 3(2,3,6) by simp
  then show ?case using i(1) e ho oc by auto
qed simp_all

text \<open>
  The contents of a block that the allocator returns: \<open>zeroed mem\<close> says that every block happens
  to be all NULL, which is what the code needs and what \<open>posix_memalign\<close> does not promise.
\<close>

definition zeroed :: "(nat \<Rightarrow> ('k, 'v) slots option) \<Rightarrow> bool" where
  "zeroed mem \<longleftrightarrow> (\<forall>n. mem n = None \<or> mem n = Some (replicate n None))"

lemma wf_table_holds: "wf_table t \<Longrightarrow> ht_map t = m \<longleftrightarrow> (\<forall>k v. m k = Some v \<longleftrightarrow> (k, v) \<in> holds (ht_elements t))"
  using ht_map_eqI [of t m] ht_map_iff [of t] by (auto simp: holds_def)

lemma holds_iff: "wf_table t \<Longrightarrow> (k, v) \<in> holds (ht_elements t) \<longleftrightarrow> ht_map t k = Some v"
  using ht_map_iff [of t] by (simp add: holds_def)

lemma uniq_replicate [simp]: "uniq (replicate n None)"
  by (auto simp: uniq_def in_slots_def)

lemma chained_replicate [simp]: "chained h holes (replicate n None)"
  by (auto simp: chained_def in_slots_def)

lemma holds_replicate [simp]: "holds (replicate n None) = {}"
  by (simp add: holds_entries)

lemma grow_correct:
  assumes wf: "wf_table t" and z: "zeroed mem"
  shows "\<exists>t' r. grow_hashtable mem t = Inr (t', r) \<and> wf_table t' \<and> ht_map t' = ht_map t \<and>
    ht_hash t' = ht_hash t \<and> ht_compare t' = ht_compare t \<and> ht_count t' = ht_count t \<and>
    (0 \<le> r \<longrightarrow> ht_count t' < ht_capacity t') \<and> (r < 0 \<longrightarrow> t' = t)"
proof (cases "4 * ht_count t < 3 * ht_capacity t")
  case True
  then show ?thesis using wf by (simp add: grow_hashtable_def)
next
  case False
  let ?n = "2 * ht_capacity t"
  note w = wf [unfolded wf_table_def]
  show ?thesis
  proof (cases "mem ?n")
    case None
    then show ?thesis using False wf by (simp add: grow_hashtable_def Let_def)
  next
    case (Some block)
    then have block: "block = replicate ?n None" using z unfolding zeroed_def by (metis option.distinct(1) option.inject)
    have count: "ht_count t < ?n" using w occupied_le [of "ht_elements t"] by linarith
    have "\<exists>es'. rehash (ht_hash t) (ht_elements t) block = Some es' \<and> length es' = length block \<and> uniq es' \<and>
        chained (ht_hash t) {} es' \<and> holds es' = holds block \<union> set (entries (ht_elements t)) \<and>
        occupied es' = occupied block + length (entries (ht_elements t))"
      using w count uniq_distinct [of "ht_elements t"]
      by (intro rehash_correct) (simp_all add: block length_entries)
    then obtain es' where es': "rehash (ht_hash t) (ht_elements t) block = Some es'" "length es' = ?n" "uniq es'"
        "chained (ht_hash t) {} es'" "holds es' = holds (ht_elements t)" "occupied es' = ht_count t"
      using w by (auto simp: block holds_entries length_entries)
    let ?t = "t\<lparr>ht_elements := es', ht_capacity := ?n\<rparr>"
    have "wf_table ?t" using es' w by (simp add: wf_table_def)
    moreover have "ht_map ?t = ht_map t"
      using wf_table_holds [OF wf, of "ht_map t"] wf_table_holds [OF \<open>wf_table ?t\<close>, of "ht_map t"] es'(5) by simp
    ultimately show ?thesis using es'(1) False Some count by (simp add: grow_hashtable_def Let_def)
  qed
qed

text \<open>
  The block is not cleared, so it may hold any bytes: when all of its key pointers are non-NULL
  the search of a free slot never ends, and the insertion that made the table grow hangs.
\<close>

lemma free_slot_is_free:
  "free_slot es i = Some j \<Longrightarrow> i < length es \<longrightarrow> j < length es \<and> es ! j = None"
proof (induction es i j rule: free_slot.raw_induct [rotated, consumes 1, case_names step])
  case (step f es i j)
  show ?case
  proof (cases "es ! i")
    case None
    then show ?thesis using step(2) by simp
  next
    case (Some e)
    then have "f es (cnext (length es) i) = Some j" using step(2) by simp
    then have "cnext (length es) i < length es \<longrightarrow> j < length es \<and> es ! j = None" by (rule step(1))
    moreover have "i < length es \<Longrightarrow> cnext (length es) i < length es" by (rule cnext_less_idx)
    ultimately show ?thesis by blast
  qed
qed

lemma free_slot_full:
  assumes "occupied es = length es" "i < length es" shows "free_slot es i = None"
proof (cases "free_slot es i")
  case (Some j)
  then have "j < length es \<and> es ! j = None" using free_slot_is_free assms(2) by blast
  then have "occupied es < length es" unfolding occupied_full_iff by blast
  then show ?thesis using assms(1) by simp
qed

lemma rehash_full:
  "\<lbrakk>occupied es = length es; 0 < length es; occupied old \<noteq> 0\<rbrakk> \<Longrightarrow> rehash h old es = None"
proof (induction old)
  case (Cons e old)
  then show ?case by (cases e) (simp_all add: free_slot_full)
qed simp

lemma grow_into_junk:
  assumes "wf_table t" "3 * ht_capacity t \<le> 4 * ht_count t" "mem (2 * ht_capacity t) = Some block"
    and "length block = 2 * ht_capacity t" "occupied block = length block"
  shows "insert_into_hashtable mem t k v = Inl Endless"
proof -
  have "0 < ht_capacity t" "occupied (ht_elements t) \<noteq> 0" using assms(1,2) by (auto simp: wf_table_def)
  then have "rehash (ht_hash t) (ht_elements t) block = None" using assms(4,5) by (intro rehash_full) simp_all
  then show ?thesis using assms(2,3) by (simp add: insert_into_hashtable_def grow_hashtable_def Let_def)
qed

section \<open>Inserting\<close>

lemma insert_correct:
  assumes wf: "wf_table t" and z: "zeroed mem"
  shows "\<exists>t' r. insert_into_hashtable mem t k v = Inr (t', r) \<and> wf_table t' \<and> ht_hash t' = ht_hash t \<and>
    ht_compare t' = ht_compare t \<and>
    (case r of None \<Rightarrow> t' = t
     | Some i \<Rightarrow> ht_map t' = (if ht_map t k = None then (ht_map t)(k \<mapsto> v) else ht_map t) \<and>
         ht_count t' = (if ht_map t k = None then ht_count t + 1 else ht_count t) \<and>
         in_slots (ht_elements t') i k (the (ht_map t' k)))"
proof -
  obtain u r where g: "grow_hashtable mem t = Inr (u, r)" "wf_table u" "ht_map u = ht_map t"
      "ht_hash u = ht_hash t" "ht_compare u = ht_compare t" "ht_count u = ht_count t"
      "0 \<le> r \<longrightarrow> ht_count u < ht_capacity u" "r < 0 \<longrightarrow> u = t"
    using grow_correct [OF wf z] by blast
  show ?thesis
  proof (cases "r < 0")
    case True
    then show ?thesis using g wf by (simp add: insert_into_hashtable_def)
  next
    case False
    let ?es = "ht_elements u" and ?n = "ht_capacity u"
    let ?s = "home (ht_hash u) ?n k"
    note w = g(2) [unfolded wf_table_def]
    obtain q where q: "q < length ?es" "?es ! q = None"
      using free_of_occupied [of ?es] w g(7) False by auto
    obtain i where i: "probe_insert (ht_compare u) ?es k ?s = Some i" "i < length ?es" "misses k ?es ?s i"
        "?es ! i = None \<or> slot_key (?es ! i) = Some k"
      using probe_insert_correct [of "ht_compare u" ?s ?es q ?s k] w q by auto
    have ins: "insert_into_hashtable mem t k v = (case ?es ! i of
          Some _ \<Rightarrow> Inr (u, Some i)
        | None \<Rightarrow> Inr (u\<lparr>ht_elements := ?es[i := Some (k, v)], ht_count := ht_count u + 1\<rparr>, Some i))"
      using g(1) False w i(1) by (simp add: insert_into_hashtable_def)
    show ?thesis
    proof (cases "?es ! i")
      case (Some e)
      then obtain w' where e: "in_slots ?es i k w'"
        using i(2,4) by (cases e) (auto simp: in_slots_def slot_key_def)
      then have "ht_map u k = Some w'" using ht_map_iff [OF g(2)] by blast
      then show ?thesis using ins Some e g by simp
    next
      case None
      have absent: "\<not> in_slots ?es j k w'" for j w'
      proof
        assume j: "in_slots ?es j k w'"
        moreover have "chained (ht_hash u) {} ?es" "length ?es = ?n" using w by blast+
        ultimately have "clear_path ?es ?s j" using chained_clear_path by fastforce
        then have "\<not> cdist (length ?es) ?s i < cdist (length ?es) ?s j"
          using None i(2) unfolding clear_path_def by blast
        moreover have jl: "j < length ?es" "slot_key (?es ! j) = Some k" using j by (auto simp: in_slots_def slot_key_def)
        then have "\<not> cdist (length ?es) ?s j < cdist (length ?es) ?s i" using i(3) unfolding misses_def by blast
        ultimately have "cdist (length ?es) ?s i = cdist (length ?es) ?s j" by linarith
        moreover have "?s < length ?es" using w by simp
        ultimately have "i = j" using cdist_inj i(2) jl(1) by blast
        then show False using jl(2) None by (simp add: slot_key_def)
      qed
      then have mk: "ht_map u k = None" using ht_map_None_iff [OF g(2)] by blast
      let ?u = "u\<lparr>ht_elements := ?es[i := Some (k, v)], ht_count := ht_count u + 1\<rparr>"
      have "chained (ht_hash u) {} (?es[i := Some (k, v)])"
        using chained_fill [of "ht_hash u" ?es i k v] w i(2) None misses_clear [OF i(3)] by simp
      moreover have "uniq (?es[i := Some (k, v)])" using uniq_fill [OF _ i(2) absent] w by blast
      moreover have "occupied (?es[i := Some (k, v)]) = ht_count u + 1"
        using occupied_update [OF i(2), of "Some (k, v)"] None w by simp
      ultimately have wfu: "wf_table ?u" using w by (simp add: wf_table_def)
      have "ht_map ?u = (ht_map u)(k \<mapsto> v)"
        unfolding wf_table_holds [OF wfu] using holds_fill [OF i(2) None, of k v] mk
        by (auto simp: holds_iff [OF g(2)])
      moreover have "in_slots (?es[i := Some (k, v)]) i k v" using i(2) by (simp add: in_slots_def)
      ultimately show ?thesis using ins None wfu mk g by simp
    qed
  qed
qed

section \<open>Deleting\<close>

lemma may_stay_cdist:
  "\<lbrakk>d < n; c < n; i < n\<rbrakk> \<Longrightarrow> may_stay d i c \<longleftrightarrow> 0 < cdist n d i \<and> cdist n d i \<le> cdist n d c"
  by (auto simp: may_stay_def cdist_def)

text \<open>The elements passed since the hole was made may all stay where they are.\<close>

definition shift_inv :: "('k \<Rightarrow> 64 word) \<Rightarrow> ('k, 'v) slots \<Rightarrow> nat \<Rightarrow> nat \<Rightarrow> bool" where
  "shift_inv h es d c \<longleftrightarrow> d < length es \<and> c < length es \<and> es ! d = None \<and> uniq es \<and> chained h {d} es \<and>
     (\<forall>p < length es. 0 < cdist (length es) d p \<longrightarrow> cdist (length es) d p \<le> cdist (length es) d c \<longrightarrow>
        (\<exists>k v. es ! p = Some (k, v) \<and> may_stay d (home h (length es) k) p))"

definition displacement :: "('k \<Rightarrow> 64 word) \<Rightarrow> ('k, 'v) slots \<Rightarrow> nat \<Rightarrow> nat" where
  "displacement h es i = (case es ! i of None \<Rightarrow> 0 | Some e \<Rightarrow> cdist (length es) (home h (length es) (fst e)) i)"

definition shift_measure :: "('k \<Rightarrow> 64 word) \<Rightarrow> ('k, 'v) slots \<Rightarrow> nat \<Rightarrow> nat \<Rightarrow> nat" where
  "shift_measure h es d c = (\<Sum>i < length es. displacement h es i) * length es + (length es - cdist (length es) d c)"

text \<open>Circular arithmetic of one round: the element at \<open>c\<close>, of home \<open>i\<close>, may not stay.\<close>

lemma move_closer:
  assumes "d < n" "c < n" "i < n" "d \<noteq> c" "\<not> may_stay d i c"
  shows "cdist n i d < cdist n i c"
  using assms by (auto simp: may_stay_def cdist_def split: if_splits)

lemma past_the_hole:
  assumes "d < n" "c < n" "i < n" "j < n" "cdist n i d < cdist n i j" "cdist n d c \<le> cdist n d j" "c \<noteq> j"
  shows "cdist n i c < cdist n i j"
  using assms by (auto simp: cdist_def split: if_splits)

lemma in_home_range:
  assumes "d < n" "j < n" "i < n" "may_stay d i j"
  shows "\<not> cdist n i d < cdist n i j"
  using assms by (auto simp: may_stay_def cdist_def split: if_splits)

lemma shift_stop:
  assumes inv: "shift_inv h es d c" and stop: "es ! cnext (length es) c = None"
  shows "chained h {} es"
  unfolding chained_def
proof (intro allI impI)
  let ?n = "length es"
  note w = inv [unfolded shift_inv_def]
  fix j k v p
  assume j: "in_slots es j k v" and p: "p < ?n" "cdist ?n (home h ?n k) p < cdist ?n (home h ?n k) j"
  have n: "0 < ?n" "d < ?n" "c < ?n" and jn: "j < ?n" using w j by (auto simp: in_slots_def)
  have hn: "home h ?n k < ?n" using n by simp
  have "p \<noteq> d"
  proof
    assume pd: "p = d"
    have jd: "j \<noteq> d" using j w by (auto simp: in_slots_def)
    show False
    proof (cases "cdist ?n d j \<le> cdist ?n d c")
      case True
      moreover have "0 < cdist ?n d j" using jd cdist_eq_0_iff [of d ?n j] n jn by auto
      ultimately obtain k' v' where "es ! j = Some (k', v')" "may_stay d (home h ?n k') j"
        using w jn by blast
      then have "may_stay d (home h ?n k) j" using j by (simp add: in_slots_def)
      then show False using in_home_range [OF n(2) jn hn] p(2) pd by blast
    next
      case False
      let ?c = "cnext ?n c"
      have cd: "?c \<noteq> d"
      proof
        assume "?c = d"
        then have "cdist ?n d j < cdist ?n d c \<or> j = c" by (rule cdist_back_at_start [OF n(2,3) _ jn])
        then show False using False by auto
      qed
      have cn: "?c < ?n" by (rule cnext_less_idx [OF n(3)])
      have "cdist ?n d ?c = Suc (cdist ?n d c)" by (rule cdist_cnext [OF n(2,3) cd])
      then have far: "cdist ?n d ?c \<le> cdist ?n d j" using False by simp
      have "es ! j \<noteq> None" using j by (simp add: in_slots_def)
      then have cj: "?c \<noteq> j" using stop by metis
      have lt: "cdist ?n (home h ?n k) d < cdist ?n (home h ?n k) j" using p(2) pd by blast
      have on_path: "cdist ?n (home h ?n k) ?c < cdist ?n (home h ?n k) j"
        by (rule past_the_hole [OF n(2) cn hn jn lt far cj])
      have ch: "chained h {d} es" using w by blast
      have "es ! ?c \<noteq> None \<or> ?c \<in> {d}" by (rule chainedD [OF ch j cn on_path])
      then show False using stop cd by simp
    qed
  qed
  moreover have "chained h {d} es" using w by blast
  ultimately show "es ! p \<noteq> None \<or> p \<in> {}" using chainedD [OF _ j p(1,2)] by blast
qed

lemma shift_skip:
  assumes inv: "shift_inv h es d c" and e: "es ! cnext (length es) c = Some (k, v)"
    and stay: "may_stay d (home h (length es) k) (cnext (length es) c)"
  shows "shift_inv h es d (cnext (length es) c)"
    and "shift_measure h es d (cnext (length es) c) < shift_measure h es d c"
proof -
  let ?n = "length es" and ?c = "cnext (length es) c"
  note w = inv [unfolded shift_inv_def]
  have n: "d < ?n" "c < ?n" "?c < ?n" using w cnext_less_idx [of c ?n c] by blast+
  have "?c \<noteq> d" using e w by auto
  then have step: "cdist ?n d ?c = Suc (cdist ?n d c)" using n by (simp add: cdist_cnext)
  have "\<exists>k v. es ! p = Some (k, v) \<and> may_stay d (home h ?n k) p"
    if p: "p < ?n" "0 < cdist ?n d p" "cdist ?n d p \<le> cdist ?n d ?c" for p
  proof (cases "p = ?c")
    case False
    then have "cdist ?n d p \<noteq> cdist ?n d ?c" using cdist_inj n p(1) by blast
    then have "cdist ?n d p \<le> cdist ?n d c" using p(3) step by simp
    then show ?thesis using w p by blast
  qed (use e stay in simp)
  then show "shift_inv h es d ?c" using w n unfolding shift_inv_def by blast
  show "shift_measure h es d ?c < shift_measure h es d c"
    using step cdist_less [OF n(1,3)] by (simp add: shift_measure_def)
qed

lemma sum_two:
  fixes f g :: "nat \<Rightarrow> nat"
  assumes "a < n" "b < n" "a \<noteq> b" "\<And>i. i \<noteq> a \<Longrightarrow> i \<noteq> b \<Longrightarrow> f i = g i" "f a + f b < g a + g b"
  shows "(\<Sum>i < n. f i) < (\<Sum>i < n. g i)"
proof -
  have split: "(\<Sum>i < n. h i) = h a + (h b + (\<Sum>i \<in> {..<n} - {a} - {b}. h i))" for h :: "nat \<Rightarrow> nat"
    using assms(1-3) by (simp add: sum.remove [of "{..<n}" a] sum.remove [of "{..<n} - {a}" b])
  have "(\<Sum>i \<in> {..<n} - {a} - {b}. f i) = (\<Sum>i \<in> {..<n} - {a} - {b}. g i)"
    using assms(4) by (intro sum.cong) auto
  then show ?thesis using assms(5) by (simp add: split [of f] split [of g])
qed

lemma shift_move:
  assumes inv: "shift_inv h es d c" and e: "es ! cnext (length es) c = Some (k, v)"
    and go: "\<not> may_stay d (home h (length es) k) (cnext (length es) c)"
  defines "c' \<equiv> cnext (length es) c"
  defines "es' \<equiv> es[d := Some (k, v), c' := None]"
  shows "shift_inv h es' c' c'" and "holds es' = holds es" and "occupied es' = occupied es"
    and "shift_measure h es' c' c' < shift_measure h es d c"
proof -
  let ?n = "length es"
  note w = inv [unfolded shift_inv_def]
  have n: "d < ?n" "c < ?n" "c' < ?n" using w cnext_less_idx [of c ?n c] by (simp_all add: c'_def)
  have cd: "c' \<noteq> d" using e w by (auto simp: c'_def)
  have hk: "home h ?n k < ?n" using n(1) by (intro home_less) linarith
  have e': "es ! c' = Some (k, v)" using e by (simp add: c'_def)
  have len [simp]: "length es' = ?n" by (simp add: es'_def)
  have closer: "cdist ?n (home h ?n k) d < cdist ?n (home h ?n k) c'"
    using move_closer [OF n(1,3) hk] cd go c'_def by blast
  have slot: "in_slots es' i k' v' \<longleftrightarrow> (i = d \<and> (k', v') = (k, v)) \<or> (i \<noteq> c' \<and> i \<noteq> d \<and> in_slots es i k' v')" for i k' v'
    using n cd by (auto simp: es'_def in_slots_update)
  have d_free: "\<not> in_slots es d k' v'" for k' v' using w by (simp add: in_slots_def)
  have c_full: "in_slots es c' k' v' \<longleftrightarrow> (k', v') = (k, v)" for k' v' using e' n by (auto simp: in_slots_def)
  show hold: "holds es' = holds es"
  proof -
    have "(\<exists>i. in_slots es' i a b) \<longleftrightarrow> (\<exists>i. in_slots es i a b)" for a b
    proof
      assume "\<exists>i. in_slots es' i a b"
      then obtain i where "(i = d \<and> (a, b) = (k, v)) \<or> in_slots es i a b" using slot by blast
      then show "\<exists>i. in_slots es i a b" using c_full by blast
    next
      assume "\<exists>i. in_slots es i a b"
      then obtain i where i: "in_slots es i a b" ..
      then have "i \<noteq> d" using d_free by blast
      then have "in_slots es' i a b \<or> (a, b) = (k, v)" using i slot c_full by blast
      then show "\<exists>i. in_slots es' i a b" using slot by blast
    qed
    then show ?thesis unfolding holds_def by simp
  qed
  show "occupied es' = occupied es"
    using occupied_update [of c' "es[d := Some (k, v)]" None] occupied_update [of d es "Some (k, v)"] n cd e' w
    by (simp add: es'_def)
  have un: "uniq es'"
    unfolding uniq_def slot using w uniqD [of es] c_full by (metis prod.inject)
  have ch: "chained h {c'} es'"
    unfolding chained_def len
  proof (intro allI impI)
    fix j k' v' p
    assume j: "in_slots es' j k' v'" and p: "p < ?n" "cdist ?n (home h ?n k') p < cdist ?n (home h ?n k') j"
    have es'_p: "es' ! p = es ! p" if "p \<noteq> d" "p \<noteq> c'" using that by (simp add: es'_def)
    have es'_d: "es' ! d \<noteq> None" using n cd by (simp add: es'_def)
    have chd: "chained h {d} es" using w by blast
    show "es' ! p \<noteq> None \<or> p \<in> {c'}"
    proof (cases "p = d \<or> p = c'")
      case False
      have "es ! p \<noteq> None \<or> p \<in> {d}"
      proof (cases "j = d")
        case True
        then have "k' = k" using j slot d_free by blast
        then have "cdist ?n (home h ?n k) p < cdist ?n (home h ?n k) c'" using p True closer by simp
        then show ?thesis using chainedD [OF chd _ p(1)] c_full by blast
      next
        case False
        then have "in_slots es j k' v'" using j slot by blast
        then show ?thesis using chainedD [OF chd _ p] by blast
      qed
      then show ?thesis using False es'_p by simp
    qed (use es'_d in auto)
  qed
  have "es' ! c' = None" using n by (simp add: es'_def)
  then show "shift_inv h es' c' c'" using un ch n by (simp add: shift_inv_def)
  have "(\<Sum>i < ?n. displacement h es' i) < (\<Sum>i < ?n. displacement h es i)"
    using closer n cd e' w
    by (intro sum_two [of d _ c']) (simp_all add: displacement_def es'_def cong: option.case_cong)
  then have "Suc (\<Sum>i < ?n. displacement h es' i) * ?n \<le> (\<Sum>i < ?n. displacement h es i) * ?n"
    by (intro mult_le_mono1) simp
  moreover have "cdist ?n d c < ?n" by (rule cdist_less [OF n(1,2)])
  ultimately show "shift_measure h es' c' c' < shift_measure h es d c"
    by (simp add: shift_measure_def)
qed

lemma shift_loop_correct:
  "shift_inv h es d c \<Longrightarrow>
   \<exists>es'. shift_loop h es d c = Some es' \<and> length es' = length es \<and> uniq es' \<and> chained h {} es' \<and>
     holds es' = holds es \<and> occupied es' = occupied es"
proof (induction "shift_measure h es d c" arbitrary: es d c rule: less_induct)
  case less
  let ?c = "cnext (length es) c"
  show ?case
  proof (cases "es ! ?c")
    case None
    then have "shift_loop h es d c = Some es" by (subst shift_loop.simps) (simp add: Let_def)
    then show ?thesis using shift_stop [OF less.prems None] less.prems by (simp add: shift_inv_def)
  next
    case (Some e)
    obtain k v where e: "es ! ?c = Some (k, v)" using Some by (cases e) simp
    show ?thesis
    proof (cases "may_stay d (home h (length es) k) ?c")
      case True
      then have "shift_loop h es d c = shift_loop h es d ?c" using e by (subst shift_loop.simps) (simp add: Let_def)
      then show ?thesis using less.hyps shift_skip [OF less.prems e True] by simp
    next
      case False
      let ?es = "es[d := Some (k, v), ?c := None]"
      have "shift_loop h es d c = shift_loop h ?es ?c ?c"
        using e False by (subst shift_loop.simps) (simp add: Let_def)
      then show ?thesis
        using less.hyps [OF shift_move(4) [OF less.prems e False] shift_move(1) [OF less.prems e False]]
          shift_move(2,3) [OF less.prems e False] by simp
    qed
  qed
qed

lemma shift_inv_start:
  assumes "uniq es" "chained h {} es" "in_slots es i k v"
  shows "shift_inv h (es[i := None]) i i"
proof -
  have i: "i < length es" using assms(3) by (simp add: in_slots_def)
  have slot: "in_slots (es[i := None]) j a b \<longleftrightarrow> j \<noteq> i \<and> in_slots es j a b" for j a b
    using i by (simp add: in_slots_update)
  have "uniq (es[i := None])" unfolding uniq_def slot using uniqD [OF assms(1)] by blast
  moreover have "chained h {i} (es[i := None])"
    unfolding chained_def slot length_list_update
    using chainedD [OF assms(2)] by (metis empty_iff insertI1 nth_list_update_neq)
  ultimately show ?thesis using i by (simp add: shift_inv_def)
qed

lemma holds_remove:
  assumes "uniq es" "in_slots es i k v" shows "holds (es[i := None]) = holds es - {(k, v)}"
proof -
  have i: "i < length es" using assms(2) by (simp add: in_slots_def)
  have "in_slots (es[i := None]) j a b \<longleftrightarrow> in_slots es j a b \<and> (a, b) \<noteq> (k, v)" for j a b
    using i assms uniqD [OF assms(1)] by (auto simp: in_slots_update) (auto simp: in_slots_def)
  then show ?thesis unfolding holds_def by auto
qed

lemma delete_correct:
  assumes wf: "wf_table t"
  shows "\<exists>t'. delete_from_hashtable t k = Inr (t', ht_map t k \<noteq> None) \<and> wf_table t' \<and>
    ht_map t' = (ht_map t)(k := None) \<and> ht_capacity t' = ht_capacity t \<and> ht_hash t' = ht_hash t \<and>
    ht_compare t' = ht_compare t"
proof -
  let ?es = "ht_elements t" and ?s = "home (ht_hash t) (ht_capacity t) k"
  have w: "0 < ht_capacity t" "length ?es = ht_capacity t" "ht_count t = occupied ?es" "uniq ?es"
      "chained (ht_hash t) {} ?es" "key_eq (ht_compare t)" using wf by (simp_all add: wf_table_def)
  obtain r where r: "find_loop (ht_compare t) ?es k ?s ?s = Some r" "found_ok ?es k r"
    using find_from_home [OF w(6,5), of k] w(1,2) by auto
  show ?thesis
  proof (cases r)
    case None
    then have "ht_map t k = None" using r(2) ht_map_None_iff [OF wf] by (simp add: found_ok_def)
    then show ?thesis using None r(1) w wf by (simp add: delete_from_hashtable_def Let_def fun_upd_idem)
  next
    case (Some i)
    obtain v where i: "in_slots ?es i k v" using r(2) Some by (auto simp: found_ok_def)
    then have il: "i < length ?es" "?es ! i = Some (k, v)" by (auto simp: in_slots_def)
    have kv: "ht_map t k = Some v" using i ht_map_iff [OF wf] by blast
    obtain es' where es': "shift_loop (ht_hash t) (?es[i := None]) i i = Some es'" "length es' = length ?es"
        "uniq es'" "chained (ht_hash t) {} es'" "holds es' = holds ?es - {(k, v)}"
        "occupied es' = occupied (?es[i := None])"
      using shift_loop_correct [OF shift_inv_start [OF w(4,5) i]] holds_remove [OF w(4) i] by auto
    have "Suc (occupied es') = ht_count t" using occupied_update [OF il(1), of None] il(2) es'(6) w(3) by simp
    then have oc: "occupied es' = ht_count t - 1" by simp
    let ?t = "t\<lparr>ht_elements := es', ht_count := ht_count t - 1\<rparr>"
    have wf': "wf_table ?t" using w es' oc by (simp add: wf_table_def)
    have "ht_map ?t = (ht_map t)(k := None)"
      unfolding wf_table_holds [OF wf'] using es'(5) kv by (auto simp: holds_iff [OF wf])
    then show ?thesis using Some r(1) w es'(1) kv wf' by (simp add: delete_from_hashtable_def Let_def)
  qed
qed

section \<open>The contract of a table\<close>

lemma get_correct:
  assumes wf: "wf_table t"
  shows "\<exists>r. get_from_hashtable t k = Inr r \<and>
    (case r of None \<Rightarrow> ht_map t k = None | Some i \<Rightarrow> \<exists>v. ht_elements t ! i = Some (k, v) \<and> i < ht_capacity t \<and> ht_map t k = Some v)"
proof -
  let ?es = "ht_elements t" and ?s = "home (ht_hash t) (ht_capacity t) k"
  have w: "0 < ht_capacity t" "length ?es = ht_capacity t" "chained (ht_hash t) {} ?es" "key_eq (ht_compare t)"
    using wf by (simp_all add: wf_table_def)
  obtain r where r: "find_loop (ht_compare t) ?es k ?s ?s = Some r" "found_ok ?es k r"
    using find_from_home [OF w(4,3), of k] w(1,2) by auto
  have "get_from_hashtable t k = Inr r" using r(1) w by (simp add: get_from_hashtable_def Let_def)
  moreover have "case r of None \<Rightarrow> ht_map t k = None
      | Some i \<Rightarrow> \<exists>v. ?es ! i = Some (k, v) \<and> i < ht_capacity t \<and> ht_map t k = Some v"
  proof (cases r)
    case None
    then show ?thesis using r(2) ht_map_None_iff [OF wf] by (simp add: found_ok_def)
  next
    case (Some i)
    then obtain v where "in_slots ?es i k v" using r(2) by (auto simp: found_ok_def)
    then show ?thesis using Some ht_map_iff [OF wf] w by (auto simp: in_slots_def)
  qed
  ultimately show ?thesis by blast
qed

lemma exist_correct:
  assumes wf: "wf_table t" shows "exist_in_hashtable t k = Inr (ht_map t k \<noteq> None)"
proof -
  have "exist_in_hashtable t k = bind_res (get_from_hashtable t k) (\<lambda>r. Inr (r \<noteq> None))"
    by (simp add: exist_in_hashtable_def get_from_hashtable_def Let_def)
  then show ?thesis using get_correct [OF wf, of k] by (auto split: option.splits)
qed

text \<open>The callers of \<open>get_from_hashtable\<close> read the value of the element it returns.\<close>

definition ht_lookup :: "('k, 'v) hashtable \<Rightarrow> 'k \<Rightarrow> 'v option res" where
  "ht_lookup t key = bind_res (get_from_hashtable t key) (\<lambda>r.
     case r of None \<Rightarrow> Inr None | Some i \<Rightarrow> Inr (map_option snd (ht_elements t ! i)))"

lemma lookup_correct: "wf_table t \<Longrightarrow> ht_lookup t k = Inr (ht_map t k)"
  using get_correct [of t k] by (auto simp: ht_lookup_def split: option.splits)

lemma create_correct:
  assumes "0 < n" "key_eq cmp"
  shows "\<exists>t. create_hashtable True True n h cmp = Some t \<and> wf_table t \<and> ht_map t = (\<lambda>_. None)"
  using assms by (simp add: create_hashtable_def wf_table_def ht_map_def foreach_entries fun_eq_iff)

lemma clear_correct:
  assumes "wf_table t" shows "wf_table (clear_hashtable t) \<and> ht_map (clear_hashtable t) = (\<lambda>_. None)"
  using assms by (simp add: clear_hashtable_def wf_table_def ht_map_def foreach_entries fun_eq_iff map_replicate_const)

text \<open>
  The contract the clients rely on (the keys of a database, the fields of a hash value, a set):
  a table is seen as a map, an insertion of a key that is there changes nothing.
\<close>

locale kv_table =
  fixes inv :: "'t \<Rightarrow> bool"
    and view :: "'t \<Rightarrow> 'k \<Rightarrow> 'v option"
    and calm :: "'m \<Rightarrow> bool"
    and ins :: "'m \<Rightarrow> 't \<Rightarrow> 'k \<Rightarrow> 'v \<Rightarrow> ('t \<times> nat option) res"
    and look :: "'t \<Rightarrow> 'k \<Rightarrow> 'v option res"
    and del :: "'t \<Rightarrow> 'k \<Rightarrow> ('t \<times> bool) res"
  assumes ins_law: "\<lbrakk>inv t; calm m\<rbrakk> \<Longrightarrow> \<exists>t' r. ins m t k v = Inr (t', r) \<and> inv t' \<and>
      view t' = (if r = None \<or> view t k \<noteq> None then view t else (view t)(k \<mapsto> v))"
    and look_law: "inv t \<Longrightarrow> look t k = Inr (view t k)"
    and del_law: "inv t \<Longrightarrow> \<exists>t'. del t k = Inr (t', view t k \<noteq> None) \<and> inv t' \<and> view t' = (view t)(k := None)"
begin

lemma look_after_ins:
  assumes "inv t" "calm m" "ins m t k v = Inr (t', Some i)"
  shows "look t' k' = Inr (if k' = k then Some (case view t k of None \<Rightarrow> v | Some old \<Rightarrow> old) else view t k')"
  using ins_law [OF assms(1,2), of k v] assms(3) look_law [of t'] by (auto split: option.splits)

lemma ins_keeps_inv: "\<lbrakk>inv t; calm m; ins m t k v = Inr (t', r)\<rbrakk> \<Longrightarrow> inv t'"
  using ins_law [of t m k v] by auto

lemma look_after_del:
  assumes "inv t" "del t k = Inr (t', b)"
  shows "look t' k' = Inr (if k' = k then None else view t k')"
  using del_law [OF assms(1), of k] assms(2) look_law [of t'] by auto

text \<open>To replace a value a client has to delete the key first.\<close>

lemma replace:
  assumes "inv t" "calm m"
  shows "\<exists>t1 b t2 r. del t k = Inr (t1, b) \<and> ins m t1 k v = Inr (t2, r) \<and> inv t2 \<and>
    view t2 = (if r = None then (view t)(k := None) else (view t)(k \<mapsto> v))"
proof -
  obtain t1 where d: "del t k = Inr (t1, view t k \<noteq> None)" "inv t1" "view t1 = (view t)(k := None)"
    using del_law [OF assms(1)] by blast
  obtain t2 r where i: "ins m t1 k v = Inr (t2, r)" "inv t2"
      "view t2 = (if r = None \<or> view t1 k \<noteq> None then view t1 else (view t1)(k \<mapsto> v))"
    using ins_law [OF d(2) assms(2)] by blast
  then have "view t2 = (if r = None then (view t)(k := None) else (view t)(k \<mapsto> v))" using d(3) by simp
  then show ?thesis using d(1) i(1,2) by blast
qed

end

interpretation ht: kv_table wf_table ht_map zeroed insert_into_hashtable ht_lookup delete_from_hashtable
proof unfold_locales
  fix t :: "('a, 'b) hashtable" and m :: "nat \<Rightarrow> ('a, 'b) slots option" and k v
  assume "wf_table t" "zeroed m"
  then show "\<exists>t' r. insert_into_hashtable m t k v = Inr (t', r) \<and> wf_table t' \<and>
      ht_map t' = (if r = None \<or> ht_map t k \<noteq> None then ht_map t else (ht_map t)(k \<mapsto> v))"
    using insert_correct [of t m k v] by (fastforce split: option.splits)
next
  fix t :: "('a, 'b) hashtable" and k
  assume wf: "wf_table t"
  show "ht_lookup t k = Inr (ht_map t k)" by (rule lookup_correct [OF wf])
  show "\<exists>t'. delete_from_hashtable t k = Inr (t', ht_map t k \<noteq> None) \<and> wf_table t' \<and> ht_map t' = (ht_map t)(k := None)"
    using delete_correct [OF wf, of k] by blast
qed

end
