(* ===== verification/Resp_Write.thy ===== *)
theory Resp_Write
  imports Number LinkedList HashTable
begin

text \<open>
  Values and how they are written to a client: the value types of \<open>headers/database/kv.h\<close>, the
  writers of \<open>src/resp/utils.c\<close> and \<open>write_value\<close> of \<open>src/server/utils.c\<close>.

  The numbers of the database are GMP numbers, and GMP is not part of the repository: a
  \<open>gmp\<close> record holds the operations the source calls, as an argument of everything that uses
  them. What its manual promises about them is stated in \<open>gmp_ok\<close>, relative to the integer an
  \<open>mpz_t\<close> stands for.

  The response is written into \<open>write_buf\<close>, from position 0 on and without gaps. It is modelled by
  the bytes written so far; a write past its \<open>MAX_RESPONSE_SIZE\<close> bytes is \<open>OutOfBounds\<close>.
\<close>

section \<open>GMP\<close>

record ('z, 'f) gmp =
  mpz_get_str :: "'z \<Rightarrow> bytes"             \<comment> \<open>base 10\<close>
  mpz_sizeinbase :: "'z \<Rightarrow> nat"            \<comment> \<open>base 10\<close>
  mpz_sgn :: "'z \<Rightarrow> int"
  mpz_fits_slong :: "'z \<Rightarrow> bool"
  mpz_init_set_str :: "bytes \<Rightarrow> 'z"        \<comment> \<open>of a C string, base 10\<close>
  mpz_init_set_ui :: "nat \<Rightarrow> 'z"
  mpz_add :: "'z \<Rightarrow> 'z \<Rightarrow> 'z"
  mpz_sub :: "'z \<Rightarrow> 'z \<Rightarrow> 'z"
  mpz_add_ui :: "'z \<Rightarrow> nat \<Rightarrow> 'z"
  mpz_sub_ui :: "'z \<Rightarrow> nat \<Rightarrow> 'z"
  mpz_neg :: "'z \<Rightarrow> 'z"
  mpf_get_str :: "'f \<Rightarrow> bytes \<times> int"      \<comment> \<open>the digits and the exponent\<close>
  mpf_fits_slong :: "'f \<Rightarrow> bool"
  mpf_set_str :: "bytes \<Rightarrow> 'f"             \<comment> \<open>on a new number of \<open>FLOAT_PRECISION\<close> bits\<close>
  mpf_set_z :: "'z \<Rightarrow> 'f"
  mpf_add :: "'f \<Rightarrow> 'f \<Rightarrow> 'f"
  mpf_sub :: "'f \<Rightarrow> 'f \<Rightarrow> 'f"
  mpf_neg :: "'f \<Rightarrow> 'f"
  mpf_add_ui :: "'f \<Rightarrow> nat \<Rightarrow> 'f"
  mpf_sub_ui :: "'f \<Rightarrow> nat \<Rightarrow> 'f"

definition int_of_text :: "bytes \<Rightarrow> int" where
  "int_of_text s = (case s of CHR ''-'' # t \<Rightarrow> - int (dec_val t) | _ \<Rightarrow> int (dec_val s))"

text \<open>
  The documented behaviour of the integer functions: \<open>val z\<close> is the integer \<open>z\<close> stands for.
  \<open>mpz_sizeinbase\<close> is exact or one too big for bases that are not powers of 2.
\<close>

definition gmp_ok :: "('z, 'f) gmp \<Rightarrow> ('z \<Rightarrow> int) \<Rightarrow> bool" where
  "gmp_ok g val \<longleftrightarrow>
     (\<forall>z. mpz_get_str g z = int_text (val z)) \<and>
     (\<forall>z. mpz_sizeinbase g z = length (decimal (nat \<bar>val z\<bar>)) \<or>
          mpz_sizeinbase g z = Suc (length (decimal (nat \<bar>val z\<bar>)))) \<and>
     (\<forall>z. mpz_sgn g z = sgn (val z)) \<and>
     (\<forall>z. mpz_fits_slong g z \<longleftrightarrow> - (2 ^ 63) \<le> val z \<and> val z < 2 ^ 63) \<and>
     (\<forall>s. int_literal s \<longrightarrow> val (mpz_init_set_str g s) = int_of_text s) \<and>
     (\<forall>n. val (mpz_init_set_ui g n) = int n) \<and>
     (\<forall>a b. val (mpz_add g a b) = val a + val b) \<and>
     (\<forall>a b. val (mpz_sub g a b) = val a - val b) \<and>
     (\<forall>a n. val (mpz_add_ui g a n) = val a + int n) \<and>
     (\<forall>a n. val (mpz_sub_ui g a n) = val a - int n) \<and>
     (\<forall>a. val (mpz_neg g a) = - val a)"

section \<open>Values\<close>

text \<open>
  \<open>TellyType\<close> and \<open>Value\<close>. The commands put only plain values into lists and hash tables, which is
  why a value has two levels. \<open>TELLY_UNKNOWN\<close> is never stored. \<open>VLost\<close> is a double whose data
  pointer is NULL, which an \<open>INCRBY\<close> that runs out of memory leaves behind.
\<close>

datatype ('z, 'f) prim = PNull | PInt 'z | PDouble 'f | PStr bytes | PBool bool

datatype ('z, 'f) val =
    Prim "('z, 'f) prim"
  | VHash "(bytes, ('z, 'f) prim) hashtable"
  | VList "(('z, 'f) prim) linkedlist"
  | VLost

datatype protover = RESP2 | RESP3

section \<open>The write buffer\<close>

type_synonym out = bytes

definition MAX_RESPONSE_SIZE :: nat where
  "MAX_RESPONSE_SIZE = 262144"

definition put :: "out \<Rightarrow> bytes \<Rightarrow> out res" where
  "put out bs = (if length out + length bs \<le> MAX_RESPONSE_SIZE then Inr (out @ bs) else Inl OutOfBounds)"

text \<open>
  \<open>ltoa\<close> into the buffer: at most 20 characters and the NUL it ends them with, which the next
  write overwrites.
\<close>

definition put_ltoa :: "out \<Rightarrow> 64 word \<Rightarrow> out res" where
  "put_ltoa out v =
     bind_res (ltoa v (replicate 21 NUL)) (\<lambda>(digits, n).
       if MAX_RESPONSE_SIZE < length out + n + 1 then Inl OutOfBounds else Inr (out @ take n digits))"

definition create_resp_integer :: "out \<Rightarrow> 64 word \<Rightarrow> out res" where
  "create_resp_integer out v =
     bind_res (put out '':'') (\<lambda>out. bind_res (put_ltoa out v) (\<lambda>out. put out CRLF))"

definition create_resp_string :: "out \<Rightarrow> bytes \<Rightarrow> out res" where
  "create_resp_string out s =
     bind_res (put out ''$'') (\<lambda>out.
     bind_res (put_ltoa out (word_of_nat (length s))) (\<lambda>out.
     bind_res (put out CRLF) (\<lambda>out.
     bind_res (put out s) (\<lambda>out. put out CRLF))))"

text \<open>The number of a length in a buffer of four characters, NUL included.\<close>

definition small_digits :: "nat \<Rightarrow> bytes res" where
  "small_digits n = bind_res (ltoa (word_of_nat n) (replicate 4 NUL)) (\<lambda>(digits, k). Inr (take k digits))"

definition create_resp_integer_mpz :: "('z, 'f) gmp \<Rightarrow> protover \<Rightarrow> out \<Rightarrow> 'z \<Rightarrow> out res" where
  "create_resp_integer_mpz g protover out value =
     (if \<not> mpz_fits_slong g value \<and> protover = RESP2 then
        let str = mpz_get_str g value @ [NUL];
            sz = mpz_sizeinbase g value + (if mpz_sgn g value = - 1 then 1 else 0) in
        bind_res (mem_get str (sz - 2)) (\<lambda>c.
        let length1 = (if c = NUL then sz - 1 else sz) in
        bind_res (small_digits length1) (\<lambda>digits.
        bind_res (put out ''$'') (\<lambda>out.
        bind_res (put out digits) (\<lambda>out.
        bind_res (put out CRLF) (\<lambda>out.
        if length str < length1 then Inl OutOfBounds
        else bind_res (put out (take length1 str)) (\<lambda>out. put out CRLF))))))
      else
        let text = mpz_get_str g value @ [NUL];
            sz = mpz_sizeinbase g value + (if mpz_sgn g value = - 1 then 1 else 0) in
        bind_res (put out (if mpz_fits_slong g value then '':'' else ''('')) (\<lambda>out.
        bind_res (put out text) (\<lambda>_.
        bind_res (mem_get text (sz - 1)) (\<lambda>c.
        let n = (if c = NUL then sz - 1 else sz) in
        bind_res (put out (take n text)) (\<lambda>out. put out CRLF)))))"

text \<open>
  \<open>create_resp_integer_mpf\<close>: the loop copies the digits with a point before digit number \<open>exp\<close>;
  \<open>body\<close> is what it leaves at \<open>buf + 1\<close>. \<open>nbytes\<close> is signed in the source; writing at a negative
  position of the buffer is out of bounds.
\<close>

fun mpf_body :: "bytes \<Rightarrow> int \<Rightarrow> int \<Rightarrow> bytes" where
  "mpf_body [] i e = []"
| "mpf_body (c # str) i e = (if i = e then CHR ''.'' # c # mpf_body str (i + 1) e else c # mpf_body str (i + 1) e)"

definition create_resp_integer_mpf :: "('z, 'f) gmp \<Rightarrow> protover \<Rightarrow> out \<Rightarrow> 'f \<Rightarrow> out res" where
  "create_resp_integer_mpf g protover out value =
     (case mpf_get_str g value of (str, e) \<Rightarrow>
      if str = [] then put out ('':0'' @ CRLF)
      else let e = (if hd str = CHR ''-'' then e + 1 else e); body = mpf_body str 0 e in
        bind_res (put out (CHR '' '' # body)) (\<lambda>_.
        if int (length str) = e then
          if \<not> mpf_fits_slong g value then
            (case protover of
              RESP2 \<Rightarrow>
                bind_res (small_digits (nat e)) (\<lambda>digits.
                bind_res (put out (''$'' @ digits @ CRLF)) (\<lambda>out.
                bind_res (put out (take (nat e) str)) (\<lambda>out. put out CRLF)))
            | RESP3 \<Rightarrow>
                bind_res (put out ''('') (\<lambda>out.
                bind_res (put out (take (nat e) str)) (\<lambda>out. put out CRLF)))
          else bind_res (put out '':'') (\<lambda>out. put out CRLF)
        else case protover of
            RESP2 \<Rightarrow>
              if e = 0 then put out ('':0'' @ CRLF)
              else let nbytes = min (e + 1) (int (length body) + 1) in
                if nbytes < 0 then Inl OutOfBounds
                else put out (take (nat nbytes) (CHR '':'' # body) @ CRLF)
          | RESP3 \<Rightarrow> bind_res (put out '','') (\<lambda>out. bind_res (put out body) (\<lambda>out. put out CRLF))))"

definition RESP_OK_MESSAGE :: "bytes \<Rightarrow> bytes" where
  "RESP_OK_MESSAGE m = ''+'' @ m @ CRLF"

definition RESP_ERROR_MESSAGE :: "bytes \<Rightarrow> bytes" where
  "RESP_ERROR_MESSAGE m = ''-'' @ m @ CRLF"

definition RESP_OK :: bytes where
  "RESP_OK = ''+OK'' @ CRLF"

definition RESP_ERROR :: bytes where
  "RESP_ERROR = ''-ERROR'' @ CRLF"

definition OUT_OF_MEMORY :: bytes where
  "OUT_OF_MEMORY = RESP_ERROR_MESSAGE ''Out of memory''"

definition RESP_NULL :: "protover \<Rightarrow> bytes" where
  "RESP_NULL protover = (case protover of RESP2 \<Rightarrow> ''$-1'' @ CRLF | RESP3 \<Rightarrow> ''_'' @ CRLF)"

definition bool_text :: "protover \<Rightarrow> bool \<Rightarrow> bytes" where
  "bool_text protover b = (case protover of
       RESP2 \<Rightarrow> RESP_OK_MESSAGE (if b then ''true'' else ''false'')
     | RESP3 \<Rightarrow> (if b then ''#t'' else ''#f'') @ CRLF)"

text \<open>
  \<open>write_value\<close> writes at \<open>buffer\<close>, the end of what was written, or answers a constant string. The
  result is the answered string; \<open>out\<close> matters for the room that is left.
\<close>

definition answer :: "out \<Rightarrow> out res \<Rightarrow> bytes res" where
  "answer out r = bind_res r (\<lambda>out'. Inr (drop (length out) out'))"

definition write_prim :: "('z, 'f) gmp \<Rightarrow> ('z, 'f) prim \<Rightarrow> protover \<Rightarrow> out \<Rightarrow> bytes res" where
  "write_prim g v protover out = (case v of
       PNull \<Rightarrow> Inr (RESP_NULL protover)
     | PInt z \<Rightarrow> answer out (create_resp_integer_mpz g protover out z)
     | PDouble f \<Rightarrow> answer out (create_resp_integer_mpf g protover out f)
     | PStr s \<Rightarrow> answer out (create_resp_string out s)
     | PBool b \<Rightarrow> Inr (bool_text protover b))"

definition write_value :: "('z, 'f) gmp \<Rightarrow> ('z, 'f) val \<Rightarrow> protover \<Rightarrow> out \<Rightarrow> bytes res" where
  "write_value g v protover out = (case v of
       Prim p \<Rightarrow> write_prim g p protover out
     | VHash t \<Rightarrow> Inr (RESP_OK_MESSAGE ''hash table'')
     | VList l \<Rightarrow> Inr (RESP_OK_MESSAGE ''list'')
     | VLost \<Rightarrow> Inl NullDeref)"

definition prim_type_name :: "('z, 'f) prim \<Rightarrow> bytes" where
  "prim_type_name v = (case v of PNull \<Rightarrow> ''null'' | PInt z \<Rightarrow> ''integer'' | PDouble f \<Rightarrow> ''double''
     | PStr s \<Rightarrow> ''string'' | PBool b \<Rightarrow> ''boolean'')"

definition get_resp_type_name :: "('z, 'f) val \<Rightarrow> bytes" where
  "get_resp_type_name v = RESP_OK_MESSAGE (case v of
       Prim p \<Rightarrow> prim_type_name p | VHash t \<Rightarrow> ''hashtable'' | VList l \<Rightarrow> ''list'' | VLost \<Rightarrow> ''double'')"

section \<open>What is written\<close>

lemma int_text_small: "\<bar>i\<bar> < 2 ^ 63 \<Longrightarrow> length (int_text i) \<le> 20"
proof -
  assume i: "\<bar>i\<bar> < 2 ^ 63"
  have "length (decimal (nat \<bar>i\<bar>)) \<le> 19"
  proof (cases "nat \<bar>i\<bar> = 0")
    case False
    then have "10 ^ (length (decimal (nat \<bar>i\<bar>)) - 1) \<le> nat \<bar>i\<bar>" using decimal_length by blast
    also have "\<dots> < 10 ^ 19" using i by (simp add: nat_less_iff)
    finally have "length (decimal (nat \<bar>i\<bar>)) - 1 < 19" by (rule power_less_imp_less_exp [rotated]) simp
    then show ?thesis by simp
  qed (simp add: decimal.simps)
  then show ?thesis by (auto simp: int_text_def abs_if split: if_splits)
qed

lemma put_ltoa_text:
  assumes v: "sint v \<noteq> - (2 ^ 63)" and room: "length out + length (int_text (sint v)) < MAX_RESPONSE_SIZE"
  shows "put_ltoa out v = Inr (out @ int_text (sint v))"
proof -
  have range: "- (2 ^ 63) \<le> sint v" "sint v < 2 ^ 63" using sint_range_size [of v] by (auto simp: size_word_def)
  have "\<bar>sint v\<bar> < 2 ^ 63" using range v by linarith
  then have "length (int_text (sint v)) \<le> 20" by (rule int_text_small)
  then have "length (int_text (sint v)) < length (replicate 21 NUL)" by simp
  from ltoa_text [OF v this] show ?thesis using room by (simp add: put_ltoa_def)
qed

lemma sint_of_nat_small: "n < 2 ^ 63 \<Longrightarrow> sint (word_of_nat n :: 64 word) = int n"
proof -
  assume n: "n < 2 ^ 63"
  have "sint (word_of_nat n :: 64 word) = signed_take_bit 63 (int n)" by (simp add: signed_of_nat)
  also have "\<dots> = int n"
  proof (rule signed_take_bit_int_eq_self)
    have "- (2 ^ 63) \<le> (0::int)" by simp
    then show "- (2 ^ 63) \<le> int n" by (rule order_trans) simp
    have "int n < int (2 ^ 63)" using n by (simp only: of_nat_less_iff)
    then show "int n < 2 ^ 63" by simp
  qed
  finally show ?thesis .
qed

text \<open>The integers and bulk strings of the protocol.\<close>

definition resp_int :: "int \<Rightarrow> bytes" where
  "resp_int i = '':'' @ int_text i @ CRLF"

definition resp_bulk :: "bytes \<Rightarrow> bytes" where
  "resp_bulk s = ''$'' @ decimal (length s) @ CRLF @ s @ CRLF"

lemma create_resp_integer_text:
  assumes "sint v \<noteq> - (2 ^ 63)" "length out + length (resp_int (sint v)) \<le> MAX_RESPONSE_SIZE"
  shows "create_resp_integer out v = Inr (out @ resp_int (sint v))"
proof -
  have "put_ltoa (out @ '':'') v = Inr ((out @ '':'') @ int_text (sint v))"
    using assms by (intro put_ltoa_text) (simp_all add: resp_int_def)
  then show ?thesis using assms(2) by (simp add: create_resp_integer_def put_def resp_int_def)
qed

lemma create_resp_integer_nat:
  assumes "n < 2 ^ 63" "length out + length (resp_int (int n)) \<le> MAX_RESPONSE_SIZE"
  shows "create_resp_integer out (word_of_nat n) = Inr (out @ resp_int (int n))"
  using create_resp_integer_text [of "word_of_nat n" out] assms sint_of_nat_small [OF assms(1)] by simp

lemma create_resp_string_text:
  assumes room: "length out + length (resp_bulk s) \<le> MAX_RESPONSE_SIZE"
  shows "create_resp_string out s = Inr (out @ resp_bulk s)"
proof -
  have "length s < 2 ^ 63" using room by (simp add: resp_bulk_def MAX_RESPONSE_SIZE_def)
  then have v: "sint (word_of_nat (length s) :: 64 word) = int (length s)" by (rule sint_of_nat_small)
  have "put_ltoa (out @ ''$'') (word_of_nat (length s)) = Inr ((out @ ''$'') @ int_text (int (length s)))"
    using room v put_ltoa_text [of "word_of_nat (length s)" "out @ ''$''"] by (simp add: resp_bulk_def int_text_def)
  then show ?thesis
    using room by (simp add: create_resp_string_def put_def resp_bulk_def int_text_def)
qed

text \<open>Integers beyond 64 bits: the size estimate of GMP, sign included.\<close>

lemma size_estimate:
  fixes z :: 'z
  assumes ok: "gmp_ok g val"
  defines "sz \<equiv> mpz_sizeinbase g z + (if mpz_sgn g z = - 1 then 1 else 0)"
  shows "sz = length (int_text (val z)) \<or> sz = Suc (length (int_text (val z)))"
proof -
  have "mpz_sizeinbase g z = length (decimal (nat \<bar>val z\<bar>)) \<or>
      mpz_sizeinbase g z = Suc (length (decimal (nat \<bar>val z\<bar>)))" "mpz_sgn g z = sgn (val z)"
    using ok unfolding gmp_ok_def by blast+
  then show ?thesis by (cases "val z < 0") (auto simp: sz_def int_text_def sgn_if)
qed

lemma int_text_no_nul: "NUL \<notin> set (int_text i)"
proof -
  have "NUL \<notin> set (decimal n)" for n
    using decimal_digits [of n] by (auto simp: list_all_iff)
  then show ?thesis by (simp add: int_text_def)
qed

lemma int_text_not_Nil [simp]: "int_text i \<noteq> []"
  by (simp add: int_text_def)

lemma nth_no_nul: "\<lbrakk>NUL \<notin> set s; i < length s\<rbrakk> \<Longrightarrow> s ! i \<noteq> NUL"
  by (metis nth_mem)

lemma mpz_text:
  assumes ok: "gmp_ok g val" and small: "mpz_fits_slong g z \<or> protover = RESP3"
    and room: "length out + length (int_text (val z)) + 3 \<le> MAX_RESPONSE_SIZE"
  shows "create_resp_integer_mpz g protover out z =
    Inr (out @ (if mpz_fits_slong g z then '':'' else ''('') @ int_text (val z) @ CRLF)"
proof -
  define t where "t = int_text (val z)"
  define sz where "sz = mpz_sizeinbase g z + (if mpz_sgn g z = - 1 then 1 else 0)"
  have sz: "sz = length t \<or> sz = Suc (length t)" unfolding sz_def t_def by (rule size_estimate [OF ok])
  have str: "mpz_get_str g z = t" using ok by (simp add: gmp_ok_def t_def)
  have t0: "t \<noteq> []" "NUL \<notin> set t" using int_text_no_nul by (simp_all add: t_def)
  have "mem_get (t @ [NUL]) (sz - 1) = Inr ((t @ [NUL]) ! (sz - 1))" using sz t0 by (intro mem_get_simps) auto
  moreover have "(if (t @ [NUL]) ! (sz - 1) = NUL then sz - 1 else sz) = length t"
  proof (cases "sz = length t")
    case True
    have "t ! (length t - 1) \<noteq> NUL" using t0 by (intro nth_no_nul) simp_all
    then show ?thesis using True t0(1) by (simp add: nth_append)
  next
    case False
    then have "sz = Suc (length t)" using sz by simp
    then show ?thesis by (simp add: nth_append)
  qed
  ultimately have "create_resp_integer_mpz g protover out z =
      bind_res (put out (if mpz_fits_slong g z then '':'' else ''('')) (\<lambda>out.
        bind_res (put out (t @ [NUL])) (\<lambda>_. bind_res (put out t) (\<lambda>out. put out CRLF)))"
    using small str unfolding create_resp_integer_mpz_def Let_def sz_def [symmetric] by auto
  also have "\<dots> = Inr (out @ (if mpz_fits_slong g z then '':'' else ''('') @ t @ CRLF)"
    using room by (simp add: put_def t_def)
  finally show ?thesis by (simp add: t_def)
qed

lemma decimal_length_3: "n < 1000 \<Longrightarrow> length (decimal n) \<le> 3"
proof (cases "n = 0")
  case False
  assume n: "n < 1000"
  have "10 ^ (length (decimal n) - 1) \<le> n" using False decimal_length by blast
  also have "\<dots> < 10 ^ 3" using n by simp
  finally have "length (decimal n) - 1 < 3" by (rule power_less_imp_less_exp [rotated]) simp
  then show ?thesis by simp
qed (simp add: decimal.simps)

lemma small_digits_text: "n < 1000 \<Longrightarrow> small_digits n = Inr (decimal n)"
proof -
  assume n: "n < 1000"
  have v: "sint (word_of_nat n :: 64 word) = int n" using n by (intro sint_of_nat_small) simp
  then show ?thesis using ltoa_text [of "word_of_nat n" "replicate 4 NUL"] decimal_length_3 [OF n]
    by (simp add: small_digits_def int_text_def)
qed

text \<open>
  Over RESP2 a number that does not fit 64 bits is a bulk string. The test for the estimate that
  is one too big looks at the wrong character, so the terminating NUL is sent as a digit.
\<close>

lemma mpz_big_resp2:
  fixes z :: 'z
  assumes ok: "gmp_ok g val" and big: "\<not> mpz_fits_slong g z"
    and few: "length (int_text (val z)) < 999"
    and room: "length out + 1010 \<le> MAX_RESPONSE_SIZE"
  defines "sz \<equiv> mpz_sizeinbase g z + (if mpz_sgn g z = - 1 then 1 else 0)"
  shows "create_resp_integer_mpz g RESP2 out z = Inr (out @
    (if sz = length (int_text (val z)) then resp_bulk (int_text (val z)) else resp_bulk (int_text (val z) @ [NUL])))"
proof -
  define t where "t = int_text (val z)"
  have sz: "sz = length t \<or> sz = Suc (length t)" unfolding sz_def t_def by (rule size_estimate [OF ok])
  have str: "mpz_get_str g z = t" using ok by (simp add: gmp_ok_def t_def)
  have t0: "t \<noteq> []" "NUL \<notin> set t" using int_text_no_nul by (simp_all add: t_def)
  have i: "sz - 2 < length t" using sz t0 by (cases t) auto
  then have "mem_get (t @ [NUL]) (sz - 2) = Inr (t ! (sz - 2))" by (simp add: mem_get_def nth_append)
  moreover have "t ! (sz - 2) \<noteq> NUL" using nth_no_nul [OF t0(2) i] .
  moreover have sd: "small_digits sz = Inr (decimal sz)" using sz few by (intro small_digits_text) (auto simp: t_def)
  ultimately have c: "create_resp_integer_mpz g RESP2 out z =
      bind_res (put out ''$'') (\<lambda>out. bind_res (put out (decimal sz)) (\<lambda>out. bind_res (put out CRLF) (\<lambda>out.
        bind_res (put out (take sz (t @ [NUL]))) (\<lambda>out. put out CRLF))))"
    using big str sz unfolding create_resp_integer_mpz_def Let_def sz_def [symmetric] by auto
  have d3: "length (decimal sz) \<le> 3" using sz few by (intro decimal_length_3) (auto simp: t_def)
  show ?thesis
  proof (cases "sz = length t")
    case True
    then show ?thesis using c d3 room few by (simp add: put_def resp_bulk_def t_def [symmetric])
  next
    case False
    then have "sz = Suc (length t)" using sz by simp
    then show ?thesis using c d3 room few by (simp add: put_def resp_bulk_def t_def [symmetric])
  qed
qed

text \<open>
  Doubles. GMP gives the digits without trailing zeros and the position of the point. The writer
  drops the digits of a double that has no fractional part, and the zeros a number ends with.
\<close>

lemma mpf_integral:
  assumes "mpf_get_str g x = (ds, int (length ds))" "ds \<noteq> []" "hd ds \<noteq> CHR ''-''" "mpf_fits_slong g x"
    and "length out + 2 * length ds + 3 \<le> MAX_RESPONSE_SIZE"
  shows "create_resp_integer_mpf g protover out x = Inr (out @ '':'' @ CRLF)"
proof -
  have "length (mpf_body ds i e) \<le> 2 * length ds" for i e by (induction ds i e rule: mpf_body.induct) auto
  then have "length (mpf_body ds 0 (int (length ds))) \<le> 2 * length ds" .
  then show ?thesis using assms by (simp add: create_resp_integer_mpf_def put_def)
qed

lemma mpf_body_plain: "i + int (length ds) \<le> e \<Longrightarrow> mpf_body ds i e = ds"
  by (induction ds i e rule: mpf_body.induct) auto

lemma mpf_round_number:
  assumes "mpf_get_str g x = (ds, int (length ds) + int (Suc zeros))" "ds \<noteq> []" "hd ds \<noteq> CHR ''-''"
    and "length out + length ds + 3 \<le> MAX_RESPONSE_SIZE"
  shows "create_resp_integer_mpf g RESP3 out x = Inr (out @ '','' @ ds @ CRLF)"
    and "create_resp_integer_mpf g RESP2 out x = Inr (out @ '':'' @ ds @ CRLF)"
  using assms by (simp_all add: create_resp_integer_mpf_def put_def mpf_body_plain Let_def min_def)

lemma mpf_tiny:
  assumes "mpf_get_str g x = (ds, e)" "e < - 1" "ds \<noteq> []" "hd ds \<noteq> CHR ''-''"
    and "length out + 2 * length ds + 3 \<le> MAX_RESPONSE_SIZE"
  shows "create_resp_integer_mpf g RESP2 out x = Inl OutOfBounds"
proof -
  have "length (mpf_body ds i e) \<le> 2 * length ds" for i e by (induction ds i e rule: mpf_body.induct) auto
  then have "length (mpf_body ds 0 e) \<le> 2 * length ds" .
  then show ?thesis using assms by (simp add: create_resp_integer_mpf_def put_def Let_def)
qed

end
