(* ===== verification/Store.thy ===== *)
theory Store
  imports Text Resp_Write
begin

text \<open>
  The key-value store: \<open>src/database/kv.c\<close>, \<open>get.c\<close>, \<open>set.c\<close>, \<open>delete.c\<close> and \<open>databases.c\<close>. A
  \<open>KeyValue *\<close> is the slot of the table that holds the pointer, together with the \<open>KeyValue\<close>; its key
  is the key of the slot. The allocations a function makes are its boolean arguments, in the order
  the code makes them.
\<close>

section \<open>Keys and values\<close>

record ('z, 'f) kv =
  kv_value :: "('z, 'f) val"
  kv_expiry :: "64 word option"   \<comment> \<open>\<open>Expiry\<close>: \<open>None\<close> when it is not enabled\<close>

record ('z, 'f) database =
  db_name :: bytes
  db_id :: "64 word"
  db_data :: "(bytes, ('z, 'f) kv) hashtable"

type_synonym ('z, 'f) kv_ptr = "nat \<times> ('z, 'f) kv"
type_synonym ('z, 'f) kv_mem = "nat \<Rightarrow> (bytes, ('z, 'f) kv) slots option"

text \<open>
  \<open>free_value\<close>: freeing a list walks over its nodes. The fields of a hash table are freed through
  the \<open>KeyValue\<close> layout, which a \<open>NameValue\<close> shares.
\<close>

definition free_value :: "('z, 'f) val \<Rightarrow> unit res" where
  "free_value v = (case v of
       Prim p \<Rightarrow> Inr ()
     | VHash t \<Rightarrow> Inr ()
     | VList l \<Rightarrow> bind_res (ll_free l) (\<lambda>_. Inr ())
     | VLost \<Rightarrow> Inl NullDeref)"

definition free_kv :: "('z, 'f) kv \<Rightarrow> unit res" where
  "free_kv kv = free_value (kv_value kv)"

text \<open>\<open>set_kv\<close> fills a new \<open>KeyValue\<close>; \<open>ok\<close> is the allocation of its copy of the key.\<close>

definition set_kv :: "bool \<Rightarrow> ('z, 'f) val \<Rightarrow> 64 word option \<Rightarrow> ('z, 'f) kv option" where
  "set_kv ok data expire_at = (if ok then Some \<lparr>kv_value = data, kv_expiry = expire_at\<rparr> else None)"

section \<open>Access to a database\<close>

definition get_data :: "('z, 'f) database \<Rightarrow> bytes \<Rightarrow> ('z, 'f) kv_ptr option res" where
  "get_data db key = bind_res (get_from_hashtable (db_data db) key) (\<lambda>r. Inr (case r of
       None \<Rightarrow> None
     | Some i \<Rightarrow> map_option (\<lambda>e. (i, snd e)) (ht_elements (db_data db) ! i)))"

text \<open>Writing through a \<open>KeyValue *\<close>.\<close>

definition write_kv :: "('z, 'f) database \<Rightarrow> nat \<Rightarrow> ('z, 'f) kv \<Rightarrow> ('z, 'f) database" where
  "write_kv db i kv = db\<lparr>db_data := (db_data db)\<lparr>ht_elements :=
     (ht_elements (db_data db))[i := map_option (\<lambda>e. (fst e, kv)) (ht_elements (db_data db) ! i)]\<rparr>\<rparr>"

definition set_data ::
  "bool \<Rightarrow> bool \<Rightarrow> ('z, 'f) kv_mem \<Rightarrow> ('z, 'f) database \<Rightarrow> ('z, 'f) kv_ptr option \<Rightarrow> bytes \<Rightarrow>
   ('z, 'f) val \<Rightarrow> 64 word option \<Rightarrow> (('z, 'f) database \<times> nat option) res" where
  "set_data ok1 ok2 mem db kv key data expire_at =
     (case kv of
        Some (i, old) \<Rightarrow>
          bind_res (free_value (kv_value old)) (\<lambda>_.
            Inr (write_kv db i \<lparr>kv_value = data, kv_expiry = expire_at\<rparr>, Some i))
      | None \<Rightarrow>
          if \<not> ok1 then Inr (db, None)
          else case set_kv ok2 data expire_at of
              None \<Rightarrow> Inr (db, None)
            | Some kv \<Rightarrow>
                bind_res (insert_into_hashtable mem (db_data db) key kv) (\<lambda>(t, element).
                  Inr (db\<lparr>db_data := t\<rparr>, element)))"

definition delete_data :: "('z, 'f) database \<Rightarrow> bytes \<Rightarrow> (('z, 'f) database \<times> bool) res" where
  "delete_data db key =
     bind_res (get_data db key) (\<lambda>r. case r of
         None \<Rightarrow> Inr (db, False)
       | Some (i, kv) \<Rightarrow>
           bind_res (delete_from_hashtable (db_data db) key) (\<lambda>(t, deleted).
             if \<not> deleted then Inr (db\<lparr>db_data := t\<rparr>, False)
             else bind_res (free_value (kv_value kv)) (\<lambda>_. Inr (db\<lparr>db_data := t\<rparr>, True))))"

fun free_all :: "(bytes \<times> ('z, 'f) kv) list \<Rightarrow> unit res" where
  "free_all [] = Inr ()"
| "free_all (e # es) = bind_res (free_kv (snd e)) (\<lambda>_. free_all es)"

definition clear_database :: "('z, 'f) database \<Rightarrow> ('z, 'f) database res" where
  "clear_database db =
     bind_res (free_all (foreach_hashtable (db_data db))) (\<lambda>_. Inr (db\<lparr>db_data := clear_hashtable (db_data db)\<rparr>))"

datatype expiry_state = EXPIRY_SYSCALL_ERROR | EXPIRY_DELETING_ERROR | EXPIRY_NOT_EXPIRED | EXPIRY_EXPIRED

text \<open>
  \<open>now\<close>: the clock in milliseconds as the function computes it, or \<open>None\<close> when \<open>clock_gettime\<close>
  fails. The value of an expired key is not freed, only its slot.
\<close>

definition check_kv_expiry ::
  "64 word option \<Rightarrow> ('z, 'f) database \<Rightarrow> bytes \<Rightarrow> ('z, 'f) kv \<Rightarrow> (('z, 'f) database \<times> expiry_state) res" where
  "check_kv_expiry now db key kv = (case kv_expiry kv of
       None \<Rightarrow> Inr (db, EXPIRY_NOT_EXPIRED)
     | Some at \<Rightarrow> (case now of
         None \<Rightarrow> Inr (db, EXPIRY_SYSCALL_ERROR)
       | Some now \<Rightarrow>
           if at \<le> now then
             bind_res (delete_from_hashtable (db_data db) key) (\<lambda>(t, deleted).
               Inr (db\<lparr>db_data := t\<rparr>, if deleted then EXPIRY_EXPIRED else EXPIRY_DELETING_ERROR))
           else Inr (db, EXPIRY_NOT_EXPIRED)))"

section \<open>The list of databases\<close>

type_synonym ('z, 'f) databases = "('z, 'f) database linkedlist option"

definition allocate_database :: "bool \<Rightarrow> bool \<Rightarrow> bool \<Rightarrow> bool \<Rightarrow> bytes \<Rightarrow> nat \<Rightarrow> ('z, 'f) database option" where
  "allocate_database ok1 ok2 ok3 ok4 name capacity =
     (if \<not> ok1 then None else if \<not> ok2 then None
      else case create_hashtable ok3 ok4 capacity string_hash string_compare of
          None \<Rightarrow> None
        | Some t \<Rightarrow> Some \<lparr>db_name = name, db_id = string_hash name, db_data = t\<rparr>)"

text \<open>The result is the list and the node of the new database.\<close>

definition create_database ::
  "bool \<Rightarrow> bool \<Rightarrow> bool \<Rightarrow> bool \<Rightarrow> bool \<Rightarrow> nat option \<Rightarrow> ('z, 'f) databases \<Rightarrow> bytes \<Rightarrow> nat \<Rightarrow>
   (('z, 'f) databases \<times> nat option) res" where
  "create_database ok1 ok2 ok3 ok4 ok5 fresh dbs name capacity =
     (case allocate_database ok1 ok2 ok3 ok4 name capacity of
        None \<Rightarrow> Inr (dbs, None)
      | Some db \<Rightarrow>
          (case (case dbs of None \<Rightarrow> ll_create ok5 | Some l \<Rightarrow> Some l) of
             None \<Rightarrow> Inr (None, None)
           | Some l \<Rightarrow> bind_res (ll_insert_back fresh l db) (\<lambda>(l, node). Inr (Some l, node))))"

definition same_database :: "bytes \<Rightarrow> ('z, 'f) database \<Rightarrow> bool" where
  "same_database name db \<longleftrightarrow> db_id db = string_hash name \<and> db_name db = name"

definition get_database :: "('z, 'f) databases \<Rightarrow> bytes \<Rightarrow> nat option res" where
  "get_database dbs name = (case dbs of None \<Rightarrow> Inl NullDeref
     | Some l \<Rightarrow> ll_search_node l LL_BACK (same_database name))"

definition rename_database :: "bool \<Rightarrow> ('z, 'f) databases \<Rightarrow> bytes \<Rightarrow> bytes \<Rightarrow> (('z, 'f) databases \<times> bool) res" where
  "rename_database ok dbs old_name new_name =
     bind_res (get_database dbs old_name) (\<lambda>node. case node of
         None \<Rightarrow> Inr (dbs, False)
       | Some p \<Rightarrow>
           if \<not> ok then Inr (dbs, False)
           else Inr (map_option (\<lambda>l. l\<lparr>ll_nodes := (ll_nodes l)(p \<mapsto> (the (ll_nodes l p))\<lparr>nd_data :=
                  (nd_data (the (ll_nodes l p)))\<lparr>db_id := string_hash new_name, db_name := new_name\<rparr>\<rparr>)\<rparr>) dbs, True))"

definition free_database :: "('z, 'f) database \<Rightarrow> unit res" where
  "free_database db = free_all (foreach_hashtable (db_data db))"

section \<open>A database is a map\<close>

definition db_map :: "('z, 'f) database \<Rightarrow> bytes \<Rightarrow> ('z, 'f) kv option" where
  "db_map db = ht_map (db_data db)"

definition wf_strings :: "(bytes, 'v) hashtable \<Rightarrow> bool" where
  "wf_strings t \<longleftrightarrow> wf_table t \<and> ht_hash t = string_hash \<and> ht_compare t = string_compare"

definition wf_db :: "('z, 'f) database \<Rightarrow> bool" where
  "wf_db db \<longleftrightarrow> wf_strings (db_data db)"

lemma key_eq_string_compare [simp]: "key_eq string_compare"
  by (simp add: key_eq_def string_compare_iff)

lemma wf_db_table: "wf_db db \<Longrightarrow> wf_table (db_data db)"
  by (simp add: wf_db_def wf_strings_def)

lemma get_data_correct:
  assumes "wf_db db"
  shows "\<exists>r. get_data db key = Inr r \<and> map_option snd r = db_map db key \<and>
    (\<forall>i kv. r = Some (i, kv) \<longrightarrow> in_slots (ht_elements (db_data db)) i key kv)"
proof -
  obtain r where r: "get_from_hashtable (db_data db) key = Inr r"
      "case r of None \<Rightarrow> ht_map (db_data db) key = None
       | Some i \<Rightarrow> \<exists>v. ht_elements (db_data db) ! i = Some (key, v) \<and> i < ht_capacity (db_data db) \<and> ht_map (db_data db) key = Some v"
    using get_correct [OF wf_db_table [OF assms], of key] by blast
  have "length (ht_elements (db_data db)) = ht_capacity (db_data db)"
    using wf_db_table [OF assms] by (simp add: wf_table_def)
  then show ?thesis using r by (auto simp: get_data_def db_map_def in_slots_def split: option.splits)
qed

lemma get_data_cases:
  assumes "wf_db db"
  obtains "db_map db key = None" "get_data db key = Inr None"
  | i kv where "db_map db key = Some kv" "get_data db key = Inr (Some (i, kv))"
      "in_slots (ht_elements (db_data db)) i key kv"
  using get_data_correct [OF assms, of key] by (metis (no_types, lifting) map_option_eq_Some not_None_eq option.map_disc_iff prod.collapse)

text \<open>Overwriting the value of an occupied slot.\<close>

lemma slot_update:
  fixes v' :: "'v"
  assumes wf: "wf_table t" and i: "in_slots (ht_elements t) i k v"
  defines "t' \<equiv> t\<lparr>ht_elements := (ht_elements t)[i := Some (k, v')]\<rparr>"
  shows "wf_table t'" and "ht_map t' = (ht_map t)(k \<mapsto> v')"
proof -
  let ?es = "ht_elements t"
  have il: "i < length ?es" "?es ! i = Some (k, v)" using i by (auto simp: in_slots_def)
  have slot: "in_slots (?es[i := Some (k, v')]) j a b \<longleftrightarrow> (if j = i then (a, b) = (k, v') else in_slots ?es j a b)" for j a b
    using il by (auto simp: in_slots_update)
  have u: "uniq ?es" and ch: "chained (ht_hash t) {} ?es" using wf by (simp_all add: wf_table_def)
  have same_keys: "\<exists>w. in_slots ?es j a w" if "in_slots (?es[i := Some (k, v')]) j a b" for j a b
    using that i slot by (metis prod.inject)
  have "uniq (?es[i := Some (k, v')])" unfolding uniq_def using same_keys uniqD [OF u] by blast
  moreover have "chained (ht_hash t) {} (?es[i := Some (k, v')])"
    unfolding chained_def length_list_update
  proof (intro allI impI)
    fix j a b p
    assume j: "in_slots (?es[i := Some (k, v')]) j a b" and p: "p < length ?es"
        "cdist (length ?es) (home (ht_hash t) (length ?es) a) p < cdist (length ?es) (home (ht_hash t) (length ?es) a) j"
    obtain w where "in_slots ?es j a w" using same_keys [OF j] by blast
    then have "?es ! p \<noteq> None" using chainedD [OF ch _ p] by blast
    then show "?es[i := Some (k, v')] ! p \<noteq> None \<or> p \<in> {}" using il by (cases "p = i") simp_all
  qed
  moreover have "occupied (?es[i := Some (k, v')]) = occupied ?es"
    using occupied_update [OF il(1), of "Some (k, v')"] il(2) by simp
  ultimately show wf': "wf_table t'" using wf by (simp add: wf_table_def t'_def)
  show "ht_map t' = (ht_map t)(k \<mapsto> v')"
  proof (rule ht_map_eqI [OF wf'])
    fix a b
    have "(\<exists>j. in_slots (?es[i := Some (k, v')]) j a b) \<longleftrightarrow> (if a = k then b = v' else \<exists>j. in_slots ?es j a b)"
    proof (cases "a = k")
      case True
      then have "in_slots (?es[i := Some (k, v')]) j a b \<longleftrightarrow> j = i \<and> b = v'" for j
        using slot uniqD [OF u i, of j b] by auto
      then show ?thesis using True by simp
    next
      case False
      then have "in_slots (?es[i := Some (k, v')]) j a b \<longleftrightarrow> in_slots ?es j a b" for j
        using slot i by (auto simp: in_slots_def)
      then show ?thesis using False by simp
    qed
    then show "((ht_map t)(k \<mapsto> v')) a = Some b \<longleftrightarrow> (\<exists>j. in_slots (ht_elements t') j a b)"
      using ht_map_iff [OF wf] by (auto simp: t'_def)
  qed
qed

lemma write_kv_correct:
  assumes wf: "wf_db db" and i: "in_slots (ht_elements (db_data db)) i key old"
  shows "wf_db (write_kv db i kv)" and "db_map (write_kv db i kv) = (db_map db)(key \<mapsto> kv)"
  using slot_update [OF wf_db_table [OF wf] i, of kv] wf i
  by (simp_all add: write_kv_def wf_db_def wf_strings_def db_map_def in_slots_def)

text \<open>What the freeing of a value needs.\<close>

definition freeable :: "('z, 'f) val \<Rightarrow> bool" where
  "freeable v \<longleftrightarrow> (case v of VList l \<Rightarrow> wf_list l \<and> ended l | VLost \<Rightarrow> False | _ \<Rightarrow> True)"

lemma free_value_ok: "freeable v \<Longrightarrow> free_value v = Inr ()"
proof (cases v)
  case (VList l)
  then show "freeable v \<Longrightarrow> ?thesis"
    using clear_ended [of l "ll_ptrs l"] by (auto simp: free_value_def freeable_def ll_free_def wf_list_def)
qed (simp_all add: free_value_def freeable_def)

text \<open>
  \<open>set_data\<close> stores: it overwrites the value and the expiry of a key that exists and adds a key
  that does not. It answers NULL only when memory is short, and then changes nothing.
\<close>

lemma set_data_correct:
  assumes wf: "wf_db db" and z: "zeroed mem" and g: "get_data db key = Inr r"
    and fr: "\<forall>i kv. r = Some (i, kv) \<longrightarrow> freeable (kv_value kv)"
  shows "\<exists>db' p. set_data ok1 ok2 mem db r key data ex = Inr (db', p) \<and> wf_db db' \<and> db_name db' = db_name db \<and>
    db_id db' = db_id db \<and>
    (p = None \<longrightarrow> db' = db \<and> r = None) \<and>
    (p \<noteq> None \<longrightarrow> db_map db' = (db_map db)(key \<mapsto> \<lparr>kv_value = data, kv_expiry = ex\<rparr>))"
proof (rule get_data_cases [OF wf, of key])
  fix i kv assume a: "db_map db key = Some kv" "get_data db key = Inr (Some (i, kv))" "in_slots (ht_elements (db_data db)) i key kv"
  then have r: "r = Some (i, kv)" using g by simp
  then show ?thesis using write_kv_correct [OF wf a(3)] free_value_ok [OF fr [rule_format, OF r]]
    by (simp add: set_data_def) (simp add: write_kv_def)
next
  assume a: "db_map db key = None" "get_data db key = Inr None"
  then have r: "r = None" using g by simp
  show ?thesis
  proof (cases "ok1 \<and> ok2")
    case True
    let ?kv = "\<lparr>kv_value = data, kv_expiry = ex\<rparr>"
    obtain t' p where t': "insert_into_hashtable mem (db_data db) key ?kv = Inr (t', p)" "wf_table t'"
        "ht_hash t' = ht_hash (db_data db)" "ht_compare t' = ht_compare (db_data db)"
        "case p of None \<Rightarrow> t' = db_data db | Some i \<Rightarrow> ht_map t' = (if ht_map (db_data db) key = None
           then (ht_map (db_data db))(key \<mapsto> ?kv) else ht_map (db_data db)) \<and>
         ht_count t' = (if ht_map (db_data db) key = None then ht_count (db_data db) + 1 else ht_count (db_data db)) \<and>
         in_slots (ht_elements t') i key (the (ht_map t' key))"
      using insert_correct [OF wf_db_table [OF wf] z, of key ?kv] by blast
    then show ?thesis using True r a(1) wf
      by (cases p) (simp_all add: set_data_def set_kv_def wf_db_def wf_strings_def db_map_def)
  qed (use r wf in \<open>auto simp: set_data_def set_kv_def\<close>)
qed

lemma delete_data_correct:
  assumes wf: "wf_db db" and fr: "\<And>kv. db_map db key = Some kv \<Longrightarrow> freeable (kv_value kv)"
  shows "\<exists>db'. delete_data db key = Inr (db', db_map db key \<noteq> None) \<and> wf_db db' \<and>
    db_map db' = (db_map db)(key := None)"
proof (rule get_data_cases [OF wf, of key])
  assume "db_map db key = None" "get_data db key = Inr None"
  then show ?thesis using wf by (auto simp: delete_data_def fun_upd_idem)
next
  fix i kv assume a: "db_map db key = Some kv" "get_data db key = Inr (Some (i, kv))"
  obtain t' where t': "delete_from_hashtable (db_data db) key = Inr (t', True)" "wf_table t'"
      "ht_map t' = (ht_map (db_data db))(key := None)" "ht_hash t' = ht_hash (db_data db)" "ht_compare t' = ht_compare (db_data db)"
    using delete_correct [OF wf_db_table [OF wf], of key] a(1) by (auto simp: db_map_def)
  then show ?thesis using a free_value_ok [OF fr [OF a(1)]] wf
    by (simp add: delete_data_def wf_db_def wf_strings_def db_map_def)
qed

end
