(* ===== verification/Vector.thy ===== *)
theory Vector
  imports Telly_Prelude
begin

text \<open>
  \<open>src/utils/vector.c\<close>: a growing array of pointers. The array is a list of \<open>'a option\<close>: \<open>None\<close> is
  NULL, and the contents of slots that were never written are arbitrary. Counts and capacities are
  natural numbers, far below \<open>2 ^ 51\<close> because the array fits in memory, so that the \<open>double\<close>
  product \<open>capacity * 0.75\<close> is exact. Copying between overlapping objects with \<open>memcpy\<close> is undefined
  in C and is \<open>Undefined\<close> here.
\<close>

record 'a vector =
  vec_capacity :: nat
  vec_count :: nat
  vec_elements :: "'a option list"

definition create_vector :: "bool \<Rightarrow> bool \<Rightarrow> nat \<Rightarrow> 'a vector option" where
  "create_vector ok1 ok2 capacity =
     (if \<not> ok1 then None else if \<not> ok2 then None
      else Some \<lparr>vec_capacity = capacity, vec_count = 0, vec_elements = replicate capacity None\<rparr>)"

text \<open>\<open>mem n\<close>: the block of \<open>n\<close> pointers the allocator returns, with the contents it has.\<close>

definition grow_vector :: "(nat \<Rightarrow> 'a option list option) \<Rightarrow> 'a vector \<Rightarrow> 'a vector \<times> int" where
  "grow_vector mem vec =
     (if 4 * vec_count vec < 3 * vec_capacity vec then (vec, 0)
      else let new_capacity = 2 * vec_capacity vec in
        case mem new_capacity of
          None \<Rightarrow> (vec, - 1)
        | Some block \<Rightarrow>
            (vec\<lparr>vec_elements := take (vec_capacity vec) (vec_elements vec) @ drop (vec_capacity vec) block,
                 vec_capacity := new_capacity\<rparr>, 1))"

definition insert_into_vector ::
  "(nat \<Rightarrow> 'a option list option) \<Rightarrow> 'a vector \<Rightarrow> 'a option \<Rightarrow> ('a vector \<times> bool) res" where
  "insert_into_vector mem vec element =
     bind_res (assert_that (element \<noteq> None)) (\<lambda>_.
       case grow_vector mem vec of (vec, grown) \<Rightarrow>
         if grown < 0 then Inr (vec, False)
         else bind_res (mem_put (vec_elements vec) (vec_count vec) [element]) (\<lambda>elements.
           Inr (vec\<lparr>vec_elements := elements, vec_count := vec_count vec + 1\<rparr>, True)))"

definition memcpy_down :: "'a list \<Rightarrow> nat \<Rightarrow> nat \<Rightarrow> 'a list res" where
  "memcpy_down xs i n = (if 1 < n then Inl Undefined
     else if i + 1 + n \<le> length xs then mem_put xs i (take n (drop (i + 1) xs)) else Inl OutOfBounds)"

fun delete_loop :: "'a vector \<Rightarrow> 'a option \<Rightarrow> nat \<Rightarrow> nat \<Rightarrow> ('a vector \<times> bool) res" where
  "delete_loop vec element i 0 = Inr (vec, False)"
| "delete_loop vec element i (Suc left) =
     bind_res (mem_get (vec_elements vec) i) (\<lambda>e.
       if e \<noteq> element then delete_loop vec element (i + 1) left
       else bind_res (memcpy_down (vec_elements vec) i (vec_count vec - i - 1)) (\<lambda>elements.
         Inr (vec\<lparr>vec_elements := elements, vec_count := vec_count vec - 1\<rparr>, True)))"

definition delete_from_vector :: "'a vector \<Rightarrow> 'a option \<Rightarrow> ('a vector \<times> bool) res" where
  "delete_from_vector vec element =
     bind_res (assert_that (element \<noteq> None)) (\<lambda>_. delete_loop vec element 0 (vec_count vec))"

text \<open>
  \<open>foreach_vector\<close> hands each slot and the external state to a procedure and stops at the first
  one that answers false; the procedure may overwrite the slot.
\<close>

fun foreach_loop ::
  "('a option \<Rightarrow> 's \<Rightarrow> ('a option \<times> 's \<times> bool) res) \<Rightarrow> 'a option list \<Rightarrow> 's \<Rightarrow> nat \<Rightarrow> nat \<Rightarrow>
   ('a option list \<times> 's \<times> bool) res" where
  "foreach_loop procedure es st i 0 = Inr (es, st, True)"
| "foreach_loop procedure es st i (Suc left) =
     bind_res (mem_get es i) (\<lambda>e.
     bind_res (procedure e st) (\<lambda>(e, st, ok).
       if \<not> ok then Inr (es[i := e], st, False)
       else foreach_loop procedure (es[i := e]) st (i + 1) left))"

definition foreach_vector ::
  "'a vector \<Rightarrow> ('a option \<Rightarrow> 's \<Rightarrow> ('a option \<times> 's \<times> bool) res) \<Rightarrow> 's \<Rightarrow> ('a vector \<times> 's \<times> bool) res" where
  "foreach_vector vec procedure st =
     bind_res (foreach_loop procedure (vec_elements vec) st 0 (vec_count vec)) (\<lambda>(es, st, ok).
       Inr (vec\<lparr>vec_elements := es\<rparr>, st, ok))"

fun any_loop :: "('a option \<Rightarrow> bool) \<Rightarrow> 'a option list \<Rightarrow> nat \<Rightarrow> nat \<Rightarrow> bool res" where
  "any_loop procedure es i 0 = Inr False"
| "any_loop procedure es i (Suc left) =
     bind_res (mem_get es i) (\<lambda>e. if procedure e then Inr True else any_loop procedure es (i + 1) left)"

definition any_in_vector :: "'a vector \<Rightarrow> ('a option \<Rightarrow> bool) \<Rightarrow> bool res" where
  "any_in_vector vec procedure = any_loop procedure (vec_elements vec) 0 (vec_count vec)"

text \<open>\<open>clear_vector\<close> without a destructor clears the leading non-NULL slots.\<close>

fun clear_leading :: "'a option list \<Rightarrow> 'a option list" where
  "clear_leading [] = []"
| "clear_leading (None # es) = None # es"
| "clear_leading (Some e # es) = None # clear_leading es"

definition destroy_element_layer :: "'a option \<Rightarrow> 'a option list \<Rightarrow> ('a option \<times> 'a option list \<times> bool) res" where
  "destroy_element_layer e destroyed = Inr (None, destroyed @ [e], True)"

definition clear_vector :: "'a vector \<Rightarrow> bool \<Rightarrow> ('a vector \<times> 'a option list) res" where
  "clear_vector vec with_destructor =
     (if with_destructor then
        bind_res (foreach_vector vec destroy_element_layer []) (\<lambda>(vec, destroyed, ok).
        bind_res (assert_that ok) (\<lambda>_. Inr (vec\<lparr>vec_count := 0\<rparr>, destroyed)))
      else Inr (vec\<lparr>vec_count := 0, vec_elements :=
        clear_leading (take (vec_capacity vec) (vec_elements vec)) @ drop (vec_capacity vec) (vec_elements vec)\<rparr>, []))"

definition destroy_vector :: "'a vector \<Rightarrow> bool \<Rightarrow> 'a option list res" where
  "destroy_vector vec with_destructor =
     (if with_destructor then
        bind_res (foreach_vector vec destroy_element_layer []) (\<lambda>(vec, destroyed, ok).
        bind_res (assert_that ok) (\<lambda>_. Inr destroyed))
      else Inr [])"

section \<open>A vector is a list\<close>

definition wf_vector :: "'a vector \<Rightarrow> bool" where
  "wf_vector vec \<longleftrightarrow> length (vec_elements vec) = vec_capacity vec \<and> vec_count vec \<le> vec_capacity vec \<and>
     0 < vec_capacity vec"

definition vec_list :: "'a vector \<Rightarrow> 'a option list" where
  "vec_list vec = take (vec_count vec) (vec_elements vec)"

text \<open>Every block the allocator returns has the size that was asked for.\<close>

definition sized :: "(nat \<Rightarrow> 'b list option) \<Rightarrow> bool" where
  "sized mem \<longleftrightarrow> (\<forall>n b. mem n = Some b \<longrightarrow> length b = n)"

lemma vector_create:
  "0 < n \<Longrightarrow> \<exists>vec. create_vector True True n = Some vec \<and> wf_vector vec \<and> vec_list vec = []"
  by (simp add: create_vector_def wf_vector_def vec_list_def)

lemma mem_put_one: "i < length m \<Longrightarrow> mem_put m i [x] = Inr (m[i := x])"
  by (simp add: mem_put_def upd_conv_take_nth_drop)

lemma grow_vector_correct:
  assumes "wf_vector vec" "sized mem"
  shows "\<exists>vec' r. grow_vector mem vec = (vec', r) \<and> wf_vector vec' \<and> vec_list vec' = vec_list vec \<and>
    vec_count vec' = vec_count vec \<and> (0 \<le> r \<longrightarrow> vec_count vec' < vec_capacity vec') \<and> (r < 0 \<longrightarrow> vec' = vec)"
  using assms by (auto simp: grow_vector_def wf_vector_def vec_list_def sized_def Let_def split: option.splits)

lemma vector_insert:
  assumes "wf_vector vec" "sized mem"
  shows "\<exists>vec' ok. insert_into_vector mem vec (Some x) = Inr (vec', ok) \<and> wf_vector vec' \<and>
    vec_list vec' = (if ok then vec_list vec @ [Some x] else vec_list vec)"
proof -
  obtain u r where g: "grow_vector mem vec = (u, r)" "wf_vector u" "vec_list u = vec_list vec"
      "0 \<le> r \<longrightarrow> vec_count u < vec_capacity u" "r < 0 \<longrightarrow> u = vec"
    using grow_vector_correct [OF assms] by blast
  show ?thesis
  proof (cases "r < 0")
    case False
    then have "vec_count u < length (vec_elements u)" using g(2,4) by (simp add: wf_vector_def)
    then show ?thesis
      using False g by (intro exI [of _ "u\<lparr>vec_elements := (vec_elements u)[vec_count u := Some x], vec_count := vec_count u + 1\<rparr>"] exI [of _ True])
        (simp add: insert_into_vector_def mem_put_one wf_vector_def vec_list_def take_Suc_conv_app_nth)
  qed (use g in \<open>intro exI [of _ vec] exI [of _ False], simp add: insert_into_vector_def\<close>)
qed

lemma delete_loop_skip:
  "\<lbrakk>\<forall>j < n. vec_elements vec ! (i + j) \<noteq> e; i + n \<le> length (vec_elements vec)\<rbrakk> \<Longrightarrow>
   delete_loop vec e i (n + left) = delete_loop vec e (i + n) left"
proof (induction n arbitrary: i)
  case (Suc n)
  have "vec_elements vec ! i \<noteq> e" using Suc.prems by (metis add_0_right zero_less_Suc)
  moreover have "\<forall>j < n. vec_elements vec ! (i + 1 + j) \<noteq> e" using Suc.prems(1) by auto
  then have "delete_loop vec e (i + 1) (n + left) = delete_loop vec e (i + 1 + n) left"
    using Suc.IH [of "i + 1"] Suc.prems(2) by simp
  ultimately show ?case using Suc.prems(2) by simp
qed simp

text \<open>
  Deleting: correct for the last two elements, undefined behaviour when two or more elements have
  to move down, because \<open>memcpy\<close> is given overlapping objects.
\<close>

lemma vector_delete:
  assumes wf: "wf_vector vec" and xs: "vec_list vec = xs @ Some x # ys" "Some x \<notin> set xs"
  shows "delete_from_vector vec (Some x) =
    (if 1 < length ys then Inl Undefined
     else Inr (vec\<lparr>vec_elements := xs @ ys @ drop (length xs + length ys) (vec_elements vec), vec_count := vec_count vec - 1\<rparr>, True))"
proof -
  let ?es = "vec_elements vec" and ?n = "vec_count vec"
  have n: "?n = length xs + Suc (length ys)" "?n \<le> length ?es"
    using arg_cong [OF xs(1), of length] wf by (simp_all add: vec_list_def wf_vector_def)
  have es: "?es = (xs @ Some x # ys) @ drop ?n ?es" using xs(1) by (metis append_take_drop_id vec_list_def)
  have nth: "?es ! j = xs ! j" if "j < length xs" for j using that by (subst es) (simp add: nth_append)
  have skip: "\<forall>j < length xs. ?es ! (0 + j) \<noteq> Some x" using nth xs(2) by (metis add_0 nth_mem)
  have at: "?es ! length xs = Some x" by (subst es) simp
  have "delete_loop vec (Some x) 0 ?n = delete_loop vec (Some x) (0 + length xs) (Suc (length ys))"
    unfolding n(1) by (rule delete_loop_skip) (use skip n in auto)
  also have "\<dots> = bind_res (memcpy_down ?es (length xs) (length ys)) (\<lambda>elements.
      Inr (vec\<lparr>vec_elements := elements, vec_count := ?n - 1\<rparr>, True))"
    using at n by simp
  finally have eq: "delete_from_vector vec (Some x) = \<dots>" by (simp add: delete_from_vector_def)
  show ?thesis
  proof (cases "1 < length ys")
    case False
    have t: "take (length xs) ?es = xs" by (subst es) simp
    have d: "take (length ys) (drop (Suc (length xs)) ?es) = ys" by (subst es) simp
    show ?thesis using False n t d by (simp add: eq memcpy_down_def mem_put_def)
  qed (simp add: eq memcpy_down_def)
qed

lemma vector_delete_absent:
  assumes "wf_vector vec" "Some x \<notin> set (vec_list vec)"
  shows "delete_from_vector vec (Some x) = Inr (vec, False)"
proof -
  have "\<forall>j < vec_count vec. vec_elements vec ! (0 + j) \<noteq> Some x"
    using assms by (fastforce simp: vec_list_def wf_vector_def in_set_conv_nth)
  then have "delete_loop vec (Some x) 0 (vec_count vec + 0) = delete_loop vec (Some x) (0 + vec_count vec) 0"
    by (rule delete_loop_skip) (use assms(1) in \<open>simp add: wf_vector_def\<close>)
  then show ?thesis by (simp add: delete_from_vector_def)
qed

lemma any_loop_correct:
  "i + n \<le> length es \<Longrightarrow> any_loop p es i n = Inr (\<exists>j < n. p (es ! (i + j)))"
proof (induction n arbitrary: i)
  case (Suc n)
  have "(\<exists>j < Suc n. p (es ! (i + j))) \<longleftrightarrow> p (es ! i) \<or> (\<exists>j < n. p (es ! (i + 1 + j)))"
    by (auto simp: less_Suc_eq_0_disj)
  then show ?case using Suc by simp
qed simp

lemma vector_any: "wf_vector vec \<Longrightarrow> any_in_vector vec p = Inr (\<exists>e \<in> set (vec_list vec). p e)"
  by (simp add: any_in_vector_def any_loop_correct wf_vector_def vec_list_def)
     (force simp: set_conv_nth)

lemma vector_clear: "wf_vector vec \<Longrightarrow> \<exists>vec'. clear_vector vec False = Inr (vec', []) \<and> wf_vector vec' \<and> vec_list vec' = []"
proof -
  have "length (clear_leading es) = length es" for es :: "'a option list"
    by (induction es rule: clear_leading.induct) simp_all
  then show "wf_vector vec \<Longrightarrow> ?thesis" by (simp add: clear_vector_def wf_vector_def vec_list_def)
qed

end
