(* ===== verification/Command.thy ===== *)
theory Command
  imports Store Vector
begin

unbundle bit_operations_syntax

text \<open>
  What the commands share: the \<open>Command\<close> and \<open>CommandEntry\<close> records of
  \<open>headers/commands/commands.h\<close>, the permissions of \<open>headers/auth.h\<close>, the messages of
  \<open>headers/commands/data.h\<close>, and the environment of a run.

  A command on data is a function of its entry and of the database of the entry; it answers the
  database after it and the bytes of its response. The client of an entry is its protocol version;
  \<open>None\<close> is the NULL client of a transaction that has no client any more. The environment gives
  the outcome of every allocation: \<open>e_ok i j\<close> is call site \<open>j\<close> of the loop iteration \<open>i\<close>.
\<close>

section \<open>Permissions\<close>

definition P_NONE :: "32 word" where "P_NONE = 0"
definition P_READ :: "32 word" where "P_READ = 1"
definition P_WRITE :: "32 word" where "P_WRITE = 2"
definition P_CLIENT :: "32 word" where "P_CLIENT = 4"
definition P_CONFIG :: "32 word" where "P_CONFIG = 8"
definition P_AUTH :: "32 word" where "P_AUTH = 16"
definition P_SERVER :: "32 word" where "P_SERVER = 32"

definition may_read :: "32 word \<Rightarrow> bool" where
  "may_read permissions \<longleftrightarrow> permissions AND P_READ \<noteq> 0"

section \<open>Entries, commands and their environment\<close>

record ('z, 'f) env =
  e_ok :: "nat \<Rightarrow> nat \<Rightarrow> bool"
  e_mem :: "('z, 'f) kv_mem"
  e_fields :: "nat \<Rightarrow> nat \<Rightarrow> (bytes, ('z, 'f) prim) slots option"  \<comment> \<open>of iteration \<open>i\<close>\<close>
  e_node :: "nat \<Rightarrow> nat option"                            \<comment> \<open>the node of iteration \<open>i\<close>\<close>
  e_now :: "64 word option"
  e_stale :: "nat \<Rightarrow> char"   \<comment> \<open>the byte of the write buffer at a position that the command does not write\<close>

record entry =
  en_client :: "protover option"
  en_args :: "string_t list"
  en_permissions :: "32 word"

record ('z, 'f) command =
  c_name :: bytes
  c_permissions :: "32 word"
  c_affect :: bool
  c_access :: bool
  c_waiting :: bool
  c_get_keys :: "entry \<Rightarrow> string_t list"
  c_run :: "('z, 'f) gmp \<Rightarrow> ('z, 'f) env \<Rightarrow> entry \<Rightarrow> ('z, 'f) database \<Rightarrow> (('z, 'f) database \<times> bytes) res"

text \<open>
  \<open>get_keys\<close> inserts arguments into \<open>server->keyspace\<close>; it is modelled by the arguments it inserts,
  and \<open>insert_keys\<close> is what inserting them does.
\<close>

fun insert_keys :: "(nat \<Rightarrow> string_t option list option) \<Rightarrow> string_t vector \<Rightarrow> string_t list \<Rightarrow> string_t vector res" where
  "insert_keys mem vec [] = Inr vec"
| "insert_keys mem vec (k # ks) =
     bind_res (insert_into_vector mem vec (Some k)) (\<lambda>(vec, ok).
     bind_res (assert_that ok) (\<lambda>_. insert_keys mem vec ks))"

definition arg_count :: "entry \<Rightarrow> nat" where
  "arg_count en = length (en_args en)"

definition arg_at :: "entry \<Rightarrow> nat \<Rightarrow> string_t" where
  "arg_at en i = en_args en ! i"

definition key_at :: "entry \<Rightarrow> nat \<Rightarrow> bytes" where
  "key_at en i = str_bytes (arg_at en i)"

text \<open>\<open>PASS_NO_CLIENT\<close>: without a client a command returns the empty string.\<close>

definition reply :: "entry \<Rightarrow> 'd \<Rightarrow> (protover \<Rightarrow> bytes res) \<Rightarrow> ('d \<times> bytes) res" where
  "reply en db r = (case en_client en of None \<Rightarrow> Inr (db, [])
     | Some protover \<Rightarrow> bind_res (r protover) (\<lambda>bs. Inr (db, bs)))"

definition say :: "bytes \<Rightarrow> protover \<Rightarrow> bytes res" where
  "say bs protover = Inr bs"

text \<open>A command that does nothing at all without a client.\<close>

definition with_client :: "entry \<Rightarrow> 'd \<Rightarrow> (protover \<Rightarrow> ('d \<times> bytes) res) \<Rightarrow> ('d \<times> bytes) res" where
  "with_client en db k = (case en_client en of None \<Rightarrow> Inr (db, []) | Some protover \<Rightarrow> k protover)"

definition WRONG_ARGUMENT_ERROR :: "bytes \<Rightarrow> bytes" where
  "WRONG_ARGUMENT_ERROR name = RESP_ERROR_MESSAGE (''Wrong argument count for '' @ [CHR 0x27] @ name @ [CHR 0x27] @ '' command'')"

definition INVALID_TYPE_ERROR :: "bytes \<Rightarrow> bytes" where
  "INVALID_TYPE_ERROR name = RESP_ERROR_MESSAGE (''Invalid type for '' @ [CHR 0x27] @ name @ [CHR 0x27] @ '' command'')"

lemma say_simp [simp]: "say bs protover = Inr bs"
  by (simp add: say_def)

lemma reply_simps [simp]:
  "en_client en = None \<Longrightarrow> reply en db r = Inr (db, [])"
  "en_client en = Some p \<Longrightarrow> reply en db r = bind_res (r p) (\<lambda>bs. Inr (db, bs))"
  by (simp_all add: reply_def say_def)

lemma with_client_simps [simp]:
  "en_client en = None \<Longrightarrow> with_client en db k = Inr (db, [])"
  "en_client en = Some p \<Longrightarrow> with_client en db k = k p"
  by (simp_all add: with_client_def)

text \<open>Every allocation of a run succeeds, and the tables grow into cleared blocks.\<close>

definition calm :: "('z, 'f) env \<Rightarrow> bool" where
  "calm e \<longleftrightarrow> (\<forall>i j. e_ok e i j) \<and> (\<forall>n. e_mem e n = Some (replicate n None)) \<and>
     (\<forall>i n. e_fields e i n = Some (replicate n None))"

lemma calm_zeroed [simp]: "calm e \<Longrightarrow> zeroed (e_mem e)" "calm e \<Longrightarrow> zeroed (e_fields e i)"
  by (auto simp: calm_def zeroed_def)

lemma calm_ok [simp]: "calm e \<Longrightarrow> e_ok e i j"
  by (simp add: calm_def)

text \<open>With memory at hand an insertion into a table succeeds.\<close>

lemma insert_succeeds:
  assumes wf: "wf_table t" and mem: "\<And>n. mem n = Some (replicate n None)"
  shows "\<exists>t' i. insert_into_hashtable mem t k v = Inr (t', Some i) \<and> wf_table t' \<and> ht_hash t' = ht_hash t \<and>
    ht_compare t' = ht_compare t \<and> ht_map t' = (if ht_map t k = None then (ht_map t)(k \<mapsto> v) else ht_map t) \<and>
    ht_count t' = (if ht_map t k = None then ht_count t + 1 else ht_count t)"
proof -
  have z: "zeroed mem" using mem by (simp add: zeroed_def)
  obtain t' r where r: "insert_into_hashtable mem t k v = Inr (t', r)" "wf_table t'" "ht_hash t' = ht_hash t"
      "ht_compare t' = ht_compare t"
      "case r of None \<Rightarrow> t' = t
     | Some i \<Rightarrow> ht_map t' = (if ht_map t k = None then (ht_map t)(k \<mapsto> v) else ht_map t) \<and>
         ht_count t' = (if ht_map t k = None then ht_count t + 1 else ht_count t) \<and>
         in_slots (ht_elements t') i k (the (ht_map t' k))"
    using insert_correct [OF wf z, of k v] by blast
  have "r \<noteq> None"
  proof
    assume "r = None"
    then obtain u s where g: "grow_hashtable mem t = Inr (u, s)" "s < 0"
      using r(1) by (auto simp: insert_into_hashtable_def elim!: bind_res_InrE split: if_splits option.splits)
    then show False using mem by (auto simp: grow_hashtable_def Let_def elim!: bind_res_InrE split: if_splits)
  qed
  then obtain i where "r = Some i" by blast
  then show ?thesis using r by auto
qed

lemma set_data_calm:
  assumes wf: "wf_db db" and c: "calm e" and g: "get_data db key = Inr r"
    and fr: "\<forall>i kv. r = Some (i, kv) \<longrightarrow> freeable (kv_value kv)"
  shows "\<exists>db' i. set_data True True (e_mem e) db r key data ex = Inr (db', Some i) \<and> wf_db db' \<and>
    db_map db' = (db_map db)(key \<mapsto> \<lparr>kv_value = data, kv_expiry = ex\<rparr>)"
proof -
  have z: "zeroed (e_mem e)" using c by simp
  obtain db' p where p: "set_data True True (e_mem e) db r key data ex = Inr (db', p)" "wf_db db'"
      "p = None \<longrightarrow> r = None" "p \<noteq> None \<longrightarrow> db_map db' = (db_map db)(key \<mapsto> \<lparr>kv_value = data, kv_expiry = ex\<rparr>)"
    using set_data_correct [OF wf z g fr, where ?ok1.0 = True and ?ok2.0 = True and data = data and ex = ex] by blast
  have "p \<noteq> None"
  proof
    assume n: "p = None"
    then have "r = None" using p(3) by blast
    moreover obtain t' i where "insert_into_hashtable (e_mem e) (db_data db) key \<lparr>kv_value = data, kv_expiry = ex\<rparr> = Inr (t', Some i)"
      using insert_succeeds [OF wf_db_table [OF wf], of "e_mem e"] c unfolding calm_def by blast
    ultimately show False using p(1) n by (simp add: set_data_def set_kv_def)
  qed
  then show ?thesis using p by auto
qed

end
