(* ===== verification/Cmd_KV.thy ===== *)
theory Cmd_KV
  imports Command
begin

text \<open>
  The key-value commands, \<open>src/commands/kv/\<close>: each file gives a \<open>get_keys\<close>, a \<open>run\<close> and a
  command record. The commands mutate the bytes of their arguments in places (upper case, a NUL
  behind a number), which nothing reads afterwards.
\<close>

section \<open>GET, TYPE, EXISTS, DEL, RENAME, APPEND\<close>

definition get_keys_get :: "entry \<Rightarrow> string_t list" where
  "get_keys_get en = (if arg_count en \<noteq> 1 then [] else [arg_at en 0])"

definition run_get :: "('z, 'f) gmp \<Rightarrow> ('z, 'f) env \<Rightarrow> entry \<Rightarrow> ('z, 'f) database \<Rightarrow> (('z, 'f) database \<times> bytes) res" where
  "run_get g e en db = with_client en db (\<lambda>protover.
     if arg_count en \<noteq> 1 then Inr (db, WRONG_ARGUMENT_ERROR ''GET'')
     else bind_res (get_data db (key_at en 0)) (\<lambda>r. case r of
         Some (i, kv) \<Rightarrow> bind_res (write_value g (kv_value kv) protover []) (\<lambda>bs. Inr (db, bs))
       | None \<Rightarrow> Inr (db, RESP_NULL protover)))"

definition cmd_get :: "('z, 'f) command" where
  "cmd_get = \<lparr>c_name = ''GET'', c_permissions = P_READ, c_affect = False, c_access = True, c_waiting = False,
              c_get_keys = get_keys_get, c_run = run_get\<rparr>"

definition get_keys_type :: "entry \<Rightarrow> string_t list" where
  "get_keys_type en = (if arg_count en \<noteq> 1 then [] else [arg_at en 0])"

definition run_type :: "('z, 'f) gmp \<Rightarrow> ('z, 'f) env \<Rightarrow> entry \<Rightarrow> ('z, 'f) database \<Rightarrow> (('z, 'f) database \<times> bytes) res" where
  "run_type g e en db = with_client en db (\<lambda>protover.
     if arg_count en \<noteq> 1 then Inr (db, WRONG_ARGUMENT_ERROR ''TYPE'')
     else bind_res (get_data db (key_at en 0)) (\<lambda>r. case r of
         None \<Rightarrow> Inr (db, RESP_NULL protover)
       | Some (i, kv) \<Rightarrow> Inr (db, get_resp_type_name (kv_value kv))))"

definition cmd_type :: "('z, 'f) command" where
  "cmd_type = \<lparr>c_name = ''TYPE'', c_permissions = P_NONE, c_affect = False, c_access = True, c_waiting = False,
               c_get_keys = get_keys_type, c_run = run_type\<rparr>"

definition get_keys_exists :: "entry \<Rightarrow> string_t list" where
  "get_keys_exists en = en_args en"

text \<open>The lines of the answer are collected in a buffer of 8192 characters, NUL included.\<close>

fun exists_loop ::
  "('z, 'f) database \<Rightarrow> string_t list \<Rightarrow> nat \<Rightarrow> nat \<Rightarrow> bytes \<Rightarrow> (nat \<times> nat \<times> bytes) res" where
  "exists_loop db [] existed not_existed buf = Inr (existed, not_existed, buf)"
| "exists_loop db (key # keys) existed not_existed buf =
     bind_res (get_data db (str_bytes key)) (\<lambda>r.
       let line = (if r \<noteq> None then ''+exists'' @ CRLF else ''+not exist'' @ CRLF) in
       if 8192 < length buf + length line + 1 then Inl OutOfBounds
       else if r \<noteq> None then exists_loop db keys (existed + 1) not_existed (buf @ line)
       else exists_loop db keys existed (not_existed + 1) (buf @ line))"

definition run_exists :: "('z, 'f) gmp \<Rightarrow> ('z, 'f) env \<Rightarrow> entry \<Rightarrow> ('z, 'f) database \<Rightarrow> (('z, 'f) database \<times> bytes) res" where
  "run_exists g e en db = with_client en db (\<lambda>protover.
     if arg_count en = 0 then Inr (db, WRONG_ARGUMENT_ERROR ''EXISTS'')
     else bind_res (exists_loop db (en_args en) 0 0 []) (\<lambda>(existed, not_existed, buf).
       bind_res (put [] (''*'' @ decimal (arg_count en + 2) @ CRLF @
                         ''+existed key count is '' @ decimal existed @ CRLF @
                         ''+not existed key count is '' @ decimal not_existed @ CRLF @ buf)) (\<lambda>bs.
         Inr (db, bs))))"

definition cmd_exists :: "('z, 'f) command" where
  "cmd_exists = \<lparr>c_name = ''EXISTS'', c_permissions = P_NONE, c_affect = False, c_access = True, c_waiting = False,
                 c_get_keys = get_keys_exists, c_run = run_exists\<rparr>"

definition get_keys_del :: "entry \<Rightarrow> string_t list" where
  "get_keys_del en = en_args en"

fun del_loop :: "('z, 'f) database \<Rightarrow> string_t list \<Rightarrow> 32 word \<Rightarrow> (('z, 'f) database \<times> 32 word) res" where
  "del_loop db [] deleted = Inr (db, deleted)"
| "del_loop db (key # keys) deleted =
     bind_res (delete_data db (str_bytes key)) (\<lambda>(db, b). del_loop db keys (if b then deleted + 1 else deleted))"

definition run_del :: "('z, 'f) gmp \<Rightarrow> ('z, 'f) env \<Rightarrow> entry \<Rightarrow> ('z, 'f) database \<Rightarrow> (('z, 'f) database \<times> bytes) res" where
  "run_del g e en db =
     (if arg_count en = 0 then reply en db (say (WRONG_ARGUMENT_ERROR ''DEL''))
      else bind_res (del_loop db (en_args en) 0) (\<lambda>(db, deleted).
        reply en db (\<lambda>protover. create_resp_integer [] (ucast deleted))))"

definition cmd_del :: "('z, 'f) command" where
  "cmd_del = \<lparr>c_name = ''DEL'', c_permissions = P_WRITE, c_affect = True, c_access = False, c_waiting = False,
              c_get_keys = get_keys_del, c_run = run_del\<rparr>"

definition get_keys_rename :: "entry \<Rightarrow> string_t list" where
  "get_keys_rename en = (if arg_count en \<noteq> 2 then [] else [arg_at en 0])"

text \<open>The allocation of the new key is not tested; copying to NULL is undefined.\<close>

definition run_rename :: "('z, 'f) gmp \<Rightarrow> ('z, 'f) env \<Rightarrow> entry \<Rightarrow> ('z, 'f) database \<Rightarrow> (('z, 'f) database \<times> bytes) res" where
  "run_rename g e en db =
     (if arg_count en \<noteq> 2 then reply en db (say (WRONG_ARGUMENT_ERROR ''RENAME''))
      else bind_res (get_data db (key_at en 0)) (\<lambda>r. case r of
          None \<Rightarrow> reply en db (say (RESP_ERROR_MESSAGE ''The new key already exists''))
        | Some (i, kv) \<Rightarrow>
            bind_res (delete_from_hashtable (db_data db) (key_at en 0)) (\<lambda>(t, deleted).
            bind_res (assert_that deleted) (\<lambda>_.
            if \<not> e_ok e 0 0 then Inl Undefined
            else bind_res (insert_into_hashtable (e_mem e) t (key_at en 1) kv) (\<lambda>(t, element).
            bind_res (assert_that (element \<noteq> None)) (\<lambda>_.
              reply en (db\<lparr>db_data := t\<rparr>) (say RESP_OK)))))))"

definition cmd_rename :: "('z, 'f) command" where
  "cmd_rename = \<lparr>c_name = ''RENAME'', c_permissions = P_WRITE, c_affect = True, c_access = True, c_waiting = False,
                 c_get_keys = get_keys_rename, c_run = run_rename\<rparr>"

definition get_keys_append :: "entry \<Rightarrow> string_t list" where
  "get_keys_append en = (if arg_count en \<noteq> 2 then [] else [arg_at en 0])"

text \<open>
  The length of a string is a \<open>uint32_t\<close>: when the sum wraps the block is too small for the copy.
  The result of \<open>realloc\<close> is not tested.
\<close>

definition run_append :: "('z, 'f) gmp \<Rightarrow> ('z, 'f) env \<Rightarrow> entry \<Rightarrow> ('z, 'f) database \<Rightarrow> (('z, 'f) database \<times> bytes) res" where
  "run_append g e en db =
     (if arg_count en \<noteq> 2 then reply en db (say (WRONG_ARGUMENT_ERROR ''APPEND''))
      else let key = key_at en 0; arg = key_at en 1 in
        bind_res (get_data db key) (\<lambda>r. case r of
          Some (i, kv) \<Rightarrow>
            (case kv_value kv of
               Prim (PStr s) \<Rightarrow>
                 if \<not> e_ok e 0 0 then Inl NullDeref
                 else if 2 ^ 32 \<le> length s + length arg then Inl OutOfBounds
                 else let db = write_kv db i (kv\<lparr>kv_value := Prim (PStr (s @ arg))\<rparr>) in
                   reply en db (\<lambda>protover. create_resp_integer [] (word_of_nat (length s + length arg)))
             | _ \<Rightarrow> reply en db (say (INVALID_TYPE_ERROR ''APPEND'')))
        | None \<Rightarrow>
            if \<not> e_ok e 0 1 then reply en db (say OUT_OF_MEMORY)
            else if \<not> e_ok e 0 2 then reply en db (say OUT_OF_MEMORY)
            else bind_res (set_data (e_ok e 0 3) (e_ok e 0 4) (e_mem e) db None key (Prim (PStr arg)) None) (\<lambda>(db, p).
              if p = None then reply en db (say OUT_OF_MEMORY)
              else reply en db (\<lambda>protover. create_resp_integer [] (word_of_nat (length arg))))))"

definition cmd_append :: "('z, 'f) command" where
  "cmd_append = \<lparr>c_name = ''APPEND'', c_permissions = P_READ OR P_WRITE, c_affect = True, c_access = True,
                 c_waiting = False, c_get_keys = get_keys_append, c_run = run_append\<rparr>"

section \<open>INCR and DECR\<close>

definition get_keys_incr :: "entry \<Rightarrow> string_t list" where
  "get_keys_incr en = en_args en"

text \<open>
  \<open>count_step\<close> is one iteration of the loop with a client, for the operations \<open>zop\<close> and \<open>fop\<close> that
  add one to or subtract one from the number in place.
\<close>

definition count_step ::
  "('z, 'f) gmp \<Rightarrow> ('z \<Rightarrow> 'z) \<Rightarrow> ('f \<Rightarrow> 'f) \<Rightarrow> ('z, 'f) env \<Rightarrow> protover \<Rightarrow> nat \<Rightarrow> bytes \<Rightarrow> ('z, 'f) database \<Rightarrow> out \<Rightarrow>
   (('z, 'f) database \<times> out) res" where
  "count_step g zop fop e protover i key db out =
     bind_res (get_data db key) (\<lambda>r.
     bind_res (create_resp_string out key) (\<lambda>out. case r of
         None \<Rightarrow>
           if \<not> e_ok e i 0 then bind_res (create_resp_string out ''error'') (\<lambda>out. Inr (db, out))
           else let value = mpz_init_set_ui g 0 in
             bind_res (set_data (e_ok e i 1) (e_ok e i 2) (e_mem e) db None key (Prim (PInt value)) None) (\<lambda>(db, p).
               if p = None then bind_res (create_resp_string out ''error'') (\<lambda>out. Inr (db, out))
               else bind_res (create_resp_integer_mpz g protover out value) (\<lambda>out. Inr (db, out)))
       | Some (j, kv) \<Rightarrow> (case kv_value kv of
           Prim (PInt z) \<Rightarrow>
             bind_res (create_resp_integer_mpz g protover out (zop z)) (\<lambda>out.
               Inr (write_kv db j (kv\<lparr>kv_value := Prim (PInt (zop z))\<rparr>), out))
         | Prim (PDouble f) \<Rightarrow>
             bind_res (create_resp_integer_mpf g protover out (fop f)) (\<lambda>out.
               Inr (write_kv db j (kv\<lparr>kv_value := Prim (PDouble (fop f))\<rparr>), out))
         | VLost \<Rightarrow> Inl NullDeref
         | _ \<Rightarrow> bind_res (create_resp_string out ''invalid type'') (\<lambda>out. Inr (db, out)))))"

fun count_loop ::
  "('z, 'f) gmp \<Rightarrow> ('z \<Rightarrow> 'z) \<Rightarrow> ('f \<Rightarrow> 'f) \<Rightarrow> ('z, 'f) env \<Rightarrow> protover \<Rightarrow> nat \<Rightarrow> string_t list \<Rightarrow> ('z, 'f) database \<Rightarrow> out \<Rightarrow>
   (('z, 'f) database \<times> out) res" where
  "count_loop g zop fop e protover i [] db out = Inr (db, out)"
| "count_loop g zop fop e protover i (key # keys) db out =
     bind_res (count_step g zop fop e protover i (str_bytes key) db out) (\<lambda>(db, out).
       count_loop g zop fop e protover (i + 1) keys db out)"

definition count_header :: "protover \<Rightarrow> nat \<Rightarrow> out res" where
  "count_header protover n = (case protover of
       RESP2 \<Rightarrow> bind_res (put [] ''*'') (\<lambda>out. bind_res (put_ltoa out (word_of_nat (n * 2))) (\<lambda>out. put out CRLF))
     | RESP3 \<Rightarrow> bind_res (put [] ''%'') (\<lambda>out. bind_res (put_ltoa out (word_of_nat n)) (\<lambda>out. put out CRLF)))"

text \<open>
  Without a client the first iteration writes the key into \<open>entry->client->write_buf\<close>, with a NULL
  client.
\<close>

definition run_count ::
  "bytes \<Rightarrow> ('z, 'f) gmp \<Rightarrow> ('z \<Rightarrow> 'z) \<Rightarrow> ('f \<Rightarrow> 'f) \<Rightarrow> ('z, 'f) env \<Rightarrow> entry \<Rightarrow> ('z, 'f) database \<Rightarrow>
   (('z, 'f) database \<times> bytes) res" where
  "run_count name g zop fop e en db =
     (if arg_count en = 0 then reply en db (say (WRONG_ARGUMENT_ERROR name))
      else case en_client en of
          Some protover \<Rightarrow>
            bind_res (count_header protover (arg_count en)) (\<lambda>out.
              count_loop g zop fop e protover 0 (en_args en) db out)
        | None \<Rightarrow> bind_res (get_data db (key_at en 0)) (\<lambda>_. Inl NullDeref))"

definition run_incr :: "('z, 'f) gmp \<Rightarrow> ('z, 'f) env \<Rightarrow> entry \<Rightarrow> ('z, 'f) database \<Rightarrow> (('z, 'f) database \<times> bytes) res" where
  "run_incr g e en db = run_count ''INCR'' g (\<lambda>z. mpz_add_ui g z 1) (\<lambda>f. mpf_add_ui g f 1) e en db"

definition cmd_incr :: "('z, 'f) command" where
  "cmd_incr = \<lparr>c_name = ''INCR'', c_permissions = P_READ OR P_WRITE, c_affect = True, c_access = True,
               c_waiting = False, c_get_keys = get_keys_incr, c_run = run_incr\<rparr>"

definition get_keys_decr :: "entry \<Rightarrow> string_t list" where
  "get_keys_decr en = en_args en"

definition run_decr :: "('z, 'f) gmp \<Rightarrow> ('z, 'f) env \<Rightarrow> entry \<Rightarrow> ('z, 'f) database \<Rightarrow> (('z, 'f) database \<times> bytes) res" where
  "run_decr g e en db = run_count ''DECR'' g (\<lambda>z. mpz_sub_ui g z 1) (\<lambda>f. mpf_sub_ui g f 1) e en db"

definition cmd_decr :: "('z, 'f) command" where
  "cmd_decr = \<lparr>c_name = ''DECR'', c_permissions = P_READ OR P_WRITE, c_affect = True, c_access = True,
               c_waiting = False, c_get_keys = get_keys_decr, c_run = run_decr\<rparr>"

section \<open>INCRBY and DECRBY\<close>

definition get_keys_incrby :: "entry \<Rightarrow> string_t list" where
  "get_keys_incrby en = (if arg_count en \<noteq> 2 then [] else [arg_at en 0])"

text \<open>GMP reads the argument up to the next NUL of the read buffer.\<close>

definition gmp_input :: "string_t \<Rightarrow> bytes" where
  "gmp_input s = c_string (str_mem s)"

text \<open>
  A new key: an integer is stored; a double is never stored, because the branch tests the result
  of a \<open>set_data\<close> that it does not call.
\<close>

definition run_incrby :: "('z, 'f) gmp \<Rightarrow> ('z, 'f) env \<Rightarrow> entry \<Rightarrow> ('z, 'f) database \<Rightarrow> (('z, 'f) database \<times> bytes) res" where
  "run_incrby g e en db =
     (if arg_count en \<noteq> 2 then reply en db (say (WRONG_ARGUMENT_ERROR ''INCRBY''))
      else
        bind_res (try_parse_integer (arg_at en 1)) (\<lambda>is_integer.
        bind_res (try_parse_double (arg_at en 1)) (\<lambda>is_double.
        if \<not> is_integer \<and> \<not> is_double then
          reply en db (say (RESP_ERROR_MESSAGE ''Second argument must be an integer or double''))
        else
          let input = gmp_input (arg_at en 1); key = key_at en 0 in
          bind_res (get_data db key) (\<lambda>r. case r of
              None \<Rightarrow>
                if is_integer then
                  if \<not> e_ok e 0 0 then Inr (db, OUT_OF_MEMORY)
                  else let v = Prim (PInt (mpz_init_set_str g input)) in
                    bind_res (set_data (e_ok e 0 1) (e_ok e 0 2) (e_mem e) db None key v None) (\<lambda>(db, p).
                      if p = None then reply en db (say RESP_ERROR)
                      else reply en db (\<lambda>protover. write_value g v protover []))
                else
                  if \<not> e_ok e 0 3 then Inr (db, OUT_OF_MEMORY)
                  else reply en db (say RESP_ERROR)
            | Some (i, kv) \<Rightarrow> (case kv_value kv of
                Prim (PInt z) \<Rightarrow>
                  if is_integer then
                    let v = Prim (PInt (mpz_add g z (mpz_init_set_str g input))) in
                    reply en (write_kv db i (kv\<lparr>kv_value := v\<rparr>)) (\<lambda>protover. write_value g v protover [])
                  else
                    if \<not> e_ok e 0 4 then Inr (write_kv db i (kv\<lparr>kv_value := VLost\<rparr>), OUT_OF_MEMORY)
                    else let v = Prim (PDouble (mpf_add g (mpf_set_str g input) (mpf_set_z g z))) in
                      reply en (write_kv db i (kv\<lparr>kv_value := v\<rparr>)) (\<lambda>protover. write_value g v protover [])
              | Prim (PDouble f) \<Rightarrow>
                  let v = Prim (PDouble (mpf_add g f (mpf_set_str g input))) in
                  reply en (write_kv db i (kv\<lparr>kv_value := v\<rparr>)) (\<lambda>protover. write_value g v protover [])
              | VLost \<Rightarrow> Inl NullDeref
              | _ \<Rightarrow> Inr (db, INVALID_TYPE_ERROR ''INCRBY''))))))"

definition cmd_incrby :: "('z, 'f) command" where
  "cmd_incrby = \<lparr>c_name = ''INCRBY'', c_permissions = P_READ OR P_WRITE, c_affect = True, c_access = True,
                 c_waiting = False, c_get_keys = get_keys_incrby, c_run = run_incrby\<rparr>"

definition get_keys_decrby :: "entry \<Rightarrow> string_t list" where
  "get_keys_decrby en = (if arg_count en \<noteq> 2 then [] else [arg_at en 0])"

definition run_decrby :: "('z, 'f) gmp \<Rightarrow> ('z, 'f) env \<Rightarrow> entry \<Rightarrow> ('z, 'f) database \<Rightarrow> (('z, 'f) database \<times> bytes) res" where
  "run_decrby g e en db =
     (if arg_count en \<noteq> 2 then reply en db (say (WRONG_ARGUMENT_ERROR ''DECRBY''))
      else
        bind_res (try_parse_integer (arg_at en 1)) (\<lambda>is_integer.
        bind_res (try_parse_double (arg_at en 1)) (\<lambda>is_double.
        if \<not> is_integer \<and> \<not> is_double then
          reply en db (say (RESP_ERROR_MESSAGE ''Second argument must be an integer or double''))
        else
          let input = gmp_input (arg_at en 1); key = key_at en 0 in
          bind_res (get_data db key) (\<lambda>r. case r of
              None \<Rightarrow>
                let v = (if is_integer then Prim (PInt (mpz_neg g (mpz_init_set_str g input)))
                         else Prim (PDouble (mpf_neg g (mpf_set_str g input)))) in
                if \<not> e_ok e 0 0 then Inr (db, OUT_OF_MEMORY)
                else bind_res (set_data (e_ok e 0 1) (e_ok e 0 2) (e_mem e) db None key v None) (\<lambda>(db, p).
                    if p = None then reply en db (say RESP_ERROR)
                    else reply en db (\<lambda>protover. write_value g v protover []))
            | Some (i, kv) \<Rightarrow> (case kv_value kv of
                Prim (PInt z) \<Rightarrow>
                  if is_integer then
                    let v = Prim (PInt (mpz_sub g z (mpz_init_set_str g input))) in
                    reply en (write_kv db i (kv\<lparr>kv_value := v\<rparr>)) (\<lambda>protover. write_value g v protover [])
                  else
                    if \<not> e_ok e 0 4 then Inr (write_kv db i (kv\<lparr>kv_value := VLost\<rparr>), OUT_OF_MEMORY)
                    else let v = Prim (PDouble (mpf_neg g (mpf_sub g (mpf_set_str g input) (mpf_set_z g z)))) in
                      reply en (write_kv db i (kv\<lparr>kv_value := v\<rparr>)) (\<lambda>protover. write_value g v protover [])
              | Prim (PDouble f) \<Rightarrow>
                  let v = Prim (PDouble (mpf_sub g f (mpf_set_str g input))) in
                  reply en (write_kv db i (kv\<lparr>kv_value := v\<rparr>)) (\<lambda>protover. write_value g v protover [])
              | VLost \<Rightarrow> Inl NullDeref
              | _ \<Rightarrow> Inr (db, INVALID_TYPE_ERROR ''DECRBY''))))))"

definition cmd_decrby :: "('z, 'f) command" where
  "cmd_decrby = \<lparr>c_name = ''DECRBY'', c_permissions = P_READ OR P_WRITE, c_affect = True, c_access = True,
                 c_waiting = False, c_get_keys = get_keys_decrby, c_run = run_decrby\<rparr>"

section \<open>What the commands do\<close>

text \<open>Every value of the database can be freed.\<close>

definition sound_db :: "('z, 'f) database \<Rightarrow> bool" where
  "sound_db db \<longleftrightarrow> wf_db db \<and> (\<forall>key kv. db_map db key = Some kv \<longrightarrow> freeable (kv_value kv))"

lemma sound_db_update:
  "\<lbrakk>sound_db db; wf_db db'; db_map db' = (db_map db)(k \<mapsto> kv); freeable (kv_value kv)\<rbrakk> \<Longrightarrow> sound_db db'"
  by (auto simp: sound_db_def split: if_splits)

lemma sound_db_remove:
  "\<lbrakk>sound_db db; wf_db db'; db_map db' = (db_map db)(k := None)\<rbrakk> \<Longrightarrow> sound_db db'"
  by (auto simp: sound_db_def split: if_splits)

lemma get_data_map:
  assumes "wf_db db"
  shows "\<exists>r. get_data db key = Inr r \<and> (r = None \<longleftrightarrow> db_map db key = None) \<and>
    (\<forall>i kv. r = Some (i, kv) \<longrightarrow> db_map db key = Some kv \<and> in_slots (ht_elements (db_data db)) i key kv)"
  by (rule get_data_cases [OF assms, of key]) auto

lemma run_get_correct:
  assumes "wf_db db" "en_client en = Some protover" "en_args en = [k]"
  shows "run_get g e en db = (case db_map db (str_bytes k) of
      None \<Rightarrow> Inr (db, RESP_NULL protover)
    | Some kv \<Rightarrow> bind_res (write_value g (kv_value kv) protover []) (\<lambda>bs. Inr (db, bs)))"
  by (rule get_data_cases [OF assms(1), of "str_bytes k"])
    (use assms(2,3) in \<open>simp_all add: run_get_def arg_count_def key_at_def arg_at_def\<close>)

lemma run_type_correct:
  assumes "wf_db db" "en_client en = Some protover" "en_args en = [k]"
  shows "run_type g e en db = Inr (db, case db_map db (str_bytes k) of
      None \<Rightarrow> RESP_NULL protover | Some kv \<Rightarrow> get_resp_type_name (kv_value kv))"
  by (rule get_data_cases [OF assms(1), of "str_bytes k"])
    (use assms(2,3) in \<open>simp_all add: run_type_def arg_count_def key_at_def arg_at_def\<close>)

text \<open>\<open>DEL\<close> removes its keys and counts the ones that were there, each once.\<close>

fun deleted_keys :: "(bytes \<rightharpoonup> 'v) \<Rightarrow> bytes list \<Rightarrow> nat" where
  "deleted_keys m [] = 0"
| "deleted_keys m (k # ks) = (if m k = None then 0 else 1) + deleted_keys (m(k := None)) ks"

lemma deleted_keys_card: "deleted_keys m ks = card (set ks \<inter> dom m)"
proof (induction ks arbitrary: m)
  case (Cons k ks)
  have "set ks \<inter> dom (m(k := None)) = set ks \<inter> dom m - {k}" by auto
  then have IH: "deleted_keys (m(k := None)) ks = card (set ks \<inter> dom m - {k})" by (simp only: Cons.IH)
  show ?case
  proof (cases "k \<in> dom m")
    case True
    then have "set (k # ks) \<inter> dom m = insert k (set ks \<inter> dom m - {k})" by auto
    moreover have "card (insert k (set ks \<inter> dom m - {k})) = Suc (card (set ks \<inter> dom m - {k}))"
      by (rule card_insert_disjoint) simp_all
    ultimately have "card (set (k # ks) \<inter> dom m) = Suc (card (set ks \<inter> dom m - {k}))" by (simp only:)
    then show ?thesis using IH True by auto
  next
    case False
    then have "set (k # ks) \<inter> dom m = set ks \<inter> dom m - {k}" by auto
    then show ?thesis using IH False by auto
  qed
qed simp

lemma del_loop_correct:
  "sound_db db \<Longrightarrow> \<exists>db'. del_loop db keys n = Inr (db', n + word_of_nat (deleted_keys (db_map db) (map str_bytes keys))) \<and>
     sound_db db' \<and> db_map db' = db_map db |` (- (str_bytes ` set keys))"
proof (induction keys arbitrary: db n)
  case Nil
  then show ?case by (simp add: restrict_map_def)
next
  case (Cons k ks)
  have wf: "wf_db db" and fr: "\<And>kv. db_map db (str_bytes k) = Some kv \<Longrightarrow> freeable (kv_value kv)"
    using Cons.prems by (auto simp: sound_db_def)
  obtain db1 where db1: "delete_data db (str_bytes k) = Inr (db1, db_map db (str_bytes k) \<noteq> None)" "wf_db db1"
      "db_map db1 = (db_map db)(str_bytes k := None)"
    using delete_data_correct [OF wf fr] by blast
  have s1: "sound_db db1" by (rule sound_db_remove [OF Cons.prems db1(2,3)])
  obtain db' where "del_loop db1 ks (if db_map db (str_bytes k) \<noteq> None then n + 1 else n) =
      Inr (db', (if db_map db (str_bytes k) \<noteq> None then n + 1 else n) + word_of_nat (deleted_keys (db_map db1) (map str_bytes ks)))"
      "sound_db db'" "db_map db' = db_map db1 |` (- (str_bytes ` set ks))"
    using Cons.IH [OF s1] by blast
  moreover have "db_map db1 |` (- (str_bytes ` set ks)) = db_map db |` (- (str_bytes ` set (k # ks)))"
    by (auto simp: db1(3) restrict_map_def)
  ultimately show ?case using db1(1,3) by (auto simp: add.assoc)
qed

lemma run_del_correct:
  assumes s: "sound_db db" and cl: "en_client en = Some protover" and n: "en_args en \<noteq> []" "length (en_args en) < 2 ^ 32"
  defines "keys \<equiv> str_bytes ` set (en_args en)"
  shows "\<exists>db'. run_del g e en db = Inr (db', resp_int (int (card (keys \<inter> dom (db_map db))))) \<and> sound_db db' \<and>
    db_map db' = db_map db |` (- keys)"
proof -
  let ?n = "card (keys \<inter> dom (db_map db))"
  have c: "deleted_keys (db_map db) (map str_bytes (en_args en)) = ?n"
    by (simp add: deleted_keys_card keys_def)
  obtain db' where db': "del_loop db (en_args en) 0 = Inr (db', word_of_nat ?n)" "sound_db db'" "db_map db' = db_map db |` (- keys)"
    using del_loop_correct [OF s, of "en_args en" 0] c by (auto simp: keys_def)
  have "?n \<le> card keys" by (intro card_mono) (auto simp: keys_def)
  also have "\<dots> \<le> length (en_args en)" unfolding keys_def by (rule order_trans [OF card_image_le card_length]) simp
  finally have small: "?n < 2 ^ 32" using n(2) by simp
  then have "(ucast (word_of_nat ?n :: 32 word) :: 64 word) = word_of_nat ?n"
    by (simp add: unat_of_nat unsigned_of_nat take_bit_nat_eq_self)
  moreover have "length (int_text (int ?n)) \<le> 20" using small by (intro int_text_small) simp
  then have "create_resp_integer [] (word_of_nat ?n) = Inr (resp_int (int ?n))"
    using create_resp_integer_nat [of ?n "[]"] small by (simp add: resp_int_def MAX_RESPONSE_SIZE_def)
  ultimately show ?thesis using db' cl n(1) by (simp add: run_del_def arg_count_def)
qed

text \<open>\<open>RENAME\<close>: a key that holds a value under the new name keeps it, and the renamed one is lost.\<close>

lemma run_rename_correct:
  assumes s: "sound_db db" and cl: "en_client en = Some protover" and args: "en_args en = [old, new]" and c: "calm e"
    and kv: "db_map db (str_bytes old) = Some kv"
  defines "m \<equiv> (db_map db)(str_bytes old := None)"
  shows "\<exists>db'. run_rename g e en db = Inr (db', RESP_OK) \<and> sound_db db' \<and>
    db_map db' = (if m (str_bytes new) = None then m(str_bytes new \<mapsto> kv) else m)"
proof -
  let ?o = "str_bytes old" and ?n = "str_bytes new"
  have wf: "wf_db db" using s by (simp add: sound_db_def)
  note w = wf_db_table [OF wf]
  obtain r where r: "get_data db ?o = Inr r" "r \<noteq> None" "\<forall>i kv. r = Some (i, kv) \<longrightarrow> db_map db ?o = Some kv"
    using get_data_map [OF wf, of ?o] kv by auto
  then obtain i where get: "get_data db ?o = Inr (Some (i, kv))" using kv by (cases r) auto
  obtain t where t: "delete_from_hashtable (db_data db) ?o = Inr (t, True)" "wf_table t" "ht_map t = m"
      "ht_hash t = string_hash" "ht_compare t = string_compare"
    using delete_correct [OF w, of ?o] kv wf by (auto simp: m_def db_map_def wf_db_def wf_strings_def)
  obtain t' j where t': "insert_into_hashtable (e_mem e) t ?n kv = Inr (t', Some j)" "wf_table t'"
      "ht_hash t' = ht_hash t" "ht_compare t' = ht_compare t"
      "ht_map t' = (if ht_map t ?n = None then (ht_map t)(?n \<mapsto> kv) else ht_map t)"
    using insert_succeeds [OF t(2), of "e_mem e" ?n kv] c unfolding calm_def by blast
  let ?db = "db\<lparr>db_data := t'\<rparr>"
  have "run_rename g e en db = Inr (?db, RESP_OK)"
    using cl args get t(1) t'(1) c by (simp add: run_rename_def arg_count_def key_at_def arg_at_def)
  moreover have "wf_db ?db" using t' t(4,5) by (simp add: wf_db_def wf_strings_def)
  moreover have m': "db_map ?db = (if m ?n = None then m(?n \<mapsto> kv) else m)" using t'(5) t(3) by (simp add: db_map_def)
  moreover have "freeable (kv_value w)" if "db_map ?db a = Some w" for a w
    using that s kv unfolding m' by (auto simp: m_def sound_db_def split: if_splits)
  ultimately show ?thesis by (auto simp: sound_db_def)
qed

lemma run_rename_missing:
  assumes "wf_db db" "en_client en = Some protover" "en_args en = [old, new]" "db_map db (str_bytes old) = None"
  shows "run_rename g e en db = Inr (db, RESP_ERROR_MESSAGE ''The new key already exists'')"
  by (rule get_data_cases [OF assms(1), of "str_bytes old"])
    (use assms(2-4) in \<open>simp_all add: run_rename_def arg_count_def key_at_def arg_at_def\<close>)

text \<open>Overwriting the value behind a key keeps a sound database sound.\<close>

lemma write_kv_sound:
  assumes s: "sound_db db" and i: "in_slots (ht_elements (db_data db)) i key old" and f: "freeable (kv_value kv)"
  shows "sound_db (write_kv db i kv) \<and> db_map (write_kv db i kv) = (db_map db)(key \<mapsto> kv)"
proof -
  have wf: "wf_db db" using s by (simp add: sound_db_def)
  show ?thesis using write_kv_correct [OF wf i, of kv] sound_db_update [OF s _ _ f] by blast
qed

lemma get_data_Some:
  assumes "wf_db db" "db_map db key = Some kv"
  obtains i where "get_data db key = Inr (Some (i, kv))" "in_slots (ht_elements (db_data db)) i key kv"
  by (rule get_data_cases [OF assms(1), of key]) (use assms(2) that in auto)

lemma get_data_None:
  assumes "wf_db db" "db_map db key = None" shows "get_data db key = Inr None"
  by (rule get_data_cases [OF assms(1), of key]) (use assms(2) in auto)

lemma new_data_sound:
  assumes s: "sound_db db" and c: "calm e" and n: "db_map db key = None" and f: "freeable v"
  shows "\<exists>db' i. set_data True True (e_mem e) db None key v ex = Inr (db', Some i) \<and> sound_db db' \<and>
    db_map db' = (db_map db)(key \<mapsto> \<lparr>kv_value = v, kv_expiry = ex\<rparr>)"
proof -
  have wf: "wf_db db" using s by (simp add: sound_db_def)
  obtain db' i where "set_data True True (e_mem e) db None key v ex = Inr (db', Some i)" "wf_db db'"
      "db_map db' = (db_map db)(key \<mapsto> \<lparr>kv_value = v, kv_expiry = ex\<rparr>)"
    using set_data_calm [OF wf c get_data_None [OF wf n], of v ex] by auto
  then show ?thesis using sound_db_update [OF s] f by auto
qed

lemma new_data_slot:
  assumes s: "sound_db db" and c: "calm e" and n: "db_map db key = None" and f: "freeable v"
  shows "\<exists>db' i. set_data True True (e_mem e) db None key v ex = Inr (db', Some i) \<and> sound_db db' \<and>
    db_map db' = (db_map db)(key \<mapsto> \<lparr>kv_value = v, kv_expiry = ex\<rparr>) \<and>
    in_slots (ht_elements (db_data db')) i key \<lparr>kv_value = v, kv_expiry = ex\<rparr>"
proof -
  have wf: "wf_db db" using s by (simp add: sound_db_def)
  obtain db' i where d: "set_data True True (e_mem e) db None key v ex = Inr (db', Some i)" "sound_db db'"
      "db_map db' = (db_map db)(key \<mapsto> \<lparr>kv_value = v, kv_expiry = ex\<rparr>)"
    using new_data_sound [OF s c n f] by blast
  obtain t' where t: "insert_into_hashtable (e_mem e) (db_data db) key \<lparr>kv_value = v, kv_expiry = ex\<rparr> = Inr (t', Some i)"
      "db' = db\<lparr>db_data := t'\<rparr>"
    using d(1) by (auto simp: set_data_def set_kv_def elim!: bind_res_InrE)
  have "zeroed (e_mem e)" using c by simp
  then have "in_slots (ht_elements t') i key (the (ht_map t' key))"
    using insert_correct [OF wf_db_table [OF wf], of "e_mem e" key "\<lparr>kv_value = v, kv_expiry = ex\<rparr>"] t(1) by auto
  then show ?thesis using d t(2) by (auto simp: db_map_def)
qed

lemma freeable_prim [simp]: "freeable (Prim p)"
  by (simp add: freeable_def)

lemma run_append_correct:
  assumes s: "sound_db db" and cl: "en_client en = Some protover" and args: "en_args en = [k, a]" and c: "calm e"
    and kv: "db_map db (str_bytes k) = Some kv" "kv_value kv = Prim (PStr t)"
    and short: "length t + length (str_bytes a) < 2 ^ 32"
  shows "\<exists>db'. run_append g e en db = Inr (db', resp_int (int (length t + length (str_bytes a)))) \<and> sound_db db' \<and>
    db_map db' = (db_map db)(str_bytes k \<mapsto> kv\<lparr>kv_value := Prim (PStr (t @ str_bytes a))\<rparr>)"
proof -
  have wf: "wf_db db" using s by (simp add: sound_db_def)
  obtain i where i: "get_data db (str_bytes k) = Inr (Some (i, kv))" "in_slots (ht_elements (db_data db)) i (str_bytes k) kv"
    using get_data_Some [OF wf kv(1)] by blast
  let ?n = "length t + length (str_bytes a)"
  have "length (int_text (int ?n)) \<le> 20" using short by (intro int_text_small) simp
  then have "create_resp_integer [] (word_of_nat ?n) = Inr (resp_int (int ?n))"
    using create_resp_integer_nat [of ?n "[]"] short by (simp add: resp_int_def MAX_RESPONSE_SIZE_def)
  then show ?thesis using i cl args c kv(2) short write_kv_sound [OF s i(2), of "kv\<lparr>kv_value := Prim (PStr (t @ str_bytes a))\<rparr>"]
    by (simp add: run_append_def arg_count_def key_at_def arg_at_def Let_def del: of_nat_add)
qed

lemma count_header_text:
  "n < 2 ^ 31 \<Longrightarrow> count_header protover n = Inr ((case protover of RESP2 \<Rightarrow> ''*'' @ decimal (2 * n) | RESP3 \<Rightarrow> ''%'' @ decimal n) @ CRLF)"
proof -
  assume n: "n < 2 ^ 31"
  have l: "put_ltoa out (word_of_nat m) = Inr (out @ decimal m)" if "m < 2 ^ 32" "length out < 100" for m out
  proof -
    have v: "sint (word_of_nat m :: 64 word) = int m" using that by (intro sint_of_nat_small) simp
    have "length (int_text (int m)) \<le> 20" using that by (intro int_text_small) simp
    then show ?thesis using put_ltoa_text [of "word_of_nat m" out] v that by (simp add: int_text_def MAX_RESPONSE_SIZE_def)
  qed
  have d: "length (decimal m) \<le> 20" if "m < 2 ^ 32" for m
    using int_text_small [of "int m"] that by (simp add: int_text_def)
  show ?thesis
    using n l [of "2 * n" "''*''"] l [of n "''%''"] d [of "2 * n"] d [of n]
    by (cases protover) (simp_all add: count_header_def put_def MAX_RESPONSE_SIZE_def mult.commute del: of_nat_mult)
qed

text \<open>\<open>INCR\<close> and \<open>DECR\<close> of one key that holds an integer, and of one that does not exist.\<close>

definition count_response :: "protover \<Rightarrow> bytes \<Rightarrow> int \<Rightarrow> bytes" where
  "count_response protover key i =
     (case protover of RESP2 \<Rightarrow> ''*2'' | RESP3 \<Rightarrow> ''%1'') @ CRLF @ resp_bulk key @ resp_int i"

lemma run_count_correct:
  assumes ok: "gmp_ok g val" and s: "sound_db db" and cl: "en_client en = Some protover" and args: "en_args en = [k]"
    and kv: "db_map db (str_bytes k) = Some kv" "kv_value kv = Prim (PInt z)"
    and fits: "- (2 ^ 63) \<le> val (zop z)" "val (zop z) < 2 ^ 63" and short: "length (str_bytes k) < 200000"
  shows "\<exists>db'. run_count name g zop fop e en db = Inr (db', count_response protover (str_bytes k) (val (zop z))) \<and>
    sound_db db' \<and> db_map db' = (db_map db)(str_bytes k \<mapsto> kv\<lparr>kv_value := Prim (PInt (zop z))\<rparr>)"
proof -
  let ?k = "str_bytes k"
  have wf: "wf_db db" using s by (simp add: sound_db_def)
  obtain i where i: "get_data db ?k = Inr (Some (i, kv))" "in_slots (ht_elements (db_data db)) i ?k kv"
    using get_data_Some [OF wf kv(1)] by blast
  define h where "h = (case protover of RESP2 \<Rightarrow> ''*2'' | RESP3 \<Rightarrow> ''%1'') @ CRLF"
  have digits: "decimal 2 = ''2''" "decimal 1 = ''1''" by code_simp+
  have hdr: "count_header protover 1 = Inr h"
    using count_header_text [of 1 protover] digits by (cases protover) (simp_all add: h_def)
  have hl: "length h = 4" by (cases protover) (simp_all add: h_def)
  have "length (decimal (length ?k)) \<le> 20"
    using int_text_small [of "int (length ?k)"] short by (simp add: int_text_def)
  then have bl: "length (resp_bulk ?k) \<le> length ?k + 30" by (simp add: resp_bulk_def)
  then have key: "create_resp_string h ?k = Inr (h @ resp_bulk ?k)"
    using short hl by (intro create_resp_string_text) (simp add: MAX_RESPONSE_SIZE_def)
  have "length (int_text (val (zop z))) \<le> 20"
  proof (cases "val (zop z) = - (2 ^ 63)")
    case True
    have "length (decimal (2 ^ 63)) = Suc 18" by (rule decimal_length_eq) simp_all
    then show ?thesis using True by (simp add: int_text_def del: decimal.simps)
  next
    case False
    then show ?thesis using fits by (intro int_text_small) linarith
  qed
  then have num: "create_resp_integer_mpz g protover (h @ resp_bulk ?k) (zop z) = Inr (h @ resp_bulk ?k @ resp_int (val (zop z)))"
    using mpz_text [OF ok, of "zop z" protover "h @ resp_bulk ?k"] ok fits bl hl short
    by (simp add: gmp_ok_def resp_int_def MAX_RESPONSE_SIZE_def)
  show ?thesis using hdr key num i cl args kv(2) write_kv_sound [OF s i(2), of "kv\<lparr>kv_value := Prim (PInt (zop z))\<rparr>"]
    by (simp add: run_count_def arg_count_def count_step_def count_response_def h_def)
qed

text \<open>Numbers as arguments that a NUL ends.\<close>

lemma all_no_nul: "\<lbrakk>list_all P s; \<not> P NUL\<rbrakk> \<Longrightarrow> NUL \<notin> set s"
  by (induction s) auto

lemma int_literal_no_nul: "int_literal s \<Longrightarrow> NUL \<notin> set s"
  by (cases s) (auto simp: int_literal_def dest: all_no_nul split: if_splits)

lemma double_literal_no_nul: "double_literal s \<Longrightarrow> NUL \<notin> set s"
  by (cases s) (auto simp: double_literal_def Let_def dest: all_no_nul split: if_splits)

lemma c_string_append: "NUL \<notin> set s \<Longrightarrow> c_string (s @ NUL # rest) = s"
  by (induction s) (auto simp: c_string_def)

lemma gmp_input_arg: "NUL \<notin> set s \<Longrightarrow> gmp_input (arg s (NUL # rest)) = s"
  by (simp add: gmp_input_def c_string_append)

lemma try_parse_nul [simp]:
  "try_parse_integer (arg s (NUL # rest)) = Inr (int_literal s)"
  "try_parse_double (arg s (NUL # rest)) = Inr (double_literal s)"
  by (simp_all add: try_parse_integer_arg try_parse_double_arg)

text \<open>Over RESP the carriage return and whatever follows it belong to what GMP reads.\<close>

lemma gmp_input_resp:
  "NUL \<notin> set s \<Longrightarrow> gmp_input (arg s (CRLF @ rest)) = s @ CRLF @ c_string rest"
  by (induction s) (auto simp: gmp_input_def c_string_def arg_def)

lemma write_int_value:
  assumes ok: "gmp_ok g val" and fits: "\<bar>val z\<bar> < 2 ^ 63"
  shows "write_value g (Prim (PInt z)) protover [] = Inr (resp_int (val z))"
proof -
  have f: "mpz_fits_slong g z" using ok fits by (auto simp: gmp_ok_def abs_if split: if_splits)
  have "length (int_text (val z)) \<le> 20" by (rule int_text_small [OF fits])
  then show ?thesis using mpz_text [OF ok, of z protover "[]"] f
    by (simp add: write_value_def write_prim_def answer_def resp_int_def MAX_RESPONSE_SIZE_def)
qed

lemma run_incrby_correct:
  assumes ok: "gmp_ok g val" and s: "sound_db db" and cl: "en_client en = Some protover"
    and args: "en_args en = [k, arg n (NUL # rest)]" and n: "int_literal n"
    and kv: "db_map db (str_bytes k) = Some kv" "kv_value kv = Prim (PInt z)"
    and fits: "\<bar>val z + int_of_text n\<bar> < 2 ^ 63"
  shows "\<exists>db' z'. run_incrby g e en db = Inr (db', resp_int (val z + int_of_text n)) \<and> sound_db db' \<and>
    val z' = val z + int_of_text n \<and> db_map db' = (db_map db)(str_bytes k \<mapsto> kv\<lparr>kv_value := Prim (PInt z')\<rparr>)"
proof -
  let ?z = "mpz_add g z (mpz_init_set_str g n)"
  have v: "val ?z = val z + int_of_text n" using ok n by (simp add: gmp_ok_def)
  have wf: "wf_db db" using s by (simp add: sound_db_def)
  obtain i where i: "get_data db (str_bytes k) = Inr (Some (i, kv))" "in_slots (ht_elements (db_data db)) i (str_bytes k) kv"
    using get_data_Some [OF wf kv(1)] by blast
  have w: "write_value g (Prim (PInt ?z)) protover [] = Inr (resp_int (val z + int_of_text n))"
    using write_int_value [OF ok, of ?z protover] v fits by simp
  let ?kv = "kv\<lparr>kv_value := Prim (PInt ?z)\<rparr>"
  have "run_incrby g e en db = Inr (write_kv db i ?kv, resp_int (val z + int_of_text n))"
    using i(1) cl args kv(2) w n gmp_input_arg [OF int_literal_no_nul [OF n]]
    by (simp add: run_incrby_def arg_count_def key_at_def arg_at_def Let_def)
  then show ?thesis using write_kv_sound [OF s i(2), of ?kv] v by (intro exI [of _ "write_kv db i ?kv"] exI [of _ ?z]) simp
qed

lemma run_incrby_new_double:
  assumes wf: "wf_db db" and cl: "en_client en = Some protover" and args: "en_args en = [k, arg n (NUL # rest)]"
    and n: "double_literal n" and new: "db_map db (str_bytes k) = None" and c: "calm e"
  shows "run_incrby g e en db = Inr (db, RESP_ERROR)"
proof -
  have "\<not> int_literal n" using n int_not_double by blast
  then show ?thesis using get_data_None [OF wf new] cl args n c
    by (simp add: run_incrby_def arg_count_def key_at_def arg_at_def Let_def)
qed

text \<open>Without a client \<open>INCR\<close> and \<open>DECR\<close> go through a NULL pointer.\<close>

lemma run_count_no_client:
  assumes "wf_db db" "en_client en = None" "en_args en \<noteq> []"
  shows "run_count name g zop fop e en db = Inl NullDeref"
  by (rule get_data_cases [OF assms(1), of "key_at en 0"])
    (use assms(2,3) in \<open>simp_all add: run_count_def arg_count_def\<close>)

end
