(* ===== verification/Cmd_Set.thy ===== *)
theory Cmd_Set
  imports Cmd_KV
begin

text \<open>
  The \<open>SET\<close> command, \<open>src/commands/kv/set.c\<close>: the parsing of its options, the type of the stored
  value, and the command itself.
\<close>

section \<open>Options\<close>

datatype telly_type = TELLY_UNKNOWN | TELLY_NULL | TELLY_INT | TELLY_DOUBLE | TELLY_STR | TELLY_BOOL

record set_response =
  sr_type :: telly_type
  sr_is_integer :: bool
  sr_is_double :: bool
  sr_is_true :: bool

record set_options =
  so_get :: bool
  so_nx :: bool
  so_xx :: bool
  so_as :: bool
  so_expiry :: "64 word option"

datatype option_code =
    MISSING_EX_VALUE | INVALID_EX_VALUE | BOUNDS_OF_EX_VALUE | SYSCALL_ERROR_FOR_EX
  | MISSING_PX_VALUE | INVALID_PX_VALUE | BOUNDS_OF_PX_VALUE | SYSCALL_ERROR_FOR_PX
  | INVALID_TYPE_IN_AS | INVALID_OPTIONS
  | MUST_BE_NUMBER | MUST_BE_BOOLEAN | MUST_BE_DOUBLE | MUST_BE_INTEGER
  | SIMULTANEOUSLY_NX_XX | VALID_OPTIONS

definition quoted :: "bytes \<Rightarrow> bytes" where
  "quoted s = [CHR 0x27] @ s @ [CHR 0x27]"

fun parsing_code_response :: "option_code \<Rightarrow> bytes" where
  "parsing_code_response MISSING_EX_VALUE = RESP_ERROR_MESSAGE (''There is no specified value for '' @ quoted ''EX'' @ '' argument'')"
| "parsing_code_response INVALID_EX_VALUE = RESP_ERROR_MESSAGE (''The value of '' @ quoted ''EX'' @ '' argument must be an integer'')"
| "parsing_code_response BOUNDS_OF_EX_VALUE = RESP_ERROR_MESSAGE (''The value of '' @ quoted ''EX'' @ '' argument is out of bounds of maximum-width integer'')"
| "parsing_code_response SYSCALL_ERROR_FOR_EX = RESP_ERROR_MESSAGE (''Cannot take the current time for '' @ quoted ''EX'' @ '' argument'')"
| "parsing_code_response MISSING_PX_VALUE = RESP_ERROR_MESSAGE (''There is no specified value for '' @ quoted ''PX'' @ '' argument'')"
| "parsing_code_response INVALID_PX_VALUE = RESP_ERROR_MESSAGE (''The value of '' @ quoted ''PX'' @ '' argument must be an integer'')"
| "parsing_code_response BOUNDS_OF_PX_VALUE = RESP_ERROR_MESSAGE (''The value of '' @ quoted ''PX'' @ '' argument is out of bounds of maximum-width integer'')"
| "parsing_code_response SYSCALL_ERROR_FOR_PX = RESP_ERROR_MESSAGE (''Cannot take the current time for '' @ quoted ''PX'' @ '' argument'')"
| "parsing_code_response INVALID_TYPE_IN_AS = RESP_ERROR_MESSAGE (quoted ''AS'' @ '' argument must be followed by a valid type name for '' @ quoted ''SET'' @ '' command'')"
| "parsing_code_response INVALID_OPTIONS = RESP_ERROR_MESSAGE (''Invalid argument(s) for '' @ quoted ''SET'' @ '' command'')"
| "parsing_code_response MUST_BE_NUMBER = RESP_ERROR_MESSAGE ''The type must be double or integer for this value''"
| "parsing_code_response MUST_BE_BOOLEAN = RESP_ERROR_MESSAGE ''The type must be boolean for this value''"
| "parsing_code_response MUST_BE_DOUBLE = RESP_ERROR_MESSAGE ''The type must be double for this value''"
| "parsing_code_response MUST_BE_INTEGER = RESP_ERROR_MESSAGE ''The type must be integer for this value''"
| "parsing_code_response SIMULTANEOUSLY_NX_XX = RESP_ERROR_MESSAGE ''XX and NX arguments cannot be specified simultaneously for 'SET' command''"
| "parsing_code_response VALID_OPTIONS = RESP_OK"

text \<open>
  \<open>parse_expiry_option\<close>: after the sum is stored the function runs into \<open>unreachable()\<close>. The
  number is compared with \<open>ERANGE\<close>, the error code 34, and not \<open>errno\<close>.
\<close>

datatype expiry_type = EXPIRY_EX | EXPIRY_PX

fun expiry_errors :: "expiry_type \<Rightarrow> option_code \<times> option_code \<times> option_code" where
  "expiry_errors EXPIRY_EX = (INVALID_EX_VALUE, BOUNDS_OF_EX_VALUE, SYSCALL_ERROR_FOR_EX)"
| "expiry_errors EXPIRY_PX = (INVALID_PX_VALUE, BOUNDS_OF_PX_VALUE, SYSCALL_ERROR_FOR_PX)"

definition parse_expiry_option :: "expiry_type \<Rightarrow> 64 word option \<Rightarrow> string_t \<Rightarrow> option_code res" where
  "parse_expiry_option type now input =
     bind_res (try_parse_integer input) (\<lambda>ok.
       if \<not> ok then Inr (fst (expiry_errors type))
       else bind_res (atoull_s input) (\<lambda>(v, err).
         if v = 34 then Inr (fst (snd (expiry_errors type)))
         else case now of
             None \<Rightarrow> Inr (snd (snd (expiry_errors type)))
           | Some t \<Rightarrow> Inl Undefined))"

text \<open>The table of type names, in its order.\<close>

definition type_identifiers :: "(telly_type \<times> bytes list) list" where
  "type_identifiers =
     [(TELLY_STR, [''STR'', ''STRING'']), (TELLY_BOOL, [''BOOL'', ''BOOLEAN'']), (TELLY_NULL, [''NULL'']),
      (TELLY_INT, [''INT'', ''INTEGER'']), (TELLY_DOUBLE, [''DOUBLE'']), (TELLY_UNKNOWN, [''NUM'', ''NUMBER''])]"

fun find_type :: "(telly_type \<times> bytes list) list \<Rightarrow> bytes \<Rightarrow> telly_type" where
  "find_type [] name = TELLY_UNKNOWN"
| "find_type ((t, names) # ids) name = (if list_ex (streq name) names then t else find_type ids name)"

definition take_as_number :: "string_t \<Rightarrow> set_response \<Rightarrow> set_response res" where
  "take_as_number input r =
     bind_res (try_parse_integer input) (\<lambda>is_integer.
     bind_res (try_parse_double input) (\<lambda>is_double.
       Inr (r\<lparr>sr_is_integer := is_integer, sr_is_double := is_double,
              sr_type := if is_integer then TELLY_INT else if is_double then TELLY_DOUBLE else TELLY_UNKNOWN\<rparr>)))"

text \<open>The \<open>AS\<close> option, once its type name is known.\<close>

definition parse_as :: "string_t \<Rightarrow> bytes \<Rightarrow> set_response \<Rightarrow> (set_response \<times> option_code) res" where
  "parse_as input name r =
     (let r = r\<lparr>sr_type := find_type type_identifiers name\<rparr> in
      case sr_type r of
        TELLY_UNKNOWN \<Rightarrow>
          if streq name ''NUM'' \<or> streq name ''NUMBER'' then
            bind_res (take_as_number input r) (\<lambda>r.
              Inr (r, if sr_type r = TELLY_UNKNOWN then MUST_BE_NUMBER else VALID_OPTIONS))
          else Inr (r, INVALID_TYPE_IN_AS)
      | TELLY_INT \<Rightarrow>
          bind_res (try_parse_integer input) (\<lambda>b.
            Inr (r\<lparr>sr_is_integer := b\<rparr>, if b then VALID_OPTIONS else MUST_BE_INTEGER))
      | TELLY_DOUBLE \<Rightarrow>
          bind_res (try_parse_double input) (\<lambda>b.
            Inr (r\<lparr>sr_is_double := b\<rparr>, if b then VALID_OPTIONS else MUST_BE_DOUBLE))
      | TELLY_BOOL \<Rightarrow>
          Inr (r, if \<not> sr_is_true r \<and> \<not> SSTREQ input ''false'' then MUST_BE_BOOLEAN else VALID_OPTIONS)
      | _ \<Rightarrow> Inr (r, VALID_OPTIONS))"

text \<open>
  \<open>parse_options\<close>: the body of the loop ends in a \<open>return\<close> on every path (\<open>INVALID_OPTIONS\<close> behind
  the chain of options), so only the first option is ever looked at. The codes that
  \<open>parse_expiry_option\<close> answers are dropped.
\<close>

definition parse_options ::
  "64 word option \<Rightarrow> string_t list \<Rightarrow> set_options \<Rightarrow> set_response \<Rightarrow> (set_options \<times> set_response \<times> option_code) res" where
  "parse_options now args opts r =
     (if length args \<le> 2 then Inr (opts, r, VALID_OPTIONS)
      else let name = str_mem (to_uppercase (args ! 2)) in
        if streq name ''GET'' then Inr (opts\<lparr>so_get := True\<rparr>, r, INVALID_OPTIONS)
        else if streq name ''NX'' then
          if so_xx opts then Inr (opts, r, SIMULTANEOUSLY_NX_XX) else Inr (opts\<lparr>so_nx := True\<rparr>, r, INVALID_OPTIONS)
        else if streq name ''XX'' then
          if so_nx opts then Inr (opts, r, SIMULTANEOUSLY_NX_XX) else Inr (opts\<lparr>so_xx := True\<rparr>, r, INVALID_OPTIONS)
        else if streq name ''EX'' then
          if length args \<le> 3 then Inr (opts, r, MISSING_EX_VALUE)
          else bind_res (parse_expiry_option EXPIRY_EX now (args ! 3)) (\<lambda>_. Inr (opts, r, INVALID_OPTIONS))
        else if streq name ''PX'' then
          if length args \<le> 3 then Inr (opts, r, MISSING_PX_VALUE)
          else bind_res (parse_expiry_option EXPIRY_EX now (args ! 3)) (\<lambda>_. Inr (opts, r, INVALID_OPTIONS))
        else if streq name ''AS'' then
          if length args \<le> 3 then Inr (opts\<lparr>so_as := True\<rparr>, r, INVALID_OPTIONS)
          else bind_res (parse_as (args ! 1) (str_mem (to_uppercase (args ! 3))) r) (\<lambda>(r, c).
            Inr (opts\<lparr>so_as := True\<rparr>, r, c))
        else Inr (opts, r, INVALID_OPTIONS))"

section \<open>The stored value\<close>

text \<open>
  The value, as the type and what its data points to (\<open>None\<close> for NULL). The text that GMP reads is
  the argument itself, because a NUL is written behind it. \<open>None\<close> as a result: out of memory.
\<close>

definition gmp_text :: "string_t \<Rightarrow> bytes" where
  "gmp_text s = c_string (str_bytes s @ [NUL])"

definition take_as_string :: "bool \<Rightarrow> bool \<Rightarrow> string_t \<Rightarrow> ('z, 'f) prim option" where
  "take_as_string ok1 ok2 data = (if ok1 \<and> ok2 then Some (PStr (str_bytes data)) else None)"

definition set_value ::
  "('z, 'f) gmp \<Rightarrow> (nat \<Rightarrow> bool) \<Rightarrow> set_options \<Rightarrow> set_response \<Rightarrow> string_t \<Rightarrow> (telly_type \<times> ('z, 'f) prim option) option" where
  "set_value g ok opts r input =
     (if sr_is_integer r \<or> sr_is_double r then
        let type = (if \<not> so_as opts then (if sr_is_integer r then TELLY_INT else TELLY_DOUBLE) else sr_type r) in
        (case type of
           TELLY_INT \<Rightarrow> if ok 0 then Some (type, Some (PInt (mpz_init_set_str g (gmp_text input)))) else None
         | TELLY_DOUBLE \<Rightarrow> if ok 1 then Some (type, Some (PDouble (mpf_set_str g (gmp_text input)))) else None
         | TELLY_STR \<Rightarrow> map_option (\<lambda>v. (type, Some v)) (take_as_string (ok 2) (ok 3) input)
         | _ \<Rightarrow> Some (type, None))
      else if sr_is_true r \<or> SSTREQ input ''false'' then
        let type = (if \<not> so_as opts then TELLY_BOOL else sr_type r) in
        (case type of
           TELLY_BOOL \<Rightarrow> if ok 4 then Some (type, Some (PBool (sr_is_true r))) else None
         | TELLY_STR \<Rightarrow> map_option (\<lambda>v. (type, Some v)) (take_as_string (ok 2) (ok 3) input)
         | _ \<Rightarrow> Some (type, None))
      else if SSTREQ input ''null'' then
        let type = (if \<not> so_as opts then TELLY_NULL else sr_type r) in
        (case type of
           TELLY_NULL \<Rightarrow> Some (type, None)
         | TELLY_STR \<Rightarrow> map_option (\<lambda>v. (type, Some v)) (take_as_string (ok 2) (ok 3) input)
         | _ \<Rightarrow> Some (type, None))
      else
        let type = (if \<not> so_as opts then TELLY_STR else sr_type r) in
        map_option (\<lambda>v. (type, Some v)) (take_as_string (ok 2) (ok 3) input))"

text \<open>The data of a \<open>TELLY_NULL\<close> is never looked at.\<close>

definition typed_value :: "telly_type \<times> ('z, 'f) prim option \<Rightarrow> ('z, 'f) val" where
  "typed_value tv = (case tv of (type, v) \<Rightarrow>
     if type = TELLY_NULL then Prim PNull else case v of None \<Rightarrow> VLost | Some p \<Rightarrow> Prim p)"

section \<open>The command\<close>

definition get_keys_set :: "entry \<Rightarrow> string_t list" where
  "get_keys_set en = (if arg_count en < 2 then [] else [arg_at en 0])"

definition run_set :: "('z, 'f) gmp \<Rightarrow> ('z, 'f) env \<Rightarrow> entry \<Rightarrow> ('z, 'f) database \<Rightarrow> (('z, 'f) database \<times> bytes) res" where
  "run_set g e en db =
     (if arg_count en < 2 then reply en db (say (WRONG_ARGUMENT_ERROR ''SET''))
      else
        let input = arg_at en 1;
            r = \<lparr>sr_type = TELLY_UNKNOWN, sr_is_integer = False, sr_is_double = False, sr_is_true = SSTREQ input ''true''\<rparr>;
            opts = \<lparr>so_get = False, so_nx = False, so_xx = False, so_as = False, so_expiry = None\<rparr> in
        bind_res (parse_options (e_now e) (en_args en) opts r) (\<lambda>(opts, r, code).
        if code \<noteq> VALID_OPTIONS then reply en db (say (parsing_code_response code))
        else
          bind_res (get_data db (key_at en 0)) (\<lambda>res.
          if so_nx opts \<and> res \<noteq> None then reply en db (\<lambda>protover. Inr (RESP_NULL protover))
          else if so_xx opts \<and> res = None then reply en db (\<lambda>protover. Inr (RESP_NULL protover))
          else
            bind_res (if so_as opts then Inr r
                      else bind_res (try_parse_integer input) (\<lambda>i. bind_res (try_parse_double input) (\<lambda>d.
                        Inr (r\<lparr>sr_is_integer := i, sr_is_double := d\<rparr>)))) (\<lambda>r.
            case set_value g (e_ok e 0) opts r input of
              None \<Rightarrow> reply en db (say OUT_OF_MEMORY)
            | Some tv \<Rightarrow>
                if so_get opts then
                  if may_read (en_permissions en) then
                    bind_res (set_data (e_ok e 1 0) (e_ok e 1 1) (e_mem e) db res (key_at en 0) (typed_value tv) (so_expiry opts)) (\<lambda>(db, p).
                      if p = None then reply en db (say OUT_OF_MEMORY)
                      else if res \<noteq> None then reply en db (\<lambda>protover. write_value g (typed_value tv) protover [])
                      else reply en db (\<lambda>protover. Inr (RESP_NULL protover)))
                  else reply en db (say (RESP_ERROR_MESSAGE ''Not allowed to use this command, need P_READ''))
                else
                  bind_res (assert_that (fst tv = TELLY_NULL \<or> snd tv \<noteq> None)) (\<lambda>_.
                  bind_res (set_data (e_ok e 1 0) (e_ok e 1 1) (e_mem e) db res (key_at en 0) (typed_value tv) (so_expiry opts)) (\<lambda>(db, p).
                    reply en db (say (if p \<noteq> None then RESP_OK else OUT_OF_MEMORY))))))))"

definition cmd_set :: "('z, 'f) command" where
  "cmd_set = \<lparr>c_name = ''SET'', c_permissions = P_WRITE, c_affect = True, c_access = True, c_waiting = False,
              c_get_keys = get_keys_set, c_run = run_set\<rparr>"

section \<open>What \<open>SET\<close> does\<close>

text \<open>The value a text stands for, when no type is asked for.\<close>

definition value_of :: "('z, 'f) gmp \<Rightarrow> bytes \<Rightarrow> ('z, 'f) prim" where
  "value_of g s =
     (if int_literal s then PInt (mpz_init_set_str g s)
      else if double_literal s then PDouble (mpf_set_str g s)
      else if s = ''true'' \<or> s = ''false'' then PBool (s = ''true'')
      else if s = ''null'' then PNull
      else PStr s)"

lemma SSTREQ_arg [simp]: "SSTREQ (arg s rest) t \<longleftrightarrow> s = t"
  by (simp add: SSTREQ_bytes)

lemma gmp_text_arg: "NUL \<notin> set s \<Longrightarrow> gmp_text (arg s rest) = s"
  by (simp add: gmp_text_def c_string_append)

lemma set_value_plain:
  assumes "\<And>i. ok i"
  shows "\<exists>tv. set_value g ok \<lparr>so_get = a, so_nx = b, so_xx = c, so_as = False, so_expiry = d\<rparr>
      \<lparr>sr_type = t, sr_is_integer = int_literal s, sr_is_double = double_literal s, sr_is_true = (s = ''true'')\<rparr> (arg s rest) = Some tv \<and>
    typed_value tv = Prim (value_of g s) \<and> (fst tv = TELLY_NULL \<or> snd tv \<noteq> None)"
  using assms gmp_text_arg [OF int_literal_no_nul, of s rest] gmp_text_arg [OF double_literal_no_nul, of s rest]
  by (auto simp: set_value_def typed_value_def value_of_def take_as_string_def)

lemma run_set_plain:
  assumes s: "sound_db db" and cl: "en_client en = Some protover" and c: "calm e"
    and args: "en_args en = [k, arg v (x # rest)]" and x: "\<not> is_digit x" "x \<noteq> CHR ''-''"
  shows "\<exists>db'. run_set g e en db = Inr (db', RESP_OK) \<and> sound_db db' \<and>
    db_map db' = (db_map db)(str_bytes k \<mapsto> \<lparr>kv_value = Prim (value_of g v), kv_expiry = None\<rparr>)"
proof -
  have wf: "wf_db db" using s by (simp add: sound_db_def)
  let ?opts = "\<lparr>so_get = False, so_nx = False, so_xx = False, so_as = False, so_expiry = None\<rparr>"
  let ?r = "\<lparr>sr_type = TELLY_UNKNOWN, sr_is_integer = int_literal v, sr_is_double = double_literal v, sr_is_true = (v = ''true'')\<rparr>"
  obtain tv where tv: "set_value g (e_ok e 0) ?opts ?r (arg v (x # rest)) = Some tv" "typed_value tv = Prim (value_of g v)"
      "fst tv = TELLY_NULL \<or> snd tv \<noteq> None"
    using set_value_plain [of "e_ok e 0" g False False False None TELLY_UNKNOWN v "x # rest"] c by auto
  obtain r where r: "get_data db (str_bytes k) = Inr r" "\<forall>i kv. r = Some (i, kv) \<longrightarrow> db_map db (str_bytes k) = Some kv"
    using get_data_map [OF wf, of "str_bytes k"] by blast
  have fr: "\<forall>i kv. r = Some (i, kv) \<longrightarrow> freeable (kv_value kv)" using r(2) s by (auto simp: sound_db_def)
  obtain db' i where db': "set_data True True (e_mem e) db r (str_bytes k) (typed_value tv) None = Inr (db', Some i)" "wf_db db'"
      "db_map db' = (db_map db)(str_bytes k \<mapsto> \<lparr>kv_value = typed_value tv, kv_expiry = None\<rparr>)"
    using set_data_calm [OF wf c r(1) fr, of "typed_value tv" None] by blast
  have "run_set g e en db = Inr (db', RESP_OK)"
    using cl args c r(1) tv(1,3) db'(1) try_parse_integer_arg [OF x, of v rest] try_parse_double_arg [OF x(2), of v rest]
    by (auto simp: run_set_def arg_count_def key_at_def arg_at_def parse_options_def Let_def)
  then show ?thesis using db'(2,3) tv(2) sound_db_update [OF s db'(2,3)] by simp
qed

text \<open>
  The other options: every one of them is refused, and a refused command changes nothing. Over
  RESP even \<open>AS\<close> is: its name is compared with what follows it in the buffer.
\<close>

lemma upper_char_NUL: "upper_char c = NUL \<longleftrightarrow> c = NUL"
proof
  assume "upper_char c = NUL"
  then have "code (upper_char c) = code NUL" by simp
  then have "code c = 0" by (simp add: upper_char_code split: if_splits)
  then have "code c = code NUL" by simp
  then show "c = NUL" by (simp only: of_char_eq_iff)
qed (simp add: upper_char_def)

lemma streq_upper_arg:
  assumes "NUL \<notin> set s"
  shows "streq (str_mem (to_uppercase (arg s (c # rest)))) t \<longleftrightarrow>
    (if c = NUL then map upper_char s = t else t = map upper_char s @ c_string (c # rest))"
proof -
  have "NUL \<notin> set (map upper_char s)" using assms upper_char_NUL by force
  then show ?thesis using streq_arg [of "map upper_char s" c rest t] by simp
qed

lemma run_set_option:
  assumes cl: "en_client en = Some protover" and args: "en_args en = k # v # arg opt (c # rest) # others"
    and opt: "NUL \<notin> set opt" and r: "c = CHR 0x0D \<or> c = NUL \<and> map upper_char opt \<notin> {''EX'', ''PX'', ''AS''}"
  shows "run_set g e en db = Inr (db, parsing_code_response INVALID_OPTIONS)"
proof -
  have cr: "CHR 0x0D \<noteq> NUL" by simp
  have no: "\<not> streq (str_mem (to_uppercase (arg opt (c # rest)))) t" if "c = CHR 0x0D" "CHR 0x0D \<notin> set t" for t
  proof -
    have "c_string (c # rest) = CHR 0x0D # c_string rest" using that(1) by (simp add: c_string_def)
    then show ?thesis using streq_upper_arg [OF opt, of c rest t] that by auto
  qed
  have "\<not> streq (str_mem (to_uppercase (arg opt (c # rest)))) t" if "t \<in> {''EX'', ''PX'', ''AS''}" for t
  proof (cases "c = CHR 0x0D")
    case True
    have "CHR 0x0D \<notin> set t" using that by auto
    with True show ?thesis by (rule no)
  next
    case False
    then show ?thesis using r that streq_upper_arg [OF opt, of c rest t] by auto
  qed
  then show ?thesis using cl args
    by (simp add: run_set_def arg_count_def parse_options_def Let_def)
qed

text \<open>An expiry that is a number makes the function run into \<open>unreachable()\<close>.\<close>

lemma run_set_expiry:
  assumes args: "en_args en = [k, v, arg opt (NUL # rest), arg n (NUL # rest')]" and opt: "map upper_char opt \<in> {''EX'', ''PX''}"
    and n: "list_all is_digit n" "n \<noteq> []" "dec_val n < 2 ^ 64" "dec_val n \<noteq> 34" and now: "e_now e = Some t"
  shows "run_set g e en db = Inl Undefined"
proof -
  have nn: "NUL \<notin> set opt"
  proof
    assume "NUL \<in> set opt"
    then have "upper_char NUL \<in> set (map upper_char opt)" by auto
    then show False using opt by (auto simp: upper_char_def)
  qed
  have q: "streq (str_mem (to_uppercase (arg opt (NUL # rest)))) t \<longleftrightarrow> map upper_char opt = t" for t
    using streq_upper_arg [OF nn, of NUL rest t] by simp
  have lit: "int_literal n" using n(1,2) by (cases n) (auto simp: int_literal_def)
  have a: "atoull_s (arg n (NUL # rest')) = Inr (word_of_nat (dec_val n), E_OK)"
    using atoull_s_digits(1) [OF n(1,2), of "NUL # rest'"] n(3) by (simp add: u64_of_digits_def)
  have "unat (word_of_nat (dec_val n) :: 64 word) = dec_val n" using n(3) by (simp add: unat_of_nat)
  moreover have "unat (34 :: 64 word) = 34" by simp
  ultimately have "(word_of_nat (dec_val n) :: 64 word) \<noteq> 34" using n(4) by metis
  then have pe: "parse_expiry_option EXPIRY_EX (e_now e) (arg n (NUL # rest')) = Inl Undefined"
    using a lit now by (simp add: parse_expiry_option_def)
  consider "map upper_char opt = ''EX''" | "map upper_char opt = ''PX''" using opt by blast
  then have "parse_options (e_now e) (en_args en) opts r = Inl Undefined" for opts r
    by cases (simp_all add: parse_options_def Let_def args q pe del: to_uppercase_arg)
  then show ?thesis using args by (simp add: run_set_def arg_count_def Let_def)
qed

end
