(* ===== verification/Cmd_List.thy ===== *)
theory Cmd_List
  imports Cmd_Set
begin

text \<open>
  The list commands, \<open>src/commands/list/\<close>, on the lists of \<open>LinkedList\<close>. The elements are plain
  values. A command that changes a list changes it through the pointer in its \<open>KeyValue\<close>, which is
  a write of the list back to the slot of the key.
\<close>

type_synonym ('z, 'f) plist = "('z, 'f) prim linkedlist"

section \<open>LPUSH and RPUSH\<close>

definition get_keys_lpush :: "entry \<Rightarrow> string_t list" where
  "get_keys_lpush en = (if arg_count en < 2 then [] else [arg_at en 0])"

definition get_keys_rpush :: "entry \<Rightarrow> string_t list" where
  "get_keys_rpush en = (if arg_count en < 2 then [] else [arg_at en 0])"

text \<open>
  The value of one argument, \<open>None\<close> when memory is short. A string is copied with the byte behind
  it; the size of the copy is a \<open>uint32_t\<close>.
\<close>

definition pushed_value :: "('z, 'f) gmp \<Rightarrow> (nat \<Rightarrow> bool) \<Rightarrow> string_t \<Rightarrow> ('z, 'f) prim option res" where
  "pushed_value g ok input =
     bind_res (try_parse_integer input) (\<lambda>is_integer.
     if is_integer then
       Inr (if ok 1 then Some (PInt (mpz_init_set_str g (gmp_input input))) else None)
     else bind_res (try_parse_double input) (\<lambda>is_double.
     if is_double then
       Inr (if ok 1 then Some (PDouble (mpf_set_str g (gmp_input input))) else None)
     else if SSTREQ input ''true'' \<or> SSTREQ input ''false'' then
       Inr (if ok 1 then Some (PBool (SSTREQ input ''true'')) else None)
     else if SSTREQ input ''null'' then Inr (Some PNull)
     else if \<not> ok 1 then Inr None
     else if \<not> ok 2 then Inr None
     else if 2 ^ 32 \<le> str_len input + 1 \<or> length (str_mem input) < str_len input + 1 then Inl OutOfBounds
     else Inr (Some (PStr (str_bytes input)))))"

text \<open>
  The loop over the arguments, from argument \<open>i\<close> on; \<open>push\<close> is the insertion at one end. It
  answers whether it came to the end; what was pushed before memory ran out stays in the list.
\<close>

fun push_loop ::
  "('z, 'f) gmp \<Rightarrow> (nat option \<Rightarrow> ('z, 'f) plist \<Rightarrow> ('z, 'f) prim \<Rightarrow> (('z, 'f) plist \<times> nat option) res) \<Rightarrow>
   ('z, 'f) env \<Rightarrow> nat \<Rightarrow> string_t list \<Rightarrow> ('z, 'f) plist \<Rightarrow> (('z, 'f) plist \<times> bool) res" where
  "push_loop g push e i [] list = Inr (list, True)"
| "push_loop g push e i (input # inputs) list =
     (if \<not> e_ok e i 0 then Inr (list, False)
      else bind_res (pushed_value g (e_ok e i) input) (\<lambda>v. case v of
          None \<Rightarrow> Inr (list, False)
        | Some v \<Rightarrow> bind_res (push (e_node e i) list v) (\<lambda>(list, node).
            if node = None then Inr (list, False)
            else push_loop g push e (i + 1) inputs list)))"

text \<open>
  The result of \<open>set_data\<close> for a new list is not tested: when it fails, the elements go to a list
  that no key leads to.
\<close>

definition run_push ::
  "bytes \<Rightarrow> ('z, 'f) gmp \<Rightarrow> (nat option \<Rightarrow> ('z, 'f) plist \<Rightarrow> ('z, 'f) prim \<Rightarrow> (('z, 'f) plist \<times> nat option) res) \<Rightarrow>
   ('z, 'f) env \<Rightarrow> entry \<Rightarrow> ('z, 'f) database \<Rightarrow> (('z, 'f) database \<times> bytes) res" where
  "run_push name g push e en db =
     (if arg_count en < 2 then reply en db (say (WRONG_ARGUMENT_ERROR name))
      else
        let pushed = (\<lambda>db ok. if \<not> ok then Inr (db, OUT_OF_MEMORY)
                     else reply en db (\<lambda>protover. create_resp_integer [] (word_of_nat (arg_count en - 1))));
            inputs = tl (en_args en) in
        bind_res (get_data db (key_at en 0)) (\<lambda>r. case r of
          Some (i, kv) \<Rightarrow> (case kv_value kv of
              VList list \<Rightarrow> bind_res (push_loop g push e 1 inputs list) (\<lambda>(list, ok).
                pushed (write_kv db i (kv\<lparr>kv_value := VList list\<rparr>)) ok)
            | _ \<Rightarrow> reply en db (say (INVALID_TYPE_ERROR name)))
        | None \<Rightarrow> (case ll_create (e_ok e 0 0) of
              None \<Rightarrow> Inr (db, OUT_OF_MEMORY)
            | Some list \<Rightarrow>
                bind_res (set_data (e_ok e 0 1) (e_ok e 0 2) (e_mem e) db None (key_at en 0) (VList list) None) (\<lambda>(db, p).
                bind_res (push_loop g push e 1 inputs list) (\<lambda>(list, ok).
                  pushed (case p of None \<Rightarrow> db
                    | Some i \<Rightarrow> write_kv db i \<lparr>kv_value = VList list, kv_expiry = None\<rparr>) ok)))))"

definition run_lpush :: "('z, 'f) gmp \<Rightarrow> ('z, 'f) env \<Rightarrow> entry \<Rightarrow> ('z, 'f) database \<Rightarrow> (('z, 'f) database \<times> bytes) res" where
  "run_lpush g e en db = run_push ''LPUSH'' g ll_insert_front e en db"

definition run_rpush :: "('z, 'f) gmp \<Rightarrow> ('z, 'f) env \<Rightarrow> entry \<Rightarrow> ('z, 'f) database \<Rightarrow> (('z, 'f) database \<times> bytes) res" where
  "run_rpush g e en db = run_push ''RPUSH'' g ll_insert_back e en db"

definition cmd_lpush :: "('z, 'f) command" where
  "cmd_lpush = \<lparr>c_name = ''LPUSH'', c_permissions = P_WRITE, c_affect = True, c_access = True, c_waiting = False,
                c_get_keys = get_keys_lpush, c_run = run_lpush\<rparr>"

definition cmd_rpush :: "('z, 'f) command" where
  "cmd_rpush = \<lparr>c_name = ''RPUSH'', c_permissions = P_WRITE, c_affect = True, c_access = True, c_waiting = False,
                c_get_keys = get_keys_rpush, c_run = run_rpush\<rparr>"

section \<open>LPOP and RPOP\<close>

definition get_keys_lpop :: "entry \<Rightarrow> string_t list" where
  "get_keys_lpop en = (if arg_count en \<noteq> 1 then [] else [arg_at en 0])"

definition get_keys_rpop :: "entry \<Rightarrow> string_t list" where
  "get_keys_rpop en = (if arg_count en \<noteq> 1 then [] else [arg_at en 0])"

text \<open>\<open>at\<close> is the node whose value is answered and \<open>remove\<close> the removal at its end of the list.\<close>

definition run_pop ::
  "bytes \<Rightarrow> (('z, 'f) plist \<Rightarrow> nat option) \<Rightarrow> (('z, 'f) plist \<Rightarrow> (('z, 'f) plist \<times> ('z, 'f) prim option) res) \<Rightarrow>
   ('z, 'f) gmp \<Rightarrow> entry \<Rightarrow> ('z, 'f) database \<Rightarrow> (('z, 'f) database \<times> bytes) res" where
  "run_pop name at remove g en db =
     (if arg_count en \<noteq> 1 then reply en db (say (WRONG_ARGUMENT_ERROR name))
      else bind_res (get_data db (key_at en 0)) (\<lambda>r. case r of
          None \<Rightarrow> reply en db (\<lambda>protover. Inr (RESP_NULL protover))
        | Some (i, kv) \<Rightarrow> (case kv_value kv of
            VList list \<Rightarrow>
              bind_res (case en_client en of None \<Rightarrow> Inr []
                | Some protover \<Rightarrow> bind_res (node_at list (at list)) (\<lambda>n. write_prim g (nd_data n) protover [])) (\<lambda>response.
              if ll_size list = 1 then bind_res (delete_data db (key_at en 0)) (\<lambda>(db, _). Inr (db, response))
              else bind_res (remove list) (\<lambda>(list, value).
                bind_res (assert_that (value \<noteq> None)) (\<lambda>_.
                  Inr (write_kv db i (kv\<lparr>kv_value := VList list\<rparr>), response))))
          | _ \<Rightarrow> reply en db (say (INVALID_TYPE_ERROR name)))))"

definition run_lpop :: "('z, 'f) gmp \<Rightarrow> ('z, 'f) env \<Rightarrow> entry \<Rightarrow> ('z, 'f) database \<Rightarrow> (('z, 'f) database \<times> bytes) res" where
  "run_lpop g e en db = run_pop ''LPOP'' ll_begin ll_remove_front g en db"

definition run_rpop :: "('z, 'f) gmp \<Rightarrow> ('z, 'f) env \<Rightarrow> entry \<Rightarrow> ('z, 'f) database \<Rightarrow> (('z, 'f) database \<times> bytes) res" where
  "run_rpop g e en db = run_pop ''RPOP'' ll_end ll_remove_back g en db"

definition cmd_lpop :: "('z, 'f) command" where
  "cmd_lpop = \<lparr>c_name = ''LPOP'', c_permissions = P_READ OR P_WRITE, c_affect = True, c_access = True, c_waiting = False,
               c_get_keys = get_keys_lpop, c_run = run_lpop\<rparr>"

definition cmd_rpop :: "('z, 'f) command" where
  "cmd_rpop = \<lparr>c_name = ''RPOP'', c_permissions = P_READ OR P_WRITE, c_affect = True, c_access = True, c_waiting = False,
               c_get_keys = get_keys_rpop, c_run = run_rpop\<rparr>"

section \<open>LLEN, LINDEX and LTYPE\<close>

definition get_keys_llen :: "entry \<Rightarrow> string_t list" where
  "get_keys_llen en = (if arg_count en \<noteq> 1 then [] else [arg_at en 0])"

definition run_llen :: "('z, 'f) gmp \<Rightarrow> ('z, 'f) env \<Rightarrow> entry \<Rightarrow> ('z, 'f) database \<Rightarrow> (('z, 'f) database \<times> bytes) res" where
  "run_llen g e en db = with_client en db (\<lambda>protover.
     if arg_count en \<noteq> 1 then Inr (db, WRONG_ARGUMENT_ERROR ''LLEN'')
     else bind_res (get_data db (key_at en 0)) (\<lambda>r. case r of
         None \<Rightarrow> Inr (db, '':0'' @ CRLF)
       | Some (i, kv) \<Rightarrow> (case kv_value kv of
           VList list \<Rightarrow> bind_res (create_resp_integer [] (word_of_nat (ll_size list))) (\<lambda>bs. Inr (db, bs))
         | _ \<Rightarrow> Inr (db, INVALID_TYPE_ERROR ''LLEN''))))"

definition cmd_llen :: "('z, 'f) command" where
  "cmd_llen = \<lparr>c_name = ''LLEN'', c_permissions = P_READ, c_affect = False, c_access = True, c_waiting = False,
               c_get_keys = get_keys_llen, c_run = run_llen\<rparr>"

definition get_keys_lindex :: "entry \<Rightarrow> string_t list" where
  "get_keys_lindex en = (if arg_count en \<noteq> 2 then [] else [arg_at en 0])"

definition get_keys_ltype :: "entry \<Rightarrow> string_t list" where
  "get_keys_ltype en = (if arg_count en \<noteq> 2 then [] else [arg_at en 0])"

text \<open>The number of an index, whose minus sign is overwritten with a plus sign.\<close>

definition plus_sign :: "string_t \<Rightarrow> string_t" where
  "plus_sign s = s\<lparr>str_mem := CHR ''+'' # tl (str_mem s)\<rparr>"

definition index_number :: "string_t \<Rightarrow> (64 word \<times> errno) res" where
  "index_number s = bind_res (atoull_s s) (\<lambda>(index, err). bind_res (assert_that (err \<noteq> EINVAL)) (\<lambda>_. Inr (index, err)))"

text \<open>
  The node at an index: \<open>None\<close> when the number exceeds 64 bits, \<open>Some None\<close> when there is no such
  node.
\<close>

definition indexed_node :: "('z, 'f) plist \<Rightarrow> string_t \<Rightarrow> nat option option res" where
  "indexed_node list s =
     bind_res (mem_get (str_mem s) 0) (\<lambda>c.
     if c = CHR ''-'' then
       bind_res (index_number (plus_sign s)) (\<lambda>(index, err).
         if err = ERANGE then Inr None
         else bind_res (ll_get_from_index list (unat (index - 1)) LL_BACK) (\<lambda>node. Inr (Some node)))
     else
       bind_res (index_number s) (\<lambda>(index, err).
         if err = ERANGE then Inr None
         else bind_res (ll_get_from_index list (unat index) LL_FRONT) (\<lambda>node. Inr (Some node))))"

text \<open>What \<open>LINDEX\<close> and \<open>LTYPE\<close> have in common: \<open>show\<close> answers the value of the node.\<close>

definition run_at_index ::
  "bytes \<Rightarrow> (('z, 'f) prim \<Rightarrow> protover \<Rightarrow> bytes res) \<Rightarrow> entry \<Rightarrow> ('z, 'f) database \<Rightarrow> (('z, 'f) database \<times> bytes) res" where
  "run_at_index name answer_value en db = with_client en db (\<lambda>protover.
     if arg_count en \<noteq> 2 then Inr (db, WRONG_ARGUMENT_ERROR name)
     else bind_res (get_data db (key_at en 0)) (\<lambda>r. case r of
         None \<Rightarrow> Inr (db, INVALID_TYPE_ERROR name)
       | Some (i, kv) \<Rightarrow> (case kv_value kv of
           VList list \<Rightarrow>
             bind_res (try_parse_integer (arg_at en 1)) (\<lambda>is_integer.
             if \<not> is_integer then Inr (db, RESP_ERROR_MESSAGE ''Second argument must be an integer'')
             else bind_res (indexed_node list (arg_at en 1)) (\<lambda>found. case found of
                 None \<Rightarrow> Inr (db, RESP_ERROR_MESSAGE ''Index exceeded integer bounds'')
               | Some None \<Rightarrow> Inr (db, RESP_NULL protover)
               | Some node \<Rightarrow> bind_res (node_at list node) (\<lambda>n.
                   bind_res (answer_value (nd_data n) protover) (\<lambda>bs. Inr (db, bs)))))
         | _ \<Rightarrow> Inr (db, INVALID_TYPE_ERROR name))))"

definition run_lindex :: "('z, 'f) gmp \<Rightarrow> ('z, 'f) env \<Rightarrow> entry \<Rightarrow> ('z, 'f) database \<Rightarrow> (('z, 'f) database \<times> bytes) res" where
  "run_lindex g e en db = run_at_index ''LINDEX'' (\<lambda>v protover. write_prim g v protover []) en db"

definition cmd_lindex :: "('z, 'f) command" where
  "cmd_lindex = \<lparr>c_name = ''LINDEX'', c_permissions = P_READ, c_affect = False, c_access = True, c_waiting = False,
                 c_get_keys = get_keys_lindex, c_run = run_lindex\<rparr>"

definition run_ltype :: "('z, 'f) gmp \<Rightarrow> ('z, 'f) env \<Rightarrow> entry \<Rightarrow> ('z, 'f) database \<Rightarrow> (('z, 'f) database \<times> bytes) res" where
  "run_ltype g e en db = run_at_index ''LTYPE'' (\<lambda>v protover. Inr (get_resp_type_name (Prim v))) en db"

definition cmd_ltype :: "('z, 'f) command" where
  "cmd_ltype = \<lparr>c_name = ''LTYPE'', c_permissions = P_READ, c_affect = False, c_access = True, c_waiting = False,
                c_get_keys = get_keys_ltype, c_run = run_ltype\<rparr>"

section \<open>LRANGE\<close>

definition get_keys_lrange :: "entry \<Rightarrow> string_t list" where
  "get_keys_lrange en = (if arg_count en \<noteq> 3 then [] else [arg_at en 0])"

text \<open>An index from the end at or beyond the length of the list becomes the length.\<close>

definition normalize_index :: "64 word \<Rightarrow> string_t \<Rightarrow> 64 word res" where
  "normalize_index list_size s =
     bind_res (mem_get (str_mem s) 0) (\<lambda>c.
     if c = CHR ''-'' then
       bind_res (index_number (plus_sign s)) (\<lambda>(index, _). Inr (if list_size \<le> index then list_size else list_size - index))
     else
       bind_res (index_number s) (\<lambda>(index, _). Inr (if list_size \<le> index then list_size - 1 else index)))"

definition determine_dir :: "64 word \<Rightarrow> 64 word \<Rightarrow> 64 word \<Rightarrow> direction" where
  "determine_dir start stop sz = (if start \<le> sz - stop then LL_FRONT else LL_BACK)"

fun collect_front :: "'a linkedlist \<Rightarrow> nat option \<Rightarrow> nat \<Rightarrow> 'a list res" where
  "collect_front list first 0 = Inr []"
| "collect_front list first (Suc n) = bind_res (node_at list first) (\<lambda>nd.
     bind_res (collect_front list (nd_next nd) n) (\<lambda>values. Inr (nd_data nd # values)))"

text \<open>The second loop fills the array from its last element on; \<open>values\<close> is what it has filled.\<close>

fun collect_back :: "'a linkedlist \<Rightarrow> nat option \<Rightarrow> nat \<Rightarrow> 'a list \<Rightarrow> 'a list res" where
  "collect_back list first 0 values = Inr values"
| "collect_back list first (Suc n) values = bind_res (node_at list first) (\<lambda>nd.
     collect_back list (nd_prev nd) n (nd_data nd # values))"

definition collect_values :: "'a linkedlist \<Rightarrow> 64 word \<Rightarrow> 64 word \<Rightarrow> 64 word \<Rightarrow> 'a list res" where
  "collect_values list count start stop = (case determine_dir start stop (word_of_nat (ll_size list)) of
       LL_FRONT \<Rightarrow> bind_res (ll_get_from_index list (unat start) LL_FRONT) (\<lambda>first. collect_front list first (unat count))
     | LL_BACK \<Rightarrow> bind_res (ll_get_from_index list (unat (word_of_nat (ll_size list) - stop - 1)) LL_FRONT) (\<lambda>first.
         collect_back list first (unat count) []))"

text \<open>
  \<open>write_value\<close> answers null and the booleans as constant strings; only their length is used, so
  the buffer keeps what it held at their place.
\<close>

fun lrange_loop :: "('z, 'f) gmp \<Rightarrow> (nat \<Rightarrow> char) \<Rightarrow> protover \<Rightarrow> ('z, 'f) prim list \<Rightarrow> out \<Rightarrow> out res" where
  "lrange_loop g stale protover [] out = Inr out"
| "lrange_loop g stale protover (v # vs) out =
     bind_res (write_prim g v protover out) (\<lambda>bs.
     bind_res (put out (case v of
         PNull \<Rightarrow> map stale [length out ..< length out + length bs]
       | PBool _ \<Rightarrow> map stale [length out ..< length out + length bs]
       | _ \<Rightarrow> bs)) (\<lambda>out.
       lrange_loop g stale protover vs out))"

definition EMPTY_ARRAY :: bytes where
  "EMPTY_ARRAY = ''*0'' @ CRLF"

definition run_lrange :: "('z, 'f) gmp \<Rightarrow> ('z, 'f) env \<Rightarrow> entry \<Rightarrow> ('z, 'f) database \<Rightarrow> (('z, 'f) database \<times> bytes) res" where
  "run_lrange g e en db = with_client en db (\<lambda>protover.
     if arg_count en \<noteq> 3 then Inr (db, WRONG_ARGUMENT_ERROR ''LRANGE'')
     else
       bind_res (try_parse_integer (arg_at en 1)) (\<lambda>i1.
       if \<not> i1 then Inr (db, RESP_ERROR_MESSAGE ''Second argument must be an integer'')
       else bind_res (try_parse_integer (arg_at en 2)) (\<lambda>i2.
       if \<not> i2 then Inr (db, RESP_ERROR_MESSAGE ''Third argument must be an integer'')
       else bind_res (get_data db (key_at en 0)) (\<lambda>r. case r of
           None \<Rightarrow> Inr (db, EMPTY_ARRAY)
         | Some (i, kv) \<Rightarrow> (case kv_value kv of
             VList list \<Rightarrow>
               let list_size = word_of_nat (ll_size list) in
               if list_size = 0 then Inr (db, EMPTY_ARRAY)
               else
                 bind_res (normalize_index list_size (arg_at en 1)) (\<lambda>start.
                 bind_res (normalize_index list_size (arg_at en 2)) (\<lambda>stop.
                 if list_size \<le> start \<or> stop \<le> start \<or> stop = list_size then Inr (db, EMPTY_ARRAY)
                 else
                   let count = stop - start + 1 in
                   bind_res (collect_values list count start stop) (\<lambda>values.
                   bind_res (put [] (''*'' @ decimal (unat count) @ CRLF)) (\<lambda>out.
                   bind_res (lrange_loop g (e_stale e) protover values out) (\<lambda>out. Inr (db, out))))))
           | _ \<Rightarrow> Inr (db, INVALID_TYPE_ERROR ''LRANGE''))))))"

definition cmd_lrange :: "('z, 'f) command" where
  "cmd_lrange = \<lparr>c_name = ''LRANGE'', c_permissions = P_READ, c_affect = False, c_access = True, c_waiting = False,
                 c_get_keys = get_keys_lrange, c_run = run_lrange\<rparr>"

section \<open>Pushing\<close>

text \<open>The list of a key: empty when there is no such key, \<open>None\<close> when it holds something else.\<close>

definition list_at :: "('z, 'f) database \<Rightarrow> bytes \<Rightarrow> ('z, 'f) prim list option" where
  "list_at db key = (case db_map db key of None \<Rightarrow> Some []
     | Some kv \<Rightarrow> (case kv_value kv of VList l \<Rightarrow> Some (ll_list l) | _ \<Rightarrow> None))"

text \<open>
  An argument whose text GMP reads right: a number needs a NUL behind it, as an inline command has
  it; anything else may have a byte that is no digit behind it, such as the CR of the protocol.
\<close>

definition readable :: "bytes \<times> char \<times> bytes \<Rightarrow> bool" where
  "readable a \<longleftrightarrow> (case a of (s, x, rest) \<Rightarrow> \<not> is_digit x \<and> x \<noteq> CHR ''-'' \<and> length s + 1 < 2 ^ 32 \<and>
     (int_literal s \<or> double_literal s \<longrightarrow> x = NUL))"

definition as_arg :: "bytes \<times> char \<times> bytes \<Rightarrow> string_t" where
  "as_arg a = (case a of (s, x, rest) \<Rightarrow> arg s (x # rest))"

lemma pushed_value_readable:
  assumes "readable a" "\<And>i. ok i"
  shows "pushed_value g ok (as_arg a) = Inr (Some (value_of g (fst a)))"
proof -
  obtain s x rest where a: "a = (s, x, rest)" by (cases a) auto
  have x: "\<not> is_digit x" "x \<noteq> CHR ''-''" "length s + 1 < 2 ^ 32" "int_literal s \<or> double_literal s \<longrightarrow> x = NUL"
    using assms(1) a by (simp_all add: readable_def)
  have "gmp_input (arg s (x # rest)) = s" if "int_literal s \<or> double_literal s"
    using that x(4) gmp_input_arg int_literal_no_nul double_literal_no_nul by metis
  then show ?thesis using assms(2) x(3) try_parse_integer_arg [OF x(1,2), of s rest] try_parse_double_arg [OF x(2), of s rest]
    by (auto simp: pushed_value_def as_arg_def a value_of_def)
qed

text \<open>The nodes that \<open>malloc\<close> returns from iteration \<open>i\<close> on are not in use.\<close>

definition fresh_nodes :: "('z, 'f) env \<Rightarrow> nat \<Rightarrow> 'a linkedlist \<Rightarrow> bool" where
  "fresh_nodes e i l \<longleftrightarrow> inj (e_node e) \<and> (\<forall>j \<ge> i. \<exists>a. e_node e j = Some a \<and> a \<notin> dom (ll_nodes l))"

definition fresh_for :: "('z, 'f) env \<Rightarrow> ('z, 'f) database \<Rightarrow> bytes \<Rightarrow> bool" where
  "fresh_for e db key \<longleftrightarrow> inj (e_node e) \<and> (\<forall>i. e_node e i \<noteq> None) \<and>
     (\<forall>kv l. db_map db key = Some kv \<longrightarrow> kv_value kv = VList l \<longrightarrow> fresh_nodes e 1 l)"

lemma sound_list: "\<lbrakk>sound_db db; db_map db key = Some kv; kv_value kv = VList l\<rbrakk> \<Longrightarrow> wf_list l \<and> ended l"
  unfolding sound_db_def freeable_def by (drule conjunct2) fastforce

lemma write_list:
  assumes s: "sound_db db" and i: "in_slots (ht_elements (db_data db)) i key old" and l: "wf_list l" "ended l"
    and kv: "kv_value kv = VList l"
  shows "sound_db (write_kv db i kv) \<and> list_at (write_kv db i kv) key = Some (ll_list l) \<and>
    (\<forall>k'. k' \<noteq> key \<longrightarrow> db_map (write_kv db i kv) k' = db_map db k')"
  using write_kv_sound [OF s i, of kv] l kv by (simp add: freeable_def list_at_def)

lemma create_list: "\<exists>l. ll_create True = Some l \<and> wf_list l \<and> ended l \<and> ll_list l = [] \<and> ll_nodes l = Map.empty"
  using wf_create closed_ended by (auto simp: ll_create_def)

lemma count_text: "n < 2 ^ 62 \<Longrightarrow> create_resp_integer [] (word_of_nat n) = Inr (resp_int (int n))"
proof -
  assume n: "n < 2 ^ 62"
  then have "length (int_text (int n)) \<le> 20" by (intro int_text_small) simp
  then show ?thesis using create_resp_integer_nat [of n "[]"] n by (simp add: resp_int_def MAX_RESPONSE_SIZE_def)
qed

locale list_end =
  fixes push :: "nat option \<Rightarrow> ('z, 'f) plist \<Rightarrow> ('z, 'f) prim \<Rightarrow> (('z, 'f) plist \<times> nat option) res"
    and add :: "('z, 'f) prim list \<Rightarrow> ('z, 'f) prim \<Rightarrow> ('z, 'f) prim list"
  assumes push_law: "\<lbrakk>wf_list l; ended l; a \<notin> dom (ll_nodes l)\<rbrakk> \<Longrightarrow> \<exists>l'. push (Some a) l d = Inr (l', Some a) \<and>
    wf_list l' \<and> ended l' \<and> ll_list l' = add (ll_list l) d \<and> dom (ll_nodes l') = insert a (dom (ll_nodes l))"
begin

lemma push_fresh:
  fixes e :: "('z, 'f) env"
  assumes "wf_list l" "ended l" and f: "fresh_nodes e i l"
  shows "\<exists>l' a. push (e_node e i) l d = Inr (l', Some a) \<and> wf_list l' \<and> ended l' \<and> ll_list l' = add (ll_list l) d \<and>
    fresh_nodes e (i + 1) l'"
proof -
  obtain a where a: "e_node e i = Some a" "a \<notin> dom (ll_nodes l)" using f unfolding fresh_nodes_def by blast
  obtain l' where l': "push (Some a) l d = Inr (l', Some a)" "wf_list l'" "ended l'" "ll_list l' = add (ll_list l) d"
      "dom (ll_nodes l') = insert a (dom (ll_nodes l))"
    using push_law [OF assms(1,2) a(2), of d] by blast
  have "\<exists>b. e_node e j = Some b \<and> b \<notin> dom (ll_nodes l')" if "i + 1 \<le> j" for j
  proof -
    have "i \<le> j" using that by simp
    then obtain b where b: "e_node e j = Some b" "b \<notin> dom (ll_nodes l)" using f unfolding fresh_nodes_def by blast
    have "b \<noteq> a" using injD [of "e_node e" i j] f that a(1) b(1) by (auto simp: fresh_nodes_def)
    then show ?thesis using b l'(5) by auto
  qed
  then show ?thesis using l' a(1) f by (auto simp: fresh_nodes_def)
qed

lemma push_loop_all:
  fixes e :: "('z, 'f) env"
  assumes c: "calm e"
  shows "\<lbrakk>\<forall>a \<in> set as. readable a; wf_list l; ended l; fresh_nodes e i l\<rbrakk> \<Longrightarrow>
    \<exists>l'. push_loop g push e i (map as_arg as) l = Inr (l', True) \<and> wf_list l' \<and> ended l' \<and>
      ll_list l' = foldl add (ll_list l) (map (\<lambda>a. value_of g (fst a)) as)"
proof (induction as arbitrary: i l)
  case (Cons a as)
  have v: "pushed_value g (e_ok e i) (as_arg a) = Inr (Some (value_of g (fst a)))"
    by (rule pushed_value_readable) (use Cons.prems(1) c in simp_all)
  obtain l' b where l': "push (e_node e i) l (value_of g (fst a)) = Inr (l', Some b)" "wf_list l'" "ended l'"
      "ll_list l' = add (ll_list l) (value_of g (fst a))" "fresh_nodes e (i + 1) l'"
    using push_fresh [OF Cons.prems(2-4), of "value_of g (fst a)"] by blast
  then show ?case using Cons.IH [OF _ l'(2,3,5)] Cons.prems(1) c v by simp
qed simp

text \<open>The command, on a key that holds a list or nothing.\<close>

lemma run_push_all:
  fixes e :: "('z, 'f) env"
  assumes s: "sound_db db" and cl: "en_client en = Some protover" and c: "calm e"
    and args: "en_args en = k # map as_arg as" and ne: "as \<noteq> []" and rd: "\<forall>a \<in> set as. readable a"
    and l: "list_at db (str_bytes k) = Some xs" and small: "length as < 2 ^ 62"
    and fr: "fresh_for e db (str_bytes k)"
  shows "\<exists>db'. run_push name g push e en db = Inr (db', resp_int (int (length as))) \<and> sound_db db' \<and>
    list_at db' (str_bytes k) = Some (foldl add xs (map (\<lambda>a. value_of g (fst a)) as)) \<and>
    (\<forall>k'. k' \<noteq> str_bytes k \<longrightarrow> db_map db' k' = db_map db k')"
proof -
  let ?k = "str_bytes k" and ?vs = "map (\<lambda>a. value_of g (fst a)) as" and ?n = "length as"
  have wf: "wf_db db" using s by (simp add: sound_db_def)
  have count: "arg_count en = ?n + 1" "\<not> arg_count en < 2" "key_at en 0 = ?k" "tl (en_args en) = map as_arg as"
    using args ne by (cases as; simp add: arg_count_def key_at_def arg_at_def)+
  note [simp] = count_text [OF small]
  show ?thesis
  proof (cases "db_map db ?k")
    case (Some kv)
    obtain l where l: "kv_value kv = VList l" "ll_list l = xs" using l Some by (auto simp: list_at_def split: val.splits)
    have w: "wf_list l" "ended l" using sound_list [OF s Some l(1)] by simp_all
    obtain i where i: "get_data db ?k = Inr (Some (i, kv))" "in_slots (ht_elements (db_data db)) i ?k kv"
      using get_data_Some [OF wf Some] by blast
    have "fresh_nodes e 1 l" using fr Some l(1) unfolding fresh_for_def by blast
    then obtain l' where l': "push_loop g push e 1 (map as_arg as) l = Inr (l', True)" "wf_list l'" "ended l'"
        "ll_list l' = foldl add xs ?vs"
      using push_loop_all [OF c rd w, of 1 g] l(2) by auto
    let ?db = "write_kv db i (kv\<lparr>kv_value := VList l'\<rparr>)"
    have "run_push name g push e en db = Inr (?db, resp_int (int ?n))"
      using count cl i(1) l(1) l'(1) by (simp add: run_push_def Let_def)
    then show ?thesis using write_list [OF s i(2) l'(2,3), of "kv\<lparr>kv_value := VList l'\<rparr>"] l'(4) by simp
  next
    case None
    have xs: "xs = []" using l None by (simp add: list_at_def)
    obtain l :: "('z, 'f) plist" where l: "ll_create True = Some l" "wf_list l" "ended l" "ll_list l = []" "ll_nodes l = Map.empty"
      using create_list by blast
    obtain db1 i where db1: "set_data True True (e_mem e) db None ?k (VList l) None = Inr (db1, Some i)" "sound_db db1"
        "db_map db1 = (db_map db)(?k \<mapsto> \<lparr>kv_value = VList l, kv_expiry = None\<rparr>)"
        "in_slots (ht_elements (db_data db1)) i ?k \<lparr>kv_value = VList l, kv_expiry = None\<rparr>"
      using new_data_slot [OF s c None, of "VList l" None] l(2,3) by (auto simp: freeable_def)
    have "fresh_nodes e 1 l" using fr l(5) by (auto simp: fresh_for_def fresh_nodes_def)
    then obtain l' where l': "push_loop g push e 1 (map as_arg as) l = Inr (l', True)" "wf_list l'" "ended l'"
        "ll_list l' = foldl add [] ?vs"
      using push_loop_all [OF c rd l(2,3), of 1 g] l(4) by auto
    let ?db = "write_kv db1 i \<lparr>kv_value = VList l', kv_expiry = None\<rparr>"
    have "run_push name g push e en db = Inr (?db, resp_int (int ?n))"
      using count cl c get_data_None [OF wf None] l(1) db1(1) l'(1) by (simp add: run_push_def Let_def)
    then show ?thesis using write_list [OF db1(2,4) l'(2,3), of "\<lparr>kv_value = VList l', kv_expiry = None\<rparr>"] l'(4) xs db1(3)
      by simp
  qed
qed


end

interpretation at_front: list_end ll_insert_front "\<lambda>xs x. x # xs"
proof
  fix l :: "('z, 'f) plist" and a d
  assume "wf_list l" "ended l" "a \<notin> dom (ll_nodes l)"
  then show "\<exists>l'. ll_insert_front (Some a) l d = Inr (l', Some a) \<and> wf_list l' \<and> ended l' \<and>
      ll_list l' = d # ll_list l \<and> dom (ll_nodes l') = insert a (dom (ll_nodes l))"
    using insert_front_chain [of l "ll_ptrs l" a d] wf_listI unfolding wf_list_def ll_list_def [of l] by metis
qed

interpretation at_back: list_end ll_insert_back "\<lambda>xs x. xs @ [x]"
proof
  fix l :: "('z, 'f) plist" and a d
  assume "wf_list l" "ended l" "a \<notin> dom (ll_nodes l)"
  then show "\<exists>l'. ll_insert_back (Some a) l d = Inr (l', Some a) \<and> wf_list l' \<and> ended l' \<and>
      ll_list l' = ll_list l @ [d] \<and> dom (ll_nodes l') = insert a (dom (ll_nodes l))"
    using insert_back_chain [of l "ll_ptrs l" a d] wf_listI unfolding wf_list_def ll_list_def [of l] by metis
qed

section \<open>Popping\<close>

lemma list_at_cons:
  assumes s: "sound_db db" and l: "list_at db key = Some vs" and ne: "vs \<noteq> []"
  obtains i kv l where "get_data db key = Inr (Some (i, kv))" "in_slots (ht_elements (db_data db)) i key kv"
    "db_map db key = Some kv" "kv_value kv = VList l" "ll_list l = vs" "wf_list l" "ended l" "ll_size l = length vs"
proof -
  obtain kv where kv: "db_map db key = Some kv" using l ne by (cases "db_map db key") (auto simp: list_at_def)
  then obtain l where l: "kv_value kv = VList l" "ll_list l = vs" using l by (auto simp: list_at_def split: val.splits)
  have "wf_db db" using s by (simp add: sound_db_def)
  then obtain i where "get_data db key = Inr (Some (i, kv))" "in_slots (ht_elements (db_data db)) i key kv"
    using get_data_Some kv by metis
  then show ?thesis using that [of i kv l] kv l sound_list [OF s kv l(1)] wf_list_size [of l] by simp
qed

lemma wf_list_ptrs:
  assumes "wf_list l"
  shows "chain l (ll_ptrs l)" "ll_list l = map (\<lambda>p. nd_data (nd l p)) (ll_ptrs l)" "length (ll_ptrs l) = length (ll_list l)"
  using assms by (simp_all add: wf_list_def ll_list_def data_of_def)

lemma front_node:
  assumes wf: "wf_list l" and v: "ll_list l = x # xs"
  obtains a ps n where "ll_ptrs l = a # ps" "node_at l (ll_begin l) = Inr n" "nd_data n = x" "chain l (a # ps)" "data_of l ps = xs"
proof -
  obtain a ps where ps: "ll_ptrs l = a # ps" using v by (cases "ll_ptrs l") (auto simp: ll_list_def data_of_def)
  then have c: "chain l (a # ps)" using wf by (simp add: wf_list_def)
  have "node_at l (Some a) = Inr (nd l a)" by (rule chain_node_at [OF c]) simp
  then show ?thesis using that [OF ps _ _ c, of "nd l a"] v ps c by (simp add: chain_def ll_list_def data_of_def)
qed

lemma back_node:
  assumes wf: "wf_list l" and v: "ll_list l = xs @ [x]"
  obtains a ps n where "ll_ptrs l = ps @ [a]" "node_at l (ll_end l) = Inr n" "nd_data n = x" "chain l (ps @ [a])" "data_of l ps = xs"
proof -
  obtain ps a where ps: "ll_ptrs l = ps @ [a]" using v by (cases "ll_ptrs l" rule: rev_cases) (auto simp: ll_list_def data_of_def)
  then have c: "chain l (ps @ [a])" using wf by (simp add: wf_list_def)
  have "node_at l (Some a) = Inr (nd l a)" by (rule chain_node_at [OF c]) simp
  then show ?thesis using that [OF ps _ _ c, of "nd l a"] v ps c by (simp add: chain_def ll_list_def data_of_def)
qed

text \<open>\<open>LPOP\<close> answers the first element and removes it; a list that gets empty goes with its key.\<close>

lemma run_lpop_front:
  assumes s: "sound_db db" and cl: "en_client en = Some protover" and args: "en_args en = [k]"
    and l: "list_at db (str_bytes k) = Some (x # xs)" and w: "write_prim g x protover [] = Inr bs"
  shows "\<exists>db'. run_lpop g e en db = Inr (db', bs) \<and> sound_db db' \<and> list_at db' (str_bytes k) = Some xs \<and>
    (\<forall>k'. k' \<noteq> str_bytes k \<longrightarrow> db_map db' k' = db_map db k')"
proof -
  let ?k = "str_bytes k"
  obtain i kv l where a: "get_data db ?k = Inr (Some (i, kv))" "in_slots (ht_elements (db_data db)) i ?k kv"
      "db_map db ?k = Some kv" "kv_value kv = VList l" "ll_list l = x # xs" "wf_list l" "ended l" "ll_size l = length (x # xs)"
    using list_at_cons [OF s l] by blast
  obtain p ps n where n: "ll_ptrs l = p # ps" "node_at l (ll_begin l) = Inr n" "nd_data n = x" "chain l (p # ps)" "data_of l ps = xs"
    using front_node [OF a(6,5)] by blast
  have step: "run_lpop g e en db =
      (if xs = [] then bind_res (delete_data db ?k) (\<lambda>(db, _). Inr (db, bs))
       else bind_res (ll_remove_front l) (\<lambda>(l, v). bind_res (assert_that (v \<noteq> None)) (\<lambda>_.
         Inr (write_kv db i (kv\<lparr>kv_value := VList l\<rparr>), bs))))"
    using a(1,4,8) n(2,3) cl args w by (simp add: run_lpop_def run_pop_def arg_count_def key_at_def arg_at_def)
  show ?thesis
  proof (cases "xs = []")
    case True
    obtain db' where db': "delete_data db ?k = Inr (db', True)" "wf_db db'" "db_map db' = (db_map db)(?k := None)"
      using delete_data_correct [of db ?k] s a(3) by (auto simp: sound_db_def)
    then show ?thesis using step True sound_db_remove [OF s db'(2,3)] by (simp add: list_at_def)
  next
    case False
    obtain l' where l': "ll_remove_front l = Inr (l', Some (nd_data (nd l p)))" "chain l' ps" "data_of l' ps = data_of l ps" "ended l'"
      using remove_front_chain [OF n(4)] a(7) by blast
    have w': "wf_list l'" "ll_list l' = xs" using wf_listI [OF l'(2)] l'(3) n(5) by simp_all
    then show ?thesis using step False l'(1) write_list [OF s a(2) w'(1) l'(4), of "kv\<lparr>kv_value := VList l'\<rparr>"] by simp
  qed
qed

text \<open>
  \<open>RPOP\<close> answers the last element and removes it. The list it leaves cannot be freed any more: the
  last node still points to the freed one.
\<close>

lemma run_rpop_back:
  assumes s: "sound_db db" and cl: "en_client en = Some protover" and args: "en_args en = [k]"
    and l: "list_at db (str_bytes k) = Some (xs @ [x])" and w: "write_prim g x protover [] = Inr bs"
  shows "\<exists>db'. run_rpop g e en db = Inr (db', bs) \<and> wf_db db' \<and> list_at db' (str_bytes k) = Some xs \<and>
    (\<forall>k'. k' \<noteq> str_bytes k \<longrightarrow> db_map db' k' = db_map db k') \<and>
    (\<forall>kv' l'. db_map db' (str_bytes k) = Some kv' \<longrightarrow> kv_value kv' = VList l' \<longrightarrow> wf_list l' \<and> ll_free l' = Inl UseAfterFree)"
proof -
  let ?k = "str_bytes k"
  obtain i kv l where a: "get_data db ?k = Inr (Some (i, kv))" "in_slots (ht_elements (db_data db)) i ?k kv"
      "db_map db ?k = Some kv" "kv_value kv = VList l" "ll_list l = xs @ [x]" "wf_list l" "ll_size l = length (xs @ [x])"
    using list_at_cons [OF s l] by blast
  obtain p ps n where n: "ll_ptrs l = ps @ [p]" "node_at l (ll_end l) = Inr n" "nd_data n = x" "chain l (ps @ [p])" "data_of l ps = xs"
    using back_node [OF a(6,5)] by blast
  have step: "run_rpop g e en db =
      (if xs = [] then bind_res (delete_data db ?k) (\<lambda>(db, _). Inr (db, bs))
       else bind_res (ll_remove_back l) (\<lambda>(l, v). bind_res (assert_that (v \<noteq> None)) (\<lambda>_.
         Inr (write_kv db i (kv\<lparr>kv_value := VList l\<rparr>), bs))))"
    using a(1,4,7) n(2,3) cl args w by (simp add: run_rpop_def run_pop_def arg_count_def key_at_def arg_at_def)
  show ?thesis
  proof (cases "xs = []")
    case True
    obtain db' where db': "delete_data db ?k = Inr (db', True)" "wf_db db'" "db_map db' = (db_map db)(?k := None)"
      using delete_data_correct [of db ?k] s a(3) by (auto simp: sound_db_def)
    then show ?thesis using step True by (simp add: list_at_def)
  next
    case False
    have ne: "ps \<noteq> []" using False n(5) by (auto simp: data_of_def)
    obtain l' where l': "ll_remove_back l = Inr (l', Some (nd_data (nd l p)))" "chain l' ps" "data_of l' ps = data_of l ps"
      using remove_back_chain [OF n(4)] by blast
    have w': "wf_list l'" "ll_list l' = xs" using wf_listI [OF l'(2)] l'(3) n(5) by simp_all
    have f: "ll_free l' = Inl UseAfterFree" using clear_after_remove_back [OF n(4) ne l'(1)] by (simp add: ll_free_def)
    have wf: "wf_db db" using s by (simp add: sound_db_def)
    let ?kv = "kv\<lparr>kv_value := VList l'\<rparr>"
    show ?thesis using step False l'(1) w' f write_kv_correct [OF wf a(2), of ?kv]
      by (intro exI [of _ "write_kv db i ?kv"]) (simp add: list_at_def)
  qed
qed

text \<open>So the next command that frees it uses freed memory: \<open>DEL\<close>, or \<open>RPOP\<close> of the last element.\<close>

lemma delete_after_rpop:
  assumes wf: "wf_db db" and kv: "db_map db key = Some kv" "kv_value kv = VList l" and f: "ll_free l = Inl UseAfterFree"
  shows "delete_data db key = Inl UseAfterFree"
proof -
  obtain i where i: "get_data db key = Inr (Some (i, kv))" using get_data_Some [OF wf kv(1)] by blast
  obtain t' where "delete_from_hashtable (db_data db) key = Inr (t', True)"
    using delete_correct [OF wf_db_table [OF wf], of key] kv(1) by (auto simp: db_map_def)
  then show ?thesis using i kv(2) f by (simp add: delete_data_def free_value_def)
qed

lemma run_pop_freed:
  assumes wf: "wf_db db" and cl: "en_client en = Some protover" and args: "en_args en = [k]"
    and kv: "db_map db (str_bytes k) = Some kv" "kv_value kv = VList l"
    and l: "wf_list l" "ll_list l = [x]" "ll_free l = Inl UseAfterFree" and w: "write_prim g x protover [] = Inr bs"
  shows "run_rpop g e en db = Inl UseAfterFree" "run_lpop g e en db = Inl UseAfterFree"
proof -
  obtain i where i: "get_data db (str_bytes k) = Inr (Some (i, kv))" using get_data_Some [OF wf kv(1)] by blast
  have sz: "ll_size l = 1" using wf_list_size [OF l(1)] l(2) by simp
  obtain n where n: "node_at l (ll_end l) = Inr n" "nd_data n = x" using back_node [OF l(1), of "[]" x] l(2) by auto
  obtain m where m: "node_at l (ll_begin l) = Inr m" "nd_data m = x" using front_node [OF l(1), of x "[]"] l(2) by auto
  note d = delete_after_rpop [OF wf kv l(3)]
  show "run_rpop g e en db = Inl UseAfterFree" "run_lpop g e en db = Inl UseAfterFree"
    using i sz n m d kv(2) cl args w
    by (simp_all add: run_rpop_def run_lpop_def run_pop_def arg_count_def key_at_def arg_at_def)
qed

section \<open>Reading by index\<close>

lemma index_number_digits:
  assumes "list_all is_digit s" "s \<noteq> []" "dec_val s < 2 ^ 64"
  shows "index_number (arg s rest) = Inr (word_of_nat (dec_val s), E_OK)"
    and "index_number (plus_sign (arg (CHR ''-'' # s) rest)) = Inr (word_of_nat (dec_val s), E_OK)"
proof -
  have "plus_sign (arg (CHR ''-'' # s) rest) = arg (CHR ''+'' # s) rest" by (simp add: plus_sign_def arg_def)
  then show "index_number (arg s rest) = Inr (word_of_nat (dec_val s), E_OK)"
    and "index_number (plus_sign (arg (CHR ''-'' # s) rest)) = Inr (word_of_nat (dec_val s), E_OK)"
    using assms by (simp_all add: index_number_def atoull_s_digits u64_of_digits_def)
qed

lemma unat_word_nat: "n < 2 ^ 64 \<Longrightarrow> unat (word_of_nat n :: 64 word) = n"
  by (simp add: unat_of_nat)

lemma digit_first: "\<lbrakk>list_all is_digit s; s \<noteq> []\<rbrakk> \<Longrightarrow> \<exists>c t. s = c # t \<and> c \<noteq> CHR ''-''"
  by (cases s) auto

lemma indexed_front:
  assumes s: "list_all is_digit s" "s \<noteq> []" and c: "chain l ps" "ended l" and n: "dec_val s < 2 ^ 64"
  shows "indexed_node l (arg s rest) = Inr (Some (if dec_val s < length ps then Some (ps ! dec_val s) else None))"
proof -
  obtain d t where "s = d # t" "d \<noteq> CHR ''-''" using digit_first [OF s] by blast
  then have "indexed_node l (arg s rest) = bind_res (ll_get_from_index l (dec_val s) LL_FRONT) (\<lambda>node. Inr (Some node))"
    using index_number_digits(1) [OF s n, of rest] unat_word_nat [OF n] by (simp add: indexed_node_def mem_get_def)
  then show ?thesis using index_in_range(1) [OF c(1)] index_past_end_ended [OF c] by simp
qed

lemma indexed_back:
  assumes s: "list_all is_digit s" "s \<noteq> []" and c: "chain l ps" and n: "1 \<le> dec_val s" "dec_val s \<le> length ps" "dec_val s < 2 ^ 64"
  shows "indexed_node l (arg (CHR ''-'' # s) rest) = Inr (Some (Some (ps ! (length ps - dec_val s))))"
proof -
  have "(word_of_nat (dec_val s) :: 64 word) - 1 = word_of_nat (dec_val s - 1)" using n(1) by (simp add: of_nat_diff)
  then have "unat ((word_of_nat (dec_val s) :: 64 word) - 1) = dec_val s - 1" using n(3) by (simp add: unat_word_nat del: of_nat_diff)
  then have "indexed_node l (arg (CHR ''-'' # s) rest) =
      bind_res (ll_get_from_index l (dec_val s - 1) LL_BACK) (\<lambda>node. Inr (Some node))"
    using index_number_digits(2) [OF s n(3), of rest] by (simp add: indexed_node_def mem_get_def)
  then show ?thesis using index_in_range(2) [OF c, of "dec_val s - 1"] n by simp
qed

lemma run_at_index_found:
  assumes "en_client en = Some protover" "en_args en = [k, a]" "get_data db (str_bytes k) = Inr (Some (i, kv))"
    "kv_value kv = VList l" "try_parse_integer a = Inr True" "indexed_node l a = Inr (Some q)"
  shows "run_at_index name f en db = (case q of None \<Rightarrow> Inr (db, RESP_NULL protover)
     | Some p \<Rightarrow> bind_res (node_at l (Some p)) (\<lambda>n. bind_res (f (nd_data n) protover) (\<lambda>bs. Inr (db, bs))))"
  using assms by (cases q) (simp_all add: run_at_index_def arg_count_def key_at_def arg_at_def)

lemma element_answer:
  assumes "wf_list l" "ll_list l = vs" "j < length vs"
  shows "bind_res (node_at l (Some (ll_ptrs l ! j))) (\<lambda>n. f (nd_data n)) = f (vs ! j)"
proof -
  note p = wf_list_ptrs [OF assms(1)]
  have "ll_ptrs l ! j \<in> set (ll_ptrs l)" using assms(2,3) p(3) by simp
  then have "node_at l (Some (ll_ptrs l ! j)) = Inr (nd l (ll_ptrs l ! j))" by (rule chain_node_at [OF p(1)])
  moreover have "nd_data (nd l (ll_ptrs l ! j)) = vs ! j" using p(2,3) assms(2,3) by (metis nth_map)
  ultimately show ?thesis by simp
qed

text \<open>\<open>LINDEX\<close> counts from zero at the front, and from \<open>-1\<close> at the back.\<close>

lemma run_lindex_front:
  assumes s: "sound_db db" and cl: "en_client en = Some protover" and l: "list_at db (str_bytes k) = Some vs" "vs \<noteq> []"
    and args: "en_args en = [k, arg n (x # rest)]" and x: "\<not> is_digit x" "x \<noteq> CHR ''-''"
    and n: "list_all is_digit n" "n \<noteq> []" "dec_val n < 2 ^ 64"
  shows "run_lindex g e en db = (if dec_val n < length vs
      then bind_res (write_prim g (vs ! dec_val n) protover []) (\<lambda>bs. Inr (db, bs))
      else Inr (db, RESP_NULL protover))"
proof -
  obtain i kv l where a: "get_data db (str_bytes k) = Inr (Some (i, kv))" "kv_value kv = VList l" "ll_list l = vs" "wf_list l" "ended l"
    using list_at_cons [OF s l] by metis
  note p = wf_list_ptrs [OF a(4)]
  have lit: "int_literal n" using n(1,2) by (cases n) (auto simp: int_literal_def)
  have "try_parse_integer (arg n (x # rest)) = Inr True" using try_parse_integer_arg [OF x, of n rest] lit by simp
  then have r: "run_lindex g e en db = (case if dec_val n < length vs then Some (ll_ptrs l ! dec_val n) else None of
      None \<Rightarrow> Inr (db, RESP_NULL protover)
    | Some p \<Rightarrow> bind_res (node_at l (Some p)) (\<lambda>n. bind_res (write_prim g (nd_data n) protover []) (\<lambda>bs. Inr (db, bs))))"
    unfolding run_lindex_def using indexed_front [OF n(1,2) p(1) a(5) n(3), of "x # rest"] p(3) a(3)
    by (intro run_at_index_found [OF cl args a(1,2)]) simp_all
  show ?thesis
  proof (cases "dec_val n < length vs")
    case True
    then show ?thesis unfolding r
      using element_answer [OF a(4,3) True, of "\<lambda>v. bind_res (write_prim g v protover []) (\<lambda>bs. Inr (db, bs))"] by simp
  qed (simp add: r)
qed

lemma run_lindex_back:
  assumes s: "sound_db db" and cl: "en_client en = Some protover" and l: "list_at db (str_bytes k) = Some vs"
    and args: "en_args en = [k, arg (CHR ''-'' # n) (x # rest)]" and x: "\<not> is_digit x" "x \<noteq> CHR ''-''"
    and n: "list_all is_digit n" "n \<noteq> []" "hd n \<noteq> CHR ''0''" "1 \<le> dec_val n" "dec_val n \<le> length vs" "dec_val n < 2 ^ 64"
  shows "run_lindex g e en db = bind_res (write_prim g (vs ! (length vs - dec_val n)) protover []) (\<lambda>bs. Inr (db, bs))"
proof -
  have ne: "vs \<noteq> []" using n(4,5) by auto
  obtain i kv l where a: "get_data db (str_bytes k) = Inr (Some (i, kv))" "kv_value kv = VList l" "ll_list l = vs" "wf_list l" "ended l"
    using list_at_cons [OF s l ne] by metis
  note p = wf_list_ptrs [OF a(4)]
  have lit: "int_literal (CHR ''-'' # n)" using n(1,2,3) by (simp add: int_literal_def)
  have "try_parse_integer (arg (CHR ''-'' # n) (x # rest)) = Inr True"
    using try_parse_integer_arg [OF x, of "CHR ''-'' # n" rest] lit by simp
  then have r: "run_lindex g e en db = (case Some (ll_ptrs l ! (length vs - dec_val n)) of
      None \<Rightarrow> Inr (db, RESP_NULL protover)
    | Some p \<Rightarrow> bind_res (node_at l (Some p)) (\<lambda>n. bind_res (write_prim g (nd_data n) protover []) (\<lambda>bs. Inr (db, bs))))"
    unfolding run_lindex_def using indexed_back [OF n(1,2) p(1) n(4) _ n(6), of "x # rest"] n(5) p(3) a(3)
    by (intro run_at_index_found [OF cl args a(1,2)]) simp_all
  have j: "length vs - dec_val n < length vs" using n(4,5) by simp
  show ?thesis unfolding r
    using element_answer [OF a(4,3) j, of "\<lambda>v. bind_res (write_prim g v protover []) (\<lambda>bs. Inr (db, bs))"] by simp
qed

section \<open>Ranges\<close>

lemma collect_front_chain:
  assumes c: "chain l ps"
  shows "i + n < length ps \<Longrightarrow> collect_front l (Some (ps ! i)) (Suc n) = Inr (data_of l (take (Suc n) (drop i ps)))"
proof (induction n arbitrary: i)
  case 0
  then show ?case using chain_node_at [OF c, of "ps ! i"] by (simp add: data_of_def take_Suc_conv_app_nth)
next
  case (Suc n)
  then have i: "i < length ps" "Suc i < length ps" by simp_all
  have n: "node_at l (Some (ps ! i)) = Inr (nd l (ps ! i))" using chain_node_at [OF c] i by simp
  have "collect_front l (Some (ps ! Suc i)) (Suc n) = Inr (data_of l (take (Suc n) (drop (Suc i) ps)))"
    using Suc.IH [of "Suc i"] Suc.prems by simp
  then have "collect_front l (Some (ps ! i)) (Suc (Suc n)) =
      Inr (nd_data (nd l (ps ! i)) # data_of l (take (Suc n) (drop (Suc i) ps)))"
    using n chain_next [OF c i(2)] by (simp del: take_Suc)
  moreover have "take (Suc (Suc n)) (drop i ps) = ps ! i # take (Suc n) (drop (Suc i) ps)"
    using i by (simp add: Cons_nth_drop_Suc [symmetric])
  ultimately show ?case by (simp add: data_of_def)
qed

lemma collect_back_chain:
  assumes c: "chain l ps"
  shows "\<lbrakk>n \<le> i; i < length ps\<rbrakk> \<Longrightarrow> collect_back l (Some (ps ! i)) (Suc n) acc =
    Inr (data_of l (take (Suc n) (drop (i - n) ps)) @ acc)"
proof (induction n arbitrary: i acc)
  case 0
  then show ?case using chain_node_at [OF c, of "ps ! i"] by (simp add: data_of_def take_Suc_conv_app_nth)
next
  case (Suc n)
  then obtain j where j: "i = Suc j" by (cases i) auto
  have n: "node_at l (Some (ps ! i)) = Inr (nd l (ps ! i))" using chain_node_at [OF c] Suc.prems by simp
  have "nd_prev (nd l (ps ! i)) = Some (ps ! j)" using chain_prev [OF c, of j] Suc.prems j by simp
  then have "collect_back l (Some (ps ! i)) (Suc (Suc n)) acc = collect_back l (Some (ps ! j)) (Suc n) (nd_data (nd l (ps ! i)) # acc)"
    using n by simp
  also have "\<dots> = Inr (data_of l (take (Suc n) (drop (j - n) ps)) @ nd_data (nd l (ps ! i)) # acc)"
    using Suc.IH [of j] Suc.prems j by simp
  also have "take (Suc (Suc n)) (drop (i - Suc n) ps) = take (Suc n) (drop (j - n) ps) @ [ps ! i]"
    using take_Suc_conv_app_nth [of "Suc n" "drop (j - n) ps"] Suc.prems j by simp
  ultimately show ?case by (simp add: data_of_def)
qed

text \<open>Walking back further than to the first node goes through its \<open>prev\<close>.\<close>

lemma collect_back_past:
  assumes c: "chain l ps" and p: "nd_prev (nd l (hd ps)) = None"
  shows "\<lbrakk>i < n; i < length ps\<rbrakk> \<Longrightarrow> collect_back l (Some (ps ! i)) (Suc n) acc = Inl NullDeref"
proof (induction i arbitrary: n acc)
  case 0
  then obtain m where m: "n = Suc m" by (cases n) auto
  have "hd ps = ps ! 0" using 0 by (simp add: hd_conv_nth)
  then show ?case using chain_node_at [OF c, of "ps ! 0"] 0 p m by (simp add: node_at_def)
next
  case (Suc i)
  then obtain m where m: "n = Suc m" "i < m" by (cases n) auto
  have "node_at l (Some (ps ! Suc i)) = Inr (nd l (ps ! Suc i))" using chain_node_at [OF c] Suc.prems by simp
  then show ?case using Suc.IH [of m] m Suc.prems chain_prev [OF c, of i] by simp
qed

text \<open>A range within the list: which nodes are collected.\<close>

lemma collect_values_cases:
  assumes c: "chain l ps" and r: "start < stop" "stop < length ps" "length ps < 2 ^ 63"
  defines "col \<equiv> collect_values l (word_of_nat stop - word_of_nat start + 1) (word_of_nat start) (word_of_nat stop)"
  shows "start + stop \<le> length ps \<Longrightarrow> col = Inr (data_of l (take (stop - start + 1) (drop start ps)))"
    and "length ps < start + stop \<Longrightarrow> col = collect_back l (Some (ps ! (length ps - stop - 1))) (stop - start + 1) []"
proof -
  have u: "unat (word_of_nat n :: 64 word) = n" if "n \<le> length ps" for n using that r(3) by (intro unat_word_nat) simp
  have w: "(word_of_nat stop :: 64 word) - word_of_nat start = word_of_nat (stop - start)"
    "(word_of_nat (length ps) :: 64 word) - word_of_nat stop = word_of_nat (length ps - stop)"
    using r by (simp_all add: of_nat_diff)
  have "(word_of_nat stop :: 64 word) - word_of_nat start + 1 = word_of_nat (stop - start + 1)" by (simp add: w(1) del: of_nat_diff)
  then have count: "unat ((word_of_nat stop :: 64 word) - word_of_nat start + 1) = stop - start + 1"
  proof -
    have "stop - start + 1 \<le> length ps" using r by simp
    from u [OF this] \<open>_ = word_of_nat (stop - start + 1)\<close> show ?thesis by (simp only:)
  qed
  have "(word_of_nat (length ps - stop) :: 64 word) - 1 = word_of_nat (length ps - stop - 1)" using r by (simp add: of_nat_diff)
  then have at: "unat ((word_of_nat (length ps) :: 64 word) - word_of_nat stop - 1) = length ps - stop - 1"
    using u [of "length ps - stop - 1"] by (simp add: w(2) del: of_nat_diff)
  have dir: "determine_dir (word_of_nat start) (word_of_nat stop) (word_of_nat (length ps)) =
      (if start + stop \<le> length ps then LL_FRONT else LL_BACK)"
    using u [of start] u [of "length ps - stop"] r unfolding determine_dir_def w(2) word_le_nat_alt by auto
  have sz: "ll_size l = length ps" using c by (simp add: chain_def)
  have f: "ll_get_from_index l start LL_FRONT = Inr (Some (ps ! start))"
    "ll_get_from_index l (length ps - stop - 1) LL_FRONT = Inr (Some (ps ! (length ps - stop - 1)))"
    using index_in_range(1) [OF c] r by simp_all
  show "col = Inr (data_of l (take (stop - start + 1) (drop start ps)))" if "start + stop \<le> length ps"
  proof -
    have "col = collect_front l (Some (ps ! start)) (Suc (stop - start))"
      unfolding col_def collect_values_def sz dir count using that u [of start] r f(1) by (simp del: collect_front.simps)
    also have "\<dots> = Inr (data_of l (take (Suc (stop - start)) (drop start ps)))"
      using r by (intro collect_front_chain [OF c]) simp
    finally show ?thesis by simp
  qed
  show "col = collect_back l (Some (ps ! (length ps - stop - 1))) (stop - start + 1) []" if "length ps < start + stop"
    unfolding col_def collect_values_def sz dir count at using that f(2) by (simp del: collect_back.simps)
qed

text \<open>An argument that is an integer and names position \<open>n\<close> of a list of \<open>len\<close> elements.\<close>

definition names_position :: "string_t \<Rightarrow> nat \<Rightarrow> nat \<Rightarrow> bool" where
  "names_position a len n \<longleftrightarrow> try_parse_integer a = Inr True \<and> normalize_index (word_of_nat len) a = Inr (word_of_nat n)"

lemma names_front:
  assumes n: "list_all is_digit n" "n \<noteq> []" "dec_val n < len" "len < 2 ^ 64" and x: "\<not> is_digit x" "x \<noteq> CHR ''-''"
  shows "names_position (arg n (x # rest)) len (dec_val n)"
proof -
  obtain d t where d: "n = d # t" "d \<noteq> CHR ''-''" using digit_first [OF n(1,2)] by blast
  have lit: "int_literal n" using n(1,2) by (cases n) (auto simp: int_literal_def)
  have lt: "dec_val n < 2 ^ 64" using n(3,4) by simp
  have "unat (word_of_nat len :: 64 word) = len" "unat (word_of_nat (dec_val n) :: 64 word) = dec_val n"
    using unat_word_nat n(4) lt by blast+
  then have "\<not> (word_of_nat len :: 64 word) \<le> word_of_nat (dec_val n)" using n(3) by (simp add: word_le_nat_alt)
  then show ?thesis using index_number_digits(1) [OF n(1,2) lt, of "x # rest"] d lit try_parse_integer_arg [OF x, of n rest]
    by (simp add: names_position_def normalize_index_def mem_get_def)
qed

lemma names_back:
  assumes n: "list_all is_digit n" "n \<noteq> []" "hd n \<noteq> CHR ''0''" "1 \<le> dec_val n" "dec_val n < len" "len < 2 ^ 64"
    and x: "\<not> is_digit x" "x \<noteq> CHR ''-''"
  shows "names_position (arg (CHR ''-'' # n) (x # rest)) len (len - dec_val n)"
proof -
  have lit: "int_literal (CHR ''-'' # n)" using n(1,2,3) by (simp add: int_literal_def)
  have lt: "dec_val n < 2 ^ 64" using n(5,6) by simp
  have "unat (word_of_nat len :: 64 word) = len" "unat (word_of_nat (dec_val n) :: 64 word) = dec_val n"
    using unat_word_nat n(6) lt by blast+
  then have "\<not> (word_of_nat len :: 64 word) \<le> word_of_nat (dec_val n)" using n(5) by (simp add: word_le_nat_alt)
  moreover have "(word_of_nat len :: 64 word) - word_of_nat (dec_val n) = word_of_nat (len - dec_val n)" using n(5) by (simp add: of_nat_diff)
  ultimately show ?thesis using index_number_digits(2) [OF n(1,2) lt, of "x # rest"] lit try_parse_integer_arg [OF x, of "CHR ''-'' # n" rest]
    by (simp add: names_position_def normalize_index_def mem_get_def del: of_nat_diff)
qed

text \<open>
  An index as far from the end as the list is long names its first element, but becomes the length
  of the list, for which the answer is empty.
\<close>

lemma names_first:
  assumes n: "list_all is_digit n" "n \<noteq> []" "hd n \<noteq> CHR ''0''" "dec_val n = len" "len < 2 ^ 64"
    and x: "\<not> is_digit x" "x \<noteq> CHR ''-''"
  shows "names_position (arg (CHR ''-'' # n) (x # rest)) len len"
proof -
  have lit: "int_literal (CHR ''-'' # n)" using n(1,2,3) by (simp add: int_literal_def)
  have lt: "dec_val n < 2 ^ 64" using n(4,5) by simp
  show ?thesis using index_number_digits(2) [OF n(1,2) lt, of "x # rest"] lit try_parse_integer_arg [OF x, of "CHR ''-'' # n" rest] n(4)
    by (simp add: names_position_def normalize_index_def mem_get_def)
qed

lemma run_lrange_at:
  assumes cl: "en_client en = Some protover" and args: "en_args en = [k, a, b]"
    and get: "get_data db (str_bytes k) = Inr (Some (i, kv))" "kv_value kv = VList l" "ll_size l = len"
    and len: "len < 2 ^ 63" "0 < len" and pos: "names_position a len start" "names_position b len stop" "start \<le> len" "stop \<le> len"
  shows "run_lrange g e en db = (if start < stop \<and> stop < len then
      bind_res (collect_values l (word_of_nat stop - word_of_nat start + 1) (word_of_nat start) (word_of_nat stop)) (\<lambda>values.
      bind_res (put [] (''*'' @ decimal (stop - start + 1) @ CRLF)) (\<lambda>out.
      bind_res (lrange_loop g (e_stale e) protover values out) (\<lambda>out. Inr (db, out))))
    else Inr (db, EMPTY_ARRAY))"
proof -
  have u: "unat (word_of_nat n :: 64 word) = n" if "n \<le> len" for n using that len(1) by (intro unat_word_nat) simp
  have z: "(word_of_nat len :: 64 word) \<noteq> 0"
  proof
    assume "(word_of_nat len :: 64 word) = 0"
    then have "unat (word_of_nat len :: 64 word) = 0" by simp
    then show False using u [of len] len(2) by simp
  qed
  have cmp: "(word_of_nat len :: 64 word) \<le> word_of_nat start \<or> (word_of_nat stop :: 64 word) \<le> word_of_nat start \<or>
      (word_of_nat stop :: 64 word) = word_of_nat len \<longleftrightarrow> \<not> (start < stop \<and> stop < len)"
  proof -
    have "(word_of_nat stop :: 64 word) = word_of_nat len \<longleftrightarrow> stop = len" using u [of stop] u [of len] pos(4) by (metis order_refl)
    then show ?thesis using u [of start] u [of stop] u [of len] pos(3,4) by (auto simp: word_le_nat_alt)
  qed
  have count: "unat ((word_of_nat stop :: 64 word) - word_of_nat start + 1) = stop - start + 1" if "start < stop" "stop < len"
  proof -
    have e: "(word_of_nat stop :: 64 word) - word_of_nat start + 1 = word_of_nat (stop - start + 1)" using that by (simp add: of_nat_diff)
    have "stop - start + 1 \<le> len" using that by simp
    from u [OF this] show ?thesis unfolding e by simp
  qed
  have p: "try_parse_integer a = Inr True" "normalize_index (word_of_nat len) a = Inr (word_of_nat start)"
    "try_parse_integer b = Inr True" "normalize_index (word_of_nat len) b = Inr (word_of_nat stop)"
    using pos(1,2) by (simp_all add: names_position_def)
  have "run_lrange g e en db = (if (word_of_nat len :: 64 word) \<le> word_of_nat start \<or> (word_of_nat stop :: 64 word) \<le> word_of_nat start \<or>
      (word_of_nat stop :: 64 word) = word_of_nat len then Inr (db, EMPTY_ARRAY)
    else bind_res (collect_values l (word_of_nat stop - word_of_nat start + 1) (word_of_nat start) (word_of_nat stop)) (\<lambda>values.
      bind_res (put [] (''*'' @ decimal (unat ((word_of_nat stop :: 64 word) - word_of_nat start + 1)) @ CRLF)) (\<lambda>out.
      bind_res (lrange_loop g (e_stale e) protover values out) (\<lambda>out. Inr (db, out)))))"
    using cl args get p z by (simp add: run_lrange_def arg_count_def key_at_def arg_at_def Let_def)
  then show ?thesis unfolding cmp using count by (simp only: if_not_P if_P not_not split: if_splits) auto
qed

subsection \<open>\<open>LRANGE\<close> of a list of strings\<close>

lemma lrange_strings:
  "length out + length (concat (map resp_bulk ss)) \<le> MAX_RESPONSE_SIZE \<Longrightarrow>
   lrange_loop g stale protover (map PStr ss) out = Inr (out @ concat (map resp_bulk ss))"
proof (induction ss arbitrary: out)
  case (Cons s ss)
  have "create_resp_string out s = Inr (out @ resp_bulk s)" using Cons.prems by (intro create_resp_string_text) simp
  then show ?case using Cons.IH [of "out @ resp_bulk s"] Cons.prems by (simp add: write_prim_def answer_def put_def)
qed simp

definition lrange_reply :: "bytes list \<Rightarrow> bytes" where
  "lrange_reply ss = ''*'' @ decimal (length ss) @ CRLF @ concat (map resp_bulk ss)"

lemma data_of_strings: "data_of l ps = map PStr ss \<Longrightarrow> data_of l (take n (drop i ps)) = map PStr (take n (drop i ss))"
  by (simp add: data_of_def take_map drop_map flip: take_map drop_map)

lemma run_lrange_strings:
  assumes s: "sound_db db" and cl: "en_client en = Some protover" and args: "en_args en = [k, arg n (x # rest), arg m (y # rest')]"
    and n: "list_all is_digit n" "n \<noteq> []" "\<not> is_digit x" "x \<noteq> CHR ''-''"
    and m: "list_all is_digit m" "m \<noteq> []" "\<not> is_digit y" "y \<noteq> CHR ''-''"
    and kv: "db_map db (str_bytes k) = Some kv" "kv_value kv = VList l" "ll_list l = map PStr ss"
    and r: "dec_val n < dec_val m" "dec_val m < length ss" "length ss < 2 ^ 63"
    and room: "\<And>vs. \<lbrakk>length vs = dec_val m - dec_val n + 1; set vs \<subseteq> set ss\<rbrakk> \<Longrightarrow> length (lrange_reply vs) \<le> MAX_RESPONSE_SIZE"
  defines "a \<equiv> dec_val n" and "b \<equiv> dec_val m" and "c \<equiv> length ss"
  shows "a + b \<le> c \<Longrightarrow> run_lrange g e en db = Inr (db, lrange_reply (take (b - a + 1) (drop a ss)))"
    and "\<lbrakk>c < a + b; b - a \<le> c - b - 1\<rbrakk> \<Longrightarrow> run_lrange g e en db = Inr (db, lrange_reply (take (b - a + 1) (drop (c - b - 1 - (b - a)) ss)))"
    and "\<lbrakk>c < a + b; c - b - 1 < b - a; closed l\<rbrakk> \<Longrightarrow> run_lrange g e en db = Inl NullDeref"
proof -
  have wf: "wf_db db" "wf_list l" "ended l" using s sound_list [OF s kv(1,2)] by (simp_all add: sound_db_def)
  obtain i where i: "get_data db (str_bytes k) = Inr (Some (i, kv))" using get_data_Some [OF wf(1) kv(1)] by blast
  define ps where "ps = ll_ptrs l"
  have len: "length ss = length (ll_ptrs l)" using wf_list_ptrs(3) [OF wf(2)] unfolding kv(3) by simp
  have ps: "chain l ps" "data_of l ps = map PStr ss" "length ps = c" and sz: "ll_size l = c"
    using wf_list_ptrs(1,2) [OF wf(2)] wf_list_size [OF wf(2)] len kv(3)
    unfolding ps_def data_of_def c_def by simp_all
  have small: "a < c" "c < 2 ^ 64" "c < 2 ^ 63" "a < b" "b < c" using r by (simp_all add: a_def b_def c_def)
  define col where "col = collect_values l (word_of_nat b - word_of_nat a + 1) (word_of_nat a) (word_of_nat b)"
  have run: "run_lrange g e en db = bind_res col (\<lambda>values.
      bind_res (put [] (''*'' @ decimal (b - a + 1) @ CRLF)) (\<lambda>out.
      bind_res (lrange_loop g (e_stale e) protover values out) (\<lambda>out. Inr (db, out))))"
  proof -
    have "names_position (arg n (x # rest)) c a" "names_position (arg m (y # rest')) c b"
      using names_front [OF n(1,2) _ small(2) n(3,4)] names_front [OF m(1,2) _ small(2) m(3,4)] small by (simp_all add: a_def b_def)
    from run_lrange_at [OF cl args i kv(2) sz small(3) _ this] show ?thesis using small by (simp add: col_def)
  qed
  note cv = collect_values_cases [OF ps(1), of a b, unfolded ps(3), OF small(4,5,3), folded col_def]
  have reply: "run_lrange g e en db = Inr (db, lrange_reply vs)" if "col = Inr (map PStr vs)" "length vs = b - a + 1" "set vs \<subseteq> set ss" for vs
  proof -
    have l: "length (lrange_reply vs) \<le> MAX_RESPONSE_SIZE" using room that(2,3) by (simp add: a_def b_def)
    then show ?thesis using lrange_strings [of "''*'' @ decimal (b - a + 1) @ CRLF" vs g "e_stale e" protover] that(2)
      unfolding run that(1) by (simp add: lrange_reply_def put_def)
  qed
  have sub: "set (take u (drop v ss)) \<subseteq> set ss" for u v by (meson order_trans set_drop_subset set_take_subset)
  show "run_lrange g e en db = Inr (db, lrange_reply (take (b - a + 1) (drop a ss)))" if "a + b \<le> c"
    using cv(1) [OF that] small sub by (intro reply) (simp_all add: data_of_strings [OF ps(2)] c_def)
  have bk: "ps ! (c - b - 1) = ps ! (c - b - 1)" "c - b - 1 < c" using small by simp_all
  show "run_lrange g e en db = Inr (db, lrange_reply (take (b - a + 1) (drop (c - b - 1 - (b - a)) ss)))" if "c < a + b" "b - a \<le> c - b - 1"
  proof (rule reply)
    show "col = Inr (map PStr (take (b - a + 1) (drop (c - b - 1 - (b - a)) ss)))"
      using cv(2) [OF that(1)] collect_back_chain [OF ps(1) that(2), of "[]"] bk(2) ps(3)
      by (simp add: data_of_strings [OF ps(2), of "Suc (b - a)", simplified])
  qed (use that small sub in \<open>simp_all add: c_def\<close>)
  show "run_lrange g e en db = Inl NullDeref" if "c < a + b" "c - b - 1 < b - a" "closed l"
  proof -
    have "ps \<noteq> []" using ps(3) small by auto
    then have "nd_prev (nd l (hd ps)) = None" using that(3) ps(1) sz small by (simp add: closed_def chain_def)
    then have "col = Inl NullDeref"
      using cv(2) [OF that(1)] collect_back_past [OF ps(1) _ that(2), of "[]"] bk(2) ps(3) by simp
    then show ?thesis unfolding run by simp
  qed
qed

end
