(* ===== verification/Cmd_Hash.thy ===== *)
theory Cmd_Hash
  imports Cmd_List
begin

text \<open>
  The hash table commands, \<open>src/commands/hashtable/\<close>. A hash value is a table from field names to
  plain values; a command changes it through the pointer in the \<open>KeyValue\<close>, which is a write of
  the table back to the slot of the key.
\<close>

type_synonym ('z, 'f) fields = "(bytes, ('z, 'f) prim) hashtable"

section \<open>HSET\<close>

text \<open>The count of arguments is a \<open>uint32_t\<close>: without arguments \<open>count - 1\<close> wraps.\<close>

definition hset_count_wrong :: "entry \<Rightarrow> bool" where
  "hset_count_wrong en \<longleftrightarrow> arg_count en = 1 \<or> (word_of_nat (arg_count en) - 1 :: 32 word) mod 2 \<noteq> 0"

definition get_keys_hset :: "entry \<Rightarrow> string_t list" where
  "get_keys_hset en = (if hset_count_wrong en then [] else [arg_at en 0])"

definition insert_into_hashtable_in_database ::
  "bool \<Rightarrow> bool \<Rightarrow> (nat \<Rightarrow> (bytes, ('z, 'f) prim) slots option) \<Rightarrow> ('z, 'f) fields \<Rightarrow> bytes \<Rightarrow> ('z, 'f) prim \<Rightarrow>
   (('z, 'f) fields \<times> bool) res" where
  "insert_into_hashtable_in_database ok1 ok2 mem table key value =
     (if \<not> ok1 then Inr (table, False)
      else if \<not> ok2 then Inr (table, False)
      else bind_res (insert_into_hashtable mem table key value) (\<lambda>(table, element). Inr (table, element \<noteq> None)))"

text \<open>
  The value of one field, \<open>None\<close> when memory is short. \<open>false\<close> and \<open>null\<close> are compared as C strings,
  with what follows the argument in its buffer.
\<close>

definition field_value :: "('z, 'f) gmp \<Rightarrow> (nat \<Rightarrow> bool) \<Rightarrow> string_t \<Rightarrow> ('z, 'f) prim option res" where
  "field_value g ok input =
     bind_res (try_parse_integer input) (\<lambda>is_integer.
     bind_res (try_parse_double input) (\<lambda>is_double. Inr (
       if is_integer then (if ok 0 then Some (PInt (mpz_init_set_str g (gmp_input input))) else None)
       else if is_double then (if ok 0 then Some (PDouble (mpf_set_str g (gmp_input input))) else None)
       else if SSTREQ input ''true'' \<or> streq (str_mem input) ''false'' then
         (if ok 0 then Some (PBool (SSTREQ input ''true'')) else None)
       else if streq (str_mem input) ''null'' then Some PNull
       else if \<not> ok 0 then None
       else if \<not> ok 1 then None
       else Some (PStr (str_bytes input)))))"

text \<open>The loop over the pairs of a name and a value; the answer is whether it came to the end.\<close>

fun hset_loop ::
  "('z, 'f) gmp \<Rightarrow> ('z, 'f) env \<Rightarrow> nat \<Rightarrow> string_t list \<Rightarrow> ('z, 'f) fields \<Rightarrow> (('z, 'f) fields \<times> bool) res" where
  "hset_loop g e i (name # input # rest) table =
     bind_res (field_value g (e_ok e i) input) (\<lambda>v. case v of
         None \<Rightarrow> Inr (table, False)
       | Some v \<Rightarrow>
           bind_res (insert_into_hashtable_in_database (e_ok e i 2) (e_ok e i 3) (e_fields e i) table (str_bytes name) v) (\<lambda>(table, ok).
             if \<not> ok then Inr (table, False) else hset_loop g e (i + 1) rest table))"
| "hset_loop g e i _ table = Inr (table, True)"

definition run_hset :: "('z, 'f) gmp \<Rightarrow> ('z, 'f) env \<Rightarrow> entry \<Rightarrow> ('z, 'f) database \<Rightarrow> (('z, 'f) database \<times> bytes) res" where
  "run_hset g e en db =
     (if hset_count_wrong en then reply en db (say (WRONG_ARGUMENT_ERROR ''HSET''))
      else
        let stored = (\<lambda>db ok. reply en db (\<lambda>protover. if ok then create_resp_integer [] (word_of_nat ((arg_count en - 1) div 2))
                                             else Inr OUT_OF_MEMORY));
            pairs = tl (en_args en) in
        bind_res (get_data db (key_at en 0)) (\<lambda>r. case r of
          Some (i, kv) \<Rightarrow> (case kv_value kv of
              VHash table \<Rightarrow> bind_res (hset_loop g e 1 pairs table) (\<lambda>(table, ok).
                stored (write_kv db i (kv\<lparr>kv_value := VHash table\<rparr>)) ok)
            | _ \<Rightarrow> reply en db (say (INVALID_TYPE_ERROR ''HSET'')))
        | None \<Rightarrow> (case create_hashtable (e_ok e 0 0) (e_ok e 0 1) 16 string_hash string_compare of
              None \<Rightarrow> reply en db (say OUT_OF_MEMORY)
            | Some table \<Rightarrow>
                bind_res (set_data (e_ok e 0 2) (e_ok e 0 3) (e_mem e) db None (key_at en 0) (VHash table) None) (\<lambda>(db, p).
                case p of
                  None \<Rightarrow> reply en db (say OUT_OF_MEMORY)
                | Some i \<Rightarrow> bind_res (hset_loop g e 1 pairs table) (\<lambda>(table, ok).
                    stored (write_kv db i \<lparr>kv_value = VHash table, kv_expiry = None\<rparr>) ok)))))"

definition cmd_hset :: "('z, 'f) command" where
  "cmd_hset = \<lparr>c_name = ''HSET'', c_permissions = P_WRITE, c_affect = True, c_access = True, c_waiting = False,
               c_get_keys = get_keys_hset, c_run = run_hset\<rparr>"

section \<open>HDEL\<close>

definition get_keys_hdel :: "entry \<Rightarrow> string_t list" where
  "get_keys_hdel en = (if arg_count en < 2 then [] else [arg_at en 0])"

fun hdel_loop :: "('z, 'f) fields \<Rightarrow> string_t list \<Rightarrow> ('z, 'f) fields res" where
  "hdel_loop table [] = Inr table"
| "hdel_loop table (name # names) =
     bind_res (delete_from_hashtable table (str_bytes name)) (\<lambda>(table, _). hdel_loop table names)"

definition run_hdel :: "('z, 'f) gmp \<Rightarrow> ('z, 'f) env \<Rightarrow> entry \<Rightarrow> ('z, 'f) database \<Rightarrow> (('z, 'f) database \<times> bytes) res" where
  "run_hdel g e en db =
     (if arg_count en < 2 then reply en db (say (WRONG_ARGUMENT_ERROR ''HDEL''))
      else bind_res (get_data db (key_at en 0)) (\<lambda>r. case r of
          None \<Rightarrow> reply en db (say ('':0'' @ CRLF))
        | Some (i, kv) \<Rightarrow> (case kv_value kv of
            VHash table \<Rightarrow>
              if \<not> may_read (en_permissions en) then
                reply en db (say (RESP_ERROR_MESSAGE ''Not allowed to use this command, need P_READ''))
              else
                let old_size = word_of_nat (ht_count table) :: 32 word in
                bind_res (hdel_loop table (tl (en_args en))) (\<lambda>table.
                let current_size = word_of_nat (ht_count table) :: 32 word;
                    db = write_kv db i (kv\<lparr>kv_value := VHash table\<rparr>) in
                bind_res (if ht_count table = 0 then bind_res (delete_data db (key_at en 0)) (\<lambda>(db, _). Inr db) else Inr db) (\<lambda>db.
                  reply en db (\<lambda>protover. create_resp_integer [] (ucast (old_size - current_size)))))
          | _ \<Rightarrow> reply en db (say (INVALID_TYPE_ERROR ''HDEL'')))))"

definition cmd_hdel :: "('z, 'f) command" where
  "cmd_hdel = \<lparr>c_name = ''HDEL'', c_permissions = P_WRITE, c_affect = True, c_access = True, c_waiting = False,
               c_get_keys = get_keys_hdel, c_run = run_hdel\<rparr>"

section \<open>HGET, HTYPE and HLEN\<close>

definition get_keys_hget :: "entry \<Rightarrow> string_t list" where
  "get_keys_hget en = (if arg_count en \<noteq> 2 then [] else [arg_at en 0])"

definition get_keys_htype :: "entry \<Rightarrow> string_t list" where
  "get_keys_htype en = (if arg_count en \<noteq> 2 then [] else [arg_at en 0])"

definition get_keys_hlen :: "entry \<Rightarrow> string_t list" where
  "get_keys_hlen en = (if arg_count en \<noteq> 1 then [] else [arg_at en 0])"

text \<open>
  Reading a hash value: \<open>missing\<close> is the answer for a missing key and \<open>k\<close> what is done with the
  table.
\<close>

definition with_table ::
  "bytes \<Rightarrow> nat \<Rightarrow> (protover \<Rightarrow> bytes) \<Rightarrow> (protover \<Rightarrow> ('z, 'f) fields \<Rightarrow> bytes res) \<Rightarrow> entry \<Rightarrow> ('z, 'f) database \<Rightarrow>
   (('z, 'f) database \<times> bytes) res" where
  "with_table name n missing k en db = with_client en db (\<lambda>protover.
     if arg_count en \<noteq> n then Inr (db, WRONG_ARGUMENT_ERROR name)
     else bind_res (get_data db (key_at en 0)) (\<lambda>r. case r of
         None \<Rightarrow> Inr (db, missing protover)
       | Some (i, kv) \<Rightarrow> (case kv_value kv of
           VHash table \<Rightarrow> bind_res (k protover table) (\<lambda>bs. Inr (db, bs))
         | _ \<Rightarrow> Inr (db, INVALID_TYPE_ERROR name))))"

definition run_hget :: "('z, 'f) gmp \<Rightarrow> ('z, 'f) env \<Rightarrow> entry \<Rightarrow> ('z, 'f) database \<Rightarrow> (('z, 'f) database \<times> bytes) res" where
  "run_hget g e en db = with_table ''HGET'' 2 RESP_NULL (\<lambda>protover table.
     bind_res (get_from_hashtable table (key_at en 1)) (\<lambda>field. case field of
         None \<Rightarrow> Inr (RESP_NULL protover)
       | Some i \<Rightarrow> (case ht_elements table ! i of None \<Rightarrow> Inl NullDeref | Some (_, v) \<Rightarrow> write_prim g v protover []))) en db"

definition cmd_hget :: "('z, 'f) command" where
  "cmd_hget = \<lparr>c_name = ''HGET'', c_permissions = P_READ, c_affect = False, c_access = True, c_waiting = False,
               c_get_keys = get_keys_hget, c_run = run_hget\<rparr>"

definition run_htype :: "('z, 'f) gmp \<Rightarrow> ('z, 'f) env \<Rightarrow> entry \<Rightarrow> ('z, 'f) database \<Rightarrow> (('z, 'f) database \<times> bytes) res" where
  "run_htype g e en db = with_table ''HTYPE'' 2 RESP_NULL (\<lambda>protover table.
     bind_res (get_from_hashtable table (key_at en 1)) (\<lambda>field. case field of
         None \<Rightarrow> Inr (RESP_NULL protover)
       | Some i \<Rightarrow> (case ht_elements table ! i of None \<Rightarrow> Inl NullDeref | Some (_, v) \<Rightarrow> Inr (get_resp_type_name (Prim v))))) en db"

definition cmd_htype :: "('z, 'f) command" where
  "cmd_htype = \<lparr>c_name = ''HTYPE'', c_permissions = P_READ, c_affect = False, c_access = True, c_waiting = False,
                c_get_keys = get_keys_htype, c_run = run_htype\<rparr>"

definition run_hlen :: "('z, 'f) gmp \<Rightarrow> ('z, 'f) env \<Rightarrow> entry \<Rightarrow> ('z, 'f) database \<Rightarrow> (('z, 'f) database \<times> bytes) res" where
  "run_hlen g e en db = with_table ''HLEN'' 1 RESP_NULL (\<lambda>protover table.
     put [] (''*2'' @ CRLF @ '':'' @ decimal (ht_count table) @ CRLF @ '':'' @ decimal (ht_capacity table) @ CRLF)) en db"

definition cmd_hlen :: "('z, 'f) command" where
  "cmd_hlen = \<lparr>c_name = ''HLEN'', c_permissions = P_READ, c_affect = False, c_access = True, c_waiting = False,
               c_get_keys = get_keys_hlen, c_run = run_hlen\<rparr>"

section \<open>HGETALL, HKEYS and HVALS\<close>

definition get_keys_hgetall :: "entry \<Rightarrow> string_t list" where
  "get_keys_hgetall en = (if arg_count en \<noteq> 1 then [] else [arg_at en 0])"

definition get_keys_hkeys :: "entry \<Rightarrow> string_t list" where
  "get_keys_hkeys en = (if arg_count en \<noteq> 1 then [] else [arg_at en 0])"

definition get_keys_hvals :: "entry \<Rightarrow> string_t list" where
  "get_keys_hvals en = (if arg_count en \<noteq> 1 then [] else [arg_at en 0])"

text \<open>\<open>foreach_hashtable\<close> with a function that writes each element behind the last one.\<close>

fun dump_loop :: "('a \<Rightarrow> out \<Rightarrow> out res) \<Rightarrow> 'a list \<Rightarrow> out \<Rightarrow> out res" where
  "dump_loop dump [] out = Inr out"
| "dump_loop dump (x # xs) out = bind_res (dump x out) (\<lambda>out. dump_loop dump xs out)"

text \<open>The value part of \<open>dump_hashtable\<close>: unlike \<open>write_value\<close> it copies the constants.\<close>

definition dump_value :: "('z, 'f) gmp \<Rightarrow> protover \<Rightarrow> ('z, 'f) prim \<Rightarrow> out \<Rightarrow> out res" where
  "dump_value g protover v out = (case v of
       PNull \<Rightarrow> put out (RESP_NULL protover)
     | PInt z \<Rightarrow> create_resp_integer_mpz g protover out z
     | PDouble f \<Rightarrow> create_resp_integer_mpf g protover out f
     | PStr s \<Rightarrow> create_resp_string out s
     | PBool b \<Rightarrow> put out (bool_text protover b))"

definition dump_hashtable :: "('z, 'f) gmp \<Rightarrow> protover \<Rightarrow> bytes \<times> ('z, 'f) prim \<Rightarrow> out \<Rightarrow> out res" where
  "dump_hashtable g protover element out =
     bind_res (create_resp_string out (fst element)) (\<lambda>out. dump_value g protover (snd element) out)"

definition dump_hashtable_keys :: "bytes \<times> ('z, 'f) prim \<Rightarrow> out \<Rightarrow> out res" where
  "dump_hashtable_keys element out = create_resp_string out (fst element)"

definition dump_hashtable_values :: "('z, 'f) gmp \<Rightarrow> protover \<Rightarrow> bytes \<times> ('z, 'f) prim \<Rightarrow> out \<Rightarrow> out res" where
  "dump_hashtable_values g protover element out = dump_value g protover (snd element) out"

definition aggregate_header :: "char \<Rightarrow> nat \<Rightarrow> out res" where
  "aggregate_header c n = bind_res (put [] [c]) (\<lambda>out. bind_res (put_ltoa out (word_of_nat n)) (\<lambda>out. put out CRLF))"

definition run_hgetall :: "('z, 'f) gmp \<Rightarrow> ('z, 'f) env \<Rightarrow> entry \<Rightarrow> ('z, 'f) database \<Rightarrow> (('z, 'f) database \<times> bytes) res" where
  "run_hgetall g e en db = with_table ''HGETALL'' 1
     (\<lambda>protover. case protover of RESP2 \<Rightarrow> ''*0'' @ CRLF | RESP3 \<Rightarrow> ''%0'' @ CRLF)
     (\<lambda>protover table.
       bind_res (case protover of
           RESP2 \<Rightarrow> aggregate_header (CHR ''*'') (ht_count table * 2)
         | RESP3 \<Rightarrow> aggregate_header (CHR ''%'') (ht_count table)) (\<lambda>out.
       dump_loop (dump_hashtable g protover) (foreach_hashtable table) out)) en db"

definition cmd_hgetall :: "('z, 'f) command" where
  "cmd_hgetall = \<lparr>c_name = ''HGETALL'', c_permissions = P_READ, c_affect = False, c_access = True, c_waiting = False,
                  c_get_keys = get_keys_hgetall, c_run = run_hgetall\<rparr>"

definition run_hkeys :: "('z, 'f) gmp \<Rightarrow> ('z, 'f) env \<Rightarrow> entry \<Rightarrow> ('z, 'f) database \<Rightarrow> (('z, 'f) database \<times> bytes) res" where
  "run_hkeys g e en db = with_table ''HKEYS'' 1 (\<lambda>_. ''*0'' @ CRLF)
     (\<lambda>protover table. bind_res (aggregate_header (CHR ''*'') (ht_count table)) (\<lambda>out.
       dump_loop dump_hashtable_keys (foreach_hashtable table) out)) en db"

definition cmd_hkeys :: "('z, 'f) command" where
  "cmd_hkeys = \<lparr>c_name = ''HKEYS'', c_permissions = P_READ, c_affect = False, c_access = True, c_waiting = False,
                c_get_keys = get_keys_hkeys, c_run = run_hkeys\<rparr>"

definition run_hvals :: "('z, 'f) gmp \<Rightarrow> ('z, 'f) env \<Rightarrow> entry \<Rightarrow> ('z, 'f) database \<Rightarrow> (('z, 'f) database \<times> bytes) res" where
  "run_hvals g e en db = with_table ''HVALS'' 1 (\<lambda>_. ''*0'' @ CRLF)
     (\<lambda>protover table. bind_res (aggregate_header (CHR ''*'') (ht_count table)) (\<lambda>out.
       dump_loop (dump_hashtable_values g protover) (foreach_hashtable table) out)) en db"

definition cmd_hvals :: "('z, 'f) command" where
  "cmd_hvals = \<lparr>c_name = ''HVALS'', c_permissions = P_READ, c_affect = False, c_access = True, c_waiting = False,
                c_get_keys = get_keys_hvals, c_run = run_hvals\<rparr>"

section \<open>What the commands do\<close>

text \<open>The fields of a key: none when there is no such key, \<open>None\<close> when it holds something else.\<close>

definition hash_at :: "('z, 'f) database \<Rightarrow> bytes \<Rightarrow> (bytes \<rightharpoonup> ('z, 'f) prim) option" where
  "hash_at db key = (case db_map db key of None \<Rightarrow> Some Map.empty
     | Some kv \<Rightarrow> (case kv_value kv of VHash t \<Rightarrow> Some (ht_map t) | _ \<Rightarrow> None))"

definition wf_hash :: "('z, 'f) database \<Rightarrow> bytes \<Rightarrow> bool" where
  "wf_hash db key \<longleftrightarrow> (\<forall>kv t. db_map db key = Some kv \<longrightarrow> kv_value kv = VHash t \<longrightarrow> wf_strings t)"

text \<open>An argument that \<open>HSET\<close> reads as the value it is meant to be.\<close>

definition hset_readable :: "bytes \<times> char \<times> bytes \<Rightarrow> bool" where
  "hset_readable a \<longleftrightarrow> (case a of (s, x, rest) \<Rightarrow> NUL \<notin> set s \<and> (x = NUL \<or>
     x = CHR 0x0D \<and> \<not> int_literal s \<and> \<not> double_literal s \<and> s \<noteq> ''false'' \<and> s \<noteq> ''null''))"

lemma streq_no_cr: "\<lbrakk>NUL \<notin> set s; CHR 0x0D \<notin> set t\<rbrakk> \<Longrightarrow> \<not> streq (s @ CHR 0x0D # rest) t"
  using streq_arg [of s "CHR 0x0D" rest t] by (auto simp: c_string_def)

lemma field_value_readable:
  assumes "hset_readable a" "\<And>i. ok i"
  shows "field_value g ok (as_arg a) = Inr (Some (value_of g (fst a)))"
proof -
  obtain s x rest where a: "a = (s, x, rest)" by (cases a) auto
  consider "NUL \<notin> set s" "x = NUL"
    | "NUL \<notin> set s" "x = CHR 0x0D" "\<not> int_literal s" "\<not> double_literal s" "s \<noteq> ''false''" "s \<noteq> ''null''"
    using assms(1) a by (auto simp: hset_readable_def)
  then show ?thesis
  proof cases
    case 1
    have "streq (s @ NUL # rest) t \<longleftrightarrow> s = t" for t using streq_arg [OF 1(1), of NUL rest t] by simp
    then show ?thesis using 1 assms(2) gmp_input_arg [OF 1(1), of rest]
      by (simp add: field_value_def as_arg_def a value_of_def)
  next
    case 2
    have x: "\<not> is_digit (CHR 0x0D)" "CHR 0x0D \<noteq> CHR ''-''" by simp_all
    have "\<not> streq (s @ CHR 0x0D # rest) ''false''" "\<not> streq (s @ CHR 0x0D # rest) ''null''"
      using streq_no_cr [OF 2(1)] by simp_all
    then show ?thesis using 2 assms(2) try_parse_integer_arg [OF x, of s rest] try_parse_double_arg [OF x(2), of s rest]
      by (simp add: field_value_def as_arg_def a value_of_def)
  qed
qed

text \<open>A field that is there keeps its value.\<close>

definition put_new :: "('k \<rightharpoonup> 'v) \<Rightarrow> 'k \<times> 'v \<Rightarrow> 'k \<rightharpoonup> 'v" where
  "put_new m p = (if m (fst p) = None then m(fst p \<mapsto> snd p) else m)"

lemma wf_strings_table: "wf_strings t \<Longrightarrow> wf_table t"
  by (simp add: wf_strings_def)

lemma hset_loop_all:
  assumes c: "calm e"
  shows "\<lbrakk>\<forall>p \<in> set ps. hset_readable (snd p); wf_strings t\<rbrakk> \<Longrightarrow>
    \<exists>t'. hset_loop g e i (concat (map (\<lambda>p. [fst p, as_arg (snd p)]) ps)) t = Inr (t', True) \<and> wf_strings t' \<and>
      ht_map t' = foldl put_new (ht_map t) (map (\<lambda>p. (str_bytes (fst p), value_of g (fst (snd p)))) ps)"
proof (induction ps arbitrary: i t)
  case (Cons p ps)
  have v: "field_value g (e_ok e i) (as_arg (snd p)) = Inr (Some (value_of g (fst (snd p))))"
    by (rule field_value_readable) (use Cons.prems(1) c in simp_all)
  obtain t1 j where t1: "insert_into_hashtable (e_fields e i) t (str_bytes (fst p)) (value_of g (fst (snd p))) = Inr (t1, Some j)"
      "wf_table t1" "ht_hash t1 = ht_hash t" "ht_compare t1 = ht_compare t"
      "ht_map t1 = put_new (ht_map t) (str_bytes (fst p), value_of g (fst (snd p)))"
  proof -
    have mem: "e_fields e i n = Some (replicate n None)" for n using c by (simp add: calm_def)
    show ?thesis using insert_succeeds [OF wf_strings_table [OF Cons.prems(2)], of "e_fields e i", OF mem,
        of "str_bytes (fst p)" "value_of g (fst (snd p))"] that by (auto simp: put_new_def)
  qed
  have "wf_strings t1" using t1(2-4) Cons.prems(2) by (simp add: wf_strings_def)
  then show ?case using Cons.IH [of t1 "i + 1"] Cons.prems(1) c v t1(1,5) by (simp add: insert_into_hashtable_in_database_def)
qed simp

lemma write_hash:
  assumes s: "sound_db db" and i: "in_slots (ht_elements (db_data db)) i key old" and t: "wf_strings t"
    and kv: "kv_value kv = VHash t"
  shows "sound_db (write_kv db i kv) \<and> hash_at (write_kv db i kv) key = Some (ht_map t) \<and> wf_hash (write_kv db i kv) key \<and>
    (\<forall>k'. k' \<noteq> key \<longrightarrow> db_map (write_kv db i kv) k' = db_map db k')"
  using write_kv_sound [OF s i, of kv] kv t by (auto simp: freeable_def hash_at_def wf_hash_def)

lemma hset_count: "arg_count en = 2 * n + 1 \<Longrightarrow> 0 < n \<Longrightarrow> \<not> hset_count_wrong en"
proof -
  assume n: "arg_count en = 2 * n + 1" "0 < n"
  have "(word_of_nat (arg_count en) - 1 :: 32 word) = 2 * word_of_nat n" using n(1) by simp
  moreover have "even (2 * (word_of_nat n :: 32 word))" by simp
  ultimately have "(word_of_nat (arg_count en) - 1 :: 32 word) mod 2 = 0" by (simp only: even_iff_mod_2_eq_zero)
  then show ?thesis using n by (simp add: hset_count_wrong_def)
qed

lemma run_hset_all:
  fixes e :: "('z, 'f) env"
  assumes s: "sound_db db" and h: "wf_hash db (str_bytes k)" and cl: "en_client en = Some protover" and c: "calm e"
    and args: "en_args en = k # concat (map (\<lambda>p. [fst p, as_arg (snd p)]) ps)" and ne: "ps \<noteq> []"
    and rd: "\<forall>p \<in> set ps. hset_readable (snd p)" and m: "hash_at db (str_bytes k) = Some m" and small: "length ps < 2 ^ 62"
  shows "\<exists>db'. run_hset g e en db = Inr (db', resp_int (int (length ps))) \<and> sound_db db' \<and> wf_hash db' (str_bytes k) \<and>
    hash_at db' (str_bytes k) = Some (foldl put_new m (map (\<lambda>p. (str_bytes (fst p), value_of g (fst (snd p)))) ps)) \<and>
    (\<forall>k'. k' \<noteq> str_bytes k \<longrightarrow> db_map db' k' = db_map db k')"
proof -
  let ?k = "str_bytes k" and ?pairs = "concat (map (\<lambda>p. [fst p, as_arg (snd p)]) ps)" and ?n = "length ps"
  have wf: "wf_db db" using s by (simp add: sound_db_def)
  have len: "length ?pairs = 2 * ?n" by (induction ps) simp_all
  have count: "arg_count en = 2 * ?n + 1" "key_at en 0 = ?k" "tl (en_args en) = ?pairs" "(arg_count en - 1) div 2 = ?n"
    using args len by (simp_all add: arg_count_def key_at_def arg_at_def)
  have right: "\<not> hset_count_wrong en" using hset_count [OF count(1)] ne by simp
  note [simp] = count_text [OF small]
  show ?thesis
  proof (cases "db_map db ?k")
    case (Some kv)
    obtain t where t: "kv_value kv = VHash t" "ht_map t = m" using m Some by (auto simp: hash_at_def split: val.splits)
    have w: "wf_strings t" using h Some t(1) by (simp add: wf_hash_def)
    obtain i where i: "get_data db ?k = Inr (Some (i, kv))" "in_slots (ht_elements (db_data db)) i ?k kv"
      using get_data_Some [OF wf Some] by blast
    obtain t' where t': "hset_loop g e 1 ?pairs t = Inr (t', True)" "wf_strings t'"
        "ht_map t' = foldl put_new m (map (\<lambda>p. (str_bytes (fst p), value_of g (fst (snd p)))) ps)"
      using hset_loop_all [OF c rd w, of g 1] t(2) by auto
    let ?kv = "kv\<lparr>kv_value := VHash t'\<rparr>"
    have "run_hset g e en db = Inr (write_kv db i ?kv, resp_int (int ?n))"
      using count right cl i(1) t(1) t'(1) by (simp add: run_hset_def Let_def)
    then show ?thesis using write_hash [OF s i(2) t'(2), of ?kv] t'(3) by simp
  next
    case None
    have m: "m = Map.empty" using m None by (simp add: hash_at_def)
    obtain t :: "('z, 'f) fields" where t: "create_hashtable True True 16 string_hash string_compare = Some t" "wf_strings t"
        "ht_map t = Map.empty"
      using create_correct [of 16 string_compare string_hash] by (auto simp: wf_strings_def create_hashtable_def)
    obtain db1 i where db1: "set_data True True (e_mem e) db None ?k (VHash t) None = Inr (db1, Some i)" "sound_db db1"
        "db_map db1 = (db_map db)(?k \<mapsto> \<lparr>kv_value = VHash t, kv_expiry = None\<rparr>)"
        "in_slots (ht_elements (db_data db1)) i ?k \<lparr>kv_value = VHash t, kv_expiry = None\<rparr>"
      using new_data_slot [OF s c None, of "VHash t" None] by (auto simp: freeable_def)
    obtain t' where t': "hset_loop g e 1 ?pairs t = Inr (t', True)" "wf_strings t'"
        "ht_map t' = foldl put_new Map.empty (map (\<lambda>p. (str_bytes (fst p), value_of g (fst (snd p)))) ps)"
      using hset_loop_all [OF c rd t(2), of g 1] t(3) by auto
    let ?kv = "\<lparr>kv_value = VHash t', kv_expiry = None\<rparr>"
    have "run_hset g e en db = Inr (write_kv db1 i ?kv, resp_int (int ?n))"
      using count right cl c get_data_None [OF wf None] t(1) db1(1) t'(1) by (simp add: run_hset_def Let_def)
    then show ?thesis using write_hash [OF db1(2,4) t'(2), of ?kv] t'(3) m db1(3) by simp
  qed
qed

text \<open>The elements of a table, in the order of its slots.\<close>

lemma table_entries:
  assumes "wf_table t"
  shows "distinct (map fst (foreach_hashtable t))" "map_of (foreach_hashtable t) = ht_map t"
    "length (foreach_hashtable t) = ht_count t" "set (map fst (foreach_hashtable t)) = dom (ht_map t)"
proof -
  show d: "distinct (map fst (foreach_hashtable t))" using assms uniq_distinct unfolding wf_table_def foreach_entries by blast
  show "length (foreach_hashtable t) = ht_count t" using assms by (simp add: wf_table_def foreach_entries length_entries)
  show m: "map_of (foreach_hashtable t) = ht_map t" by (simp add: ht_map_def fun_eq_iff)
  show "set (map fst (foreach_hashtable t)) = dom (ht_map t)" unfolding m [symmetric] dom_map_of_conv_image_fst by simp
qed

lemma table_count: "wf_table t \<Longrightarrow> ht_count t = card (dom (ht_map t))"
  using table_entries [of t] distinct_card [of "map fst (foreach_hashtable t)"] by simp

lemma hash_at_cases:
  assumes s: "sound_db db" and h: "wf_hash db key" and m: "hash_at db key = Some m"
  obtains "db_map db key = None" "get_data db key = Inr None" "m = Map.empty"
  | i kv t where "get_data db key = Inr (Some (i, kv))" "in_slots (ht_elements (db_data db)) i key kv"
      "db_map db key = Some kv" "kv_value kv = VHash t" "wf_strings t" "wf_table t" "ht_map t = m"
proof (cases "db_map db key")
  case None
  have "wf_db db" using s by (simp add: sound_db_def)
  then show ?thesis using that(1) None get_data_None m by (metis (no_types, lifting) hash_at_def option.case(1) option.inject)
next
  case (Some kv)
  obtain t where t: "kv_value kv = VHash t" "ht_map t = m" using m Some by (auto simp: hash_at_def split: val.splits)
  have w: "wf_strings t" using h Some t(1) by (simp add: wf_hash_def)
  have "wf_db db" using s by (simp add: sound_db_def)
  then show ?thesis using that(2) Some t w wf_strings_table [OF w] get_data_Some by metis
qed

text \<open>\<open>HGET\<close> answers the field or null.\<close>

lemma run_hget_field:
  assumes s: "sound_db db" and h: "wf_hash db (str_bytes k)" and cl: "en_client en = Some protover"
    and args: "en_args en = [k, f]" and m: "hash_at db (str_bytes k) = Some m"
  shows "run_hget g e en db = (case m (str_bytes f) of None \<Rightarrow> Inr (db, RESP_NULL protover)
    | Some v \<Rightarrow> bind_res (write_prim g v protover []) (\<lambda>bs. Inr (db, bs)))"
proof (rule hash_at_cases [OF s h m])
  assume "get_data db (str_bytes k) = Inr None" "m = Map.empty"
  then show ?thesis using cl args by (simp add: run_hget_def with_table_def arg_count_def key_at_def arg_at_def)
next
  fix i kv t
  assume a: "get_data db (str_bytes k) = Inr (Some (i, kv))" "kv_value kv = VHash t" "wf_table t" "ht_map t = m"
  have k: "key_at en 0 = str_bytes k" "key_at en 1 = str_bytes f" "arg_count en = 2"
    using args by (simp_all add: arg_count_def key_at_def arg_at_def)
  obtain r where r: "get_from_hashtable t (str_bytes f) = Inr r" "case r of None \<Rightarrow> ht_map t (str_bytes f) = None
      | Some j \<Rightarrow> \<exists>v. ht_elements t ! j = Some (str_bytes f, v) \<and> j < ht_capacity t \<and> ht_map t (str_bytes f) = Some v"
    using get_correct [OF a(3), of "str_bytes f"] by blast
  have d: "run_hget g e en db = bind_res (case r of None \<Rightarrow> Inr (RESP_NULL protover)
       | Some i \<Rightarrow> (case ht_elements t ! i of None \<Rightarrow> Inl NullDeref | Some (_, v) \<Rightarrow> write_prim g v protover [])) (\<lambda>bs. Inr (db, bs))"
    unfolding run_hget_def with_table_def with_client_simps(2) [OF cl] k using a(1,2) r(1) by simp
  show ?thesis
  proof (cases r)
    case None
    then show ?thesis using d r(2) a(4) by simp
  next
    case (Some j)
    then obtain v where "ht_elements t ! j = Some (str_bytes f, v)" "m (str_bytes f) = Some v" using r(2) a(4) by auto
    then show ?thesis using d Some by simp
  qed
qed

text \<open>\<open>HDEL\<close> removes the fields, answers how many there were, and removes the key of an empty table.\<close>

lemma hdel_loop_all:
  "wf_strings t \<Longrightarrow> \<exists>t'. hdel_loop t fs = Inr t' \<and> wf_strings t' \<and> ht_map t' = ht_map t |` (- set (map str_bytes fs))"
proof (induction fs arbitrary: t)
  case (Cons f fs)
  obtain t1 where t1: "delete_from_hashtable t (str_bytes f) = Inr (t1, ht_map t (str_bytes f) \<noteq> None)" "wf_strings t1"
      "ht_map t1 = (ht_map t)(str_bytes f := None)"
    using delete_correct [OF wf_strings_table [OF Cons.prems], of "str_bytes f"] Cons.prems by (auto simp: wf_strings_def)
  obtain t' where "hdel_loop t1 fs = Inr t'" "wf_strings t'" "ht_map t' = ht_map t1 |` (- set (map str_bytes fs))"
    using Cons.IH [OF t1(2)] by blast
  moreover have "ht_map t1 |` (- set (map str_bytes fs)) = ht_map t |` (- set (map str_bytes (f # fs)))"
    unfolding t1(3) by (auto simp: restrict_map_def fun_eq_iff)
  ultimately show ?case using t1(1) by simp
qed (simp add: restrict_map_def)

lemma run_hdel_fields:
  assumes s: "sound_db db" and h: "wf_hash db (str_bytes k)" and cl: "en_client en = Some protover" and p: "may_read (en_permissions en)"
    and args: "en_args en = k # fs" "fs \<noteq> []" and m: "hash_at db (str_bytes k) = Some m" and small: "card (dom m) < 2 ^ 32"
  defines "m' \<equiv> m |` (- set (map str_bytes fs))"
  shows "\<exists>db'. run_hdel g e en db = Inr (db', resp_int (int (card (dom m) - card (dom m')))) \<and> sound_db db' \<and>
    hash_at db' (str_bytes k) = Some m' \<and> (m \<noteq> Map.empty \<longrightarrow> (db_map db' (str_bytes k) = None \<longleftrightarrow> m' = Map.empty)) \<and>
    (\<forall>k'. k' \<noteq> str_bytes k \<longrightarrow> db_map db' k' = db_map db k')"
proof (rule hash_at_cases [OF s h m])
  let ?k = "str_bytes k"
  have count: "\<not> arg_count en < 2" "key_at en 0 = ?k" "tl (en_args en) = fs"
    using args by (cases fs; simp add: arg_count_def key_at_def arg_at_def)+
  {
    assume a: "db_map db ?k = None" "get_data db ?k = Inr None" "m = Map.empty"
    have "decimal 0 = ''0''" by code_simp
    then show ?thesis using a cl count s
      by (intro exI [of _ db]) (simp add: run_hdel_def m'_def resp_int_def int_text_def hash_at_def del: decimal.simps)
  next
    fix i kv t
    assume a: "get_data db ?k = Inr (Some (i, kv))" "in_slots (ht_elements (db_data db)) i ?k kv" "db_map db ?k = Some kv"
      "kv_value kv = VHash t" "wf_strings t" "wf_table t" "ht_map t = m"
    obtain t' where t': "hdel_loop t fs = Inr t'" "wf_strings t'" "ht_map t' = m'"
      using hdel_loop_all [OF a(5), of fs] a(7) by (auto simp: m'_def)
    have fin: "finite (dom m)" using table_entries(4) [OF a(6)] a(7) by (metis List.finite_set)
    have sub: "dom m' \<subseteq> dom m" by (auto simp: m'_def restrict_map_def split: if_splits)
    have c: "ht_count t = card (dom m)" "ht_count t' = card (dom m')"
      using table_count [OF a(6)] table_count [OF wf_strings_table [OF t'(2)]] a(7) t'(3) by simp_all
    have le: "card (dom m') \<le> card (dom m)" by (rule card_mono [OF fin sub])
    have "(word_of_nat (ht_count t) :: 32 word) - word_of_nat (ht_count t') = word_of_nat (card (dom m) - card (dom m'))"
      using le c by (simp add: of_nat_diff)
    moreover have "(ucast (word_of_nat (card (dom m) - card (dom m')) :: 32 word) :: 64 word) = word_of_nat (card (dom m) - card (dom m'))"
      using small by (simp add: unsigned_of_nat take_bit_nat_eq_self del: of_nat_diff)
    moreover have "create_resp_integer [] (word_of_nat (card (dom m) - card (dom m'))) = Inr (resp_int (int (card (dom m) - card (dom m'))))"
      using small by (intro count_text) simp
    ultimately have answer: "create_resp_integer [] (ucast ((word_of_nat (ht_count t) :: 32 word) - word_of_nat (ht_count t'))) =
        Inr (resp_int (int (card (dom m) - card (dom m'))))" by (simp del: of_nat_diff)
    let ?kv = "kv\<lparr>kv_value := VHash t'\<rparr>"
    have w: "sound_db (write_kv db i ?kv)" "hash_at (write_kv db i ?kv) ?k = Some m'"
        "\<forall>k'. k' \<noteq> ?k \<longrightarrow> db_map (write_kv db i ?kv) k' = db_map db k'" "db_map (write_kv db i ?kv) ?k = Some ?kv"
      using write_hash [OF s a(2) t'(2), of ?kv] t'(3) write_kv_sound [OF s a(2), of ?kv] by (simp_all add: freeable_def)
    have empty: "ht_count t' = 0 \<longleftrightarrow> m' = Map.empty" using c(2) finite_subset [OF sub fin] by simp
    have step: "run_hdel g e en db =
        bind_res (if m' = Map.empty then bind_res (delete_data (write_kv db i ?kv) ?k) (\<lambda>(db, _). Inr db) else Inr (write_kv db i ?kv))
          (\<lambda>db. Inr (db, resp_int (int (card (dom m) - card (dom m')))))"
      unfolding run_hdel_def using count a(1,4) p t'(1) cl answer empty by (simp add: Let_def)
    show ?thesis
    proof (cases "m' = Map.empty")
      case True
      obtain db' where db': "delete_data (write_kv db i ?kv) ?k = Inr (db', True)" "wf_db db'" "db_map db' = (db_map (write_kv db i ?kv))(?k := None)"
        using delete_data_correct [of "write_kv db i ?kv" ?k] w(1,4) by (auto simp: sound_db_def freeable_def)
      then show ?thesis using step True w(3) sound_db_remove [OF w(1) db'(2,3)] by (simp add: hash_at_def)
    next
      case False
      then show ?thesis using step w by simp
    qed
  }
qed

end
