(* ===== verification/Samples.thy ===== *)
theory Samples
  imports Cmd_Set Cmd_List Cmd_Hash
begin

text \<open>
  Concrete inputs: numbers for GMP (every number is an integer), an environment in which every
  allocation succeeds, tables and databases with one entry, entries of commands.
\<close>

definition int_gmp :: "(int, int) gmp" where
  "int_gmp = \<lparr>mpz_get_str = int_text, mpz_sizeinbase = (\<lambda>z. length (decimal (nat \<bar>z\<bar>))), mpz_sgn = sgn,
     mpz_fits_slong = (\<lambda>z. - (2 ^ 63) \<le> z \<and> z < 2 ^ 63), mpz_init_set_str = int_of_text, mpz_init_set_ui = int,
     mpz_add = (+), mpz_sub = (-), mpz_add_ui = (\<lambda>a n. a + int n), mpz_sub_ui = (\<lambda>a n. a - int n), mpz_neg = uminus,
     mpf_get_str = (\<lambda>f. (int_text f, int (length (int_text f)))), mpf_fits_slong = (\<lambda>z. - (2 ^ 63) \<le> z \<and> z < 2 ^ 63),
     mpf_set_str = int_of_text, mpf_set_z = id, mpf_add = (+), mpf_sub = (-), mpf_neg = uminus,
     mpf_add_ui = (\<lambda>a n. a + int n), mpf_sub_ui = (\<lambda>a n. a - int n)\<rparr>"

lemma int_gmp_ok [simp]: "gmp_ok int_gmp id"
  by (simp add: gmp_ok_def int_gmp_def)

definition calm_env :: "('z, 'f) env" where
  "calm_env = \<lparr>e_ok = (\<lambda>_ _. True), e_mem = (\<lambda>n. Some (replicate n None)), e_fields = (\<lambda>_ n. Some (replicate n None)),
     e_node = (\<lambda>i. Some (i + 20)), e_now = Some 0, e_stale = (\<lambda>_. NUL)\<rparr>"

lemma calm_env_calm [simp]: "calm calm_env"
  by (simp add: calm_def calm_env_def)

text \<open>A table of one slot, which is taken.\<close>

definition one_table :: "'k \<Rightarrow> 'v \<Rightarrow> ('k \<Rightarrow> 64 word) \<Rightarrow> ('k option \<Rightarrow> 'k option \<Rightarrow> bool) \<Rightarrow> ('k, 'v) hashtable" where
  "one_table k v h cmp = \<lparr>ht_capacity = 1, ht_count = 1, ht_elements = [Some (k, v)], ht_hash = h, ht_compare = cmp\<rparr>"

lemma one_table_wf: "key_eq cmp \<Longrightarrow> wf_table (one_table k v h cmp)"
  by (auto simp: one_table_def wf_table_def uniq_def in_slots_def chained_def home_def)

lemma one_table_map [simp]: "ht_map (one_table k v h cmp) = [k \<mapsto> v]"
  by (simp add: ht_map_def foreach_entries one_table_def fun_eq_iff)

definition one_db :: "bytes \<Rightarrow> ('z, 'f) val \<Rightarrow> ('z, 'f) database" where
  "one_db k v = \<lparr>db_name = ''db0'', db_id = string_hash ''db0'',
     db_data = one_table k \<lparr>kv_value = v, kv_expiry = None\<rparr> string_hash string_compare\<rparr>"

lemma one_db_wf [simp]: "wf_db (one_db k v)"
  by (simp add: wf_db_def wf_strings_def one_db_def one_table_wf) (simp add: one_table_def)

lemma one_db_map [simp]: "db_map (one_db k v) = [k \<mapsto> \<lparr>kv_value = v, kv_expiry = None\<rparr>]"
  by (simp add: db_map_def one_db_def)

lemma one_db_sound [simp]: "sound_db (one_db k v) \<longleftrightarrow> freeable v"
  by (simp add: sound_db_def)

lemma freeable_hash [simp]: "freeable (VHash t)"
  by (simp add: freeable_def)

text \<open>A hash of one field, and a list of the nodes 0, 1, ... that holds the given elements.\<close>

definition one_hash :: "bytes \<Rightarrow> ('z, 'f) prim \<Rightarrow> ('z, 'f) val" where
  "one_hash f v = VHash (one_table f v string_hash string_compare)"

lemma one_hash_simps [simp]:
  "freeable (one_hash f v)" "hash_at (one_db k (one_hash f v)) k = Some [f \<mapsto> v]" "wf_hash (one_db k (one_hash f v)) k"
  by (simp_all add: one_hash_def hash_at_def wf_hash_def wf_strings_def one_table_wf) (simp_all add: one_table_def)

definition two_list :: "'a \<Rightarrow> 'a \<Rightarrow> 'a linkedlist" where
  "two_list x y = \<lparr>ll_nodes = [10 \<mapsto> \<lparr>nd_data = x, nd_prev = None, nd_next = Some 11\<rparr>, 11 \<mapsto> \<lparr>nd_data = y, nd_prev = Some 10, nd_next = None\<rparr>],
     ll_begin = Some 10, ll_end = Some 11, ll_size = 2\<rparr>"

lemma two_list_chain: "chain (two_list x y) [10, 11]"
  by (auto simp: chain_def linked_def two_list_def split: if_splits)

lemma two_list_simps [simp]:
  "wf_list (two_list x y)" "ended (two_list x y)" "ll_list (two_list x y) = [x, y]" "ll_nodes (two_list x y) 10 \<noteq> None"
  "dom (ll_nodes (two_list x y)) = {10, 11}"
  using wf_listI [OF two_list_chain, of x y]
  by (auto simp: ended_def data_of_def) (auto simp: two_list_def split: if_splits)

lemma list_db_simps [simp]:
  "freeable (VList (two_list x y))" "list_at (one_db k (VList (two_list x y))) k = Some [x, y]"
  by (simp_all add: freeable_def list_at_def)

lemma calm_fresh [simp]: "fresh_for calm_env (one_db k (VList (two_list x y))) k'"
  by (auto simp: fresh_for_def fresh_nodes_def calm_env_def inj_def)

definition sample_entry :: "string_t list \<Rightarrow> entry" where
  "sample_entry args = \<lparr>en_client = Some RESP3, en_args = args, en_permissions = P_READ OR P_WRITE\<rparr>"

lemma sample_entry_simps [simp]:
  "en_client (sample_entry args) = Some RESP3" "en_args (sample_entry args) = args" "may_read (en_permissions (sample_entry args))"
  by (simp_all add: sample_entry_def may_read_def P_READ_def P_WRITE_def)

end
