(* ===== verification/Clients.thy ===== *)
theory Clients
  imports Command
begin

unbundle bit_operations_syntax

text \<open>
  \<open>src/server/client.c\<close>: the table of connected clients, an array of slots in which a client is found
  by probing from \<open>id % max_clients\<close> on. A slot is free when its \<open>id\<close> is -1. The file also holds the records of
  \<open>headers/server/client.h\<close> and \<open>headers/transactions.h\<close>, since a client owns the transaction block
  that \<open>MULTI\<close> started.

  Pointers are numbers: a client is the index of its slot, a database the address of its node in the list of
  databases, a password its address, a command its index in the table of commands. The query buffer of a client and its
  socket are in \<open>Reading\<close> and \<open>IO_Threads\<close>; the reference counts of the buffers are not modelled.
\<close>

section \<open>Transactions and clients\<close>

datatype block_type = TX_UNINITIALIZED | TX_DIRECT | TX_WAITING | TX_MULTIPLE

record transaction =
  tx_args :: "string_t list"
  tx_command :: nat
  tx_database :: nat

text \<open>A direct block holds exactly one transaction.\<close>

record block =
  bk_type :: block_type
  bk_client :: nat
  bk_password :: nat
  bk_transactions :: "transaction list"

record client =
  cl_id :: int
  cl_connfd :: int
  cl_connected_at :: int
  cl_database :: nat
  cl_command :: "bytes option"      \<comment> \<open>the last used command and subcommand, by name\<close>
  cl_subcommand :: "bytes option"
  cl_lib_name :: "bytes option"
  cl_lib_ver :: "bytes option"
  cl_password :: nat
  cl_protover :: protover
  cl_locked :: bool
  cl_waiting_block :: "block option"

definition live :: "client \<Rightarrow> bool" where
  "live c \<longleftrightarrow> cl_id c \<noteq> - 1"

record clients =
  cs_slots :: "client list"     \<comment> \<open>\<open>server->clients\<close>, \<open>max_clients\<close> of them\<close>
  cs_count :: "16 word"
  cs_next_id :: "32 word"

section \<open>The operations\<close>

text \<open>
  The slot where probing starts. \<open>id\<close> is an \<open>int\<close>, so the remainder of a negative one is negative, and
  as an index of 32 bits far out of range.
\<close>

definition start_slot :: "nat \<Rightarrow> int \<Rightarrow> nat" where
  "start_slot n cid = unat (word_of_int (if 0 \<le> cid then cid mod int n else - ((- cid) mod int n)) :: 32 word)"

text \<open>\<open>get_client\<close>: the way back to slot 0 skips the test that would stop the loop there.\<close>

partial_function (option) get_client_loop :: "client list \<Rightarrow> int \<Rightarrow> nat \<Rightarrow> nat \<Rightarrow> nat option res option" where
  "get_client_loop slots cid start i =
     (if \<not> i < length slots then Some (Inl OutOfBounds)
      else if cl_id (slots ! i) = - 1 then Some (Inr None)
      else if cl_id (slots ! i) = cid then Some (Inr (Some i))
      else if i + 1 = length slots then get_client_loop slots cid start 0
      else if i + 1 = start then Some (Inr None)
      else get_client_loop slots cid start (i + 1))"

definition get_client :: "clients \<Rightarrow> int \<Rightarrow> nat option res" where
  "get_client cs cid =
     (if cid = - 1 then Inr None
      else if cs_slots cs = [] then Inl DivByZero
      else let start = start_slot (length (cs_slots cs)) cid in flat_loop (get_client_loop (cs_slots cs) cid start start))"

definition free_slot_client :: "client \<Rightarrow> client" where
  "free_slot_client c = c\<lparr>cl_id := - 1\<rparr>"

text \<open>\<open>initialize_clients\<close>: every slot is free; \<open>junk\<close> is what the allocated memory holds.\<close>

definition initialize_clients :: "bool \<Rightarrow> bool \<Rightarrow> client list \<Rightarrow> clients option" where
  "initialize_clients ok1 ok2 junk =
     (if \<not> ok1 then None else if \<not> ok2 then None
      else Some \<lparr>cs_slots = map free_slot_client junk, cs_count = 0, cs_next_id = 1\<rparr>)"

partial_function (option) available_loop :: "client list \<Rightarrow> nat \<Rightarrow> nat option" where
  "available_loop slots i =
     (if cl_id (slots ! i) = - 1 then Some i
      else available_loop slots (if i + 1 = length slots then 0 else i + 1))"

definition get_available_client_slot :: "clients \<Rightarrow> 32 word \<Rightarrow> nat res" where
  "get_available_client_slot cs cid =
     (if cs_slots cs = [] then Inl DivByZero
      else of_loop (available_loop (cs_slots cs) (unat cid mod length (cs_slots cs))))"

text \<open>
  \<open>add_client\<close>: the slot carries its new \<open>id\<close> before the buffers are allocated, and keeps it when that
  fails. \<open>id\<close> is stored as an \<open>int\<close>.
\<close>

definition add_client ::
  "bool \<Rightarrow> bool \<Rightarrow> bool \<Rightarrow> int option \<Rightarrow> nat \<Rightarrow> bool \<Rightarrow> nat \<Rightarrow> nat \<Rightarrow> clients \<Rightarrow> int \<Rightarrow> (clients \<times> nat option) res" where
  "add_client ok1 ok2 ok3 now initial_database no_passwords default_password empty_password cs connfd =
     (let cid = cs_next_id cs in
      bind_res (get_available_client_slot cs cid) (\<lambda>i.
      case now of None \<Rightarrow> Inl AssertFailed
      | Some connected_at \<Rightarrow>
          let client = \<lparr>cl_id = sint cid, cl_connfd = connfd, cl_connected_at = connected_at, cl_database = initial_database,
                cl_command = None, cl_subcommand = None, cl_lib_name = None, cl_lib_ver = None, cl_password = cl_password (cs_slots cs ! i),
                cl_protover = RESP2, cl_locked = False, cl_waiting_block = None\<rparr>;
              cs = cs\<lparr>cs_slots := (cs_slots cs)[i := client]\<rparr> in
          if \<not> ok1 then Inr (cs, None)
          else if \<not> ok2 then Inr (cs, None)
          else if \<not> ok3 then Inr (cs, None)
          else let client = client\<lparr>cl_password := if no_passwords then default_password else empty_password\<rparr> in
            Inr (\<lparr>cs_slots = (cs_slots cs)[i := client], cs_count = cs_count cs + 1, cs_next_id = cs_next_id cs + 1\<rparr>, Some i)))"

definition remove_client :: "clients \<Rightarrow> int \<Rightarrow> (clients \<times> bool) res" where
  "remove_client cs cid =
     bind_res (get_client cs cid) (\<lambda>r. case r of
         None \<Rightarrow> Inr (cs, False)
       | Some i \<Rightarrow> Inr (cs\<lparr>cs_slots := (cs_slots cs)[i := free_slot_client (cs_slots cs ! i)], cs_count := cs_count cs - 1\<rparr>, True))"

text \<open>\<open>terminate_connection\<close>: nothing happens when the socket cannot be taken out of the event queue.\<close>

definition terminate_connection :: "bool \<Rightarrow> clients \<Rightarrow> nat \<Rightarrow> clients res" where
  "terminate_connection removed cs i =
     (if \<not> removed then Inr cs
      else bind_res (remove_client cs (cl_id (cs_slots cs ! i))) (\<lambda>(cs, ok).
        bind_res (assert_that ok) (\<lambda>_. Inr cs)))"


section \<open>The table as a hash table\<close>

text \<open>
  A slot is an entry of a hash table of ids. Probing is that of \<open>HashTable\<close> but for the way back to slot 0,
  which matters only for an id whose home is slot 0 in a table without a free slot.
\<close>

definition id_entry :: "client \<Rightarrow> (int \<times> unit) option" where
  "id_entry c = (if live c then Some (cl_id c, ()) else None)"

definition id_slots :: "clients \<Rightarrow> (int, unit) slots" where
  "id_slots cs = map id_entry (cs_slots cs)"

definition wf_clients :: "clients \<Rightarrow> bool" where
  "wf_clients cs \<longleftrightarrow> cs_slots cs \<noteq> [] \<and> length (cs_slots cs) < 2 ^ 16 \<and> unat (cs_next_id cs) < 2 ^ 31 \<and>
     uniq (id_slots cs) \<and> chained word_of_int {} (id_slots cs) \<and>
     (\<forall>c \<in> set (cs_slots cs). live c \<longrightarrow> 0 < cl_id c \<and> cl_id c < int (unat (cs_next_id cs)))"

lemma get_client_loop_find:
  assumes s: "s < length slots" and k: "k \<noteq> - 1"
  shows "\<lbrakk>i < length slots; s \<noteq> 0 \<or> (\<exists>p. i \<le> p \<and> p < length slots \<and> \<not> live (slots ! p))\<rbrakk> \<Longrightarrow>
    get_client_loop slots k s i = map_option Inr (find_loop (=) (map id_entry slots) k s i)"
proof (induction "length slots - cdist (length slots) s i" arbitrary: i rule: less_induct)
  case less
  let ?n = "length slots" and ?es = "map id_entry slots"
  have e: "?es ! i = id_entry (slots ! i)" "length ?es = ?n" using less.prems(1) by simp_all
  have unf: "find_loop (=) ?es k s i = (if slot_key (id_entry (slots ! i)) = Some k then Some (Some i)
      else if id_entry (slots ! i) = None then Some None
      else if cnext ?n i = s then Some None else find_loop (=) ?es k s (cnext ?n i))"
    using e by (subst find_loop.simps) (simp add: Let_def)
  show ?case
  proof (cases "live (slots ! i) \<and> cl_id (slots ! i) \<noteq> k")
    case False
    then show ?thesis using less.prems(1) k unfolding unf
      by (subst get_client_loop.simps) (auto simp: id_entry_def live_def slot_key_def)
  next
    case True
    then have other: "slot_key (id_entry (slots ! i)) \<noteq> Some k" "id_entry (slots ! i) \<noteq> None"
      by (auto simp: id_entry_def slot_key_def)
    have cond: "s \<noteq> 0 \<or> (\<exists>p. cnext ?n i \<le> p \<and> p < ?n \<and> \<not> live (slots ! p))"
      using less.prems True by (metis cnext_if Suc_eq_plus1 Suc_leI le_neq_implies_less not_less_eq_eq)
    have last: "i + 1 = ?n \<Longrightarrow> cnext ?n i \<noteq> s"
      using less.prems True by (metis cnext_if Suc_eq_plus1 Suc_leI le_neq_implies_less leD)
    have loop: "get_client_loop slots k s i = (if cnext ?n i = s then Some (Inr None) else get_client_loop slots k s (cnext ?n i))"
      using less.prems(1) True last by (subst get_client_loop.simps) (auto simp: live_def cnext_if)
    have "get_client_loop slots k s (cnext ?n i) = map_option Inr (find_loop (=) ?es k s (cnext ?n i))" if "cnext ?n i \<noteq> s"
    proof (rule less.hyps [OF _ _ cond])
      have "cdist ?n s (cnext ?n i) = Suc (cdist ?n s i)" using that s less.prems(1) by (simp add: cdist_cnext)
      then show "?n - cdist ?n s (cnext ?n i) < ?n - cdist ?n s i" using cdist_less [OF s less.prems(1)] by linarith
      show "cnext ?n i < ?n" using s by (rule cnext_less_idx)
    qed
    then show ?thesis unfolding unf loop using other by (simp del: not_None_eq)
  qed
qed

lemma available_loop_step:
  "i < length slots \<Longrightarrow> available_loop slots i = (case id_entry (slots ! i) of None \<Rightarrow> Some i | Some e \<Rightarrow> available_loop slots (cnext (length slots) i))"
  by (subst available_loop.simps) (simp add: id_entry_def live_def cnext_if)

lemma available_correct:
  assumes s: "s < length slots" and free: "q < length slots" "\<not> live (slots ! q)"
  shows "\<lbrakk>i < length slots; clear_path (map id_entry slots) s i\<rbrakk> \<Longrightarrow>
    \<exists>j. available_loop slots i = Some j \<and> j < length slots \<and> clear_path (map id_entry slots) s j \<and> \<not> live (slots ! j)"
proof (induction "length slots - cdist (length slots) s i" arbitrary: i rule: less_induct)
  case less
  let ?n = "length slots"
  show ?case
  proof (cases "live (slots ! i)")
    case False
    then show ?thesis using less.prems by (intro exI [of _ i]) (simp add: available_loop_step id_entry_def)
  next
    case True
    then have step: "available_loop slots i = available_loop slots (cnext ?n i)"
      using less.prems by (simp add: available_loop_step id_entry_def)
    have ne: "cnext ?n i \<noteq> s"
    proof
      assume "cnext ?n i = s"
      then have "cdist ?n s q < cdist ?n s i \<or> q = i" using cdist_back_at_start s less.prems(1) free(1) by blast
      then show False using less.prems(2) free True unfolding clear_path_def by (auto simp: id_entry_def)
    qed
    have d: "cdist ?n s (cnext ?n i) = Suc (cdist ?n s i)" using ne s less.prems(1) by (simp add: cdist_cnext)
    show ?thesis unfolding step
    proof (rule less.hyps)
      show "?n - cdist ?n s (cnext ?n i) < ?n - cdist ?n s i" using d cdist_less [OF s less.prems(1)] by linarith
      show "cnext ?n i < ?n" using s by (rule cnext_less_idx)
      show "clear_path (map id_entry slots) s (cnext ?n i)"
        using clear_path_step [of "map id_entry slots" s i] less.prems s ne True by (simp add: id_entry_def)
    qed
  qed
qed

lemma id_slots_length [simp]: "length (id_slots cs) = length (cs_slots cs)"
  by (simp add: id_slots_def)

lemma in_id_slots: "in_slots (id_slots cs) i k u \<longleftrightarrow> i < length (cs_slots cs) \<and> live (cs_slots cs ! i) \<and> cl_id (cs_slots cs ! i) = k"
  by (auto simp: in_slots_def id_slots_def id_entry_def split: if_splits)

lemma start_slot_home:
  assumes "0 \<le> k" "k < 2 ^ 31" "0 < n" "n < 2 ^ 16"
  shows "start_slot n k = home word_of_int n k" "start_slot n k < n" "start_slot n k = nat k mod n"
proof -
  have r: "k mod int n < int n" "0 \<le> k mod int n" using assms by simp_all
  have "uint (word_of_int (k mod int n) :: 32 word) = k mod int n"
    using r assms(4) by (simp add: uint_word_of_int_eq take_bit_int_eq_self)
  then have a: "start_slot n k = nat (k mod int n)" using assms(1) by (simp add: start_slot_def unat_eq_nat_uint)
  then show m: "start_slot n k = nat k mod n" using assms(1) by (simp add: nat_mod_distrib)
  have "uint (word_of_int k :: 64 word) = k" using assms by (simp add: uint_word_of_int_eq take_bit_int_eq_self)
  then show "start_slot n k = home word_of_int n k" using m assms(1) by (simp add: home_def unat_eq_nat_uint)
  show "start_slot n k < n" using m assms(3) by simp
qed

text \<open>A client that is in the table is found, and no other.\<close>

lemma get_client_finds:
  assumes wf: "wf_clients cs" and k: "0 \<le> k" "k < 2 ^ 31"
    and room: "(\<exists>c \<in> set (cs_slots cs). \<not> live c) \<or> nat k mod length (cs_slots cs) \<noteq> 0"
  shows "\<exists>r. get_client cs k = Inr r \<and>
    (case r of None \<Rightarrow> \<forall>c \<in> set (cs_slots cs). live c \<longrightarrow> cl_id c \<noteq> k
     | Some i \<Rightarrow> i < length (cs_slots cs) \<and> live (cs_slots cs ! i) \<and> cl_id (cs_slots cs ! i) = k)"
proof -
  let ?n = "length (cs_slots cs)"
  have n: "0 < ?n" "?n < 2 ^ 16" using wf by (simp_all add: wf_clients_def)
  note st = start_slot_home [OF k n]
  have room': "start_slot ?n k \<noteq> 0 \<or> (\<exists>p. start_slot ?n k \<le> p \<and> p < ?n \<and> \<not> live (cs_slots cs ! p))"
    using room unfolding st(3) by (cases "nat k mod ?n = 0") (auto simp: in_set_conv_nth)
  have "get_client_loop (cs_slots cs) k (start_slot ?n k) (start_slot ?n k) =
      map_option Inr (find_loop (=) (id_slots cs) k (start_slot ?n k) (start_slot ?n k))"
    unfolding id_slots_def by (rule get_client_loop_find [OF st(2) _ st(2) room']) (use k in simp)
  moreover obtain r where r: "find_loop (=) (id_slots cs) k (start_slot ?n k) (start_slot ?n k) = Some r" "found_ok (id_slots cs) k r"
    using find_from_home [of "(=)" word_of_int "id_slots cs" k] wf n unfolding st(1) by (auto simp: key_eq_def wf_clients_def)
  ultimately have "get_client cs k = Inr r" using k n by (simp add: get_client_def flat_loop_def Let_def)
  moreover have "case r of None \<Rightarrow> \<forall>c \<in> set (cs_slots cs). live c \<longrightarrow> cl_id c \<noteq> k
     | Some i \<Rightarrow> i < ?n \<and> live (cs_slots cs ! i) \<and> cl_id (cs_slots cs ! i) = k"
    using r(2) by (cases r) (auto simp: found_ok_def in_id_slots in_set_conv_nth)
  ultimately show ?thesis by blast
qed


text \<open>Connecting: with a free slot left the new client gets the next id, and every slot but its own keeps its client.\<close>

lemma id_slots_update: "i < length (cs_slots cs) \<Longrightarrow> live c \<Longrightarrow> id_slots (cs\<lparr>cs_slots := (cs_slots cs)[i := c], cs_count := n, cs_next_id := w\<rparr>) = (id_slots cs)[i := Some (cl_id c, ())]"
  by (simp add: id_slots_def map_update id_entry_def)

lemma add_client_correct:
  fixes now :: int
  assumes wf: "wf_clients cs" and free: "q < length (cs_slots cs)" "\<not> live (cs_slots cs ! q)" and small: "unat (cs_next_id cs) + 1 < 2 ^ 31"
    and pos: "0 < unat (cs_next_id cs)"
  shows "\<exists>cs' i. add_client True True True (Some now) database none default_password empty_password cs connfd = Inr (cs', Some i) \<and> wf_clients cs' \<and>
    i < length (cs_slots cs) \<and> \<not> live (cs_slots cs ! i) \<and> cs_next_id cs' = cs_next_id cs + 1 \<and> cs_count cs' = cs_count cs + 1 \<and>
    (\<exists>c. cs_slots cs' = (cs_slots cs)[i := c] \<and> cl_id c = int (unat (cs_next_id cs)) \<and> cl_protover c = RESP2 \<and> \<not> cl_locked c \<and>
       cl_waiting_block c = None \<and> cl_database c = database \<and> cl_password c = (if none then default_password else empty_password))"
proof -
  let ?n = "length (cs_slots cs)" and ?k = "int (unat (cs_next_id cs))"
  have n: "0 < ?n" "?n < 2 ^ 16" using wf by (simp_all add: wf_clients_def)
  have k: "0 \<le> ?k" "?k < 2 ^ 31" using of_nat_less_iff [of "unat (cs_next_id cs)" "2 ^ 31", where 'a = int] small by simp_all
  note st = start_slot_home [OF k n]
  have sk: "sint (cs_next_id cs) = ?k" 
  proof -
    have "uint (cs_next_id cs) < 2 ^ 31" "- (2 ^ 31) \<le> uint (cs_next_id cs)" using k(2) uint_ge_0 [of "cs_next_id cs"] by (simp_all add: order_trans [OF _ uint_ge_0])
    then have "sint (cs_next_id cs) = uint (cs_next_id cs)" unfolding sint_uint by (intro signed_take_bit_int_eq_self) simp_all
    then show ?thesis by simp
  qed
  have upos: "0 < uint (cs_next_id cs)" using of_nat_0_less_iff [of "unat (cs_next_id cs)", where 'a = int] pos by simp
  have h: "unat (cs_next_id cs) mod ?n < ?n" using n by simp
  obtain i where i: "available_loop (cs_slots cs) (unat (cs_next_id cs) mod ?n) = Some i" "i < ?n"
      "clear_path (id_slots cs) (unat (cs_next_id cs) mod ?n) i" "\<not> live (cs_slots cs ! i)"
    using available_correct [OF h free h] unfolding id_slots_def by auto
  define c where "c = \<lparr>cl_id = ?k, cl_connfd = connfd, cl_connected_at = now, cl_database = database, cl_command = None, cl_subcommand = None, cl_lib_name = None,
    cl_lib_ver = None, cl_password = (if none then default_password else empty_password), cl_protover = RESP2, cl_locked = False, cl_waiting_block = None\<rparr>"
  let ?cs = "\<lparr>cs_slots = (cs_slots cs)[i := c], cs_count = cs_count cs + 1, cs_next_id = cs_next_id cs + 1\<rparr>"
  have add: "add_client True True True (Some now) database none default_password empty_password cs connfd = Inr (?cs, Some i)"
    using i(1) n sk by (simp add: add_client_def get_available_client_slot_def c_def Let_def)
  have "cl_id c = ?k" by (simp add: c_def)
  then have lc: "live c" unfolding live_def by linarith
  have ids: "id_slots ?cs = (id_slots cs)[i := Some (?k, ())]"
    using i(2) lc by (simp add: id_slots_def map_update id_entry_def) (simp add: c_def)
  have new: "\<not> in_slots (id_slots cs) j ?k v" for j v
    using wf by (auto simp: in_id_slots wf_clients_def)
  have "uniq (id_slots ?cs)" unfolding ids using wf i(2) new by (intro uniq_fill) (simp_all add: wf_clients_def)
  moreover have "chained word_of_int {} (id_slots ?cs)" unfolding ids
    using wf i st(1,3) by (intro chained_fill) (simp_all add: wf_clients_def id_slots_def id_entry_def)
  moreover have nx: "unat (cs_next_id cs + 1) = unat (cs_next_id cs) + 1" using small by (simp add: unat_word_ariths)
  moreover have "\<forall>x \<in> set ((cs_slots cs)[i := c]). live x \<longrightarrow> 0 < cl_id x \<and> cl_id x < int (unat (cs_next_id cs + 1))"
  proof
    fix x assume "x \<in> set ((cs_slots cs)[i := c])"
    then consider "x = c" | "x \<in> set (cs_slots cs)" using set_update_subset_insert by fastforce
    then show "live x \<longrightarrow> 0 < cl_id x \<and> cl_id x < int (unat (cs_next_id cs + 1))"
      unfolding nx using wf upos by cases (auto simp: c_def wf_clients_def)
  qed
  ultimately have "wf_clients ?cs" using n small by (simp add: wf_clients_def)
  then show ?thesis using add i by (intro exI [of _ ?cs] exI [of _ i]) (auto simp: c_def)
qed

text \<open>
  Disconnecting frees the slot and leaves the others as they are, but the probes for clients behind it
  now stop at the free slot.
\<close>

lemma remove_client_slot:
  assumes "get_client cs k = Inr (Some i)"
  shows "remove_client cs k = Inr (cs\<lparr>cs_slots := (cs_slots cs)[i := free_slot_client (cs_slots cs ! i)], cs_count := cs_count cs - 1\<rparr>, True)"
  using assms by (simp add: remove_client_def)

lemma removed_hides:
  assumes slots: "1 < length (cs_slots cs)" "length (cs_slots cs) < 2 ^ 16" and a: "0 \<le> a" "a < 2 ^ 31" "nat a mod length (cs_slots cs) = h"
    and b: "0 \<le> b" "b < 2 ^ 31" "nat b mod length (cs_slots cs) = h" and here: "cl_id (cs_slots cs ! h) = a"
  shows "\<exists>cs'. remove_client cs a = Inr (cs', True) \<and> get_client cs' b = Inr None \<and> (\<forall>i. i \<noteq> h \<longrightarrow> cs_slots cs' ! i = cs_slots cs ! i)"
proof -
  let ?n = "length (cs_slots cs)"
  have n: "0 < ?n" using slots by linarith
  have h: "h < ?n" and ne: "cs_slots cs \<noteq> []" using a(3) n by auto
  have "get_client cs a = Inr (Some h)"
    using start_slot_home(3) [OF a(1,2) n slots(2)] a here h ne unfolding get_client_def flat_loop_def Let_def
    by (subst get_client_loop.simps) simp
  note r = remove_client_slot [OF this]
  let ?cs = "cs\<lparr>cs_slots := (cs_slots cs)[h := free_slot_client (cs_slots cs ! h)], cs_count := cs_count cs - 1\<rparr>"
  have "get_client ?cs b = Inr None"
    using start_slot_home(3) [OF b(1,2) n slots(2)] b h ne unfolding get_client_def flat_loop_def Let_def
    by (subst get_client_loop.simps) (simp add: free_slot_client_def)
  then show ?thesis using r by (intro exI [of _ ?cs]) simp
qed

text \<open>A negative id, as \<open>CLIENT KILL 4294967294\<close> makes one, is looked up far outside the table.\<close>

lemma negative_id:
  assumes "cs_slots cs \<noteq> []" "length (cs_slots cs) < 2 ^ 16" "k < - 1" "- (2 ^ 31) \<le> k" "(- k) mod int (length (cs_slots cs)) \<noteq> 0"
  shows "get_client cs k = Inl OutOfBounds"
proof -
  let ?n = "length (cs_slots cs)" and ?r = "(- k) mod int (length (cs_slots cs))"
  have r0: "0 \<le> ?r" "?r < int ?n" using assms(1) by simp_all
  have r: "0 < ?r" "?r < int ?n" using r0 assms(5) by linarith+
  have "uint (word_of_int (- ?r) :: 32 word) = (- ?r) mod 2 ^ 32" by (subst uint_word_of_int) simp
  also have "(- ?r) mod 2 ^ 32 = 2 ^ 32 - ?r" using r assms(2) by (simp add: zmod_zminus1_eq_if)
  finally have "unat (word_of_int (- ?r) :: 32 word) = nat (2 ^ 32 - ?r)" by (simp add: unat_eq_nat_uint)
  then have "start_slot ?n k = nat (2 ^ 32 - ?r)" using assms(3) by (simp add: start_slot_def)
  moreover have "\<not> nat (2 ^ 32 - ?r) < ?n" using r assms(2) by simp
  ultimately show ?thesis using assms(1,3) unfolding get_client_def flat_loop_def Let_def
    by (subst get_client_loop.simps) simp
qed

text \<open>In a full table the search for an id whose home is slot 0 and which is not there goes round for ever.\<close>

lemma full_table_spins:
  assumes full: "\<forall>c \<in> set (cs_slots cs). live c \<and> cl_id c \<noteq> k" and n: "cs_slots cs \<noteq> []" "length (cs_slots cs) < 2 ^ 16"
    and k: "0 \<le> k" "k < 2 ^ 31" "nat k mod length (cs_slots cs) = 0"
  shows "get_client cs k = Inl Endless"
proof -
  have spin: "get_client_loop slots cid start i = Some r \<Longrightarrow> \<not> ((\<forall>c \<in> set slots. live c \<and> cl_id c \<noteq> cid) \<and> start = 0 \<and> i < length slots)" for slots cid start i r
  proof (induction rule: get_client_loop.raw_induct [rotated, consumes 1, case_names step])
    case (step f slots cid start i r)
    show ?case
    proof
      assume a: "(\<forall>c \<in> set slots. live c \<and> cl_id c \<noteq> cid) \<and> start = 0 \<and> i < length slots"
      then have "cl_id (slots ! i) \<noteq> - 1" "cl_id (slots ! i) \<noteq> cid" by (auto simp: live_def)
      then have "f slots cid start (if i + 1 = length slots then 0 else i + 1) = Some r" using step(2) a by (auto split: if_splits)
      moreover have "(if i + 1 = length slots then 0 else i + 1) < length slots" using a by auto
      ultimately show False using step(1) [of slots cid start "if i + 1 = length slots then 0 else i + 1" r] a by blast
    qed
  qed
  have "get_client_loop (cs_slots cs) k 0 0 = None"
  proof (cases "get_client_loop (cs_slots cs) k 0 0")
    case (Some r)
    then show ?thesis using spin [OF Some] full n(1) by simp
  qed
  then show ?thesis using start_slot_home(3) [OF k(1,2) _ n(2)] n(1) k by (simp add: get_client_def flat_loop_def)
qed

end
