(* ===== verification/Auth.thy ===== *)
theory Auth
  imports Clients
begin

text \<open>
  \<open>src/server/password.c\<close> and \<open>src/server/auth.c\<close>: passwords, their permissions, and the clients that
  use them. A password is an object in memory that clients and transaction blocks point to; \<open>au_heap\<close>
  holds the live ones. The key derivation of OpenSSL is a parameter \<open>kdf\<close>: the 48 bytes it derives, or
  \<open>None\<close> when it fails, after which the code frees the context it would need the next time.
\<close>

record password =
  pw_data :: bytes
  pw_permissions :: "32 word"

record auth =
  au_heap :: "nat \<rightharpoonup> password"
  au_list :: "nat option list"   \<comment> \<open>\<open>passwords\<close>, as long as \<open>password_count\<close>; \<open>None\<close> was never set\<close>
  au_null :: bool                \<comment> \<open>\<open>passwords\<close> is NULL\<close>
  au_kdf :: bool                 \<comment> \<open>the derivation context is alive\<close>
  au_default :: nat
  au_empty :: nat
  au_full :: nat

type_synonym kdf = "bytes \<Rightarrow> bytes option"

definition all_permissions :: "32 word" where
  "all_permissions = P_READ OR P_WRITE OR P_CLIENT OR P_CONFIG OR P_AUTH OR P_SERVER"

section \<open>\<open>password.c\<close>\<close>

definition create_constant_password :: "nat option \<Rightarrow> 32 word \<Rightarrow> (nat \<rightharpoonup> password) \<Rightarrow> bytes \<Rightarrow> ((nat \<rightharpoonup> password) \<times> nat) option" where
  "create_constant_password fresh permissions heap junk =
     (case fresh of None \<Rightarrow> None | Some a \<Rightarrow> Some (heap(a \<mapsto> \<lparr>pw_data = junk, pw_permissions = permissions\<rparr>), a))"

definition create_constant_passwords :: "nat option \<Rightarrow> nat option \<Rightarrow> nat option \<Rightarrow> bytes \<Rightarrow> auth option" where
  "create_constant_passwords fresh1 fresh2 fresh3 junk =
     (case create_constant_password fresh1 all_permissions Map.empty junk of None \<Rightarrow> None
      | Some (heap, p1) \<Rightarrow>
     (case create_constant_password fresh2 0 heap junk of None \<Rightarrow> None
      | Some (heap, p2) \<Rightarrow>
     (case create_constant_password fresh3 all_permissions heap junk of None \<Rightarrow> None
      | Some (heap, p3) \<Rightarrow>
          Some \<lparr>au_heap = heap, au_list = [], au_null = True, au_kdf = True, au_default = p1, au_empty = p2, au_full = p3\<rparr>)))"

definition get_password :: "auth \<Rightarrow> nat \<Rightarrow> password res" where
  "get_password au p = (case au_heap au p of None \<Rightarrow> Inl UseAfterFree | Some pw \<Rightarrow> Inr pw)"

definition set_permissions :: "auth \<Rightarrow> nat \<Rightarrow> 32 word \<Rightarrow> auth res" where
  "set_permissions au p permissions = bind_res (get_password au p) (\<lambda>pw.
     Inr (au\<lparr>au_heap := (au_heap au)(p \<mapsto> pw\<lparr>pw_permissions := permissions\<rparr>)\<rparr>))"

section \<open>\<open>auth.c\<close>\<close>

definition password_derive :: "kdf \<Rightarrow> auth \<Rightarrow> bytes \<Rightarrow> (auth \<times> bytes option) res" where
  "password_derive kdf au value =
     (if \<not> au_kdf au then Inl UseAfterFree
      else case kdf value of
          Some derived \<Rightarrow> Inr (au, Some derived)
        | None \<Rightarrow> Inr (au\<lparr>au_kdf := False\<rparr>, None))"

fun where_loop :: "auth \<Rightarrow> bytes \<Rightarrow> nat option list \<Rightarrow> nat \<Rightarrow> nat option res" where
  "where_loop au derived [] i = Inr None"
| "where_loop au derived (None # ps) i = Inl Undefined"
| "where_loop au derived (Some p # ps) i = bind_res (get_password au p) (\<lambda>pw.
     if pw_data pw = derived then Inr (Some i) else where_loop au derived ps (i + 1))"

definition where_password :: "kdf \<Rightarrow> auth \<Rightarrow> bytes \<Rightarrow> (auth \<times> nat option) res" where
  "where_password kdf au value =
     bind_res (password_derive kdf au value) (\<lambda>(au, derived). case derived of
         None \<Rightarrow> Inr (au, None)
       | Some derived \<Rightarrow>
           if au_null au \<and> au_list au \<noteq> [] then Inl NullDeref
           else bind_res (where_loop au derived (au_list au) 0) (\<lambda>r. Inr (au, r)))"

definition password_at :: "auth \<Rightarrow> nat \<Rightarrow> nat res" where
  "password_at au i = (if \<not> i < length (au_list au) then Inl OutOfBounds
     else case au_list au ! i of None \<Rightarrow> Inl Undefined | Some p \<Rightarrow> Inr p)"

definition edit_password :: "kdf \<Rightarrow> auth \<Rightarrow> bytes \<Rightarrow> 32 word \<Rightarrow> (auth \<times> bool) res" where
  "edit_password kdf au value permissions =
     bind_res (where_password kdf au value) (\<lambda>(au, at). case at of
         None \<Rightarrow> Inr (au, False)
       | Some i \<Rightarrow> bind_res (password_at au i) (\<lambda>p.
           bind_res (set_permissions au p permissions) (\<lambda>au. Inr (au, True))))"

text \<open>
  \<open>client\<close>: the slot of the client, \<open>None\<close> for NULL. The first password takes all permissions away from
  the object that the client's password pointer shares with every other client.
\<close>

definition set_client_password :: "clients \<Rightarrow> nat option \<Rightarrow> nat \<Rightarrow> clients res" where
  "set_client_password cs client p = (case client of None \<Rightarrow> Inl NullDeref
     | Some i \<Rightarrow> Inr (cs\<lparr>cs_slots := (cs_slots cs)[i := (cs_slots cs ! i)\<lparr>cl_password := p\<rparr>]\<rparr>))"

definition client_password :: "clients \<Rightarrow> nat option \<Rightarrow> nat res" where
  "client_password cs client = (case client of None \<Rightarrow> Inl NullDeref | Some i \<Rightarrow> Inr (cl_password (cs_slots cs ! i)))"

definition add_password ::
  "kdf \<Rightarrow> nat option \<Rightarrow> bool \<Rightarrow> auth \<Rightarrow> clients \<Rightarrow> nat option \<Rightarrow> bytes \<Rightarrow> 32 word \<Rightarrow> (auth \<times> clients \<times> bool) res" where
  "add_password kdf fresh ok au cs client data permissions =
     (case fresh of None \<Rightarrow> Inr (au, cs, False)
      | Some a \<Rightarrow>
          if \<not> ok then Inr (au\<lparr>au_null := True\<rparr>, cs, False)
          else let first = (au_list au = []); au = au\<lparr>au_list := au_list au @ [None], au_null := False\<rparr> in
            bind_res (if first
                then bind_res (client_password cs client) (\<lambda>old.
                  bind_res (set_permissions au old 0) (\<lambda>au.
                  bind_res (set_client_password cs client (au_full au)) (\<lambda>cs. Inr (au, cs))))
                else Inr (au, cs)) (\<lambda>(au, cs).
            bind_res (password_derive kdf au data) (\<lambda>(au, derived). case derived of
                None \<Rightarrow> Inr (au, cs, False)
              | Some derived \<Rightarrow>
                  Inr (au\<lparr>au_heap := (au_heap au)(a \<mapsto> \<lparr>pw_data = derived, pw_permissions = permissions\<rparr>),
                          au_list := butlast (au_list au) @ [Some a]\<rparr>, cs, True))))"

definition remove_password_from_clients :: "auth \<Rightarrow> nat \<Rightarrow> clients \<Rightarrow> clients" where
  "remove_password_from_clients au p cs = cs\<lparr>cs_slots :=
     map (\<lambda>c. if live c \<and> cl_password c = p then c\<lparr>cl_password := au_empty au\<rparr> else c) (cs_slots cs)\<rparr>"

definition remove_password ::
  "kdf \<Rightarrow> bool \<Rightarrow> auth \<Rightarrow> clients \<Rightarrow> nat option \<Rightarrow> bytes \<Rightarrow> (auth \<times> clients \<times> bool) res" where
  "remove_password kdf ok au cs executor value =
     bind_res (where_password kdf au value) (\<lambda>(au, at). case at of
         None \<Rightarrow> Inr (au, cs, False)
       | Some i \<Rightarrow> bind_res (password_at au i) (\<lambda>p.
           if length (au_list au) = 1 then
             bind_res (set_client_password cs executor (au_full au)) (\<lambda>cs.
               Inr (au\<lparr>au_heap := (au_heap au)(p := None), au_list := []\<rparr>, remove_password_from_clients au p cs, True))
           else
             Inr (au\<lparr>au_heap := (au_heap au)(p := None), au_list := take i (au_list au) @ drop (i + 1) (au_list au), au_null := \<not> ok\<rparr>,
                  remove_password_from_clients au p cs, True)))"

section \<open>What the operations do\<close>

text \<open>The passwords as a list of what they derive to and what they permit.\<close>

definition wf_auth :: "auth \<Rightarrow> bool" where
  "wf_auth au \<longleftrightarrow> au_kdf au \<and> (au_null au \<longrightarrow> au_list au = []) \<and> distinct (au_list au) \<and>
     (\<forall>x \<in> set (au_list au). \<exists>p. x = Some p \<and> au_heap au p \<noteq> None \<and> p \<notin> {au_default au, au_empty au, au_full au}) \<and>
     {au_default au, au_empty au, au_full au} \<subseteq> dom (au_heap au) \<and> distinct [au_default au, au_empty au, au_full au] \<and>
     distinct (map (\<lambda>x. pw_data (the (au_heap au (the x)))) (au_list au))"

definition passwords :: "auth \<Rightarrow> password list" where
  "passwords au = map (\<lambda>x. the (au_heap au (the x))) (au_list au)"

definition granted :: "auth \<Rightarrow> bytes \<Rightarrow> 32 word option" where
  "granted au derived = map_option pw_permissions (find (\<lambda>pw. pw_data pw = derived) (passwords au))"

fun index_of :: "('a \<Rightarrow> bool) \<Rightarrow> 'a list \<Rightarrow> nat \<Rightarrow> nat option" where
  "index_of P [] i = None"
| "index_of P (x # xs) i = (if P x then Some i else index_of P xs (i + 1))"

lemma where_loop_index:
  "\<forall>x \<in> set ps. \<exists>p. x = Some p \<and> au_heap au p \<noteq> None \<Longrightarrow>
   where_loop au d ps i = Inr (index_of (\<lambda>pw. pw_data pw = d) (map (\<lambda>x. the (au_heap au (the x))) ps) i)"
  by (induction ps arbitrary: i) (auto simp: get_password_def)

lemma where_password_index:
  assumes "wf_auth au" "kdf value = Some d"
  shows "where_password kdf au value = Inr (au, index_of (\<lambda>pw. pw_data pw = d) (passwords au) 0)"
proof -
  have "where_loop au d (au_list au) 0 = Inr (index_of (\<lambda>pw. pw_data pw = d) (passwords au) 0)"
    unfolding passwords_def by (rule where_loop_index) (use assms in \<open>auto simp: wf_auth_def\<close>)
  then show ?thesis using assms by (simp add: where_password_def password_derive_def wf_auth_def)
qed

lemma index_of_Some: "index_of P xs i = Some j \<Longrightarrow> i \<le> j \<and> j - i < length xs \<and> P (xs ! (j - i)) \<and> (\<forall>m < j - i. \<not> P (xs ! m))"
proof (induction xs arbitrary: i)
  case (Cons x xs)
  show ?case
  proof (cases "P x")
    case False
    then have "i + 1 \<le> j" "j - (i + 1) < length xs" "P (xs ! (j - (i + 1)))" "\<forall>m < j - (i + 1). \<not> P (xs ! m)"
      using Cons.IH [of "i + 1"] Cons.prems by auto
    moreover have "j = Suc i + (j - Suc i)" using \<open>i + 1 \<le> j\<close> by simp
    then obtain n where "j = Suc i + n" by blast
    ultimately show ?thesis using False by (auto simp: nth_Cons split: nat.splits)
  qed (use Cons.prems in simp)
qed simp

lemma index_of_None: "index_of P xs i = None \<longleftrightarrow> (\<forall>x \<in> set xs. \<not> P x)"
  by (induction xs arbitrary: i) auto


text \<open>
  A new password: it is found at the end of the list with the permissions it was given, and the
  others stay. When it is the first one, the object that the client's password pointer refers to loses
  all its permissions, and the client gets full ones.
\<close>

lemma passwords_same:
  assumes "\<forall>x \<in> set ps. the x \<noteq> a" shows "map (\<lambda>x. the ((h(a := v)) (the x))) ps = map (\<lambda>x. the (h (the x))) ps"
  using assms by (induction ps) auto

lemma add_password_more:
  assumes wf: "wf_auth au" and some: "au_list au \<noteq> []" and d: "kdf data = Some d" and new: "d \<notin> pw_data ` set (passwords au)"
    and a: "a \<notin> dom (au_heap au)"
  shows "\<exists>au'. add_password kdf (Some a) True au cs client data permissions = Inr (au', cs, True) \<and> wf_auth au' \<and>
    passwords au' = passwords au @ [\<lparr>pw_data = d, pw_permissions = permissions\<rparr>] \<and> au_empty au' = au_empty au \<and> au_full au' = au_full au"
proof -
  let ?pw = "\<lparr>pw_data = d, pw_permissions = permissions\<rparr>"
  let ?au = "au\<lparr>au_heap := (au_heap au)(a \<mapsto> ?pw), au_list := au_list au @ [Some a], au_null := False\<rparr>"
  have l: "\<forall>x \<in> set (au_list au). the x \<noteq> a" using wf a unfolding wf_auth_def by fastforce
  have add: "add_password kdf (Some a) True au cs client data permissions = Inr (?au, cs, True)"
    using some d wf by (simp add: add_password_def password_derive_def wf_auth_def Let_def)
  have p: "passwords ?au = passwords au @ [?pw]" using passwords_same [OF l, of "au_heap au" "Some ?pw"] by (simp add: passwords_def)
  have e: "map (\<lambda>x. pw_data (the (((au_heap au)(a \<mapsto> ?pw)) (the x)))) (au_list au @ [Some a]) = map pw_data (passwords au) @ [d]"
    using arg_cong [OF p, of "map pw_data"] by (simp add: passwords_def)
  have "distinct (map pw_data (passwords au) @ [d])"
    using wf new by (auto simp: wf_auth_def passwords_def comp_def)
  then have di: "distinct (map (\<lambda>x. pw_data (the (((au_heap au)(a \<mapsto> ?pw)) (the x)))) (au_list au @ [Some a]))" unfolding e .
  have "Some a \<notin> set (au_list au)" using l by fastforce
  moreover have "a \<notin> {au_default au, au_empty au, au_full au}" using wf a unfolding wf_auth_def by blast
  moreover have "\<forall>x \<in> set (au_list au @ [Some a]). \<exists>p. x = Some p \<and> ((au_heap au)(a \<mapsto> ?pw)) p \<noteq> None \<and> p \<notin> {au_default au, au_empty au, au_full au}"
  proof
    fix x assume "x \<in> set (au_list au @ [Some a])"
    then consider "x = Some a" | "x \<in> set (au_list au)" by auto
    then show "\<exists>p. x = Some p \<and> ((au_heap au)(a \<mapsto> ?pw)) p \<noteq> None \<and> p \<notin> {au_default au, au_empty au, au_full au}"
    proof cases
      case 2
      then obtain q where "x = Some q" "au_heap au q \<noteq> None" "q \<notin> {au_default au, au_empty au, au_full au}" using wf unfolding wf_auth_def by blast
      then show ?thesis by simp
    qed (use \<open>a \<notin> {au_default au, au_empty au, au_full au}\<close> in simp)
  qed
  moreover have "{au_default au, au_empty au, au_full au} \<subseteq> dom ((au_heap au)(a \<mapsto> ?pw))" "distinct [au_default au, au_empty au, au_full au]"
      "au_kdf au" "distinct (au_list au)"
    using wf by (auto simp: wf_auth_def)
  ultimately have "wf_auth ?au" using di unfolding wf_auth_def by simp
  then show ?thesis using add p by (intro exI [of _ ?au]) simp
qed

lemma where_after_add:
  assumes wf: "wf_auth au" and d: "kdf data = Some d" and p: "passwords au = ps @ [\<lparr>pw_data = d, pw_permissions = r\<rparr>]"
    and new: "d \<notin> pw_data ` set ps"
  shows "where_password kdf au data = Inr (au, Some (length ps))"
proof -
  have "index_of (\<lambda>pw. pw_data pw = d) (ps @ [\<lparr>pw_data = d, pw_permissions = r\<rparr>]) i = Some (i + length ps)" for i
    using new by (induction ps arbitrary: i) auto
  then show ?thesis using where_password_index [where kdf = kdf, OF wf d] p by simp
qed

lemma first_password:
  assumes wf: "wf_auth au" and none: "au_list au = []" and d: "kdf data = Some d" and a: "a \<notin> dom (au_heap au)"
    and i: "i < length (cs_slots cs)" and pw: "cl_password (cs_slots cs ! i) = au_default au"
  shows "\<exists>au' cs'. add_password kdf (Some a) True au cs (Some i) data permissions = Inr (au', cs', True) \<and>
    passwords au' = [\<lparr>pw_data = d, pw_permissions = permissions\<rparr>] \<and>
    pw_permissions (the (au_heap au' (au_default au))) = 0 \<and> cl_password (cs_slots cs' ! i) = au_full au \<and>
    au_heap au' (au_full au) = au_heap au (au_full au) \<and>
    (\<forall>j. j \<noteq> i \<longrightarrow> cs_slots cs' ! j = cs_slots cs ! j)"
proof -
  obtain pd where pd: "au_heap au (au_default au) = Some pd" using wf unfolding wf_auth_def by blast
  have ne: "a \<noteq> au_default au" "a \<noteq> au_full au" "au_full au \<noteq> au_default au" using wf a unfolding wf_auth_def by auto
  have "au_kdf au" using wf by (simp add: wf_auth_def)
  then show ?thesis using none d i pw pd ne
    by (simp add: add_password_def password_derive_def client_password_def set_permissions_def get_password_def set_client_password_def
        passwords_def Let_def)
qed

lemma distinct_skip: "distinct xs \<Longrightarrow> distinct (take i xs @ drop (i + 1) xs)"
proof (cases "i < length xs")
  case True
  assume "distinct xs"
  then show ?thesis by (subst (asm) id_take_nth_drop [OF True]) simp
qed simp

text \<open>
  Removing a password: it is not found any more, and every connected client that used it is left
  with the empty password. (The client that removes the last one gets full permissions.)
\<close>

lemma remove_password_more:
  assumes wf: "wf_auth au" and many: "1 < length (au_list au)" and d: "kdf value = Some d"
    and at: "i < length (passwords au)" "pw_data (passwords au ! i) = d"
  shows "\<exists>au' cs'. remove_password kdf True au cs executor value = Inr (au', cs', True) \<and> wf_auth au' \<and>
    passwords au' = take i (passwords au) @ drop (i + 1) (passwords au) \<and>
    (\<forall>c \<in> set (cs_slots cs'). live c \<longrightarrow> au_heap au' (cl_password c) = None \<longrightarrow> au_heap au (cl_password c) = None)"
proof -
  have all: "\<forall>x \<in> set (au_list au). \<exists>p. x = Some p \<and> au_heap au p \<noteq> None \<and> p \<notin> {au_default au, au_empty au, au_full au}"
    using wf by (simp add: wf_auth_def)
  have len: "length (passwords au) = length (au_list au)" by (simp add: passwords_def)
  have dist: "distinct (map pw_data (passwords au))" using wf by (simp add: wf_auth_def passwords_def comp_def)
  obtain j where j: "index_of (\<lambda>pw. pw_data pw = d) (passwords au) 0 = Some j"
    using index_of_None [of "\<lambda>pw. pw_data pw = d" "passwords au" 0] at by (cases "index_of (\<lambda>pw. pw_data pw = d) (passwords au) 0") auto
  have "j = i" using index_of_Some [OF j] at dist nth_eq_iff_index_eq [OF dist, of j i] by simp
  have i: "i < length (au_list au)" using at(1) len by simp
  then obtain p where p: "au_list au ! i = Some p" "p \<notin> {au_default au, au_empty au, au_full au}" using all nth_mem by blast
  let ?l = "take i (au_list au) @ drop (i + 1) (au_list au)"
  let ?au = "au\<lparr>au_heap := (au_heap au)(p := None), au_list := ?l, au_null := False\<rparr>"
  have w: "where_password kdf au value = Inr (au, Some i)" using where_password_index [where kdf = kdf, OF wf d] j \<open>j = i\<close> by simp
  have rm: "remove_password kdf True au cs executor value = Inr (?au, remove_password_from_clients au p cs, True)"
    using many p i by (simp add: remove_password_def w password_at_def)
  have split: "au_list au = take i (au_list au) @ Some p # drop (i + 1) (au_list au)" using id_take_nth_drop [OF i] p(1) by simp
  have dl: "distinct (au_list au)" using wf by (simp add: wf_auth_def)
  have np: "Some p \<notin> set ?l"
    using dl by (subst (asm) split) auto
  have sub: "set ?l \<subseteq> set (au_list au)" using set_take_subset set_drop_subset by fastforce
  have other: "\<forall>x \<in> set ?l. the x \<noteq> p"
  proof
    fix x assume x: "x \<in> set ?l"
    then obtain q where "x = Some q" using all sub by blast
    then show "the x \<noteq> p" using np x by auto
  qed
  have ps: "passwords ?au = take i (passwords au) @ drop (i + 1) (passwords au)"
    using passwords_same [OF other, of "au_heap au" None] by (simp add: passwords_def take_map drop_map)
  have dp: "distinct (map pw_data (passwords ?au))"
    unfolding ps using distinct_skip [OF dist, of i] by (simp add: take_map drop_map)
  moreover have "distinct ?l" by (rule distinct_skip [OF dl])
  moreover have "\<forall>x \<in> set ?l. \<exists>q. x = Some q \<and> ((au_heap au)(p := None)) q \<noteq> None \<and> q \<notin> {au_default au, au_empty au, au_full au}"
  proof
    fix x assume x: "x \<in> set ?l"
    then obtain q where "x = Some q" "au_heap au q \<noteq> None" "q \<notin> {au_default au, au_empty au, au_full au}" using all sub by blast
    moreover have "the x \<noteq> p" using other x by blast
    ultimately show "\<exists>q. x = Some q \<and> ((au_heap au)(p := None)) q \<noteq> None \<and> q \<notin> {au_default au, au_empty au, au_full au}" by simp
  qed
  moreover have "map pw_data (passwords ?au) = map (\<lambda>x. pw_data (the (((au_heap au)(p := None)) (the x)))) ?l" by (simp add: passwords_def)
  moreover have "{au_default au, au_empty au, au_full au} \<subseteq> dom ((au_heap au)(p := None))" "distinct [au_default au, au_empty au, au_full au]" "au_kdf au"
    using wf p(2) by (auto simp: wf_auth_def)
  ultimately have "wf_auth ?au" unfolding wf_auth_def by simp
  moreover have "\<forall>c \<in> set (cs_slots (remove_password_from_clients au p cs)). live c \<longrightarrow> au_heap ?au (cl_password c) = None \<longrightarrow> au_heap au (cl_password c) = None"
  proof (intro ballI impI)
    fix c assume c: "c \<in> set (cs_slots (remove_password_from_clients au p cs))" "live c" "au_heap ?au (cl_password c) = None"
    from c(1) have "\<exists>c'. c = (if live c' \<and> cl_password c' = p then c'\<lparr>cl_password := au_empty au\<rparr> else c')"
      unfolding remove_password_from_clients_def by (auto simp: image_iff)
    then obtain c' where c': "c = (if live c' \<and> cl_password c' = p then c'\<lparr>cl_password := au_empty au\<rparr> else c')" by blast
    then have "cl_password c \<noteq> p" using p(2) c(2) by (auto simp: live_def split: if_splits)
    then show "au_heap au (cl_password c) = None" using c(3) by simp
  qed
  ultimately show ?thesis using rm ps by blast
qed

end
