(* ===== verification/Queue.thy ===== *)
theory Queue
  imports Telly_Prelude
begin

unbundle bit_operations_syntax

text \<open>
  \<open>src/utils/queue.c\<close>: a bounded ring buffer whose slots are blocks of memory of a fixed size. A
  slot holds the value that was last copied into it (\<open>None\<close>: nothing was). The contract of a
  queue is the locale \<open>fifo\<close>, interpreted on the ring buffer at the end.
\<close>

record 'a queue =
  q_at :: nat
  q_end :: nat
  q_slots :: "'a option list"
  q_capacity :: nat
  q_size :: nat
  q_type :: nat

text \<open>
  \<open>create_queue\<close> allocates the slots four at a time and the rest one by one; \<open>ok i\<close> says whether
  the allocation of slot \<open>i\<close> succeeds. The positions \<open>at\<close>, \<open>end\<close> and \<open>size\<close> are not set: they are
  those of the memory the record was allocated in (\<open>junk\<close>), until \<open>reset_queue\<close> is called.
\<close>

definition power_of_two_or_zero :: "nat \<Rightarrow> bool" where
  "power_of_two_or_zero a \<longleftrightarrow> (word_of_nat a AND (word_of_nat a - 1) :: 64 word) = 0"

definition create_queue ::
  "'a queue \<Rightarrow> bool \<Rightarrow> bool \<Rightarrow> (nat \<Rightarrow> bool) \<Rightarrow> nat \<Rightarrow> nat \<Rightarrow> nat \<Rightarrow> 'a queue option" where
  "create_queue junk ok1 ok2 ok capacity value_size align =
     (if capacity = 0 then None
      else let align = (if align < 8 then 8 else align) in
        if \<not> power_of_two_or_zero align then None
        else if \<not> ok1 then None
        else if \<not> ok2 then None
        else if \<not> list_all (\<lambda>i. ok (4 * i) \<and> ok (4 * i + 1) \<and> ok (4 * i + 2) \<and> ok (4 * i + 3))
                 [0..<capacity div 4] then None
        else let offset = (capacity div 4) * 4 in
          if \<not> list_all ok [offset..<capacity] then None
          else Some (junk\<lparr>q_slots := replicate capacity None, q_capacity := capacity, q_type := value_size\<rparr>))"

definition reset_queue :: "'a queue \<Rightarrow> 'a queue" where
  "reset_queue q = q\<lparr>q_size := 0, q_at := 0, q_end := 0\<rparr>"

text \<open>Both operations return the position of the slot, or \<open>None\<close> for NULL.\<close>

definition push_queue :: "'a queue \<Rightarrow> 'a \<Rightarrow> ('a queue \<times> nat option) res" where
  "push_queue q value =
     (if q_size q = q_capacity q then Inr (q, None)
      else let slot = q_end q in
        if q_capacity q = 0 then Inl DivByZero
        else if \<not> slot < length (q_slots q) then Inl OutOfBounds
        else Inr (q\<lparr>q_end := (q_end q + 1) mod q_capacity q, q_slots := (q_slots q)[slot := Some value],
                    q_size := q_size q + 1\<rparr>, Some slot))"

definition pop_queue :: "'a queue \<Rightarrow> ('a queue \<times> nat option) res" where
  "pop_queue q =
     (if q_size q = 0 then Inr (q, None)
      else let slot = q_at q in
        if q_capacity q = 0 then Inl DivByZero
        else if \<not> slot < length (q_slots q) then Inl OutOfBounds
        else Inr (q\<lparr>q_at := (q_at q + 1) mod q_capacity q, q_size := q_size q - 1\<rparr>, Some slot))"

section \<open>The contract\<close>

text \<open>
  A bounded queue as its clients see it: the values inside, in order of arrival, and two
  operations that answer whether they succeeded, \<open>pop\<close> with the value.
\<close>

locale fifo =
  fixes inv :: "'q \<Rightarrow> bool"
    and vals :: "'q \<Rightarrow> 'a list"
    and room :: "'q \<Rightarrow> nat"
    and push :: "'q \<Rightarrow> 'a \<Rightarrow> ('q \<times> bool) res"
    and pop :: "'q \<Rightarrow> ('q \<times> 'a option) res"
  assumes push_law: "inv q \<Longrightarrow> \<exists>q'. push q x = Inr (q', 0 < room q) \<and> inv q' \<and> (room q = 0 \<longrightarrow> q' = q) \<and>
      (0 < room q \<longrightarrow> vals q' = vals q @ [x] \<and> Suc (room q') = room q)"
    and pop_empty: "\<lbrakk>inv q; vals q = []\<rbrakk> \<Longrightarrow> pop q = Inr (q, None)"
    and pop_law: "\<lbrakk>inv q; vals q = x # xs\<rbrakk> \<Longrightarrow> \<exists>q'. pop q = Inr (q', Some x) \<and> inv q' \<and> vals q' = xs \<and> room q' = Suc (room q)"
begin

fun push_all :: "'q \<Rightarrow> 'a list \<Rightarrow> 'q res" where
  "push_all q [] = Inr q"
| "push_all q (x # xs) = bind_res (push q x) (\<lambda>(q, _). push_all q xs)"

fun pop_all :: "'q \<Rightarrow> nat \<Rightarrow> ('q \<times> 'a option list) res" where
  "pop_all q 0 = Inr (q, [])"
| "pop_all q (Suc n) = bind_res (pop q) (\<lambda>(q, x). bind_res (pop_all q n) (\<lambda>(q, xs). Inr (q, x # xs)))"

lemma push_all_correct:
  "\<lbrakk>inv q; length xs \<le> room q\<rbrakk> \<Longrightarrow>
   \<exists>q'. push_all q xs = Inr q' \<and> inv q' \<and> vals q' = vals q @ xs \<and> room q' = room q - length xs"
proof (induction xs arbitrary: q)
  case (Cons x xs)
  obtain q1 where q1: "push q x = Inr (q1, True)" "inv q1" "vals q1 = vals q @ [x]" "Suc (room q1) = room q"
    using push_law [OF Cons.prems(1), of x] Cons.prems(2) by auto
  then show ?case using Cons.IH [OF q1(2)] Cons.prems(2) by auto
qed simp

lemma pop_all_correct:
  "\<lbrakk>inv q; vals q = xs @ ys\<rbrakk> \<Longrightarrow>
   \<exists>q'. pop_all q (length xs) = Inr (q', map Some xs) \<and> inv q' \<and> vals q' = ys \<and> room q' = room q + length xs"
proof (induction xs arbitrary: q)
  case (Cons x xs)
  obtain q1 where q1: "pop q = Inr (q1, Some x)" "inv q1" "vals q1 = xs @ ys" "room q1 = Suc (room q)"
    using pop_law [OF Cons.prems(1)] Cons.prems(2) by auto
  then show ?case using Cons.IH [OF q1(2,3)] by auto
qed simp

text \<open>What goes in comes out, in the same order, and nothing else.\<close>

lemma first_in_first_out:
  assumes "inv q" "vals q = []" "length xs \<le> room q"
  shows "\<exists>q' q''. push_all q xs = Inr q' \<and> pop_all q' (length xs) = Inr (q'', map Some xs) \<and>
    vals q'' = [] \<and> room q'' = room q"
proof -
  obtain q' where "push_all q xs = Inr q'" "inv q'" "vals q' = xs @ []" "room q' = room q - length xs"
    using push_all_correct [OF assms(1,3)] assms(2) by auto
  then show ?thesis using pop_all_correct [of q' xs "[]"] assms(3) by auto
qed

end

section \<open>The ring buffer is a queue\<close>

definition wf_queue :: "'a queue \<Rightarrow> bool" where
  "wf_queue q \<longleftrightarrow> 0 < q_capacity q \<and> length (q_slots q) = q_capacity q \<and> q_at q < q_capacity q \<and>
     q_size q \<le> q_capacity q \<and> q_end q = (q_at q + q_size q) mod q_capacity q \<and>
     (\<forall>i < q_size q. q_slots q ! ((q_at q + i) mod q_capacity q) \<noteq> None)"

definition queue_vals :: "'a queue \<Rightarrow> 'a list" where
  "queue_vals q = map (\<lambda>i. the (q_slots q ! ((q_at q + i) mod q_capacity q))) [0..<q_size q]"

definition queue_room :: "'a queue \<Rightarrow> nat" where
  "queue_room q = q_capacity q - q_size q"

definition push_ok :: "'a queue \<Rightarrow> 'a \<Rightarrow> ('a queue \<times> bool) res" where
  "push_ok q x = bind_res (push_queue q x) (\<lambda>(q, r). Inr (q, r \<noteq> None))"

definition pop_value :: "'a queue \<Rightarrow> ('a queue \<times> 'a option) res" where
  "pop_value q = bind_res (pop_queue q) (\<lambda>(q, r).
     case r of None \<Rightarrow> Inr (q, None) | Some slot \<Rightarrow> bind_res (mem_get (q_slots q) slot) (\<lambda>v. Inr (q, v)))"

lemma ring_inj:
  assumes "(a + i) mod n = (a + j) mod n" "i < n" "j < (n::nat)" shows "i = j"
proof -
  have "i = j" if "(a + i) mod n = (a + j) mod n" "j < n" "i \<le> j" for i j
  proof -
    have "n dvd (a + j) - (a + i)" using mod_eq_dvd_iff_nat [of "a + i" "a + j" n] that by simp
    then show ?thesis using that(2,3) by (auto dest: dvd_imp_le)
  qed
  then show ?thesis using assms by (metis nat_le_linear)
qed

lemma push_queue_correct:
  fixes x :: 'a
  assumes wf: "wf_queue q" and space: "q_size q < q_capacity q"
  defines "q' \<equiv> q\<lparr>q_end := (q_end q + 1) mod q_capacity q, q_slots := (q_slots q)[q_end q := Some x], q_size := q_size q + 1\<rparr>"
  shows "push_queue q x = Inr (q', Some (q_end q))" and "wf_queue q'" and "queue_vals q' = queue_vals q @ [x]"
proof -
  let ?n = "q_capacity q"
  have w: "0 < ?n" "length (q_slots q) = ?n" "q_at q < ?n" "q_end q = (q_at q + q_size q) mod ?n"
      "\<forall>i < q_size q. q_slots q ! ((q_at q + i) mod ?n) \<noteq> None" using wf by (simp_all add: wf_queue_def)
  have e: "q_end q < ?n" using w by simp
  show "push_queue q x = Inr (q', Some (q_end q))"
    using w space e by (simp add: push_queue_def q'_def Let_def)
  have other: "(q_slots q)[q_end q := Some x] ! ((q_at q + i) mod ?n) = q_slots q ! ((q_at q + i) mod ?n)"
    if "i < q_size q" for i
    using that space ring_inj [of "q_at q" i ?n "q_size q"] w(4) by (metis less_trans nat_neq_iff nth_list_update_neq)
  have new: "(q_slots q)[q_end q := Some x] ! ((q_at q + q_size q) mod ?n) = Some x"
    using e w by simp
  show "wf_queue q'"
    using w space other new by (auto simp: wf_queue_def q'_def less_Suc_eq mod_Suc_eq)
  show "queue_vals q' = queue_vals q @ [x]"
    using other new by (simp add: queue_vals_def q'_def)
qed

lemma pop_queue_correct:
  assumes wf: "wf_queue q" and some: "0 < q_size q"
  defines "q' \<equiv> q\<lparr>q_at := (q_at q + 1) mod q_capacity q, q_size := q_size q - 1\<rparr>"
  shows "pop_queue q = Inr (q', Some (q_at q))" and "wf_queue q'"
    and "queue_vals q = the (q_slots q ! q_at q) # queue_vals q'" and "q_slots q ! q_at q \<noteq> None"
proof -
  let ?n = "q_capacity q"
  have w: "0 < ?n" "length (q_slots q) = ?n" "q_at q < ?n" "q_end q = (q_at q + q_size q) mod ?n" "q_size q \<le> ?n"
      "\<forall>i < q_size q. q_slots q ! ((q_at q + i) mod ?n) \<noteq> None" using wf by (simp_all add: wf_queue_def)
  obtain m where m: "q_size q = Suc m" using some by (cases "q_size q") auto
  show "pop_queue q = Inr (q', Some (q_at q))" using w some by (simp add: pop_queue_def q'_def Let_def)
  have shift: "((q_at q + 1) mod ?n + i) mod ?n = (q_at q + Suc i) mod ?n" for i by (simp add: mod_simps)
  have "\<forall>i < m. q_slots q ! ((q_at q + Suc i) mod ?n) \<noteq> None" using w(6) m Suc_mono by metis
  then show "wf_queue q'" using w(1-5) m shift by (simp add: wf_queue_def q'_def mod_simps)
  show "q_slots q ! q_at q \<noteq> None" using w(3,6) some by force
  have "[0..<Suc m] = 0 # map Suc [0..<m]" by (simp add: map_Suc_upt upt_conv_Cons)
  then show "queue_vals q = the (q_slots q ! q_at q) # queue_vals q'"
    using w(3) m shift by (simp add: queue_vals_def q'_def comp_def)
qed

interpretation ring: fifo wf_queue queue_vals queue_room push_ok pop_value
proof unfold_locales
  fix q :: "'a queue" and x
  assume wf: "wf_queue q"
  show "\<exists>q'. push_ok q x = Inr (q', 0 < queue_room q) \<and> wf_queue q' \<and> (queue_room q = 0 \<longrightarrow> q' = q) \<and>
      (0 < queue_room q \<longrightarrow> queue_vals q' = queue_vals q @ [x] \<and> Suc (queue_room q') = queue_room q)"
  proof (cases "q_size q < q_capacity q")
    case True
    then show ?thesis using push_queue_correct [OF wf True, of x] by (simp add: push_ok_def queue_room_def)
  next
    case False
    then have "q_size q = q_capacity q" using wf by (simp add: wf_queue_def)
    then show ?thesis using wf by (simp add: push_ok_def push_queue_def queue_room_def)
  qed
next
  fix q :: "'a queue"
  assume "wf_queue q" "queue_vals q = []"
  then show "pop_value q = Inr (q, None)" by (simp add: queue_vals_def pop_value_def pop_queue_def)
next
  fix q :: "'a queue" and x xs
  assume wf: "wf_queue q" and v: "queue_vals q = x # xs"
  have "0 < q_size q" using v by (cases "q_size q") (simp_all add: queue_vals_def)
  then show "\<exists>q'. pop_value q = Inr (q', Some x) \<and> wf_queue q' \<and> queue_vals q' = xs \<and> queue_room q' = Suc (queue_room q)"
    using pop_queue_correct [OF wf] v wf by (auto simp: pop_value_def queue_room_def wf_queue_def)
qed

section \<open>Creation\<close>

lemma four_at_a_time:
  "list_all (\<lambda>i. ok (4 * i) \<and> ok (4 * i + 1) \<and> ok (4 * i + 2) \<and> ok (4 * i + 3)) [0..<n div 4] \<and>
   list_all ok [(n div 4) * 4..<n] \<longleftrightarrow> (\<forall>i < n. ok i)"
  (is "?four \<and> ?rest \<longleftrightarrow> ?all")
proof
  assume a: "?four \<and> ?rest"
  show ?all
  proof (intro allI impI)
    fix i assume i: "i < n"
    show "ok i"
    proof (cases "i < (n div 4) * 4")
      case True
      then have "i div 4 < n div 4" by (simp add: less_mult_imp_div_less)
      then have "ok (4 * (i div 4)) \<and> ok (4 * (i div 4) + 1) \<and> ok (4 * (i div 4) + 2) \<and> ok (4 * (i div 4) + 3)"
        using a by (simp add: list_all_iff)
      moreover have "i = 4 * (i div 4) + i mod 4" by simp
      moreover have "i mod 4 = 0 \<or> i mod 4 = 1 \<or> i mod 4 = 2 \<or> i mod 4 = 3" by linarith
      ultimately show ?thesis by (metis add_0_right)
    qed (use a i in \<open>simp add: list_all_iff\<close>)
  qed
next
  assume a: ?all
  have "4 * i + 3 < n" if "i < n div 4" for i using that by presburger
  then show "?four \<and> ?rest" using a by (fastforce simp: list_all_iff)
qed

lemma create_queue_correct:
  assumes "0 < n" "power_of_two_or_zero (max 8 align)" "\<forall>i < n. ok i"
  shows "\<exists>q. create_queue junk True True ok n value_size align = Some q \<and> wf_queue (reset_queue q) \<and>
    queue_vals (reset_queue q) = [] \<and> queue_room (reset_queue q) = n"
proof -
  have "(if align < 8 then 8 else align) = max 8 align" by simp
  then show ?thesis
    using assms four_at_a_time [of ok n]
    by (simp add: create_queue_def Let_def reset_queue_def wf_queue_def queue_vals_def queue_room_def)
qed

end
