(* ===== verification/TQueue.thy ===== *)
theory TQueue
  imports Queue
begin

text \<open>
  \<open>src/utils/tqueue.c\<close>: the bounded queue that the threads share. It is modelled twice: as
  functions, which are the operations when no other thread interferes, and as a step relation in
  which any number of threads push and pop, one atomic access or one copy at a time. The accesses
  are interleaved in one order (the acquire and release pairs of the code order the copies; weaker
  behaviours of its relaxed loads are not modelled, the compare-and-swap may fail for no reason).
\<close>

section \<open>The queue\<close>

text \<open>\<open>sl_data\<close> is the cell of the shared block that the slot points to.\<close>

record tslot =
  sl_seq :: "64 word"
  sl_data :: nat

record 'a tqueue =
  tq_at :: "64 word"
  tq_end :: "64 word"
  tq_slots :: "tslot list"
  tq_block :: "'a option list"
  tq_capacity :: "64 word"

definition init_state :: "tslot list \<Rightarrow> nat \<Rightarrow> tslot list" where
  "init_state slots i = slots[i := \<lparr>sl_seq = word_of_nat i, sl_data = i\<rparr>]"

text \<open>
  The slots are allocated uninitialised (\<open>mem\<close>) and filled four at a time, then one by one. The
  block is a fresh allocation; its cells hold nothing yet.
\<close>

definition create_tqueue :: "bool \<Rightarrow> bool \<Rightarrow> bool \<Rightarrow> (nat \<Rightarrow> tslot) \<Rightarrow> 64 word \<Rightarrow> 64 word \<Rightarrow> 'a tqueue option" where
  "create_tqueue ok1 ok2 ok3 mem capacity align =
     (if capacity = 0 \<or> capacity AND (capacity - 1) \<noteq> 0 then None
      else let align = (if align < 8 then 8 else align) in
        if align AND (align - 1) \<noteq> 0 then None
        else if \<not> ok1 then None
        else if \<not> ok2 then None
        else if \<not> ok3 then None
        else let n = unat capacity;
                 slots = map mem [0..<n];
                 slots = foldl (\<lambda>s i. init_state (init_state (init_state (init_state s (i * 4)) (i * 4 + 1)) (i * 4 + 2)) (i * 4 + 3))
                           slots [0..<n div 4];
                 slots = foldl init_state slots [(n div 4) * 4..<n] in
          Some \<lparr>tq_at = 0, tq_end = 0, tq_slots = slots, tq_block = replicate n None, tq_capacity = capacity\<rparr>)"

definition reset_tqueue :: "'a tqueue \<Rightarrow> 'a tqueue" where
  "reset_tqueue q = q\<lparr>tq_slots := map (\<lambda>i. (tq_slots q ! i)\<lparr>sl_seq := word_of_nat i\<rparr>) [0..<length (tq_slots q)],
                      tq_at := 0, tq_end := 0\<rparr>"

definition estimate_tqueue_size :: "'a tqueue \<Rightarrow> 64 word" where
  "estimate_tqueue_size q = tq_end q - tq_at q"

definition slot_index :: "'a tqueue \<Rightarrow> 64 word \<Rightarrow> nat" where
  "slot_index q w = unat (w AND (tq_capacity q - 1))"

definition slot_at :: "'a tqueue \<Rightarrow> 64 word \<Rightarrow> tslot" where
  "slot_at q w = tq_slots q ! slot_index q w"

definition set_seq :: "'a tqueue \<Rightarrow> 64 word \<Rightarrow> 64 word \<Rightarrow> 'a tqueue" where
  "set_seq q w s = q\<lparr>tq_slots := (tq_slots q)[slot_index q w := (slot_at q w)\<lparr>sl_seq := s\<rparr>]\<rparr>"

definition set_cell :: "'a tqueue \<Rightarrow> 64 word \<Rightarrow> 'a \<Rightarrow> 'a tqueue" where
  "set_cell q w v = q\<lparr>tq_block := (tq_block q)[sl_data (slot_at q w) := Some v]\<rparr>"

definition get_cell :: "'a tqueue \<Rightarrow> 64 word \<Rightarrow> 'a option" where
  "get_cell q w = tq_block q ! sl_data (slot_at q w)"

text \<open>
  The operations of one thread alone: the compare-and-swap succeeds, and a slot that is ahead of
  the counter would be looked at for ever.
\<close>

definition push_tqueue :: "'a tqueue \<Rightarrow> 'a \<Rightarrow> ('a tqueue \<times> nat option) res" where
  "push_tqueue q value =
     (let end1 = tq_end q; diff = sl_seq (slot_at q end1) - end1 in
      if diff = 0 then
        let q = set_cell (q\<lparr>tq_end := end1 + 1\<rparr>) end1 value
        in Inr (set_seq q end1 (end1 + 1), Some (sl_data (slot_at q end1)))
      else if sint diff < 0 then Inr (q, None)
      else Inl Endless)"

definition pop_tqueue :: "'a tqueue \<Rightarrow> ('a tqueue \<times> 'a option) res" where
  "pop_tqueue q =
     (let at1 = tq_at q; diff = sl_seq (slot_at q at1) - (at1 + 1) in
      if diff = 0 then
        (case get_cell q at1 of None \<Rightarrow> Inl Undefined
         | Some v \<Rightarrow> Inr (set_seq (q\<lparr>tq_at := at1 + 1\<rparr>) at1 (at1 + tq_capacity q), Some v))
      else if sint diff < 0 then Inr (q, None)
      else Inl Endless)"

section \<open>Threads\<close>

text \<open>
  Where a thread is, with its local variables. \<open>Push...\<close>: about to load \<open>end\<close>, to look at the slot,
  to swap, to copy the value, to publish it; \<open>Pop...\<close> likewise, down to freeing the slot. What a pop
  copies is \<open>None\<close> when nothing was ever written there.
\<close>

datatype 'a pc =
    Idle
  | PushStart 'a | PushLook 'a "64 word" | PushClaim 'a "64 word" | PushCopy 'a "64 word" | PushPublish "64 word"
  | PushDone bool
  | PopStart | PopLook "64 word" | PopClaim "64 word" | PopCopy "64 word" | PopFree "64 word" "'a option"
  | PopDone "'a option option"

text \<open>
  The state of all threads. \<open>ty_pushed\<close> and \<open>ty_popped\<close> are not part of the program: they record
  the values pushed, in the order in which their slots were claimed, and what the slots held that
  were claimed by pops, in the order of the claims.
\<close>

record 'a tsys =
  ty_queue :: "'a tqueue"
  ty_pc :: "nat \<Rightarrow> 'a pc"
  ty_pushed :: "'a list"
  ty_popped :: "'a option list"

definition goto :: "nat \<Rightarrow> 'a pc \<Rightarrow> 'a tsys \<Rightarrow> 'a tsys" where
  "goto t pc s = s\<lparr>ty_pc := (ty_pc s)(t := pc)\<rparr>"

definition on_queue :: "('a tqueue \<Rightarrow> 'a tqueue) \<Rightarrow> 'a tsys \<Rightarrow> 'a tsys" where
  "on_queue f s = s\<lparr>ty_queue := f (ty_queue s)\<rparr>"

inductive tq_step :: "'a tsys \<Rightarrow> 'a tsys \<Rightarrow> bool" where
  call_push: "ty_pc s t \<in> {Idle} \<union> range PushDone \<union> range PopDone \<Longrightarrow> tq_step s (goto t (PushStart v) s)"
| call_pop: "ty_pc s t \<in> {Idle} \<union> range PushDone \<union> range PopDone \<Longrightarrow> tq_step s (goto t PopStart s)"
| push_load: "ty_pc s t = PushStart v \<Longrightarrow> tq_step s (goto t (PushLook v (tq_end (ty_queue s))) s)"
| push_look: "\<lbrakk>ty_pc s t = PushLook v w; diff = sl_seq (slot_at (ty_queue s) w) - w\<rbrakk> \<Longrightarrow>
    tq_step s (goto t (if diff = 0 then PushClaim v w else if sint diff < 0 then PushDone False else PushStart v) s)"
| push_claim: "\<lbrakk>ty_pc s t = PushClaim v w; tq_end (ty_queue s) = w\<rbrakk> \<Longrightarrow>
    tq_step s (goto t (PushCopy v w) (on_queue (\<lambda>q. q\<lparr>tq_end := w + 1\<rparr>) s)\<lparr>ty_pushed := ty_pushed s @ [v]\<rparr>)"
| push_lost: "ty_pc s t = PushClaim v w \<Longrightarrow> tq_step s (goto t (PushLook v (tq_end (ty_queue s))) s)"
| push_copy: "ty_pc s t = PushCopy v w \<Longrightarrow> tq_step s (goto t (PushPublish w) (on_queue (\<lambda>q. set_cell q w v) s))"
| push_publish: "ty_pc s t = PushPublish w \<Longrightarrow> tq_step s (goto t (PushDone True) (on_queue (\<lambda>q. set_seq q w (w + 1)) s))"
| pop_load: "ty_pc s t = PopStart \<Longrightarrow> tq_step s (goto t (PopLook (tq_at (ty_queue s))) s)"
| pop_look: "\<lbrakk>ty_pc s t = PopLook w; diff = sl_seq (slot_at (ty_queue s) w) - (w + 1)\<rbrakk> \<Longrightarrow>
    tq_step s (goto t (if diff = 0 then PopClaim w else if sint diff < 0 then PopDone None else PopStart) s)"
| pop_claim: "\<lbrakk>ty_pc s t = PopClaim w; tq_at (ty_queue s) = w\<rbrakk> \<Longrightarrow>
    tq_step s (goto t (PopCopy w) (on_queue (\<lambda>q. q\<lparr>tq_at := w + 1\<rparr>) s)\<lparr>ty_popped := ty_popped s @ [get_cell (ty_queue s) w]\<rparr>)"
| pop_lost: "ty_pc s t = PopClaim w \<Longrightarrow> tq_step s (goto t (PopLook (tq_at (ty_queue s))) s)"
| pop_copy: "ty_pc s t = PopCopy w \<Longrightarrow> tq_step s (goto t (PopFree w (get_cell (ty_queue s) w)) s)"
| pop_free: "ty_pc s t = PopFree w x \<Longrightarrow>
    tq_step s (goto t (PopDone (Some x)) (on_queue (\<lambda>q. set_seq q w (w + tq_capacity q)) s))"

definition tq_start :: "'a tqueue \<Rightarrow> 'a tsys" where
  "tq_start q = \<lparr>ty_queue = q, ty_pc = (\<lambda>_. Idle), ty_pushed = [], ty_popped = []\<rparr>"

inductive tq_reach :: "'a tqueue \<Rightarrow> 'a tsys \<Rightarrow> bool" for q where
  start: "tq_reach q (tq_start q)"
| step: "\<lbrakk>tq_reach q s; tq_step s s'\<rbrakk> \<Longrightarrow> tq_reach q s'"

lemma goto_simps [simp]:
  "ty_queue (goto t pc s) = ty_queue s" "ty_pushed (goto t pc s) = ty_pushed s" "ty_popped (goto t pc s) = ty_popped s"
  "ty_pc (goto t pc s) u = (if u = t then pc else ty_pc s u)"
  by (simp_all add: goto_def)

lemma on_queue_simps [simp]:
  "ty_queue (on_queue f s) = f (ty_queue s)" "ty_pushed (on_queue f s) = ty_pushed s"
  "ty_popped (on_queue f s) = ty_popped s" "ty_pc (on_queue f s) = ty_pc s"
  by (simp_all add: on_queue_def)

section \<open>The invariant\<close>

text \<open>
  The positions that were ever claimed are numbered without wrap-around: pops have claimed the
  positions below \<open>A\<close>, pushes those below \<open>E\<close>. The slot of a position between \<open>A\<close> and \<open>E\<close> holds its
  value or is being filled by exactly one thread; the slot of a position from \<open>E\<close> on is free or
  still being emptied by the one pop that claimed it a round before.
\<close>

abbreviation wd :: "nat \<Rightarrow> 64 word" where
  "wd p \<equiv> word_of_nat p"

definition shape :: "nat \<Rightarrow> 'a tqueue \<Rightarrow> bool" where
  "shape k q \<longleftrightarrow> 1 \<le> k \<and> k < 62 \<and> tq_capacity q = wd (2 ^ k) \<and> length (tq_slots q) = 2 ^ k \<and> length (tq_block q) = 2 ^ k \<and>
     (\<forall>i < 2 ^ k. sl_data (tq_slots q ! i) = i)"

definition sq :: "'a tsys \<Rightarrow> nat \<Rightarrow> 64 word" where
  "sq s p = sl_seq (slot_at (ty_queue s) (wd p))"

definition cl :: "'a tsys \<Rightarrow> nat \<Rightarrow> 'a option" where
  "cl s p = get_cell (ty_queue s) (wd p)"

fun push_pos :: "'a pc \<Rightarrow> 64 word option" where
  "push_pos (PushCopy v w) = Some w"
| "push_pos (PushPublish w) = Some w"
| "push_pos _ = None"

fun pop_pos :: "'a pc \<Rightarrow> 64 word option" where
  "pop_pos (PopCopy w) = Some w"
| "pop_pos (PopFree w x) = Some w"
| "pop_pos _ = None"

definition filling :: "nat \<Rightarrow> nat \<Rightarrow> 'a tsys \<Rightarrow> 64 word \<Rightarrow> (nat \<Rightarrow> bool) \<Rightarrow> bool" where
  "filling A E s w P \<longleftrightarrow> (\<exists>p. A \<le> p \<and> p < E \<and> w = wd p \<and> sq s p = wd p \<and> P p)"

definition emptying :: "nat \<Rightarrow> nat \<Rightarrow> nat \<Rightarrow> 'a tsys \<Rightarrow> 64 word \<Rightarrow> (nat \<Rightarrow> bool) \<Rightarrow> bool" where
  "emptying k A E s w P \<longleftrightarrow> (\<exists>p. p < A \<and> E \<le> p + 2 ^ k \<and> w = wd p \<and> sq s p = wd (p + 1) \<and> cl s p = Some (ty_pushed s ! p) \<and> P p)"

fun pc_ok :: "nat \<Rightarrow> nat \<Rightarrow> nat \<Rightarrow> 'a tsys \<Rightarrow> 'a pc \<Rightarrow> bool" where
  "pc_ok k A E s (PushLook v w) \<longleftrightarrow> (\<exists>e \<le> E. w = wd e)"
| "pc_ok k A E s (PushClaim v w) \<longleftrightarrow> (\<exists>e \<le> E. w = wd e \<and> (e = E \<longrightarrow> E < A + 2 ^ k \<and> sq s E = wd E))"
| "pc_ok k A E s (PushCopy v w) \<longleftrightarrow> filling A E s w (\<lambda>p. ty_pushed s ! p = v)"
| "pc_ok k A E s (PushPublish w) \<longleftrightarrow> filling A E s w (\<lambda>p. cl s p = Some (ty_pushed s ! p))"
| "pc_ok k A E s (PopLook w) \<longleftrightarrow> (\<exists>a \<le> A. w = wd a)"
| "pc_ok k A E s (PopClaim w) \<longleftrightarrow> (\<exists>a \<le> A. w = wd a \<and> (a = A \<longrightarrow> A < E \<and> sq s A = wd (A + 1) \<and> cl s A = Some (ty_pushed s ! A)))"
| "pc_ok k A E s (PopCopy w) \<longleftrightarrow> emptying k A E s w (\<lambda>p. True)"
| "pc_ok k A E s (PopFree w x) \<longleftrightarrow> emptying k A E s w (\<lambda>p. x = Some (ty_pushed s ! p))"
| "pc_ok k A E s _ \<longleftrightarrow> True"

definition pushers :: "'a tsys \<Rightarrow> nat \<Rightarrow> 64 word option" where
  "pushers s t = push_pos (ty_pc s t)"

definition poppers :: "'a tsys \<Rightarrow> nat \<Rightarrow> 64 word option" where
  "poppers s t = pop_pos (ty_pc s t)"

definition full_or_filling :: "'a tsys \<Rightarrow> nat \<Rightarrow> bool" where
  "full_or_filling s p \<longleftrightarrow> sq s p = wd (p + 1) \<and> cl s p = Some (ty_pushed s ! p) \<or>
     sq s p = wd p \<and> (\<exists>t. pushers s t = Some (wd p))"

definition free_or_emptying :: "nat \<Rightarrow> 'a tsys \<Rightarrow> nat \<Rightarrow> bool" where
  "free_or_emptying k s p \<longleftrightarrow> sq s p = wd p \<or>
     2 ^ k \<le> p \<and> sq s p = wd (p - 2 ^ k + 1) \<and> (\<exists>t. poppers s t = Some (wd (p - 2 ^ k)))"

definition one_owner :: "(nat \<Rightarrow> 64 word option) \<Rightarrow> bool" where
  "one_owner f \<longleftrightarrow> (\<forall>t u w. f t = Some w \<longrightarrow> f u = Some w \<longrightarrow> t = u)"

definition tinv :: "nat \<Rightarrow> nat \<Rightarrow> nat \<Rightarrow> 'a tsys \<Rightarrow> bool" where
  "tinv k A E s \<longleftrightarrow> shape k (ty_queue s) \<and> tq_at (ty_queue s) = wd A \<and> tq_end (ty_queue s) = wd E \<and>
     E = length (ty_pushed s) \<and> A \<le> E \<and> E \<le> A + 2 ^ k \<and> ty_popped s = map Some (take A (ty_pushed s)) \<and>
     (\<forall>p. A \<le> p \<and> p < E \<longrightarrow> full_or_filling s p) \<and>
     (\<forall>p. E \<le> p \<and> p < A + 2 ^ k \<longrightarrow> free_or_emptying k s p) \<and>
     (\<forall>t. pc_ok k A E s (ty_pc s t)) \<and>
     one_owner (pushers s) \<and> one_owner (poppers s)"

subsection \<open>Slots\<close>

lemma wd_inj: "\<lbrakk>wd a = wd b; a < 2 ^ 64; b < 2 ^ 64\<rbrakk> \<Longrightarrow> a = b"
proof -
  assume a: "wd a = wd b" "a < 2 ^ 64" "b < 2 ^ 64"
  have "unat (wd a) = a" "unat (wd b) = b" using a(2,3) by (simp_all add: unat_of_nat)
  then show ?thesis using a(1) by metis
qed

lemma slot_index_mod:
  assumes "shape k q" shows "slot_index q (wd p) = p mod 2 ^ k"
proof -
  have k: "k \<le> 64" and c: "tq_capacity q - 1 = mask k" using assms by (auto simp: shape_def mask_eq_decr_exp)
  have "wd p AND (tq_capacity q - 1) = take_bit k (wd p)" by (simp add: c take_bit_eq_mask)
  moreover have "unat (take_bit k (wd p)) = take_bit k p"
    using k by (simp add: unsigned_take_bit_eq unsigned_of_nat min_def)
  ultimately show ?thesis by (simp add: slot_index_def take_bit_eq_mod)
qed

lemma mod_window:
  assumes "A \<le> p" "p < A + n" "A \<le> r" "r < A + n" "p mod n = r mod n"
  shows "p = (r :: nat)"
proof -
  have g: "r \<le> p \<Longrightarrow> p = r" if "A \<le> r" "p < A + n" "p mod n = r mod n" for p r
  proof -
    assume le: "r \<le> p"
    have "(p - r) mod n = 0" using that(3) le by (metis mod_eq_dvd_iff_nat mod_eq_0_iff_dvd)
    moreover have "p - r < n" using that le by linarith
    ultimately show "p = r" using le by simp
  qed
  show ?thesis using g [of r p] g [of p r] assms by (cases "r \<le> p") auto
qed

lemma slot_at_mod: "shape k q \<Longrightarrow> slot_at q (wd p) = tq_slots q ! (p mod 2 ^ k)"
  by (simp add: slot_at_def slot_index_mod)

lemma get_cell_mod: "shape k q \<Longrightarrow> get_cell q (wd p) = tq_block q ! (p mod 2 ^ k)"
  by (simp add: get_cell_def slot_at_mod) (simp add: shape_def)

lemma set_seq_shape:
  assumes "shape k q"
  shows "shape k (set_seq q (wd p) w)"
    and "sl_seq (slot_at (set_seq q (wd p) w) (wd r)) = (if r mod 2 ^ k = p mod 2 ^ k then w else sl_seq (slot_at q (wd r)))"
    and "get_cell (set_seq q (wd p) w) (wd r) = get_cell q (wd r)"
proof -
  have n: "p mod 2 ^ k < length (tq_slots q)" "length (tq_slots q) = 2 ^ k" using assms by (simp_all add: shape_def)
  show s: "shape k (set_seq q (wd p) w)"
    using assms n unfolding shape_def set_seq_def slot_at_mod [OF assms] slot_index_mod [OF assms]
    by (auto simp: nth_list_update)
  show "sl_seq (slot_at (set_seq q (wd p) w) (wd r)) = (if r mod 2 ^ k = p mod 2 ^ k then w else sl_seq (slot_at q (wd r)))"
    unfolding slot_at_mod [OF s] slot_at_mod [OF assms]
    using n unfolding set_seq_def slot_index_mod [OF assms] slot_at_mod [OF assms] by simp
  have "tq_block (set_seq q (wd p) w) = tq_block q" by (simp add: set_seq_def)
  then show "get_cell (set_seq q (wd p) w) (wd r) = get_cell q (wd r)"
    using get_cell_mod [OF s, of r] get_cell_mod [OF assms, of r] by simp
qed

lemma set_cell_shape:
  assumes "shape k q"
  shows "shape k (set_cell q (wd p) v)"
    and "slot_at (set_cell q (wd p) v) w = slot_at q w"
    and "get_cell (set_cell q (wd p) v) (wd r) = (if r mod 2 ^ k = p mod 2 ^ k then Some v else get_cell q (wd r))"
proof -
  have n: "p mod 2 ^ k < 2 ^ k" "length (tq_block q) = 2 ^ k" using assms by (simp_all add: shape_def)
  have d: "sl_data (slot_at q (wd p)) = p mod 2 ^ k" using assms n(1) unfolding slot_at_mod [OF assms] by (simp add: shape_def)
  show s: "shape k (set_cell q (wd p) v)" using assms by (simp add: shape_def set_cell_def)
  show "slot_at (set_cell q (wd p) v) w = slot_at q w" by (simp add: set_cell_def slot_at_def slot_index_def)
  show "get_cell (set_cell q (wd p) v) (wd r) = (if r mod 2 ^ k = p mod 2 ^ k then Some v else get_cell q (wd r))"
    unfolding get_cell_mod [OF s] get_cell_mod [OF assms] using n by (simp add: set_cell_def d)
qed

lemma counter_shape:
  "shape k (q\<lparr>tq_at := w\<rparr>) = shape k q" "shape k (q\<lparr>tq_end := w\<rparr>) = shape k q"
  "slot_at (q\<lparr>tq_at := w\<rparr>) x = slot_at q x" "slot_at (q\<lparr>tq_end := w\<rparr>) x = slot_at q x"
  "get_cell (q\<lparr>tq_at := w\<rparr>) x = get_cell q x" "get_cell (q\<lparr>tq_end := w\<rparr>) x = get_cell q x"
  by (simp_all add: shape_def slot_at_def slot_index_def get_cell_def)

subsection \<open>Every step keeps the invariant\<close>

lemma tinvD:
  assumes "tinv k A E s"
  shows "shape k (ty_queue s)" "tq_at (ty_queue s) = wd A" "tq_end (ty_queue s) = wd E" "E = length (ty_pushed s)"
    "A \<le> E" "E \<le> A + 2 ^ k" "ty_popped s = map Some (take A (ty_pushed s))"
    "\<lbrakk>A \<le> p; p < E\<rbrakk> \<Longrightarrow> full_or_filling s p" "\<lbrakk>E \<le> p; p < A + 2 ^ k\<rbrakk> \<Longrightarrow> free_or_emptying k s p"
    "pc_ok k A E s (ty_pc s t)" "one_owner (pushers s)" "one_owner (poppers s)"
  using assms unfolding tinv_def by blast+

lemma window_small:
  assumes "tinv k A E s" "length (ty_pushed s) < 2 ^ 63" "p \<le> A + 2 ^ k + 1"
  shows "p < 2 ^ 64"
proof -
  have k: "k < 62" using tinvD(1) [OF assms(1)] by (simp add: shape_def)
  have "(2 :: nat) ^ k < 2 ^ 62" by (rule power_strict_increasing [OF k]) simp
  then show ?thesis using assms(2,3) tinvD(4,5) [OF assms(1)] by simp
qed

lemma one_less_round: "shape k q \<Longrightarrow> (1 :: nat) < 2 ^ k"
  using one_less_power [of "2 :: nat" k] by (simp add: shape_def)

lemma sq_round: "shape k (ty_queue s) \<Longrightarrow> sq s (p + 2 ^ k) = sq s p"
  by (simp only: sq_def slot_at_mod mod_add_self2)

lemma pc_ok_same: "\<lbrakk>ty_queue s' = ty_queue s; ty_pushed s' = ty_pushed s\<rbrakk> \<Longrightarrow> pc_ok k A E s' pc = pc_ok k A E s pc"
  by (cases pc) (simp_all add: filling_def emptying_def sq_def cl_def)

lemma owners_goto:
  "push_pos pc = push_pos (ty_pc s t) \<Longrightarrow> pushers (goto t pc s) = pushers s"
  "pop_pos pc = pop_pos (ty_pc s t) \<Longrightarrow> poppers (goto t pc s) = poppers s"
  by (simp_all add: pushers_def poppers_def fun_eq_iff)

text \<open>A step that changes nothing but where its thread is.\<close>

lemma local_step:
  assumes i: "tinv k A E s" and p: "push_pos pc = push_pos (ty_pc s t)" "pop_pos pc = pop_pos (ty_pc s t)" and ok: "pc_ok k A E s pc"
  shows "tinv k A E (goto t pc s)"
proof -
  have same: "sq (goto t pc s) r = sq s r" "cl (goto t pc s) r = cl s r" for r by (simp_all add: sq_def cl_def)
  have pcs: "pc_ok k A E (goto t pc s) (ty_pc (goto t pc s) u)" for u
    using ok tinvD(10) [OF i, of u] pc_ok_same [of "goto t pc s" s] by simp
  show ?thesis using tinvD(1-9,11,12) [OF i] pcs
    by (simp add: tinv_def full_or_filling_def free_or_emptying_def same owners_goto(1) [OF p(1)] owners_goto(2) [OF p(2)] del: goto_simps(4))
qed

lemma pushers_upd: "pushers s' u = (if u = t then push_pos pc else pushers s u)" if "ty_pc s' = (ty_pc s)(t := pc)"
  using that by (simp add: pushers_def)

lemma poppers_upd: "poppers s' u = (if u = t then pop_pos pc else poppers s u)" if "ty_pc s' = (ty_pc s)(t := pc)"
  using that by (simp add: poppers_def)

text \<open>Pops in progress are a round behind the window.\<close>

lemma emptying_window: "emptying k A E s w P \<Longrightarrow> \<exists>p. p < A \<and> E \<le> p + 2 ^ k \<and> p + 2 ^ k < A + 2 ^ k \<and> w = wd p"
  by (auto simp: emptying_def)

lemma filling_mono:
  assumes "filling A E s w P"
    and "\<And>p. \<lbrakk>A \<le> p; p < E; w = wd p; sq s p = wd p; P p\<rbrakk> \<Longrightarrow> A' \<le> p \<and> p < E' \<and> sq s' p = wd p \<and> Q p"
  shows "filling A' E' s' w Q"
  using assms unfolding filling_def by blast

lemma emptying_mono:
  assumes "emptying k A E s w P"
    and "\<And>p. \<lbrakk>p < A; E \<le> p + 2 ^ k; w = wd p; sq s p = wd (p + 1); cl s p = Some (ty_pushed s ! p); P p\<rbrakk> \<Longrightarrow>
      p < A' \<and> E' \<le> p + 2 ^ k \<and> sq s' p = wd (p + 1) \<and> cl s' p = Some (ty_pushed s' ! p) \<and> Q p"
  shows "emptying k A' E' s' w Q"
  using assms unfolding emptying_def by blast

lemma push_claim_inv:
  assumes i: "tinv k A E s" and b: "length (ty_pushed s) < 2 ^ 63" and pc: "ty_pc s t = PushClaim v w" and w: "tq_end (ty_queue s) = w"
  defines "s' \<equiv> goto t (PushCopy v w) (on_queue (\<lambda>q. q\<lparr>tq_end := w + 1\<rparr>) s)\<lparr>ty_pushed := ty_pushed s @ [v]\<rparr>"
  shows "tinv k A (E + 1) s'"
proof -
  note d = tinvD [OF i]
  have small: "p \<le> A + 2 ^ k + 1 \<Longrightarrow> p < 2 ^ 64" for p using window_small [OF i b] .
  have E: "w = wd E" using d(3) w by simp
  obtain e where e: "e \<le> E" "wd E = wd e" "e = E \<longrightarrow> E < A + 2 ^ k \<and> sq s E = wd E"
    using d(10) [of t] unfolding pc E pc_ok.simps by blast
  have "E < 2 ^ 64" "e < 2 ^ 64" using e(1) d(6) by (intro small; linarith)+
  then have "E = e" by (rule wd_inj [OF e(2)])
  then have room: "E < A + 2 ^ k" "sq s E = wd E" using e by simp_all
  have same: "sq s' r = sq s r" "cl s' r = cl s r" for r by (simp_all add: sq_def cl_def s'_def counter_shape)
  have pcs: "ty_pc s' = (ty_pc s)(t := PushCopy v w)" by (simp add: s'_def goto_def on_queue_def)
  note pu = pushers_upd [OF pcs] and po = poppers_upd [OF pcs]
  have none: "pushers s t = None" "poppers s t = None" using pc by (simp_all add: pushers_def poppers_def)
  have old: "ty_pushed s' ! p = ty_pushed s ! p" if "p < E" for p using that d(4) by (simp add: s'_def nth_append)
  have new: "ty_pushed s' ! E = v" "length (ty_pushed s') = E + 1" using d(4) by (simp_all add: s'_def)
  have keep: "(\<exists>u. pushers s u = Some x) \<Longrightarrow> (\<exists>u. pushers s' u = Some x)"
      "(\<exists>u. poppers s u = Some x) \<Longrightarrow> (\<exists>u. poppers s' u = Some x)" for x
    unfolding pu po using none by (metis option.distinct(1))+
  have "full_or_filling s' p" if p: "A \<le> p" "p < E + 1" for p
  proof (cases "p = E")
    case True
    then show ?thesis using room(2) E pu by (auto simp: full_or_filling_def same)
  next
    case False
    then have lt: "p < E" using p by simp
    from d(8) [OF p(1) lt] show ?thesis unfolding full_or_filling_def same old [OF lt] using keep(1) by blast
  qed
  moreover have "free_or_emptying k s' p" if p: "E + 1 \<le> p" "p < A + 2 ^ k" for p
  proof -
    have "E \<le> p" using p by simp
    from d(9) [OF this p(2)] show ?thesis unfolding free_or_emptying_def same using keep(2) by blast
  qed
  moreover have "pc_ok k A (E + 1) s' (ty_pc s' u)" for u
  proof (cases "u = t")
    case True
    then show ?thesis using E room(2) d(5) new by (auto simp: pcs filling_def same)
  next
    case False
    have em: "E + 1 \<le> p + 2 ^ k" if p: "p < A" "E \<le> p + 2 ^ k" "sq s p = wd (p + 1)" for p
    proof -
      have "p + 2 ^ k \<noteq> E"
      proof
        assume eq: "p + 2 ^ k = E"
        then have "wd (p + 1) = wd (p + 2 ^ k)" using sq_round [OF d(1), of p] p(3) room(2) by simp
        moreover have "p + 1 < 2 ^ 64" "p + 2 ^ k < 2 ^ 64" using p(1) by (intro small; linarith)+
        ultimately have "p + 1 = p + 2 ^ k" using wd_inj by blast
        then show False using one_less_round [OF d(1)] by simp
      qed
      then show ?thesis using p(2) by simp
    qed
    have ok: "pc_ok k A E s (ty_pc s u)" by (rule d(10))
    show ?thesis
    proof (cases "ty_pc s u")
      case (PushLook v' x) then show ?thesis using ok False by (auto simp: pcs intro: le_SucI)
    next
      case (PushClaim v' x) then show ?thesis using ok False by (auto simp: pcs intro: le_SucI)
    next
      case (PushCopy v' x) then show ?thesis using ok False old by (auto simp: pcs same elim!: filling_mono)
    next
      case (PushPublish x) then show ?thesis using ok False old by (auto simp: pcs same elim!: filling_mono)
    next
      case (PopClaim x) then show ?thesis using ok False old by (auto simp: pcs same)
    next
      case (PopCopy x) then show ?thesis using ok False em old d(5) by (auto simp: pcs same elim!: emptying_mono)
    next
      case (PopFree x y) then show ?thesis using ok False em old d(5) by (auto simp: pcs same elim!: emptying_mono)
    qed (use ok False in \<open>auto simp: pcs\<close>)
  qed
  moreover have "one_owner (pushers s')"
  proof -
    have no: "pushers s u \<noteq> Some (wd E)" for u
    proof
      assume "pushers s u = Some (wd E)"
      then obtain P where "filling A E s (wd E) P" using d(10) [of u] by (cases "ty_pc s u") (auto simp: pushers_def)
      then obtain p where p: "p < E" "wd E = wd p" by (auto simp: filling_def)
      have "E < 2 ^ 64" "p < 2 ^ 64" using p(1) d(6) by (intro small; linarith)+
      then have "E = p" by (rule wd_inj [OF p(2)])
      then show False using p(1) by simp
    qed
    show ?thesis using d(11) no unfolding one_owner_def pu by (auto simp: E)
  qed
  moreover have "one_owner (poppers s')" using d(12) unfolding one_owner_def po by auto
  moreover have "shape k (ty_queue s')" "tq_at (ty_queue s') = wd A" "tq_end (ty_queue s') = wd (E + 1)"
      "ty_popped s' = map Some (take A (ty_pushed s'))"
    using d(1,2,5,7) d(4) E by (simp_all add: s'_def counter_shape)
  ultimately show ?thesis using new(2) d(5) room(1) by (simp add: tinv_def)
qed

text \<open>In the window no two positions share a slot, and neither do a position and a pop in progress.\<close>

lemma same_slot:
  assumes "A \<le> p" "p < A + 2 ^ k" "A \<le> r" "r < A + (2 :: nat) ^ k"
  shows "r mod 2 ^ k = p mod 2 ^ k \<longleftrightarrow> r = p"
  using mod_window [of A r "2 ^ k" p] assms by auto

lemma behind_slot:
  assumes "A \<le> p" "p < A + 2 ^ k" "r < A" "A \<le> r + 2 ^ k"
  shows "r mod 2 ^ k = p mod (2 :: nat) ^ k \<longleftrightarrow> r + 2 ^ k = p"
  using same_slot [of A p k "r + 2 ^ k"] assms by simp

lemma filling_sq: "filling A E s w P \<Longrightarrow> \<exists>p. A \<le> p \<and> p < E \<and> w = wd p \<and> sq s p = wd p \<and> P p"
  by (simp add: filling_def)

lemma other_pusher:
  assumes "one_owner (pushers s)" "pushers s t = Some (wd p)" "u \<noteq> t" "push_pos (ty_pc s u) = Some (wd r)"
  shows "r \<noteq> p"
  using assms unfolding one_owner_def pushers_def by metis

lemma other_popper:
  assumes "one_owner (poppers s)" "poppers s t = Some (wd p)" "u \<noteq> t" "pop_pos (ty_pc s u) = Some (wd r)"
  shows "r \<noteq> p"
  using assms unfolding one_owner_def poppers_def by metis

lemma push_copy_inv:
  assumes i: "tinv k A E s" and b: "length (ty_pushed s) < 2 ^ 63" and pc: "ty_pc s t = PushCopy v w"
  defines "s' \<equiv> goto t (PushPublish w) (on_queue (\<lambda>q. set_cell q w v) s)"
  shows "tinv k A E s'"
proof -
  note d = tinvD [OF i]
  obtain p where p: "A \<le> p" "p < E" "w = wd p" "sq s p = wd p" "ty_pushed s ! p = v"
    using d(10) [of t] unfolding pc pc_ok.simps filling_def by blast
  have pw: "A \<le> p" "p < A + 2 ^ k" using p(1,2) d(6) by simp_all
  have small: "r \<le> A + 2 ^ k + 1 \<Longrightarrow> r < 2 ^ 64" for r using window_small [OF i b] .
  have sq: "sq s' r = sq s r" for r by (simp add: sq_def s'_def p(3) set_cell_shape(2) [OF d(1)])
  have cl: "cl s' r = (if r mod 2 ^ k = p mod 2 ^ k then Some v else cl s r)" for r
    by (simp add: cl_def s'_def p(3) set_cell_shape(3) [OF d(1)])
  have not_next: "r \<noteq> p" if r: "sq s r = wd (r + 1)" for r
  proof
    assume "r = p"
    then have "wd p = wd (p + 1)" using r p(4) by simp
    moreover have "p < 2 ^ 64" "p + 1 < 2 ^ 64" using pw by (intro small; linarith)+
    ultimately show False using wd_inj [of p "p + 1"] by simp
  qed
  have pcs: "ty_pc s' = (ty_pc s)(t := PushPublish w)" by (simp add: s'_def goto_def on_queue_def)
  have own: "pushers s' = pushers s" "poppers s' = poppers s"
    using pushers_upd [OF pcs] poppers_upd [OF pcs] pc by (simp_all add: fun_eq_iff pushers_def poppers_def)
  have me: "pushers s t = Some (wd p)" using pc p(3) by (simp add: pushers_def)
  have pushed: "ty_pushed s' = ty_pushed s" "ty_popped s' = ty_popped s" by (simp_all add: s'_def)
  have "full_or_filling s' r" if r: "A \<le> r" "r < E" for r
    using d(8) [OF r] not_next [of r] same_slot [OF pw r(1)] r(2) d(6)
    unfolding full_or_filling_def sq cl own pushed by auto
  moreover have "free_or_emptying k s' r" if "E \<le> r" "r < A + 2 ^ k" for r
    using d(9) [OF that] unfolding free_or_emptying_def sq own .
  moreover have "pc_ok k A E s' (ty_pc s' u)" for u
  proof (cases "u = t")
    case True
    then show ?thesis using p by (auto simp: pcs filling_def sq cl pushed)
  next
    case False
    have fi: "r mod 2 ^ k \<noteq> p mod 2 ^ k" if "push_pos (ty_pc s u) = Some (wd r)" "A \<le> r" "r < E" for r
      using other_pusher [OF d(11) me False that(1)] same_slot [OF pw that(2)] that(3) d(6) by simp
    have em: "r mod 2 ^ k \<noteq> p mod 2 ^ k" if "r < A" "E \<le> r + 2 ^ k" for r
      using behind_slot [OF pw that(1)] that(2) d(5) p(2) by auto
    have ok: "pc_ok k A E s (ty_pc s u)" by (rule d(10))
    show ?thesis
    proof (cases "ty_pc s u")
      case (PushPublish x) then show ?thesis using ok False fi by (auto simp: pcs sq cl pushed elim!: filling_mono)
    next
      case (PopClaim x)
      then show ?thesis using ok False not_next [of A] same_slot [OF pw, of A] d(5,6) one_less_round [OF d(1)] by (auto simp: pcs sq cl pushed)
    next
      case (PopCopy x) then show ?thesis using ok False em by (auto simp: pcs sq cl pushed elim!: emptying_mono)
    next
      case (PopFree x y) then show ?thesis using ok False em by (auto simp: pcs sq cl pushed elim!: emptying_mono)
    qed (use ok False in \<open>auto simp: pcs sq pushed elim!: filling_mono\<close>)
  qed
  moreover have "shape k (ty_queue s')" "tq_at (ty_queue s') = wd A" "tq_end (ty_queue s') = wd E"
    using d(1-3) by (simp_all add: s'_def p(3) set_cell_shape(1)) (simp_all add: set_cell_def)
  ultimately show ?thesis using d(4-7,11,12) by (simp add: tinv_def own pushed)
qed

lemma push_publish_inv:
  assumes i: "tinv k A E s" and b: "length (ty_pushed s) < 2 ^ 63" and pc: "ty_pc s t = PushPublish w"
  defines "s' \<equiv> goto t (PushDone True) (on_queue (\<lambda>q. set_seq q w (w + 1)) s)"
  shows "tinv k A E s'"
proof -
  note d = tinvD [OF i]
  obtain p where p: "A \<le> p" "p < E" "w = wd p" "sq s p = wd p" "cl s p = Some (ty_pushed s ! p)"
    using d(10) [of t] unfolding pc pc_ok.simps filling_def by blast
  have pw: "A \<le> p" "p < A + 2 ^ k" using p(1,2) d(6) by simp_all
  have small: "r \<le> A + 2 ^ k + 1 \<Longrightarrow> r < 2 ^ 64" for r using window_small [OF i b] .
  have sq: "sq s' r = (if r mod 2 ^ k = p mod 2 ^ k then wd (p + 1) else sq s r)" for r
    by (simp add: sq_def s'_def p(3) set_seq_shape(2) [OF d(1)])
  have cl: "cl s' r = cl s r" for r by (simp add: cl_def s'_def p(3) set_seq_shape(3) [OF d(1)])
  have pcs: "ty_pc s' = (ty_pc s)(t := PushDone True)" by (simp add: s'_def goto_def on_queue_def)
  note pu = pushers_upd [OF pcs]
  have own: "poppers s' = poppers s"
    using poppers_upd [OF pcs] pc by (simp add: fun_eq_iff poppers_def)
  have me: "pushers s t = Some (wd p)" using pc p(3) by (simp add: pushers_def)
  have keep: "\<exists>u. pushers s' u = Some (wd r)" if r: "\<exists>u. pushers s u = Some (wd r)" "A \<le> r" "r < E" "r \<noteq> p" for r
  proof -
    obtain u where u: "pushers s u = Some (wd r)" using r(1) by blast
    have "u \<noteq> t"
    proof
      assume "u = t"
      then have "wd r = wd p" using u me by simp
      moreover have "r < 2 ^ 64" "p < 2 ^ 64" using r(3) pw d(6) by (intro small; linarith)+
      ultimately show False using wd_inj r(4) by blast
    qed
    then show ?thesis using u pu by auto
  qed
  have pushed: "ty_pushed s' = ty_pushed s" "ty_popped s' = ty_popped s" by (simp_all add: s'_def)
  have "full_or_filling s' r" if r: "A \<le> r" "r < E" for r
    using d(8) [OF r] keep [of r] same_slot [OF pw r(1)] r d(6) p(5)
    unfolding full_or_filling_def sq cl pushed by (cases "r = p") auto
  moreover have "free_or_emptying k s' r" if r: "E \<le> r" "r < A + 2 ^ k" for r
    using d(9) [OF r] same_slot [OF pw, of r] r p(2) d(5) unfolding free_or_emptying_def sq own by auto
  moreover have "pc_ok k A E s' (ty_pc s' u)" for u
  proof (cases "u = t")
    case True
    then show ?thesis by (simp add: pcs)
  next
    case False
    have fi: "r mod 2 ^ k \<noteq> p mod 2 ^ k" if "push_pos (ty_pc s u) = Some (wd r)" "A \<le> r" "r < E" for r
      using other_pusher [OF d(11) me False that(1)] same_slot [OF pw that(2)] that(3) d(6) by simp
    have em: "r mod 2 ^ k \<noteq> p mod 2 ^ k" if "r < A" "E \<le> r + 2 ^ k" for r
      using behind_slot [OF pw that(1)] that(2) d(5) p(2) by auto
    have ok: "pc_ok k A E s (ty_pc s u)" by (rule d(10))
    show ?thesis
    proof (cases "ty_pc s u")
      case (PushClaim v x)
      then show ?thesis using ok False same_slot [OF pw, of E] d(5) p(2) by (auto simp: pcs sq)
    next
      case (PushCopy v x) then show ?thesis using ok False fi by (auto simp: pcs sq cl pushed elim!: filling_mono)
    next
      case (PushPublish x) then show ?thesis using ok False fi by (auto simp: pcs sq cl pushed elim!: filling_mono)
    next
      case (PopClaim x)
      then show ?thesis using ok False same_slot [OF pw, of A] d(5,6) one_less_round [OF d(1)] by (auto simp: pcs sq cl pushed)
    next
      case (PopCopy x) then show ?thesis using ok False em by (auto simp: pcs sq cl pushed elim!: emptying_mono)
    next
      case (PopFree x y) then show ?thesis using ok False em by (auto simp: pcs sq cl pushed elim!: emptying_mono)
    qed (use ok False in \<open>auto simp: pcs sq pushed\<close>)
  qed
  moreover have "one_owner (pushers s')" using d(11) unfolding one_owner_def pu by auto
  moreover have "shape k (ty_queue s')" "tq_at (ty_queue s') = wd A" "tq_end (ty_queue s') = wd E"
    using d(1-3) by (simp_all add: s'_def p(3) set_seq_shape(1)) (simp_all add: set_seq_def)
  ultimately show ?thesis using d(4-7,12) by (simp add: tinv_def own pushed)
qed

lemma pop_claim_inv:
  assumes i: "tinv k A E s" and b: "length (ty_pushed s) < 2 ^ 63" and pc: "ty_pc s t = PopClaim w" and w: "tq_at (ty_queue s) = w"
  defines "s' \<equiv> goto t (PopCopy w) (on_queue (\<lambda>q. q\<lparr>tq_at := w + 1\<rparr>) s)\<lparr>ty_popped := ty_popped s @ [get_cell (ty_queue s) w]\<rparr>"
  shows "tinv k (A + 1) E s'"
proof -
  note d = tinvD [OF i]
  have small: "r \<le> A + 2 ^ k + 1 \<Longrightarrow> r < 2 ^ 64" for r using window_small [OF i b] .
  have A: "w = wd A" using d(2) w by simp
  obtain a where a: "a \<le> A" "wd A = wd a" "a = A \<longrightarrow> A < E \<and> sq s A = wd (A + 1) \<and> cl s A = Some (ty_pushed s ! A)"
    using d(10) [of t] unfolding pc A pc_ok.simps by blast
  have "A < 2 ^ 64" "a < 2 ^ 64" using a(1) by (intro small; linarith)+
  then have "A = a" by (rule wd_inj [OF a(2)])
  then have v: "A < E" "sq s A = wd (A + 1)" "cl s A = Some (ty_pushed s ! A)" using a(3) by simp_all
  have same: "sq s' r = sq s r" "cl s' r = cl s r" for r by (simp_all add: sq_def cl_def s'_def counter_shape)
  have pcs: "ty_pc s' = (ty_pc s)(t := PopCopy w)" by (simp add: s'_def goto_def on_queue_def)
  note po = poppers_upd [OF pcs]
  have own: "pushers s' = pushers s" using pushers_upd [OF pcs] pc by (simp add: fun_eq_iff pushers_def)
  have none: "poppers s t = None" using pc by (simp add: poppers_def)
  have keep: "(\<exists>u. poppers s u = Some x) \<Longrightarrow> (\<exists>u. poppers s' u = Some x)" for x
    unfolding po using none by (metis option.distinct(1))
  have pushed: "ty_pushed s' = ty_pushed s" by (simp add: s'_def)
  have "full_or_filling s' r" if r: "A + 1 \<le> r" "r < E" for r
    using d(8) [of r] r unfolding full_or_filling_def same own pushed by simp
  moreover have "free_or_emptying k s' r" if r: "E \<le> r" "r < A + 1 + 2 ^ k" for r
  proof (cases "r = A + 2 ^ k")
    case True
    have "poppers s' t = Some (wd A)" using po A by simp
    then show ?thesis using v(2) sq_round [OF d(1), of A] True unfolding free_or_emptying_def same by auto
  next
    case False
    then have lt: "r < A + 2 ^ k" using r(2) by simp
    from d(9) [OF r(1) lt] show ?thesis unfolding free_or_emptying_def same using keep by blast
  qed
  moreover have "pc_ok k (A + 1) E s' (ty_pc s' u)" for u
  proof (cases "u = t")
    case True
    then show ?thesis using v d(6) A by (auto simp: pcs emptying_def same pushed)
  next
    case False
    have fi: "A \<noteq> r" if "sq s r = wd r" for r
    proof
      assume "A = r"
      then have "wd A = wd (A + 1)" using that v(2) by simp
      moreover have "A < 2 ^ 64" "A + 1 < 2 ^ 64" by (intro small; linarith)+
      ultimately show False using wd_inj [of A "A + 1"] by simp
    qed
    have ok: "pc_ok k A E s (ty_pc s u)" by (rule d(10))
    have step: "A + 1 \<le> r" if "A \<le> r" "sq s r = wd r" for r using fi [OF that(2)] that(1) by simp
    show ?thesis
    proof (cases "ty_pc s u")
      case (PushCopy x y) then show ?thesis using ok False step by (auto simp: pcs same pushed elim!: filling_mono)
    next
      case (PushPublish x) then show ?thesis using ok False step by (auto simp: pcs same pushed elim!: filling_mono)
    next
      case (PopLook x) then show ?thesis using ok False by (auto simp: pcs intro: le_SucI)
    next
      case (PopClaim x) then show ?thesis using ok False by (auto simp: pcs same pushed intro: le_SucI)
    next
      case (PopCopy x) then show ?thesis using ok False by (auto simp: pcs same pushed elim!: emptying_mono)
    next
      case (PopFree x y) then show ?thesis using ok False by (auto simp: pcs same pushed elim!: emptying_mono)
    qed (use ok False in \<open>auto simp: pcs same\<close>)
  qed
  moreover have "one_owner (poppers s')"
  proof -
    have no: "poppers s u \<noteq> Some (wd A)" for u
    proof
      assume "poppers s u = Some (wd A)"
      then obtain P where "emptying k A E s (wd A) P" using d(10) [of u] by (cases "ty_pc s u") (auto simp: poppers_def)
      then obtain r where r: "r < A" "wd A = wd r" by (auto simp: emptying_def)
      have "A < 2 ^ 64" "r < 2 ^ 64" using r(1) by (intro small; linarith)+
      then have "A = r" by (rule wd_inj [OF r(2)])
      then show False using r(1) by simp
    qed
    show ?thesis using d(12) no unfolding one_owner_def po by (auto simp: A)
  qed
  moreover have "ty_popped s' = map Some (take (A + 1) (ty_pushed s'))"
  proof -
    have "get_cell (ty_queue s) w = Some (ty_pushed s ! A)" using v(3) A by (simp add: cl_def)
    then have "ty_popped s' = map Some (take A (ty_pushed s)) @ [Some (ty_pushed s ! A)]" using d(7) by (simp add: s'_def)
    then show ?thesis using v(1) d(4) by (simp add: pushed take_Suc_conv_app_nth)
  qed
  moreover have "shape k (ty_queue s')" "tq_at (ty_queue s') = wd (A + 1)" "tq_end (ty_queue s') = wd E"
    using d(1,3) A by (simp_all add: s'_def counter_shape)
  ultimately show ?thesis using v(1) d(4,6,11) by (simp add: tinv_def own pushed)
qed

lemma pop_free_inv:
  assumes i: "tinv k A E s" and b: "length (ty_pushed s) < 2 ^ 63" and pc: "ty_pc s t = PopFree w x"
  defines "s' \<equiv> goto t (PopDone (Some x)) (on_queue (\<lambda>q. set_seq q w (w + tq_capacity q)) s)"
  shows "tinv k A E s'"
proof -
  note d = tinvD [OF i]
  obtain p where p: "p < A" "E \<le> p + 2 ^ k" "w = wd p" "sq s p = wd (p + 1)"
    using d(10) [of t] unfolding pc pc_ok.simps emptying_def by blast
  define f where "f = p + 2 ^ k"
  have fw: "A \<le> f" "f < A + 2 ^ k" "E \<le> f" using p(1,2) d(5) by (simp_all add: f_def)
  have pm: "p mod 2 ^ k = f mod 2 ^ k" by (simp add: f_def)
  have small: "r \<le> A + 2 ^ k + 1 \<Longrightarrow> r < 2 ^ 64" for r using window_small [OF i b] .
  have sq: "sq s' r = (if r mod 2 ^ k = f mod 2 ^ k then wd f else sq s r)" for r
  proof -
    have "wd p + tq_capacity (ty_queue s) = wd f" using d(1) by (simp add: shape_def f_def)
    then show ?thesis unfolding sq_def s'_def p(3) by (simp add: set_seq_shape(2) [OF d(1)] pm)
  qed
  have cl: "cl s' r = cl s r" for r by (simp add: cl_def s'_def p(3) set_seq_shape(3) [OF d(1)])
  have pcs: "ty_pc s' = (ty_pc s)(t := PopDone (Some x))" by (simp add: s'_def goto_def on_queue_def)
  note po = poppers_upd [OF pcs]
  have own: "pushers s' = pushers s" using pushers_upd [OF pcs] pc by (simp add: fun_eq_iff pushers_def)
  have me: "poppers s t = Some (wd p)" using pc p(3) by (simp add: poppers_def)
  have keep: "\<exists>u. poppers s' u = Some (wd r)" if r: "\<exists>u. poppers s u = Some (wd r)" "r < A" "r \<noteq> p" for r
  proof -
    obtain u where u: "poppers s u = Some (wd r)" using r(1) by blast
    have "u \<noteq> t"
    proof
      assume "u = t"
      then have "wd r = wd p" using u me by simp
      moreover have "r < 2 ^ 64" "p < 2 ^ 64" using r(2) p(1) by (intro small; linarith)+
      ultimately show False using wd_inj r(3) by blast
    qed
    then show ?thesis using u po by auto
  qed
  have pushed: "ty_pushed s' = ty_pushed s" "ty_popped s' = ty_popped s" by (simp_all add: s'_def)
  have "full_or_filling s' r" if r: "A \<le> r" "r < E" for r
    using d(8) [OF r] same_slot [OF fw(1,2) r(1)] r(2) d(6) fw(3) unfolding full_or_filling_def sq cl own pushed by auto
  moreover have "free_or_emptying k s' r" if r: "E \<le> r" "r < A + 2 ^ k" for r
  proof (cases "r = f")
    case True
    then show ?thesis by (simp add: free_or_emptying_def sq)
  next
    case False
    have m: "r mod 2 ^ k \<noteq> f mod 2 ^ k" using same_slot [OF fw(1,2), of r] r d(5) False by simp
    have k: "\<exists>u. poppers s' u = Some (wd (r - 2 ^ k))" if "2 ^ k \<le> r" "\<exists>u. poppers s u = Some (wd (r - 2 ^ k))"
      by (rule keep [OF that(2)]) (use that(1) r(2) False in \<open>auto simp: f_def\<close>)
    show ?thesis using d(9) [OF r] k unfolding free_or_emptying_def sq if_not_P [OF m] by blast
  qed
  moreover have "pc_ok k A E s' (ty_pc s' u)" for u
  proof (cases "u = t")
    case True
    then show ?thesis by (simp add: pcs)
  next
    case False
    have fi: "r mod 2 ^ k \<noteq> f mod 2 ^ k" if "A \<le> r" "r < E" for r
      using same_slot [OF fw(1,2) that(1)] that(2) d(6) fw(3) by simp
    have em: "r mod 2 ^ k \<noteq> f mod 2 ^ k" if "pop_pos (ty_pc s u) = Some (wd r)" "r < A" "E \<le> r + 2 ^ k" for r
      using other_popper [OF d(12) me False that(1)] behind_slot [OF fw(1,2) that(2)] that(3) d(5) by (simp add: f_def)
    have ok: "pc_ok k A E s (ty_pc s u)" by (rule d(10))
    show ?thesis
    proof (cases "ty_pc s u")
      case (PushClaim v x)
      then show ?thesis using ok False same_slot [OF fw(1,2), of E] d(5) by (auto simp: pcs sq)
    next
      case (PushCopy v x) then show ?thesis using ok False fi by (auto simp: pcs sq cl pushed elim!: filling_mono)
    next
      case (PushPublish x) then show ?thesis using ok False fi by (auto simp: pcs sq cl pushed elim!: filling_mono)
    next
      case (PopClaim x) then show ?thesis using ok False fi [of A] by (auto simp: pcs sq cl pushed)
    next
      case (PopCopy x) then show ?thesis using ok False em by (auto simp: pcs sq cl pushed elim!: emptying_mono)
    next
      case (PopFree x y) then show ?thesis using ok False em by (auto simp: pcs sq cl pushed elim!: emptying_mono)
    qed (use ok False in \<open>auto simp: pcs sq pushed\<close>)
  qed
  moreover have "one_owner (poppers s')" using d(12) unfolding one_owner_def po by auto
  moreover have "shape k (ty_queue s')" "tq_at (ty_queue s') = wd A" "tq_end (ty_queue s') = wd E"
    using d(1-3) by (simp_all add: s'_def p(3) set_seq_shape(1)) (simp_all add: set_seq_def)
  ultimately show ?thesis using d(4-7,11) by (simp add: tinv_def own pushed)
qed

lemma push_look_ok:
  assumes i: "tinv k A E s" and b: "length (ty_pushed s) < 2 ^ 63" and pc: "ty_pc s t = PushLook v w"
    and z: "sl_seq (slot_at (ty_queue s) w) - w = 0"
  shows "pc_ok k A E s (PushClaim v w)"
proof -
  note d = tinvD [OF i]
  have small: "r \<le> A + 2 ^ k + 1 \<Longrightarrow> r < 2 ^ 64" for r using window_small [OF i b] .
  obtain e where e: "e \<le> E" "w = wd e" using d(10) [of t] unfolding pc pc_ok.simps by blast
  have se: "sq s e = wd e" using z e(2) by (simp add: sq_def)
  have "E < A + 2 ^ k" if "e = E"
  proof (rule ccontr)
    assume "\<not> E < A + 2 ^ k"
    then have E: "E = A + 2 ^ k" using d(6) by simp
    have a: "A < E" using E one_less_round [OF d(1)] by simp
    have "sq s A = wd E" using se that E sq_round [OF d(1), of A] by simp
    moreover have "sq s A = wd (A + 1) \<or> sq s A = wd A" using d(8) [OF order_refl a] by (auto simp: full_or_filling_def)
    ultimately consider "wd E = wd (A + 1)" | "wd E = wd A" by auto
    moreover have "E < 2 ^ 64" "A < 2 ^ 64" "A + 1 < 2 ^ 64" using E by (intro small; linarith)+
    ultimately have "E = A + 1 \<or> E = A" using wd_inj by metis
    then show False using E one_less_round [OF d(1)] by auto
  qed
  then show ?thesis using e se by auto
qed

lemma pop_look_ok:
  assumes i: "tinv k A E s" and b: "length (ty_pushed s) < 2 ^ 63" and pc: "ty_pc s t = PopLook w"
    and z: "sl_seq (slot_at (ty_queue s) w) - (w + 1) = 0"
  shows "pc_ok k A E s (PopClaim w)"
proof -
  note d = tinvD [OF i]
  have small: "r \<le> A + 2 ^ k + 1 \<Longrightarrow> r < 2 ^ 64" for r using window_small [OF i b] .
  obtain a where a: "a \<le> A" "w = wd a" using d(10) [of t] unfolding pc pc_ok.simps by blast
  have sa: "sq s a = wd (a + 1)" using z a(2) by (simp add: sq_def)
  have "A < E \<and> cl s A = Some (ty_pushed s ! A)" if eq: "a = A"
  proof -
    have s1: "A < 2 ^ 64" "A + 1 < 2 ^ 64" by (intro small; linarith)+
    have ne: "sq s A \<noteq> wd A" using sa eq wd_inj [of A "A + 1"] s1 by auto
    have "A < E"
    proof (rule ccontr)
      assume "\<not> A < E"
      then have E: "E = A" using d(5) by simp
      have "A < A + 2 ^ k" by simp
      then have "2 ^ k \<le> A" "sq s A = wd (A - 2 ^ k + 1)" using d(9) [of A] E ne by (auto simp: free_or_emptying_def)
      then have "wd (A + 1) = wd (A - 2 ^ k + 1)" using sa eq by simp
      moreover have "A - 2 ^ k + 1 < 2 ^ 64" using s1 by simp
      ultimately have "A + 1 = A - 2 ^ k + 1" using wd_inj s1(2) by blast
      then show False using \<open>2 ^ k \<le> A\<close> one_less_round [OF d(1)] by simp
    qed
    then show ?thesis using d(8) [of A] ne by (auto simp: full_or_filling_def)
  qed
  then show ?thesis using a sa by auto
qed

inductive_cases tq_stepE: "tq_step s s'"

lemma step_pushed: "tq_step s s' \<Longrightarrow> length (ty_pushed s) \<le> length (ty_pushed s')"
  by (erule tq_stepE) simp_all

lemma tq_step_inv:
  assumes "tq_step s s'" "tinv k A E s" "length (ty_pushed s) < 2 ^ 63"
  shows "\<exists>A' E'. tinv k A' E' s'"
  using assms
proof (induction rule: tq_step.induct)
  case (call_push s t v)
  then have "push_pos (ty_pc s t) = None" "pop_pos (ty_pc s t) = None" by auto
  then show ?case using local_step [OF call_push.prems(1), of "PushStart v" t] by auto
next
  case (call_pop s t)
  then have "push_pos (ty_pc s t) = None" "pop_pos (ty_pc s t) = None" by auto
  then show ?case using local_step [OF call_pop.prems(1), of PopStart t] by auto
next
  case (push_load s t v)
  then show ?case using local_step [OF push_load.prems(1), of "PushLook v (tq_end (ty_queue s))" t] tinvD(3) by fastforce
next
  case (push_look s t v w diff)
  have ok: "pc_ok k A E s (PushClaim v w)" if "diff = 0" using that push_look.hyps(2) push_look_ok [OF push_look.prems push_look.hyps(1)] by metis
  show ?case
    by (intro exI, rule local_step [OF push_look.prems(1)]) (use push_look.hyps(1) ok in \<open>auto simp del: pc_ok.simps(2)\<close>)
next
  case (push_claim s t v w)
  show ?case using push_claim_inv [OF push_claim.prems push_claim.hyps] by (intro exI)
next
  case (push_lost s t v w)
  then show ?case using local_step [OF push_lost.prems(1), of "PushLook v (tq_end (ty_queue s))" t] tinvD(3) by fastforce
next
  case (push_copy s t v w)
  show ?case using push_copy_inv [OF push_copy.prems push_copy.hyps] by (intro exI)
next
  case (push_publish s t w)
  show ?case using push_publish_inv [OF push_publish.prems push_publish.hyps] by (intro exI)
next
  case (pop_load s t)
  then show ?case using local_step [OF pop_load.prems(1), of "PopLook (tq_at (ty_queue s))" t] tinvD(2) by fastforce
next
  case (pop_look s t w diff)
  have ok: "pc_ok k A E s (PopClaim w)" if "diff = 0" using that pop_look.hyps(2) pop_look_ok [OF pop_look.prems pop_look.hyps(1)] by metis
  show ?case
    by (intro exI, rule local_step [OF pop_look.prems(1)]) (use pop_look.hyps(1) ok in \<open>auto simp del: pc_ok.simps(6)\<close>)
next
  case (pop_claim s t w)
  show ?case using pop_claim_inv [OF pop_claim.prems pop_claim.hyps] by (intro exI)
next
  case (pop_lost s t w)
  then show ?case using local_step [OF pop_lost.prems(1), of "PopLook (tq_at (ty_queue s))" t] tinvD(2) by fastforce
next
  case (pop_copy s t w)
  have e: "emptying k A E s w (\<lambda>p. True)" using tinvD(10) [OF pop_copy.prems(1), of t] pop_copy.hyps by simp
  then have "emptying k A E s w (\<lambda>p. get_cell (ty_queue s) w = Some (ty_pushed s ! p))"
    by (rule emptying_mono) (auto simp: cl_def)
  then show ?case using local_step [OF pop_copy.prems(1), of "PopFree w (get_cell (ty_queue s) w)" t] pop_copy.hyps by auto
next
  case (pop_free s t w x)
  show ?case using pop_free_inv [OF pop_free.prems pop_free.hyps] by (intro exI)
qed

subsection \<open>What every run satisfies\<close>

text \<open>A queue that nothing was pushed to yet, with a capacity of at least two.\<close>

definition fresh_tqueue :: "nat \<Rightarrow> 'a tqueue \<Rightarrow> bool" where
  "fresh_tqueue k q \<longleftrightarrow> shape k q \<and> tq_at q = 0 \<and> tq_end q = 0 \<and> (\<forall>i < 2 ^ k. sl_seq (tq_slots q ! i) = wd i)"

lemma start_inv:
  assumes "fresh_tqueue k q" shows "tinv k 0 0 (tq_start q)"
proof -
  have sh: "shape k q" using assms by (simp add: fresh_tqueue_def)
  have "free_or_emptying k (tq_start q) p" if "p < 2 ^ k" for p
    using assms that by (simp add: free_or_emptying_def sq_def tq_start_def slot_at_mod [OF sh] fresh_tqueue_def)
  then show ?thesis using assms
    by (simp add: tinv_def fresh_tqueue_def tq_start_def one_owner_def pushers_def poppers_def)
qed

lemma tq_reach_inv:
  assumes "tq_reach q s" "fresh_tqueue k q" "length (ty_pushed s) < 2 ^ 63"
  shows "\<exists>A E. tinv k A E s"
  using assms
proof (induction rule: tq_reach.induct)
  case start
  then show ?case using start_inv by blast
next
  case (step s s')
  have l: "length (ty_pushed s) < 2 ^ 63" using step_pushed [OF step.hyps(2)] step.prems(2) by simp
  then obtain A E where "tinv k A E s" using step.IH step.prems(1) by blast
  then show ?case using tq_step_inv [OF step.hyps(2) _ l] by blast
qed

lemma tq_fifo:
  assumes "tq_reach q s" "fresh_tqueue k q" "length (ty_pushed s) < 2 ^ 63"
  shows "ty_popped s = map Some (take (length (ty_popped s)) (ty_pushed s))"
    and "length (ty_popped s) \<le> length (ty_pushed s)" "length (ty_pushed s) \<le> length (ty_popped s) + 2 ^ k"
proof -
  obtain A E where "tinv k A E s" using tq_reach_inv [OF assms] by blast
  note d = tinvD [OF this]
  have "length (ty_popped s) = A" using d(4,5,7) by simp
  then show "ty_popped s = map Some (take (length (ty_popped s)) (ty_pushed s))"
    and "length (ty_popped s) \<le> length (ty_pushed s)" "length (ty_pushed s) \<le> length (ty_popped s) + 2 ^ k"
    using d(4-7) by simp_all
qed

lemma tq_delivers:
  assumes "tq_reach q s" "fresh_tqueue k q" "length (ty_pushed s) < 2 ^ 63" "ty_pc s t = PopFree w x"
  shows "\<exists>p < length (ty_popped s). w = wd p \<and> x = Some (ty_pushed s ! p)"
    and "\<lbrakk>ty_pc s u = PopFree w y; u \<noteq> t\<rbrakk> \<Longrightarrow> False"
proof -
  obtain A E where i: "tinv k A E s" using tq_reach_inv [OF assms(1-3)] by blast
  note d = tinvD [OF i]
  have "length (ty_popped s) = A" using d(4,5,7) by simp
  then show "\<exists>p < length (ty_popped s). w = wd p \<and> x = Some (ty_pushed s ! p)"
    using d(10) [of t] unfolding assms(4) pc_ok.simps emptying_def by auto
  show False if "ty_pc s u = PopFree w y" "u \<noteq> t"
    using d(12) that assms(4) unfolding one_owner_def poppers_def by (metis pop_pos.simps(2))
qed

section \<open>One thread: a bounded queue\<close>

definition tq_vals :: "'a tqueue \<Rightarrow> 'a list" where
  "tq_vals q = map (\<lambda>i. the (get_cell q (tq_at q + wd i))) [0..<unat (estimate_tqueue_size q)]"

definition tq_room :: "'a tqueue \<Rightarrow> nat" where
  "tq_room q = unat (tq_capacity q) - unat (estimate_tqueue_size q)"

definition holds_list :: "nat \<Rightarrow> nat \<Rightarrow> 'a tqueue \<Rightarrow> 'a list \<Rightarrow> bool" where
  "holds_list k A q xs \<longleftrightarrow> shape k q \<and> tq_at q = wd A \<and> tq_end q = wd (A + length xs) \<and> length xs \<le> 2 ^ k \<and>
     (\<forall>i < length xs. sl_seq (slot_at q (wd (A + i))) = wd (A + i + 1) \<and> get_cell q (wd (A + i)) = Some (xs ! i)) \<and>
     (\<forall>i. length xs \<le> i \<and> i < 2 ^ k \<longrightarrow> sl_seq (slot_at q (wd (A + i))) = wd (A + i))"

definition wf_tqueue :: "'a tqueue \<Rightarrow> bool" where
  "wf_tqueue q \<longleftrightarrow> (\<exists>k A xs. holds_list k A q xs)"

lemma round_small: "shape k q \<Longrightarrow> (2 :: nat) ^ k < 2 ^ 62"
  by (rule power_strict_increasing) (simp_all add: shape_def)

lemma holds_vals:
  assumes "holds_list k A q xs"
  shows "tq_vals q = xs" "tq_room q = 2 ^ k - length xs" "length xs \<le> 2 ^ k"
proof -
  have h: "shape k q" "tq_at q = wd A" "tq_end q = wd (A + length xs)" "length xs \<le> 2 ^ k"
      "\<forall>i < length xs. get_cell q (wd (A + i)) = Some (xs ! i)"
    using assms by (simp_all add: holds_list_def)
  have "estimate_tqueue_size q = wd (length xs)" using h(2,3) by (simp add: estimate_tqueue_size_def)
  moreover have "length xs < 2 ^ 64" "(2 :: nat) ^ k < 2 ^ 64" using h(4) round_small [OF h(1)] by simp_all
  ultimately have e: "unat (estimate_tqueue_size q) = length xs" "unat (tq_capacity q) = 2 ^ k"
    using h(1) by (simp_all add: shape_def unat_of_nat del: of_nat_power)
  show "tq_vals q = xs" using h(2,5) e(1) by (intro nth_equalityI) (simp_all add: tq_vals_def)
  show "tq_room q = 2 ^ k - length xs" using e by (simp add: tq_room_def)
  show "length xs \<le> 2 ^ k" by (rule h(4))
qed

lemma sint_behind: "0 < n \<Longrightarrow> n < 2 ^ 63 \<Longrightarrow> sint (- wd n) < 0"
proof -
  assume n: "0 < n" "n < 2 ^ 63"
  have "- wd n = word_of_int (- int n)" by simp
  then have "sint (- wd n) = signed_take_bit 63 (- int n)" by (simp only: signed_of_int) simp
  also have "\<dots> = - int n" using n by (intro signed_take_bit_int_eq_self) simp_all
  finally show ?thesis using n(1) by simp
qed

lemma seq_ahead: "wd (A + m) - wd (A + n) = - wd (n - m)" if "m \<le> n" for m n
  using that by (simp add: of_nat_diff)

lemma push_holds:
  assumes h: "holds_list k A q xs"
  shows "length xs < 2 ^ k \<Longrightarrow> \<exists>q' c. push_tqueue q x = Inr (q', Some c) \<and> holds_list k A q' (xs @ [x])"
    and "length xs = 2 ^ k \<Longrightarrow> push_tqueue q x = Inr (q, None)"
proof -
  let ?n = "length xs" and ?E = "A + length xs"
  have sh: "shape k q" and e: "tq_end q = wd ?E" and a: "tq_at q = wd A"
    and full: "\<And>i. i < ?n \<Longrightarrow> sl_seq (slot_at q (wd (A + i))) = wd (A + i + 1) \<and> get_cell q (wd (A + i)) = Some (xs ! i)"
    and free: "\<And>i. \<lbrakk>?n \<le> i; i < 2 ^ k\<rbrakk> \<Longrightarrow> sl_seq (slot_at q (wd (A + i))) = wd (A + i)"
    using h unfolding holds_list_def by blast+
  show "\<exists>q' c. push_tqueue q x = Inr (q', Some c) \<and> holds_list k A q' (xs @ [x])" if n: "?n < 2 ^ k"
  proof -
    let ?q1 = "q\<lparr>tq_end := wd ?E + 1\<rparr>"
    let ?q2 = "set_cell ?q1 (wd ?E) x"
    let ?q = "set_seq ?q2 (wd ?E) (wd ?E + 1)"
    have sh1: "shape k ?q1" using sh by (simp add: counter_shape)
    note sh2 = set_cell_shape(1) [OF sh1, of ?E x]
    have "push_tqueue q x = Inr (?q, Some (sl_data (slot_at ?q2 (wd ?E))))"
      using free [of ?n] n by (simp add: push_tqueue_def e Let_def)
    moreover have "holds_list k A ?q (xs @ [x])"
    proof -
      have slot: "(A + i) mod 2 ^ k = ?E mod 2 ^ k \<longleftrightarrow> i = ?n" if "i < 2 ^ k" for i
        using same_slot [of A ?E k "A + i"] n that by simp
      have s: "sl_seq (slot_at ?q (wd (A + i))) = (if i = ?n then wd ?E + 1 else sl_seq (slot_at q (wd (A + i))))" if "i < 2 ^ k" for i
        using slot [OF that] unfolding set_seq_shape(2) [OF sh2] set_cell_shape(2) [OF sh1] by (simp add: counter_shape del: of_nat_add)
      have c: "get_cell ?q (wd (A + i)) = (if i = ?n then Some x else get_cell q (wd (A + i)))" if "i < 2 ^ k" for i
        using slot [OF that] unfolding set_seq_shape(3) [OF sh2] set_cell_shape(3) [OF sh1] by (simp add: counter_shape del: of_nat_add)
      have ends: "tq_at ?q = wd A" "tq_end ?q = wd (A + length (xs @ [x]))"
        using a by (simp_all add: set_seq_def set_cell_def)
      have f: "sl_seq (slot_at ?q (wd (A + i))) = wd (A + i + 1) \<and> get_cell ?q (wd (A + i)) = Some ((xs @ [x]) ! i)" if "i < length (xs @ [x])" for i
      proof (cases "i = ?n")
        case True
        then show ?thesis using s [OF n] c [OF n] by simp
      next
        case False
        then have i: "i < ?n" "i < 2 ^ k" using that n by simp_all
        show ?thesis using s [OF i(2)] c [OF i(2)] full [OF i(1)] i(1) False by (simp add: nth_append)
      qed
      have g: "sl_seq (slot_at ?q (wd (A + i))) = wd (A + i)" if "length (xs @ [x]) \<le> i" "i < 2 ^ k" for i
        using s [OF that(2)] free [of i] that by simp
      have room: "length (xs @ [x]) \<le> 2 ^ k" using n by simp
      show ?thesis unfolding holds_list_def using set_seq_shape(1) [OF sh2, of ?E "wd ?E + 1"] ends room f g by blast
    qed
    ultimately show ?thesis by blast
  qed
  show "push_tqueue q x = Inr (q, None)" if n: "?n = 2 ^ k"
  proof -
    have k: "(1 :: nat) < 2 ^ k" "(2 :: nat) ^ k < 2 ^ 62" using one_less_round [OF sh] round_small [OF sh] by auto
    have "slot_at q (wd ?E) = slot_at q (wd (A + 0))" unfolding slot_at_mod [OF sh] n by simp
    then have "sl_seq (slot_at q (wd ?E)) = wd (A + 1)" using full [of 0] n by simp
    then have d: "sl_seq (slot_at q (wd ?E)) - wd ?E = - wd (2 ^ k - 1)" using seq_ahead [of 1 "2 ^ k" A] k n by simp
    have neg: "sint (- wd (2 ^ k - 1)) < 0" using k by (intro sint_behind) simp_all
    then have "sl_seq (slot_at q (wd ?E)) \<noteq> wd ?E" using d by auto
    moreover have "sint (sl_seq (slot_at q (wd ?E)) - wd ?E) < 0" using d neg by (simp only:)
    ultimately show ?thesis unfolding push_tqueue_def e Let_def by (simp del: of_nat_add)
  qed
qed

lemma pop_holds:
  assumes h: "holds_list k A q xs"
  shows "xs = x # ys \<Longrightarrow> \<exists>q'. pop_tqueue q = Inr (q', Some x) \<and> holds_list k (A + 1) q' ys"
    and "xs = [] \<Longrightarrow> pop_tqueue q = Inr (q, None)"
proof -
  have sh: "shape k q" and e: "tq_end q = wd (A + length xs)" and a: "tq_at q = wd A" and len: "length xs \<le> 2 ^ k"
    and full: "\<And>i. i < length xs \<Longrightarrow> sl_seq (slot_at q (wd (A + i))) = wd (A + i + 1) \<and> get_cell q (wd (A + i)) = Some (xs ! i)"
    and free: "\<And>i. \<lbrakk>length xs \<le> i; i < 2 ^ k\<rbrakk> \<Longrightarrow> sl_seq (slot_at q (wd (A + i))) = wd (A + i)"
    using h unfolding holds_list_def by blast+
  show "\<exists>q'. pop_tqueue q = Inr (q', Some x) \<and> holds_list k (A + 1) q' ys" if xs: "xs = x # ys"
  proof -
    let ?q1 = "q\<lparr>tq_at := wd A + 1\<rparr>"
    let ?q = "set_seq ?q1 (wd A) (wd A + tq_capacity q)"
    have sh1: "shape k ?q1" using sh by (simp add: counter_shape)
    have cap: "wd A + tq_capacity q = wd (A + 2 ^ k)" using sh by (simp add: shape_def)
    have v: "get_cell q (wd A) = Some x" "sl_seq (slot_at q (wd A)) = wd (A + 1)" using full [of 0] xs by simp_all
    have "pop_tqueue q = Inr (?q, Some x)" using v by (simp add: pop_tqueue_def a Let_def)
    moreover have "holds_list k (A + 1) ?q ys"
    proof -
      have slot: "(A + 1 + i) mod 2 ^ k = A mod 2 ^ k \<longleftrightarrow> i + 1 = 2 ^ k" if "i < 2 ^ k" for i
      proof -
        have "(A + 1 + i) mod 2 ^ k = (A + 2 ^ k) mod 2 ^ k \<longleftrightarrow> A + 1 + i = A + 2 ^ k"
          by (rule same_slot [of "A + 1"]) (use that in simp_all)
        then show ?thesis by auto
      qed
      have s: "sl_seq (slot_at ?q (wd (A + 1 + i))) = (if i + 1 = 2 ^ k then wd (A + 2 ^ k) else sl_seq (slot_at q (wd (A + (i + 1)))))"
        if "i < 2 ^ k" for i
        using slot [OF that] unfolding set_seq_shape(2) [OF sh1] cap by (simp add: counter_shape add.assoc add.commute [of 1])
      have c: "get_cell ?q (wd (A + 1 + i)) = get_cell q (wd (A + (i + 1)))" for i
        unfolding set_seq_shape(3) [OF sh1] by (simp add: counter_shape add.assoc add.commute [of 1])
      have ends: "tq_at ?q = wd (A + 1)" "tq_end ?q = wd (A + 1 + length ys)" using e xs by (simp_all add: set_seq_def)
      have f: "sl_seq (slot_at ?q (wd (A + 1 + i))) = wd (A + 1 + i + 1) \<and> get_cell ?q (wd (A + 1 + i)) = Some (ys ! i)" if "i < length ys" for i
      proof -
        have i: "i + 1 < length xs" "i < 2 ^ k" "i + 1 \<noteq> 2 ^ k" using that xs len by simp_all
        show ?thesis using full [OF i(1)] s [OF i(2)] c [of i] i(3) xs by (simp add: add.assoc)
      qed
      have g: "sl_seq (slot_at ?q (wd (A + 1 + i))) = wd (A + 1 + i)" if "length ys \<le> i" "i < 2 ^ k" for i
      proof (cases "i + 1 = 2 ^ k")
        case True
        have "A + 1 + i = A + 2 ^ k" using True by simp
        then show ?thesis using s [OF that(2)] True by (simp only: if_P)
      next
        case False
        then show ?thesis using s [OF that(2)] free [of "i + 1"] that xs by (simp add: add.assoc)
      qed
      have room: "length ys \<le> 2 ^ k" using len xs by simp
      show ?thesis unfolding holds_list_def using set_seq_shape(1) [OF sh1, of A "wd A + tq_capacity q"] ends room f g by blast
    qed
    ultimately show ?thesis by blast
  qed
  show "pop_tqueue q = Inr (q, None)" if "xs = []"
  proof -
    have "sl_seq (slot_at q (wd A)) = wd A" using free [of 0] that by simp
    moreover have "sint (- wd 1) < 0" by (rule sint_behind) simp_all
    ultimately show ?thesis by (simp add: pop_tqueue_def a Let_def)
  qed
qed

definition tpush :: "'a tqueue \<Rightarrow> 'a \<Rightarrow> ('a tqueue \<times> bool) res" where
  "tpush q x = bind_res (push_tqueue q x) (\<lambda>(q, slot). Inr (q, slot \<noteq> None))"

interpretation shared: fifo wf_tqueue tq_vals tq_room tpush pop_tqueue
proof unfold_locales
  fix q :: "'a tqueue" and x
  assume "wf_tqueue q"
  then obtain k A xs where h: "holds_list k A q xs" by (auto simp: wf_tqueue_def)
  note v = holds_vals [OF h]
  show "\<exists>q'. tpush q x = Inr (q', 0 < tq_room q) \<and> wf_tqueue q' \<and> (tq_room q = 0 \<longrightarrow> q' = q) \<and>
      (0 < tq_room q \<longrightarrow> tq_vals q' = tq_vals q @ [x] \<and> Suc (tq_room q') = tq_room q)"
  proof (cases "length xs < 2 ^ k")
    case True
    then obtain q' c where q': "push_tqueue q x = Inr (q', Some c)" "holds_list k A q' (xs @ [x])" using push_holds(1) [OF h] by blast
    show ?thesis using q'(1) holds_vals [OF q'(2)] v True q'(2) by (auto simp: tpush_def wf_tqueue_def)
  next
    case False
    then show ?thesis using push_holds(2) [OF h, of x] v h by (auto simp: tpush_def wf_tqueue_def)
  qed
next
  fix q :: "'a tqueue"
  assume "wf_tqueue q" "tq_vals q = []"
  then show "pop_tqueue q = Inr (q, None)" using holds_vals(1) pop_holds(2) unfolding wf_tqueue_def by metis
next
  fix q :: "'a tqueue" and x xs
  assume "wf_tqueue q" and e: "tq_vals q = x # xs"
  then obtain k A where h: "holds_list k A q (x # xs)" unfolding wf_tqueue_def using holds_vals(1) by metis
  obtain q' where q': "pop_tqueue q = Inr (q', Some x)" "holds_list k (A + 1) q' xs" using pop_holds(1) [OF h refl] by blast
  show "\<exists>q'. pop_tqueue q = Inr (q', Some x) \<and> wf_tqueue q' \<and> tq_vals q' = xs \<and> tq_room q' = Suc (tq_room q)"
    using q' holds_vals [OF q'(2)] holds_vals(2,3) [OF h] by (auto simp: wf_tqueue_def)
qed

section \<open>Creation\<close>

lemma init_four:
  "foldl (\<lambda>s i. init_state (init_state (init_state (init_state s (i * 4)) (i * 4 + 1)) (i * 4 + 2)) (i * 4 + 3)) s [0..<m] =
     foldl init_state s [0..<m * 4]"
proof (induction m)
  case (Suc m)
  have "[0..<Suc m * 4] = [0..<m * 4] @ [m * 4, m * 4 + 1, m * 4 + 2, m * 4 + 3]"
  proof -
    have "Suc m * 4 = Suc (Suc (Suc (Suc (m * 4))))" by simp
    then show ?thesis by (simp only: upt_Suc) (simp del: upt_Suc)
  qed
  then show ?case using Suc by simp
qed simp

lemma init_all:
  "n \<le> length s \<Longrightarrow> length (foldl init_state s [0..<n]) = length s \<and>
     (\<forall>i < n. foldl init_state s [0..<n] ! i = \<lparr>sl_seq = wd i, sl_data = i\<rparr>)"
  by (induction n) (auto simp: init_state_def nth_list_update less_Suc_eq)

lemma power_of_two_passes: "k < 64 \<Longrightarrow> wd (2 ^ k) \<noteq> 0 \<and> wd (2 ^ k) AND (wd (2 ^ k) - 1) = 0"
  by (simp add: mask_eq_decr_exp [symmetric] take_bit_eq_mask [symmetric])
    (simp add: take_bit_eq_mod)

lemma create_tqueue_fresh:
  assumes "1 \<le> k" "k < 62"
  shows "\<exists>q. create_tqueue True True True mem (wd (2 ^ k)) 8 = Some q \<and> fresh_tqueue k q"
proof -
  have "(2 :: nat) ^ k < 2 ^ 64" using assms by (intro power_strict_increasing) simp_all
  then have n: "unat (wd (2 ^ k)) = 2 ^ k" by (simp add: unat_of_nat del: of_nat_power)
  have up: "[0..<2 ^ k div 4 * 4] @ [2 ^ k div 4 * 4..<2 ^ k] = [0..<2 ^ k]"
    using upt_add_eq_append [of 0 "2 ^ k div 4 * 4" "2 ^ k mod 4"] by simp
  note i = init_all [of "2 ^ k" "map mem [0..<2 ^ k]"]
  have "foldl init_state (foldl init_state (map mem [0..<2 ^ k]) [0..<2 ^ k div 4 * 4]) [2 ^ k div 4 * 4..<2 ^ k] =
      foldl init_state (map mem [0..<2 ^ k]) [0..<2 ^ k]"
    unfolding foldl_append [symmetric] up ..
  then show ?thesis
    using power_of_two_passes [of k] assms i
    unfolding create_tqueue_def Let_def n init_four
    by (simp add: fresh_tqueue_def shape_def)
qed

lemma reset_tqueue_fresh:
  assumes "shape k q" shows "fresh_tqueue k (reset_tqueue q)"
  using assms by (auto simp: fresh_tqueue_def shape_def reset_tqueue_def)

lemma fresh_holds: "fresh_tqueue k q \<Longrightarrow> holds_list k 0 q []"
  by (auto simp: fresh_tqueue_def holds_list_def slot_at_mod)

text \<open>
  A queue of capacity one does not work: the counter that marks its slot as free is the one that
  marks it as full. A second push overwrites the first value, and no pop ever returns.
\<close>

lemma capacity_one:
  "\<exists>q q1 q2. create_tqueue True True True (\<lambda>_. \<lparr>sl_seq = 0, sl_data = 0\<rparr>) 1 8 = Some q \<and>
     push_tqueue q (x :: nat) = Inr (q1, Some 0) \<and> push_tqueue q1 y = Inr (q2, Some 0) \<and> pop_tqueue q2 = Inl Endless"
  by (simp add: create_tqueue_def Let_def init_state_def push_tqueue_def pop_tqueue_def set_cell_def set_seq_def
      slot_at_def slot_index_def get_cell_def)

text \<open>One value on its way through a fresh queue, up to where its pop has copied it out.\<close>

lemma one_job:
  assumes "fresh_tqueue k q"
  shows "\<exists>s. tq_reach q s \<and> ty_pushed s = [v] \<and> ty_pc s 0 = PopFree 0 (Some v)"
proof -
  have sh: "shape k q" and q0: "tq_end q = 0" "tq_at q = 0" "sl_seq (slot_at q 0) = 0"
    using assms slot_at_mod [of k q 0] by (simp_all add: fresh_tqueue_def)
  define q1 where "q1 = set_seq (set_cell (q\<lparr>tq_end := 1\<rparr>) 0 v) 0 1"
  have sh1: "shape k (q\<lparr>tq_end := 1\<rparr>)" using sh by (simp add: counter_shape)
  note c = set_cell_shape [OF sh1, of 0 v, unfolded of_nat_0]
  have q1: "tq_at q1 = 0" "sl_seq (slot_at q1 0) = 1" "get_cell q1 0 = Some v"
    using q0 set_seq_shape(2,3) [OF c(1), of 0 1 0] c(3) [of 0]
    by (simp_all add: q1_def) (simp add: set_seq_def set_cell_def)
  define s where "s pc q ps qs = \<lparr>ty_queue = q, ty_pc = (\<lambda>_. Idle)(0 := pc), ty_pushed = ps, ty_popped = qs\<rparr>" for pc and q :: "'a tqueue" and ps qs
  have s: "ty_pc (s pc q ps qs) 0 = pc" "ty_queue (s pc q ps qs) = q" "goto 0 pc' (s pc q ps qs) = s pc' q ps qs"
      "on_queue f (s pc q ps qs) = s pc (f q) ps qs" "(s pc q ps qs)\<lparr>ty_pushed := ps'\<rparr> = s pc q ps' qs" "(s pc q ps qs)\<lparr>ty_popped := qs'\<rparr> = s pc q ps qs'"
      "ty_pushed (s pc q ps qs) = ps" "ty_popped (s pc q ps qs) = qs" "tq_start q = s Idle q [] []"
    for pc pc' f q ps qs ps' qs'
    by (simp_all add: s_def goto_def on_queue_def tq_start_def fun_eq_iff)
  let ?q' = "q\<lparr>tq_end := 1\<rparr>" and ?q2 = "q1\<lparr>tq_at := 1\<rparr>"
  have "tq_reach q (s Idle q [] [])" using tq_reach.start [of q] by (simp add: s)
  then have "tq_reach q (s (PushStart v) q [] [])" using tq_reach.step [OF _ call_push [of "s Idle q [] []" 0 v]] by (simp add: s)
  then have "tq_reach q (s (PushLook v 0) q [] [])" using tq_reach.step [OF _ push_load [of "s (PushStart v) q [] []" 0 v]] by (simp add: s q0)
  then have "tq_reach q (s (PushClaim v 0) q [] [])" using tq_reach.step [OF _ push_look [of "s (PushLook v 0) q [] []" 0 v 0 0]] by (simp add: s q0)
  then have "tq_reach q (s (PushCopy v 0) ?q' [v] [])" using tq_reach.step [OF _ push_claim [of "s (PushClaim v 0) q [] []" 0 v 0]] by (simp add: s q0)
  then have "tq_reach q (s (PushPublish 0) (set_cell ?q' 0 v) [v] [])" using tq_reach.step [OF _ push_copy [of "s (PushCopy v 0) ?q' [v] []" 0 v 0]] by (simp add: s)
  then have "tq_reach q (s (PushDone True) q1 [v] [])" using tq_reach.step [OF _ push_publish [of "s (PushPublish 0) (set_cell ?q' 0 v) [v] []" 0 0]] by (simp add: s q1_def)
  then have "tq_reach q (s PopStart q1 [v] [])" using tq_reach.step [OF _ call_pop [of "s (PushDone True) q1 [v] []" 0]] by (simp add: s)
  then have "tq_reach q (s (PopLook 0) q1 [v] [])" using tq_reach.step [OF _ pop_load [of "s PopStart q1 [v] []" 0]] by (simp add: s q1)
  then have "tq_reach q (s (PopClaim 0) q1 [v] [])" using tq_reach.step [OF _ pop_look [of "s (PopLook 0) q1 [v] []" 0 0 0]] by (simp add: s q1)
  then have "tq_reach q (s (PopCopy 0) ?q2 [v] [Some v])" using tq_reach.step [OF _ pop_claim [of "s (PopClaim 0) q1 [v] []" 0 0]] by (simp add: s q1)
  then have "tq_reach q (s (PopFree 0 (Some v)) ?q2 [v] [Some v])" using tq_reach.step [OF _ pop_copy [of "s (PopCopy 0) ?q2 [v] [Some v]" 0 0]] by (simp add: s q1 counter_shape)
  then show ?thesis using s(1) [of "PopFree 0 (Some v)" ?q2 "[v]" "[Some v]"] s(7) [of "PopFree 0 (Some v)" ?q2 "[v]" "[Some v]"] by blast
qed

end
