(* ===== verification/Transactions.thy ===== *)
theory Transactions
  imports Auth TQueue
begin

text \<open>
  \<open>src/transactions/transactions.c\<close>, one turn of the loop of \<open>thread.c\<close> (the loop is in \<open>Server\<close>), and the part of \<open>src/server/read_command.c\<close> that
  hands a parsed command over: how commands become transactions, wait in the shared queue and are executed.

  The world is the state of the server that commands can reach. A handler is an entry of the table of
  commands: a command on data of the earlier theories, lifted to the world, or a function on the world. What leaves the server
  is recorded in \<open>w_out\<close>: writes to a socket, and requests to an I/O thread to write the bytes of a response. Most
  responses lie in the write buffer of the client; that a later command may overwrite them before the
  I/O thread has sent them is not modelled, nor are the reference counts of the read buffers.
\<close>

section \<open>The world\<close>

datatype event = Sent nat bytes | Requested nat bytes

record ('z, 'f) world =
  w_clients :: clients
  w_auth :: auth
  w_dbs :: "('z, 'f) databases"
  w_initial :: nat                  \<comment> \<open>\<open>initial_database\<close>\<close>
  w_queue :: "block tqueue"
  w_keyspace :: "string_t vector"
  w_seconds :: "32 word"            \<comment> \<open>\<open>conf->autosave\<close>\<close>
  w_count :: "32 word"
  w_operations :: "32 word"         \<comment> \<open>\<open>database_operations\<close>\<close>
  w_saved_at :: int                 \<comment> \<open>\<open>tx_last_saved_at\<close>\<close>
  w_age :: "32 word"
  w_start_at :: int
  w_processed :: "64 word"
  w_out :: "event list"

text \<open>What \<open>localtime_r\<close> of the C library says about a time.\<close>

record tm =
  tm_mday :: nat
  tm_mon :: nat
  tm_year :: int
  tm_hour :: nat
  tm_min :: nat
  tm_sec :: nat

text \<open>
  The outcome of what a handler asks of the system: the environment of the commands on data, the clocks (one
  reading of the expiry clock per attempt), the keyspace's memory, the derivation of passwords,
  random bytes, allocations, what saving answers, the process, and how the program was built and configured.
\<close>

datatype bgsave_status = BGSAVE_ALREADY_SAVING | BGSAVE_THREAD_FAILED | BGSAVE_SUCCESSFUL

record ('z, 'f) genv =
  g_env :: "('z, 'f) env"
  g_time :: "int option"
  g_clock :: "nat \<Rightarrow> 64 word option"
  g_keys :: "nat \<Rightarrow> string_t option list option"
  g_kdf :: kdf
  g_ok :: "nat \<Rightarrow> bool"
  g_fresh :: "nat option"
  g_random :: bytes
  g_realtime :: "(int \<times> int) option"      \<comment> \<open>seconds and nanoseconds\<close>
  g_localtime :: "int \<Rightarrow> tm"
  g_saved :: bool
  g_bgsave :: bgsave_status
  g_mtime :: "64 word option"
  g_pid :: int
  g_version :: bytes
  g_git_hash :: bytes
  g_gcc :: bytes
  g_linux :: bool
  g_tls :: bool
  g_max_blocks :: "32 word"

record wentry =
  we_client :: "nat option"
  we_args :: "string_t list"
  we_database :: nat
  we_password :: nat

record ('z, 'f) handler =
  h_name :: bytes
  h_permissions :: "32 word"
  h_affect :: bool
  h_access :: bool
  h_waiting :: bool
  h_subcommands :: "bytes list"
  h_get_keys :: "(entry \<Rightarrow> string_t list) option"
  h_run :: "('z, 'f) gmp \<Rightarrow> ('z, 'f) genv \<Rightarrow> wentry \<Rightarrow> ('z, 'f) world \<Rightarrow> (('z, 'f) world \<times> bytes) res"

definition client_at :: "('z, 'f) world \<Rightarrow> nat \<Rightarrow> client" where
  "client_at w i = cs_slots (w_clients w) ! i"

definition set_client :: "('z, 'f) world \<Rightarrow> nat \<Rightarrow> client \<Rightarrow> ('z, 'f) world" where
  "set_client w i c = w\<lparr>w_clients := (w_clients w)\<lparr>cs_slots := (cs_slots (w_clients w))[i := c]\<rparr>\<rparr>"

definition emit :: "event \<Rightarrow> ('z, 'f) world \<Rightarrow> ('z, 'f) world" where
  "emit ev w = w\<lparr>w_out := w_out w @ [ev]\<rparr>"

definition database_at :: "('z, 'f) world \<Rightarrow> nat \<Rightarrow> ('z, 'f) database res" where
  "database_at w a = (case w_dbs w of None \<Rightarrow> Inl NullDeref | Some l \<Rightarrow> bind_res (node_at l (Some a)) (\<lambda>n. Inr (nd_data n)))"

definition put_database :: "('z, 'f) world \<Rightarrow> nat \<Rightarrow> ('z, 'f) database \<Rightarrow> ('z, 'f) world" where
  "put_database w a db = w\<lparr>w_dbs := map_option (\<lambda>l. l\<lparr>ll_nodes := (ll_nodes l)(a \<mapsto> (the (ll_nodes l a))\<lparr>nd_data := db\<rparr>)\<rparr>) (w_dbs w)\<rparr>"

text \<open>The entry of a command on data: the client as its protocol version, the password as its permissions.\<close>

definition plain_entry :: "wentry \<Rightarrow> ('z, 'f) world \<Rightarrow> entry res" where
  "plain_entry we w = bind_res (get_password (w_auth w) (we_password we)) (\<lambda>pw.
     Inr \<lparr>en_client = map_option (\<lambda>i. cl_protover (client_at w i)) (we_client we), en_args = we_args we, en_permissions = pw_permissions pw\<rparr>)"

definition run_on_data ::
  "('z, 'f) command \<Rightarrow> ('z, 'f) gmp \<Rightarrow> ('z, 'f) genv \<Rightarrow> wentry \<Rightarrow> ('z, 'f) world \<Rightarrow> (('z, 'f) world \<times> bytes) res" where
  "run_on_data c g e we w =
     bind_res (plain_entry we w) (\<lambda>en.
     bind_res (database_at w (we_database we)) (\<lambda>db.
     bind_res (c_run c g (g_env e) en db) (\<lambda>(db, bs). Inr (put_database w (we_database we) db, bs))))"

definition on_data :: "('z, 'f) command \<Rightarrow> ('z, 'f) handler" where
  "on_data c = \<lparr>h_name = c_name c, h_permissions = c_permissions c, h_affect = c_affect c, h_access = c_access c, h_waiting = c_waiting c,
     h_subcommands = [], h_get_keys = Some (c_get_keys c), h_run = run_on_data c\<rparr>"

section \<open>Executing a transaction\<close>

definition NO_PERMISSION :: bytes where
  "NO_PERMISSION = ''-No permissions to execute this command'' @ CRLF"

definition check_kv_expiries ::
  "64 word option \<Rightarrow> string_t option \<Rightarrow> ('z, 'f) database \<Rightarrow> (string_t option \<times> ('z, 'f) database \<times> bool) res" where
  "check_kv_expiries now element db = (case element of None \<Rightarrow> Inl NullDeref
     | Some k \<Rightarrow> bind_res (get_data db (str_bytes k)) (\<lambda>r. case r of
           None \<Rightarrow> Inr (element, db, True)
         | Some (i, kv) \<Rightarrow> bind_res (check_kv_expiry now db (str_bytes k) kv) (\<lambda>(db, state).
             Inr (element, db, state \<in> {EXPIRY_NOT_EXPIRED, EXPIRY_EXPIRED}))))"

definition EXPIRY_RETRY_COUNT :: nat where
  "EXPIRY_RETRY_COUNT = 32"

fun expiry_loop ::
  "(nat \<Rightarrow> 64 word option) \<Rightarrow> string_t vector \<Rightarrow> ('z, 'f) database \<Rightarrow> nat \<Rightarrow> (string_t vector \<times> ('z, 'f) database) res" where
  "expiry_loop clock keyspace db 0 = Inr (keyspace, db)"
| "expiry_loop clock keyspace db (Suc n) =
     bind_res (foreach_vector keyspace (check_kv_expiries (clock n)) db) (\<lambda>(keyspace, db, status).
       if status then Inr (keyspace, db) else expiry_loop clock keyspace db n)"

definition expire_keys ::
  "('z, 'f) genv \<Rightarrow> ('z, 'f) handler \<Rightarrow> wentry \<Rightarrow> ('z, 'f) world \<Rightarrow> ('z, 'f) world res" where
  "expire_keys e h we w =
     (if \<not> h_access h then Inr w
      else case h_get_keys h of None \<Rightarrow> Inr w
      | Some get_keys \<Rightarrow>
          bind_res (plain_entry we w) (\<lambda>en.
          bind_res (insert_keys (g_keys e) (w_keyspace w) (get_keys en)) (\<lambda>keyspace.
          if vec_count keyspace = 0 then Inr (w\<lparr>w_keyspace := keyspace\<rparr>)
          else bind_res (database_at w (we_database we)) (\<lambda>db.
            bind_res (expiry_loop (g_clock e) keyspace db EXPIRY_RETRY_COUNT) (\<lambda>(keyspace, db).
            bind_res (clear_vector keyspace False) (\<lambda>(keyspace, _).
              Inr ((put_database w (we_database we) db)\<lparr>w_keyspace := keyspace\<rparr>)))))))"

definition write_to_socket :: "nat option \<Rightarrow> bytes \<Rightarrow> ('z, 'f) world \<Rightarrow> ('z, 'f) world res" where
  "write_to_socket client bs w = (case client of None \<Rightarrow> Inl NullDeref | Some i \<Rightarrow> Inr (emit (Sent i bs) w))"

definition execute_transaction ::
  "('z, 'f) gmp \<Rightarrow> ('z, 'f) handler list \<Rightarrow> ('z, 'f) genv \<Rightarrow> nat option \<Rightarrow> nat \<Rightarrow> transaction \<Rightarrow> ('z, 'f) world \<Rightarrow>
   (('z, 'f) world \<times> bytes) res" where
  "execute_transaction g commands e client password tx w =
     (let h = commands ! tx_command tx;
          we = \<lparr>we_client = client, we_args = tx_args tx, we_database = tx_database tx, we_password = password\<rparr> in
      bind_res (get_password (w_auth w) password) (\<lambda>pw.
        if pw_permissions pw AND h_permissions h \<noteq> h_permissions h then
          bind_res (write_to_socket client NO_PERMISSION w) (\<lambda>w. Inr (w, []))
        else bind_res (expire_keys e h we w) (\<lambda>w. h_run h g e we w)))"

text \<open>
  \<open>check_autosave\<close>: after a save the code runs into \<open>unreachable()\<close>, whatever the save answered.
\<close>

definition check_autosave :: "int option \<Rightarrow> ('z, 'f) handler \<Rightarrow> ('z, 'f) world \<Rightarrow> ('z, 'f) world res" where
  "check_autosave time h w =
     (if \<not> h_affect h then Inr w
      else case time of None \<Rightarrow> Inl AssertFailed
      | Some current_time \<Rightarrow>
          let w = w\<lparr>w_operations := w_operations w + 1\<rparr>; until = w_saved_at w + uint (w_seconds w) in
          if w_count w \<le> w_operations w \<and> current_time < until then Inl Undefined
          else if until \<le> current_time then Inr (w\<lparr>w_operations := 1, w_saved_at := current_time\<rparr>)
          else Inr w)"

text \<open>A request to the I/O thread of the client; a slot that is free by then gets none.\<close>

definition add_io_request :: "nat option \<Rightarrow> bytes \<Rightarrow> ('z, 'f) world \<Rightarrow> ('z, 'f) world res" where
  "add_io_request client bs w = (case client of None \<Rightarrow> Inl NullDeref
     | Some i \<Rightarrow> if live (client_at w i) then Inr (emit (Requested i bs) w) else Inr w)"

text \<open>The responses of the transactions of a block that \<open>EXEC\<close> queued, without the empty ones.\<close>

fun execute_all ::
  "('z, 'f) gmp \<Rightarrow> ('z, 'f) handler list \<Rightarrow> (nat \<Rightarrow> ('z, 'f) genv) \<Rightarrow> nat option \<Rightarrow> nat \<Rightarrow> transaction list \<Rightarrow> ('z, 'f) world \<Rightarrow>
   (('z, 'f) world \<times> bytes list) res" where
  "execute_all g commands e client password [] w = Inr (w, [])"
| "execute_all g commands e client password (tx # txs) w =
     bind_res (execute_transaction g commands (e 0) client password tx w) (\<lambda>(w, result).
     bind_res (check_autosave (g_time (e 0)) (commands ! tx_command tx) w) (\<lambda>w.
     bind_res (execute_all g commands (\<lambda>i. e (i + 1)) client password txs w) (\<lambda>(w, results).
       Inr (w, if result = [] then results else result # results))))"

definition block_response :: "bytes list \<Rightarrow> bytes" where
  "block_response results = ''*'' @ decimal (length results) @ CRLF @ concat results"

definition execute_transaction_block ::
  "('z, 'f) gmp \<Rightarrow> ('z, 'f) handler list \<Rightarrow> (nat \<Rightarrow> ('z, 'f) genv) \<Rightarrow> block \<Rightarrow> ('z, 'f) world \<Rightarrow> ('z, 'f) world res" where
  "execute_transaction_block g commands e bk w =
     (let client = (if live (client_at w (bk_client bk)) then Some (bk_client bk) else None) in
      case bk_type bk of
        TX_DIRECT \<Rightarrow>
          (case bk_transactions bk of [] \<Rightarrow> Inl NullDeref
           | tx # _ \<Rightarrow>
               bind_res (execute_transaction g commands (e 0) client (bk_password bk) tx w) (\<lambda>(w, response).
               bind_res (check_autosave (g_time (e 0)) (commands ! tx_command tx) w) (\<lambda>w.
                 if response = [] then Inr w else add_io_request client response w)))
      | TX_MULTIPLE \<Rightarrow>
          bind_res (execute_all g commands e client (bk_password bk) (bk_transactions bk) w) (\<lambda>(w, results).
            if client = None then Inl NullDeref
            else if MAX_RESPONSE_SIZE < length (block_response results) then Inl OutOfBounds
            else add_io_request client (block_response results) w)
      | _ \<Rightarrow> Inr w)"

definition remove_transaction_block :: "block \<Rightarrow> ('z, 'f) world \<Rightarrow> ('z, 'f) world" where
  "remove_transaction_block bk w = (case bk_type bk of
       TX_DIRECT \<Rightarrow> w\<lparr>w_processed := w_processed w + 1\<rparr>
     | TX_MULTIPLE \<Rightarrow> w\<lparr>w_processed := w_processed w + word_of_nat (length (bk_transactions bk))\<rparr>
     | _ \<Rightarrow> w)"

text \<open>\<open>free_client\<close>: what disconnecting does to the world beside the slot is to drop the block that waits.\<close>

definition free_client :: "client \<Rightarrow> ('z, 'f) world \<Rightarrow> ('z, 'f) world" where
  "free_client c w = (case cl_waiting_block c of None \<Rightarrow> w | Some bk \<Rightarrow> remove_transaction_block bk w)"

text \<open>One turn of the loop of the transaction thread that finds a block.\<close>

definition transaction_turn ::
  "('z, 'f) gmp \<Rightarrow> ('z, 'f) handler list \<Rightarrow> (nat \<Rightarrow> ('z, 'f) genv) \<Rightarrow> ('z, 'f) world \<Rightarrow> ('z, 'f) world res" where
  "transaction_turn g commands e w =
     bind_res (pop_tqueue (w_queue w)) (\<lambda>(q, popped). case popped of
         None \<Rightarrow> Inr (w\<lparr>w_queue := q\<rparr>)
       | Some bk \<Rightarrow> bind_res (execute_transaction_block g commands e bk (w\<lparr>w_queue := q\<rparr>)) (\<lambda>w.
           Inr (remove_transaction_block bk w)))"

section \<open>Handing a command over\<close>

definition prepare_transaction :: "client \<Rightarrow> nat \<Rightarrow> string_t list \<Rightarrow> transaction" where
  "prepare_transaction c command args = \<lparr>tx_args = args, tx_command = command, tx_database = cl_database c\<rparr>"

text \<open>With a full queue the loop of the direct case waits for the transaction thread.\<close>

definition add_transaction ::
  "bool \<Rightarrow> bool \<Rightarrow> ('z, 'f) handler list \<Rightarrow> nat \<Rightarrow> nat \<Rightarrow> string_t list \<Rightarrow> ('z, 'f) world \<Rightarrow> (('z, 'f) world \<times> bool) res" where
  "add_transaction ok1 ok2 commands i command args w =
     (let c = client_at w i; tx = prepare_transaction c command args in
      if cl_waiting_block c = None \<or> h_waiting (commands ! command) then
        if \<not> ok1 then Inr (w, False)
        else if \<not> ok2 then Inr (w, False)
        else bind_res (push_tqueue (w_queue w) \<lparr>bk_type = TX_DIRECT, bk_client = i, bk_password = cl_password c, bk_transactions = [tx]\<rparr>)
          (\<lambda>(q, slot). if slot = None then Inl Endless else Inr (w\<lparr>w_queue := q\<rparr>, True))
      else if \<not> ok1 then Inr (w, False)
      else case cl_waiting_block c of None \<Rightarrow> Inl NullDeref
        | Some bk \<Rightarrow> Inr (set_client w i (c\<lparr>cl_waiting_block := Some (bk\<lparr>bk_transactions := bk_transactions bk @ [tx]\<rparr>)\<rparr>), True))"

definition LOCKED :: bytes where
  "LOCKED = ''-Your client is locked, you cannot use any commands until your client is unlocked'' @ CRLF"

definition NOT_ENQUEUED :: bytes where
  "NOT_ENQUEUED = ''-Transaction cannot be enqueued because of server settings'' @ CRLF"

definition QUEUED :: bytes where
  "QUEUED = ''+QUEUED'' @ CRLF"

definition unknown_command :: "bytes \<Rightarrow> bytes" where
  "unknown_command name = ''-Unknown command '' @ [CHR 0x27] @ c_string name @ [CHR 0x27] @ CRLF"

fun get_command_index :: "('z, 'f) handler list \<Rightarrow> bytes \<Rightarrow> nat \<Rightarrow> nat option" where
  "get_command_index [] name i = None"
| "get_command_index (h # hs) name i = (if h_name h = name then Some i else get_command_index hs name (i + 1))"

text \<open>
  \<open>get_used_command\<close>, for \<open>CLIENT INFO\<close>: the subcommand is the first one whose name \<open>strcasecmp\<close> finds equal to the first argument,
  read up to a NUL.
\<close>

definition strcasecmp :: "bytes \<Rightarrow> bytes \<Rightarrow> bool" where
  "strcasecmp a b \<longleftrightarrow> map upper_char a = map upper_char b"

definition get_used_command :: "('z, 'f) handler \<Rightarrow> string_t list \<Rightarrow> client \<Rightarrow> client" where
  "get_used_command h args c = c\<lparr>cl_command := Some (h_name h), cl_subcommand :=
     (case args of [] \<Rightarrow> None | a # _ \<Rightarrow> find (\<lambda>name. strcasecmp name (c_string (str_mem a))) (h_subcommands h))\<rparr>"

text \<open>
  What the loop of \<open>read_command\<close> does with one command it has read. The second result is false when the loop ends because the
  command could not be queued. \<open>ok1\<close> and \<open>ok2\<close> are allocations: of the error message, or of the transaction.
\<close>

definition hand_over_command ::
  "bool \<Rightarrow> bool \<Rightarrow> ('z, 'f) handler list \<Rightarrow> nat \<Rightarrow> bytes \<Rightarrow> string_t list \<Rightarrow> ('z, 'f) world \<Rightarrow> (('z, 'f) world \<times> bool) res" where
  "hand_over_command ok1 ok2 commands i name args w =
     (if cl_locked (client_at w i) then bind_res (write_to_socket (Some i) LOCKED w) (\<lambda>w. Inr (w, True))
      else case get_command_index commands name 0 of
          None \<Rightarrow> if \<not> ok1 then Inl NullDeref
            else bind_res (add_io_request (Some i) (unknown_command name) w) (\<lambda>w. Inr (w, True))
        | Some k \<Rightarrow>
            bind_res (add_transaction ok1 ok2 commands i k args (set_client w i (get_used_command (commands ! k) args (client_at w i)))) (\<lambda>(w, added).
              if \<not> added then bind_res (write_to_socket (Some i) NOT_ENQUEUED w) (\<lambda>w. Inr (w, False))
              else if cl_waiting_block (client_at w i) \<noteq> None \<and> \<not> h_waiting (commands ! k)
                then bind_res (write_to_socket (Some i) QUEUED w) (\<lambda>w. Inr (w, True))
              else Inr (w, True)))"

definition hand_over ::
  "bool \<Rightarrow> bool \<Rightarrow> ('z, 'f) handler list \<Rightarrow> nat \<Rightarrow> bytes \<Rightarrow> string_t list \<Rightarrow> ('z, 'f) world \<Rightarrow> ('z, 'f) world res" where
  "hand_over ok1 ok2 commands i name args w = bind_res (hand_over_command ok1 ok2 commands i name args w) (\<lambda>(w, _). Inr w)"

lemma hand_over_goes_on:
  "hand_over_command True True commands i name args w = bind_res (hand_over True True commands i name args w) (\<lambda>w. Inr (w, True))"
  by (auto simp: hand_over_def hand_over_command_def write_to_socket_def add_io_request_def add_transaction_def Let_def bind_res_def
      split: option.splits sum.splits prod.splits if_splits)

end
