(* ===== verification/Cmd_Generic.thy ===== *)
theory Cmd_Generic
  imports Transactions Cmd_Set Cmd_List Cmd_Hash
begin

text \<open>
  The commands on the server itself: \<open>src/commands/generic\<close> (\<open>PING\<close>, \<open>ECHO\<close>, \<open>TIME\<close>, \<open>AGE\<close>, \<open>HELLO\<close>, \<open>AUTH\<close>, \<open>PWD\<close>,
  \<open>CLIENT\<close>, \<open>MULTI\<close>, \<open>EXEC\<close>, \<open>DISCARD\<close>) and \<open>src/commands/database\<close> (\<open>SELECT\<close>, \<open>DBSIZE\<close>,
  \<open>FLUSHDB\<close>, \<open>FLUSHALL\<close>). Each is a handler on the world of \<open>Transactions\<close>.
\<close>

type_synonym ('z, 'f) run = "('z, 'f) gmp \<Rightarrow> ('z, 'f) genv \<Rightarrow> wentry \<Rightarrow> ('z, 'f) world \<Rightarrow> (('z, 'f) world \<times> bytes) res"

section \<open>Shared parts\<close>

definition for_client :: "wentry \<Rightarrow> ('z, 'f) world \<Rightarrow> (nat \<Rightarrow> (('z, 'f) world \<times> bytes) res) \<Rightarrow> (('z, 'f) world \<times> bytes) res" where
  "for_client we w k = (case we_client we of None \<Rightarrow> Inr (w, []) | Some i \<Rightarrow> k i)"

text \<open>\<open>PASS_NO_CLIENT\<close> in front of a reply.\<close>

definition pass :: "wentry \<Rightarrow> ('z, 'f) world \<Rightarrow> bytes \<Rightarrow> (('z, 'f) world \<times> bytes) res" where
  "pass we w bs = for_client we w (\<lambda>i. Inr (w, bs))"

definition answer_in :: "('z, 'f) world \<Rightarrow> bytes res \<Rightarrow> (('z, 'f) world \<times> bytes) res" where
  "answer_in w r = bind_res r (\<lambda>bs. Inr (w, bs))"

definition we_arg :: "wentry \<Rightarrow> nat \<Rightarrow> string_t res" where
  "we_arg we i = (if i < length (we_args we) then Inr (we_args we ! i) else Inl OutOfBounds)"

definition QUOTE :: "bytes \<Rightarrow> bytes" where
  "QUOTE s = [CHR 0x27] @ s @ [CHR 0x27]"

definition MISSING_SUBCOMMAND_ERROR :: "bytes \<Rightarrow> bytes" where
  "MISSING_SUBCOMMAND_ERROR name = RESP_ERROR_MESSAGE (''Missing subcommand for '' @ QUOTE name @ '' command'')"

definition INVALID_SUBCOMMAND_ERROR :: "bytes \<Rightarrow> bytes" where
  "INVALID_SUBCOMMAND_ERROR name = RESP_ERROR_MESSAGE (''Invalid subcommand for '' @ QUOTE name @ '' command'')"

definition handler_of :: "bytes \<Rightarrow> 32 word \<Rightarrow> bool \<Rightarrow> bool \<Rightarrow> bool \<Rightarrow> ('z, 'f) run \<Rightarrow> ('z, 'f) handler" where
  "handler_of name permissions affect access waiting run = \<lparr>h_name = name, h_permissions = permissions, h_affect = affect,
     h_access = access, h_waiting = waiting, h_subcommands = [], h_get_keys = None, h_run = run\<rparr>"

section \<open>\<open>PING\<close>, \<open>ECHO\<close>, \<open>TIME\<close>, \<open>AGE\<close>\<close>

definition run_ping :: "('z, 'f) run" where
  "run_ping g e we w = for_client we w (\<lambda>i. case we_args we of
       [] \<Rightarrow> Inr (w, RESP_OK_MESSAGE ''PONG'')
     | [a] \<Rightarrow> answer_in w (create_resp_string [] (str_bytes a))
     | _ \<Rightarrow> Inr (w, WRONG_ARGUMENT_ERROR ''PING''))"

definition cmd_ping :: "('z, 'f) handler" where
  "cmd_ping = handler_of ''PING'' P_NONE False False False run_ping"

definition run_echo :: "('z, 'f) run" where
  "run_echo g e we w = for_client we w (\<lambda>i. case we_args we of
       [a] \<Rightarrow> answer_in w (create_resp_string [] (str_bytes a))
     | _ \<Rightarrow> Inr (w, WRONG_ARGUMENT_ERROR ''ECHO''))"

definition cmd_echo :: "('z, 'f) handler" where
  "cmd_echo = handler_of ''ECHO'' P_NONE False False False run_echo"

definition run_time :: "('z, 'f) run" where
  "run_time g e we w = for_client we w (\<lambda>i. case g_realtime e of
       None \<Rightarrow> Inr (w, RESP_ERROR_MESSAGE ''clock_gettime() system call is failed'')
     | Some (sec, nsec) \<Rightarrow> Inr (w, ''*2'' @ CRLF @ '':'' @ int_text sec @ CRLF @ '':'' @ int_text (nsec div 1000) @ CRLF))"

definition cmd_time :: "('z, 'f) handler" where
  "cmd_time = handler_of ''TIME'' P_NONE False False False run_time"

definition run_age :: "('z, 'f) run" where
  "run_age g e we w = for_client we w (\<lambda>i. case g_time e of
       None \<Rightarrow> Inr (w, RESP_ERROR_MESSAGE ''time() system call is failed'')
     | Some now \<Rightarrow> answer_in w (create_resp_integer [] (ucast (w_age w + word_of_int (now - w_start_at w)))))"

definition cmd_age :: "('z, 'f) handler" where
  "cmd_age = handler_of ''AGE'' P_NONE False False False run_age"

section \<open>\<open>HELLO\<close>\<close>

definition determine_protover :: "string_t \<Rightarrow> protover option" where
  "determine_protover value = (if SSTREQ value ''2'' then Some RESP2 else if SSTREQ value ''3'' then Some RESP3 else None)"

definition protocol_name :: "protover \<Rightarrow> bytes" where
  "protocol_name p = (case p of RESP2 \<Rightarrow> ''RESP2'' | RESP3 \<Rightarrow> ''RESP3'')"

fun put_strings :: "bytes list \<Rightarrow> out \<Rightarrow> out res" where
  "put_strings [] out = Inr out"
| "put_strings (s # ss) out = bind_res (create_resp_string out s) (put_strings ss)"

definition run_hello :: "('z, 'f) run" where
  "run_hello g e we w = for_client we w (\<lambda>i. case we_args we of
       [a] \<Rightarrow> (case determine_protover a of
           None \<Rightarrow> Inr (w, RESP_ERROR_MESSAGE ''Invalid protocol version'')
         | Some p \<Rightarrow>
             let w = set_client w i ((client_at w i)\<lparr>cl_protover := p\<rparr>) in
             bind_res (ltoa (word_of_int (cl_id (client_at w i))) (replicate 11 NUL)) (\<lambda>(digits, n).
               answer_in w (put_strings [''server'', ''telly'', ''version'', g_version e, ''protocol'', protocol_name p, ''client id'', take n digits]
                 (case p of RESP2 \<Rightarrow> ''*8'' @ CRLF | RESP3 \<Rightarrow> ''%4'' @ CRLF))))
     | _ \<Rightarrow> Inr (w, WRONG_ARGUMENT_ERROR ''HELLO''))"

definition cmd_hello :: "('z, 'f) handler" where
  "cmd_hello = handler_of ''HELLO'' P_NONE False False False run_hello"

section \<open>\<open>AUTH\<close>\<close>

definition IN_USE :: bytes where
  "IN_USE = RESP_OK_MESSAGE ''A password already in use for your client. If you sure to change, use command with ok argument''"

definition run_auth :: "('z, 'f) run" where
  "run_auth g e we w = for_client we w (\<lambda>i.
     if length (we_args we) \<noteq> 1 \<and> length (we_args we) \<noteq> 2 then Inr (w, WRONG_ARGUMENT_ERROR ''AUTH'')
     else bind_res (where_password (g_kdf e) (w_auth w) (str_bytes (we_args we ! 0))) (\<lambda>(au, target).
       let w = w\<lparr>w_auth := au\<rparr> in
       case target of
         None \<Rightarrow> Inr (w, RESP_ERROR_MESSAGE ''This password does not exist'')
       | Some t \<Rightarrow>
           if we_password we \<noteq> au_empty au \<and> (length (we_args we) \<noteq> 2 \<or> \<not> streq (str_mem (we_args we ! 1)) ''ok'') then Inr (w, IN_USE)
           else bind_res (password_at au t) (\<lambda>p.
             Inr (set_client w i ((client_at w i)\<lparr>cl_password := p\<rparr>), RESP_OK))))"

definition cmd_auth :: "('z, 'f) handler" where
  "cmd_auth = handler_of ''AUTH'' P_NONE False False False run_auth"

section \<open>\<open>MULTI\<close>, \<open>EXEC\<close>, \<open>DISCARD\<close>\<close>

definition run_multi :: "('z, 'f) run" where
  "run_multi g e we w = for_client we w (\<lambda>i.
     if cl_waiting_block (client_at w i) \<noteq> None
       then Inr (w, RESP_ERROR_MESSAGE ''Already started a transaction block, cannot create one without executing before'')
     else if \<not> g_ok e 0 then Inr (w, RESP_ERROR_MESSAGE ''Cannot create a transaction block, out of memory'')
     else Inr (set_client w i ((client_at w i)\<lparr>cl_waiting_block :=
            Some \<lparr>bk_type = TX_WAITING, bk_client = i, bk_password = we_password we, bk_transactions = []\<rparr>\<rparr>), RESP_OK))"

definition cmd_multi :: "('z, 'f) handler" where
  "cmd_multi = handler_of ''MULTI'' P_NONE False False True run_multi"

text \<open>A block that does not fit the queue stays with the client, already marked as \<open>TX_MULTIPLE\<close>.\<close>

definition run_exec :: "('z, 'f) run" where
  "run_exec g e we w = for_client we w (\<lambda>i. case cl_waiting_block (client_at w i) of
       None \<Rightarrow> Inr (w, RESP_ERROR_MESSAGE ''A transaction block did not started, cannot execute one without starting before'')
     | Some bk \<Rightarrow>
         let bk = bk\<lparr>bk_type := TX_MULTIPLE\<rparr> in
         bind_res (push_tqueue (w_queue w) bk) (\<lambda>(q, queued).
           if queued = None
             then Inr (set_client w i ((client_at w i)\<lparr>cl_waiting_block := Some bk\<rparr>),
                       RESP_ERROR_MESSAGE ''The transaction block could not be executed, out of memory'')
           else Inr (set_client (w\<lparr>w_queue := q\<rparr>) i ((client_at w i)\<lparr>cl_waiting_block := None\<rparr>), [])))"

definition cmd_exec :: "('z, 'f) handler" where
  "cmd_exec = handler_of ''EXEC'' P_NONE False False True run_exec"

definition run_discard :: "('z, 'f) run" where
  "run_discard g e we w = for_client we w (\<lambda>i. case cl_waiting_block (client_at w i) of
       None \<Rightarrow> Inr (w, RESP_ERROR_MESSAGE ''There is no transaction block, cannot execute one without starting before'')
     | Some bk \<Rightarrow>
         let count = word_of_nat (length (bk_transactions bk));
             w = remove_transaction_block bk w in
         answer_in (set_client w i ((client_at w i)\<lparr>cl_waiting_block := None\<rparr>)) (create_resp_integer [] count))"

definition cmd_discard :: "('z, 'f) handler" where
  "cmd_discard = handler_of ''DISCARD'' P_NONE False False True run_discard"

section \<open>\<open>SELECT\<close>, \<open>DBSIZE\<close>, \<open>FLUSHDB\<close>, \<open>FLUSHALL\<close>\<close>

definition run_select :: "('z, 'f) run" where
  "run_select g e we w = for_client we w (\<lambda>i. case we_args we of
       [name] \<Rightarrow>
         bind_res (get_database (w_dbs w) (str_bytes name)) (\<lambda>found. case found of
             Some a \<Rightarrow> Inr (set_client w i ((client_at w i)\<lparr>cl_database := a\<rparr>), RESP_OK)
           | None \<Rightarrow>
               bind_res (create_database (g_ok e 0) (g_ok e 1) (g_ok e 2) (g_ok e 3) (g_ok e 4) (g_fresh e) (w_dbs w) (str_bytes name) 1024) (\<lambda>(dbs, node).
                 let w = w\<lparr>w_dbs := dbs\<rparr> in
                 case node of None \<Rightarrow> Inr (w, RESP_ERROR_MESSAGE ''Memory error, cannot create new database'')
                 | Some a \<Rightarrow> Inr (set_client w i ((client_at w i)\<lparr>cl_database := a\<rparr>), RESP_OK)))
     | _ \<Rightarrow> Inr (w, WRONG_ARGUMENT_ERROR ''SELECT''))"

definition cmd_select :: "('z, 'f) handler" where
  "cmd_select = handler_of ''SELECT'' P_NONE False True False run_select"

definition run_dbsize :: "('z, 'f) run" where
  "run_dbsize g e we w = for_client we w (\<lambda>i.
     bind_res (case we_args we of [name] \<Rightarrow> get_database (w_dbs w) (str_bytes name) | _ \<Rightarrow> Inr (Some (we_database we))) (\<lambda>found.
       case found of None \<Rightarrow> Inr (w, RESP_ERROR_MESSAGE ''Database cannot be found'')
       | Some a \<Rightarrow> bind_res (database_at w a) (\<lambda>db. answer_in w (create_resp_integer [] (word_of_nat (ht_count (db_data db)))))))"

definition cmd_dbsize :: "('z, 'f) handler" where
  "cmd_dbsize = handler_of ''DBSIZE'' P_READ False False False run_dbsize"

definition run_flushdb :: "('z, 'f) run" where
  "run_flushdb g e we w =
     bind_res (database_at w (we_database we)) (\<lambda>db.
     bind_res (clear_database db) (\<lambda>db. pass we (put_database w (we_database we) db) RESP_OK))"

definition cmd_flushdb :: "('z, 'f) handler" where
  "cmd_flushdb = handler_of ''FLUSHDB'' P_WRITE True False False run_flushdb"

partial_function (option) flush_loop :: "('z, 'f) database linkedlist \<Rightarrow> nat option \<Rightarrow> ('z, 'f) database linkedlist res option" where
  "flush_loop l p = (case p of None \<Rightarrow> Some (Inr l)
     | Some a \<Rightarrow> (case bind_res (node_at l p) (\<lambda>n. bind_res (clear_database (nd_data n)) (\<lambda>db.
           Inr (l\<lparr>ll_nodes := (ll_nodes l)(a \<mapsto> n\<lparr>nd_data := db\<rparr>)\<rparr>, nd_next n))) of
         Inl f \<Rightarrow> Some (Inl f)
       | Inr (l, p) \<Rightarrow> flush_loop l p))"

definition run_flushall :: "('z, 'f) run" where
  "run_flushall g e we w = (case w_dbs w of None \<Rightarrow> Inl NullDeref
     | Some l \<Rightarrow> bind_res (flat_loop (flush_loop l (ll_begin l))) (\<lambda>l. pass we (w\<lparr>w_dbs := Some l\<rparr>) RESP_OK))"

definition cmd_flushall :: "('z, 'f) handler" where
  "cmd_flushall = handler_of ''FLUSHALL'' P_WRITE True False False run_flushall"

section \<open>\<open>PWD\<close>\<close>

text \<open>
  The array \<open>permissions_mapping\<close> has 116 elements and is indexed with a signed byte.
\<close>

definition permissions_mapping :: "char \<Rightarrow> 32 word res" where
  "permissions_mapping c =
     (if 116 \<le> code c then Inl OutOfBounds
      else Inr (if c = CHR ''r'' then P_READ else if c = CHR ''w'' then P_WRITE else if c = CHR ''c'' then P_CLIENT
        else if c = CHR ''o'' then P_CONFIG else if c = CHR ''a'' then P_AUTH else if c = CHR ''s'' then P_SERVER else 0))"

text \<open>
  The bytes \<open>value.value[length]\<close> down to \<open>value.value[1]\<close> are looked at. The result is the permissions, or the
  byte the error names.
\<close>

fun permissions_loop :: "bytes \<Rightarrow> nat \<Rightarrow> 32 word \<Rightarrow> (32 word + char) res" where
  "permissions_loop m 0 permissions = Inr (Inl permissions)"
| "permissions_loop m (Suc n) permissions =
     bind_res (mem_get m (Suc n)) (\<lambda>c.
     bind_res (permissions_mapping c) (\<lambda>data.
       if data = 0 then permissions_loop m n (permissions OR data) else Inr (Inr c)))"

definition read_permissions_value :: "string_t \<Rightarrow> (32 word + char) res" where
  "read_permissions_value value = permissions_loop (str_mem value) (str_len value) 0"

text \<open>
  The permissions that \<open>ADD\<close> and \<open>EDIT\<close> give, or the reply that ends them. The text of the error is written to the buffer
  of the client before anybody asks whether there is one.
\<close>

definition wanted_permissions :: "wentry \<Rightarrow> auth \<Rightarrow> string_t \<Rightarrow> (32 word + bytes) res" where
  "wanted_permissions we au value =
     bind_res (if SSTREQ value ''all'' then bind_res (get_password au (au_full au)) (\<lambda>pw. Inr (Inl (pw_permissions pw AND 0xFF)))
       else bind_res (read_permissions_value value) (\<lambda>r. case r of
           Inl permissions \<Rightarrow> Inr (Inl (permissions AND 0xFF))
         | Inr c \<Rightarrow> if we_client we = None then Inl NullDeref else Inr (Inr (''-Invalid permission: '' @ QUOTE [c] @ CRLF)))) (\<lambda>r. case r of
       Inr err \<Rightarrow> Inr (Inr err)
     | Inl permissions \<Rightarrow> bind_res (get_password au (we_password we)) (\<lambda>pw.
         Inr (if NOT (pw_permissions pw) AND permissions AND 0xFF \<noteq> 0
           then Inr (RESP_ERROR_MESSAGE ''Tried to give permissions your password do not have'') else Inl permissions)))"

definition add_pwd :: "('z, 'f) run" where
  "add_pwd g e we w =
     (if length (we_args we) \<noteq> 3 then pass we w (WRONG_ARGUMENT_ERROR ''PWD ADD'')
      else bind_res (wanted_permissions we (w_auth w) (we_args we ! 2)) (\<lambda>r. case r of
          Inr err \<Rightarrow> pass we w err
        | Inl permissions \<Rightarrow>
            bind_res (where_password (g_kdf e) (w_auth w) (str_bytes (we_args we ! 1))) (\<lambda>(au, target).
              case target of
                Some _ \<Rightarrow> Inr (w\<lparr>w_auth := au\<rparr>, RESP_ERROR_MESSAGE ''This password already exists'')
              | None \<Rightarrow>
                  bind_res (add_password (g_kdf e) (g_fresh e) (g_ok e 0) au (w_clients w) (we_client we) (str_bytes (we_args we ! 1)) permissions) (\<lambda>(au, cs, added).
                    pass we (w\<lparr>w_auth := au, w_clients := cs\<rparr>) (if added then RESP_OK else RESP_ERROR_MESSAGE ''Password cannot be created'')))))"

definition edit_pwd :: "('z, 'f) run" where
  "edit_pwd g e we w =
     (if length (we_args we) \<noteq> 3 then pass we w (WRONG_ARGUMENT_ERROR ''PWD EDIT'')
      else bind_res (where_password (g_kdf e) (w_auth w) (str_bytes (we_args we ! 1))) (\<lambda>(au, target).
        let w = w\<lparr>w_auth := au\<rparr> in
        case target of
          None \<Rightarrow> pass we w (RESP_ERROR_MESSAGE ''This password does not exist'')
        | Some t \<Rightarrow> bind_res (wanted_permissions we au (we_args we ! 2)) (\<lambda>r. case r of
              Inr err \<Rightarrow> pass we w err
            | Inl permissions \<Rightarrow>
                bind_res (password_at au t) (\<lambda>p.
                bind_res (set_permissions au p permissions) (\<lambda>au. pass we (w\<lparr>w_auth := au\<rparr>) RESP_OK)))))"

definition remove_pwd :: "('z, 'f) run" where
  "remove_pwd g e we w =
     (if length (we_args we) \<noteq> 2 then pass we w (WRONG_ARGUMENT_ERROR ''PWD REMOVE'')
      else bind_res (remove_password (g_kdf e) (g_ok e 0) (w_auth w) (w_clients w) (we_client we) (str_bytes (we_args we ! 1))) (\<lambda>(au, cs, removed).
        pass we (w\<lparr>w_auth := au, w_clients := cs\<rparr>) (if removed then RESP_OK else RESP_ERROR_MESSAGE ''This password cannot be found'')))"

definition generate_pwd :: "('z, 'f) run" where
  "generate_pwd g e we w = for_client we w (\<lambda>i.
     bind_res (assert_that (length (g_random e) = 32)) (\<lambda>_. Inr (w, ''$32'' @ CRLF @ g_random e @ CRLF)))"

definition run_pwd :: "('z, 'f) run" where
  "run_pwd g e we w =
     (if we_args we = [] then pass we w (MISSING_SUBCOMMAND_ERROR ''PWD'')
      else let subcommand = to_uppercase (we_args we ! 0) in
        bind_res (if SSTREQ subcommand ''ADD'' then add_pwd g e we w
          else if SSTREQ subcommand ''EDIT'' then edit_pwd g e we w
          else if SSTREQ subcommand ''REMOVE'' then remove_pwd g e we w
          else if SSTREQ subcommand ''GENERATE'' then generate_pwd g e we w
          else pass we w (INVALID_SUBCOMMAND_ERROR ''PWD'')) (\<lambda>(w, response). pass we w response))"

definition cmd_pwd :: "('z, 'f) handler" where
  "cmd_pwd = handler_of ''PWD'' P_AUTH False False False run_pwd"

section \<open>\<open>CLIENT\<close>\<close>

text \<open>\<open>strtoll\<close> on digits that a minus sign may precede.\<close>

definition strtoll :: "bytes \<Rightarrow> int" where
  "strtoll m = (let neg = (m \<noteq> [] \<and> hd m = CHR ''-''); v = int (dec_val (takeWhile is_digit (if neg then tl m else m))) in
     max (- (2 ^ 63)) (min (2 ^ 63 - 1) (if neg then - v else v)))"

text \<open>The client an argument names, as \<open>LOCK\<close>, \<open>KILL\<close> and \<open>UNLOCK\<close> find it: the id, and its slot if any.\<close>

definition named_client ::
  "wentry \<Rightarrow> ('z, 'f) world \<Rightarrow> (int \<Rightarrow> nat option \<Rightarrow> (('z, 'f) world \<times> bytes) res) \<Rightarrow> (('z, 'f) world \<times> bytes) res" where
  "named_client we w k =
     bind_res (get_password (w_auth w) (we_password we)) (\<lambda>pw.
     if pw_permissions pw AND P_CLIENT = 0 then pass we w (RESP_ERROR_MESSAGE ''Not allowed to use this command, need P_CLIENT'')
     else bind_res (we_arg we 1) (\<lambda>a.
     bind_res (try_parse_integer a) (\<lambda>ok.
     if \<not> ok then pass we w (RESP_ERROR_MESSAGE ''Specified argument must be integer for the ID'')
     else let cid = strtoll (str_mem a) in
       if 2 ^ 32 - 1 < cid \<or> cid < 0 then pass we w (RESP_ERROR_MESSAGE ''Specified ID is out of bounds for uint32_t'')
       else bind_res (get_client (w_clients w) (sint (word_of_int cid :: 32 word))) (\<lambda>target. k cid target))))"

definition NO_SUCH_CLIENT :: "int \<Rightarrow> bytes" where
  "NO_SUCH_CLIENT cid = ''-There is no client whose ID is #'' @ int_text cid @ CRLF"

definition may_client :: "('z, 'f) world \<Rightarrow> nat \<Rightarrow> bool res" where
  "may_client w i = bind_res (get_password (w_auth w) (cl_password (client_at w i))) (\<lambda>pw. Inr (pw_permissions pw AND P_CLIENT \<noteq> 0))"

definition subcommand_lock :: "('z, 'f) run" where
  "subcommand_lock g e we w = named_client we w (\<lambda>cid target. case target of
       None \<Rightarrow> pass we w (NO_SUCH_CLIENT cid)
     | Some t \<Rightarrow> bind_res (may_client w t) (\<lambda>p.
         if p then pass we w (''-Client #'' @ int_text cid @ '' has P_CLIENT, so cannot be locked'' @ CRLF)
         else if cl_locked (client_at w t) then pass we w (''-Client #'' @ int_text cid @ '' is locked, so cannot be relocked'' @ CRLF)
         else pass we (set_client w t ((client_at w t)\<lparr>cl_locked := True\<rparr>)) RESP_OK))"

definition subcommand_kill :: "('z, 'f) run" where
  "subcommand_kill g e we w = named_client we w (\<lambda>cid target. case target of
       None \<Rightarrow> pass we w (NO_SUCH_CLIENT cid)
     | Some t \<Rightarrow> bind_res (may_client w t) (\<lambda>p.
         if p then pass we w (''-Client #'' @ int_text cid @ '' has P_CLIENT, so cannot be killed'' @ CRLF)
         else bind_res (terminate_connection (g_ok e 0) (w_clients w) t) (\<lambda>cs.
           pass we (let w' = w\<lparr>w_clients := cs\<rparr> in if g_ok e 0 then free_client (client_at w t) w' else w') RESP_OK)))"

definition subcommand_unlock :: "('z, 'f) run" where
  "subcommand_unlock g e we w = named_client we w (\<lambda>cid target. case target of
       None \<Rightarrow> pass we w (NO_SUCH_CLIENT cid)
     | Some t \<Rightarrow>
         if \<not> cl_locked (client_at w t) then pass we w (''-Client #'' @ int_text cid @ '' is not locked, so cannot be unlocked'' @ CRLF)
         else pass we (set_client w t ((client_at w t)\<lparr>cl_locked := False\<rparr>)) RESP_OK)"

definition subcommand_id :: "('z, 'f) world \<Rightarrow> nat \<Rightarrow> (('z, 'f) world \<times> bytes) res" where
  "subcommand_id w i = answer_in w (create_resp_integer [] (word_of_int (cl_id (client_at w i))))"

fun put_ids :: "client list \<Rightarrow> out \<Rightarrow> out res" where
  "put_ids [] out = Inr out"
| "put_ids (c # cs) out = (if \<not> live c then put_ids cs out
     else bind_res (put out ''+'') (\<lambda>out. bind_res (put_ltoa out (word_of_int (cl_id c))) (\<lambda>out. bind_res (put out CRLF) (put_ids cs))))"

definition subcommand_list :: "('z, 'f) run" where
  "subcommand_list g e we w =
     bind_res (get_password (w_auth w) (we_password we)) (\<lambda>pw.
     if pw_permissions pw AND P_CLIENT = 0 then Inr (w, RESP_ERROR_MESSAGE ''Not allowed to use this command, need P_CLIENT'')
     else bind_res (put_ltoa ''*'' (ucast (cs_count (w_clients w)))) (\<lambda>out.
       bind_res (put out CRLF) (\<lambda>out. answer_in w (put_ids (cs_slots (w_clients w)) out))))"

text \<open>The name is copied with the byte that follows it, which is meant to be its NUL.\<close>

definition subcommand_setinfo :: "nat \<Rightarrow> ('z, 'f) run" where
  "subcommand_setinfo i g e we w =
     (if length (we_args we) \<noteq> 3 then Inr (w, WRONG_ARGUMENT_ERROR ''CLIENT SETINFO'')
      else let property = to_uppercase (we_args we ! 1); value = we_args we ! 2; c = client_at w i;
               copied = take (str_len value + 1) (str_mem value) in
        if SSTREQ property ''LIB-NAME'' then
          if \<not> g_ok e 0 then Inr (set_client w i (c\<lparr>cl_lib_name := None\<rparr>), RESP_ERROR_MESSAGE ''Out of memory'')
          else if length (str_mem value) < str_len value + 1 then Inl OutOfBounds
          else Inr (set_client w i (c\<lparr>cl_lib_name := Some copied\<rparr>), RESP_OK)
        else if SSTREQ property ''LIB-VERSION'' then
          if \<not> g_ok e 0 then Inr (set_client w i (c\<lparr>cl_lib_ver := None\<rparr>), RESP_ERROR_MESSAGE ''Out of memory'')
          else if length (str_mem value) < str_len value + 1 then Inl OutOfBounds
          else Inr (set_client w i (c\<lparr>cl_lib_ver := Some copied\<rparr>), RESP_OK)
        else Inr (w, RESP_ERROR_MESSAGE ''Unknown property''))"

text \<open>
  \<open>generate_date_string\<close> of \<open>src/utils/string.c\<close>: twenty characters, such as 01 Jan 1970 00:00:00. A number of three digits
  would leave the two bytes of the buffer as they are.
\<close>

definition months :: "bytes list" where
  "months = [''Jan'', ''Feb'', ''Mar'', ''Apr'', ''May'', ''Jun'', ''Jul'', ''Aug'', ''Sep'', ''Oct'', ''Nov'', ''Dec'']"

definition number_pad :: "bytes \<Rightarrow> nat \<Rightarrow> bytes" where
  "number_pad res v = (if 100 \<le> v then res else two_digits v)"

definition generate_date_string :: "bytes \<Rightarrow> tm \<Rightarrow> bytes res" where
  "generate_date_string junk t =
     (if \<not> tm_mon t < length months then Inl OutOfBounds
      else bind_res (ltoa (word_of_int (1900 + tm_year t)) (replicate 14 NUL)) (\<lambda>(year, n).
        bind_res (assert_that (n = 4)) (\<lambda>_.
          Inr (number_pad (take 2 junk) (tm_mday t) @ '' '' @ months ! tm_mon t @ '' '' @ take 4 year @ '' '' @
            number_pad (take 2 (drop 12 junk)) (tm_hour t) @ '':'' @ number_pad (take 2 (drop 15 junk)) (tm_min t) @ '':'' @
            number_pad (take 2 (drop 18 junk)) (tm_sec t)))))"

definition permission_names :: "(32 word \<times> bytes) list" where
  "permission_names = [(P_READ, ''read''), (P_WRITE, ''write''), (P_CLIENT, ''client''), (P_CONFIG, ''config''), (P_AUTH, ''auth''), (P_SERVER, ''server'')]"

definition permissions_text :: "32 word \<Rightarrow> bytes res" where
  "permissions_text permissions =
     (let v = permissions AND 0xFF; text = concat (map (\<lambda>p. if v AND fst p \<noteq> 0 then snd p @ '', '' else []) permission_names) in
      if v = 0 then Inr ''None''
      else case text of [] \<Rightarrow> Inl Undefined
      | c # cs \<Rightarrow> Inr (take (length text - 2) (char_of (code c - 32) # cs)))"

text \<open>A name that was copied without a NUL is read on past its end.\<close>

definition terminated :: "bytes option \<Rightarrow> bytes res" where
  "terminated s = (case s of None \<Rightarrow> Inr ''unspecified''
     | Some m \<Rightarrow> if NUL \<in> set m then Inr (c_string m) else Inl OutOfBounds)"

definition client_info :: "('z, 'f) genv \<Rightarrow> ('z, 'f) world \<Rightarrow> client \<Rightarrow> bytes res" where
  "client_info e w c =
     bind_res (get_password (w_auth w) (cl_password c)) (\<lambda>pw.
     bind_res (permissions_text (pw_permissions pw)) (\<lambda>permissions.
     bind_res (generate_date_string (replicate 21 NUL) (g_localtime e (cl_connected_at c))) (\<lambda>date.
     bind_res (terminated (cl_lib_name c)) (\<lambda>lib_name.
     bind_res (terminated (cl_lib_ver c)) (\<lambda>lib_ver.
       let command_name = (case cl_command c of None \<Rightarrow> ''unknown''
             | Some name \<Rightarrow> (case cl_subcommand c of None \<Rightarrow> name | Some sub \<Rightarrow> name @ '' '' @ sub));
           text = ''ID: '' @ decimal (unat (word_of_int (cl_id c) :: 32 word)) @ CRLF @
             ''Socket file descriptor: '' @ int_text (cl_connfd c) @ CRLF @
             ''Connected at: '' @ date @ CRLF @
             ''Last used command: '' @ command_name @ CRLF @
             ''Library name: '' @ lib_name @ CRLF @
             ''Library version: '' @ lib_ver @ CRLF @
             ''Protocol: '' @ protocol_name (cl_protover c) @ CRLF @
             ''Permissions: '' @ permissions @ CRLF in
       if 512 \<le> length text then Inl OutOfBounds else Inr text)))))"

definition subcommand_info :: "nat \<Rightarrow> ('z, 'f) run" where
  "subcommand_info i g e we w =
     bind_res (case we_args we of
         [_] \<Rightarrow> Inr (Inl i)
       | [_, a] \<Rightarrow> bind_res (get_password (w_auth w) (we_password we)) (\<lambda>pw.
           if pw_permissions pw AND P_CLIENT = 0 then Inr (Inr (RESP_ERROR_MESSAGE ''Not allowed to use this command with argument, need P_CLIENT''))
           else bind_res (try_parse_integer a) (\<lambda>ok.
             if \<not> ok then Inr (Inr (RESP_ERROR_MESSAGE ''Specified argument must be integer for the ID''))
             else let cid = strtoll (str_mem a) in
               if 2 ^ 32 - 1 < cid \<or> cid < 0 then Inr (Inr (RESP_ERROR_MESSAGE ''Specified ID is out of bounds for uint32_t''))
               else bind_res (get_client (w_clients w) (sint (word_of_int cid :: 32 word))) (\<lambda>t. case t of
                   None \<Rightarrow> Inr (Inr (RESP_ERROR_MESSAGE ''The client does not exist''))
                 | Some t \<Rightarrow> Inr (Inl t))))
       | _ \<Rightarrow> Inr (Inr (RESP_ERROR_MESSAGE ''The argument count must be 1 or 2.''))) (\<lambda>r. case r of
         Inr err \<Rightarrow> Inr (w, err)
       | Inl t \<Rightarrow> bind_res (client_info e w (client_at w t)) (\<lambda>text. answer_in w (create_resp_string [] text)))"

definition run_client :: "('z, 'f) run" where
  "run_client g e we w =
     (if we_args we = [] then pass we w (MISSING_SUBCOMMAND_ERROR ''CLIENT'')
      else let subcommand = to_uppercase (we_args we ! 0) in
        case we_client we of
          None \<Rightarrow>
            (if SSTREQ subcommand ''LOCK'' then subcommand_lock g e we w
             else if SSTREQ subcommand ''KILL'' then subcommand_kill g e we w
             else if SSTREQ subcommand ''UNLOCK'' then subcommand_unlock g e we w
             else Inr (w, []))
        | Some i \<Rightarrow>
            (if SSTREQ subcommand ''ID'' then subcommand_id w i
             else if SSTREQ subcommand ''INFO'' then subcommand_info i g e we w
             else if SSTREQ subcommand ''LIST'' then subcommand_list g e we w
             else if SSTREQ subcommand ''LOCK'' then subcommand_lock g e we w
             else if SSTREQ subcommand ''SETINFO'' then subcommand_setinfo i g e we w
             else if SSTREQ subcommand ''KILL'' then subcommand_kill g e we w
             else if SSTREQ subcommand ''UNLOCK'' then subcommand_unlock g e we w
             else Inr (w, INVALID_SUBCOMMAND_ERROR ''CLIENT'')))"

text \<open>Six of the seven subcommands are counted.\<close>

definition cmd_client :: "('z, 'f) handler" where
  "cmd_client = (handler_of ''CLIENT'' P_NONE False False False run_client)
     \<lparr>h_subcommands := [''ID'', ''INFO'', ''LIST'', ''LOCK'', ''SETINFO'', ''KILL'']\<rparr>"

end
