(* ===== verification/Cmd_Server.thy ===== *)
theory Cmd_Server
  imports Cmd_Generic
begin

text \<open>
  The commands that only report or save: \<open>COMMAND\<close> and \<open>INFO\<close> of \<open>src/commands/generic\<close>, \<open>SAVE\<close>, \<open>BGSAVE\<close> and
  \<open>LASTSAVE\<close> of \<open>src/commands/database\<close>, and the table of all commands of \<open>src/server/commands.c\<close>, in
  the order of \<open>command_list\<close>, which is the order that \<open>src/utils/command_hash.gperf\<close> numbers them in.
\<close>

section \<open>\<open>SAVE\<close>, \<open>BGSAVE\<close>, \<open>LASTSAVE\<close>\<close>

definition run_save :: "('z, 'f) run" where
  "run_save g e we w = for_client we w (\<lambda>i. case g_time e of
       None \<Rightarrow> Inr (w, RESP_ERROR_MESSAGE ''time() system call is failed'')
     | Some now \<Rightarrow> Inr (w, if g_saved e then RESP_OK else RESP_ERROR_MESSAGE ''Saving data is failed''))"

definition cmd_save :: "('z, 'f) handler" where
  "cmd_save = handler_of ''SAVE'' P_SERVER False False False run_save"

definition run_bgsave :: "('z, 'f) run" where
  "run_bgsave g e we w = Inr (w, case g_time e of
       None \<Rightarrow> RESP_ERROR_MESSAGE ''time() system call is failed''
     | Some now \<Rightarrow> (case g_bgsave e of
           BGSAVE_ALREADY_SAVING \<Rightarrow> RESP_ERROR_MESSAGE ''Saving process is already active in background''
         | BGSAVE_THREAD_FAILED \<Rightarrow> RESP_ERROR_MESSAGE ''Cannot open external background saving thread''
         | BGSAVE_SUCCESSFUL \<Rightarrow> RESP_OK))"

definition cmd_bgsave :: "('z, 'f) handler" where
  "cmd_bgsave = handler_of ''BGSAVE'' P_SERVER False False False run_bgsave"

definition run_lastsave :: "('z, 'f) run" where
  "run_lastsave g e we w = for_client we w (\<lambda>i. case g_mtime e of
       None \<Rightarrow> Inr (w, RESP_ERROR)
     | Some last_save \<Rightarrow> answer_in w (create_resp_integer [] last_save))"

definition cmd_lastsave :: "('z, 'f) handler" where
  "cmd_lastsave = handler_of ''LASTSAVE'' P_SERVER False False False run_lastsave"

section \<open>\<open>COMMAND\<close>\<close>

text \<open>Name, summary, first version and complexity of every command.\<close>

definition command_docs :: "(bytes \<times> bytes \<times> bytes \<times> bytes) list" where
  "command_docs = [
     (''BGSAVE'', ''Saves all data to database file in background using a thread.'', ''0.1.6'', ''O(N) where N is cached key-value pair count''),
     (''DBSIZE'', ''Returns key count in the database.'', ''0.1.6'', ''O(1)''),
     (''FLUSHALL'', ''Deletes all the keys of all databases.'', ''1.0.0'', ''O(N) where N is total number of the keys in all databases''),
     (''FLUSHDB'', ''Deletes all the keys of the currently selected database.'', ''1.0.0'', ''O(N) where N is number of the keys in the currently selected database''),
     (''LASTSAVE'', ''Returns last save time of database as UNIX time.'', ''0.1.6'', ''O(1)''),
     (''SAVE'', ''Saves all data in all databases to the database file.'', ''0.1.6'', ''O(N) where N is number of the keys in all databases''),
     (''SELECT'', ''Selects database which will be used by client.'', ''0.1.9'', ''O(N) where N is total database count''),
     (''AGE'', ''Sends the server age as seconds.'', ''0.1.6'', ''O(1)''),
     (''AUTH'', ''Allows to authorize client via passwords.'', ''0.1.7'', ''O(1)''),
     (''CLIENT'', ''Main command of client(s).'', ''0.1.0'', ''O(1)''),
     (''COMMAND'', ''Gives information about the commands in the server.'', ''0.1.0'', ''O(1)''),
     (''DISCARD'', ''Discards the current started transaction block.'', ''0.2.0'', ''O(1)''),
     (''ECHO'', ''Returns the given message.'', ''1.0.0'', ''O(1)''),
     (''EXEC'', ''Executes a transaction block consists of multiple transactions.'', ''0.2.0'', ''O(1)''),
     (''HELLO'', ''Handshakes with the tellydb server.'', ''0.1.6'', ''O(1)''),
     (''INFO'', ''Displays server information.'', ''0.1.0'', ''O(1)''),
     (''MULTI'', ''Creates a transaction block consists of multiple transactions.'', ''0.2.0'', ''O(1)''),
     (''PING'', ''Pings the server and returns a simple/bulk string.'', ''0.1.2'', ''O(1)''),
     (''PWD'', ''Allows to manage passwords.'', ''0.1.7'', ''O(1)''),
     (''TIME'', ''Returns the current server time.'', ''0.1.2'', ''O(1)''),
     (''HDEL'', ''Deletes field(s) of the hash table.'', ''0.1.5'', ''O(N) where N is written field name count''),
     (''HGET'', ''Gets a field from the hash table.'', ''0.1.3'', ''O(1)''),
     (''HGETALL'', ''Gets all fields and their values from the hash table.'', ''0.1.9'', ''O(N) where N is hash table size''),
     (''HKEYS'', ''Gets all field names from the hash table.'', ''0.1.9'', ''O(N) where N is hash table size''),
     (''HLEN'', ''Returns field count information of the hash table.'', ''0.1.3'', ''O(1)''),
     (''HSET'', ''Sets field(s) of the hash table.'', ''0.1.3'', ''O(N) where N is written field name-value pair count''),
     (''HTYPE'', ''Returns type of the field from hash table.'', ''0.1.3'', ''O(1)''),
     (''HVALS'', ''Gets all field values from the hash table.'', ''0.1.9'', ''O(N) where N is hash table size''),
     (''APPEND'', ''Appends string to existed value. If key is not exist, creates a new one.'', ''0.1.7'', ''O(1)''),
     (''DECR'', ''Decrements the number stored at each key.'', ''0.1.0'', ''O(1)''),
     (''DECRBY'', ''Decrements the number stored at key by value.'', ''0.2.0'', ''O(1)''),
     (''DEL'', ''Deletes the specified keys.'', ''0.1.7'', ''O(N) where N is key count''),
     (''EXISTS'', ''Checks if specified keys exist or not.'', ''0.1.4'', ''O(N) where N is key count''),
     (''GET'', ''Gets value.'', ''0.1.0'', ''O(1)''),
     (''INCR'', ''Increments the number stored at each key.'', ''0.1.0'', ''O(1)''),
     (''INCRBY'', ''Increments the number stored at key by value.'', ''0.2.0'', ''O(1)''),
     (''RENAME'', ''Renames existing key to new key.'', ''0.1.7'', ''O(1)''),
     (''SET'', ''Set key to hold the string value.'', ''0.1.0'', ''O(1)''),
     (''TYPE'', ''Returns type of the value.'', ''0.1.0'', ''O(1)''),
     (''LINDEX'', ''Returns element at the index in the list.'', ''0.1.4'', ''O(N) where N is min(absolute index, list size - absolute index - 1) number''),
     (''LLEN'', ''Returns length of the list.'', ''0.1.3'', ''O(1)''),
     (''LPOP'', ''Removes and returns first element of the list.'', ''0.1.3'', ''O(1)''),
     (''LPUSH'', ''Pushes element(s) to beginning of the list.'', ''0.1.3'', ''O(N) where N is written element count''),
     (''LRANGE'', ''Returns the elements between two indexes from the list.'', ''1.2.2'', ''O(N + S)''),
     (''LTYPE'', ''Returns type of the element at the index in the list.'', ''1.0.0'', ''O(N) where N is min(absolute index, list size - absolute index - 1) number''),
     (''RPOP'', ''Removes and returns last element of the list.'', ''0.1.3'', ''O(1)''),
     (''RPUSH'', ''Pushes element(s) to ending of the list.'', ''0.1.3'', ''O(N) where N is written element count'')]"

definition doc_string :: "bytes \<Rightarrow> bytes" where
  "doc_string s = ''$'' @ decimal (length s) @ CRLF @ s @ CRLF"

definition command_doc :: "bytes \<Rightarrow> bytes \<times> bytes \<times> bytes \<times> bytes \<Rightarrow> bytes" where
  "command_doc header d = (case d of (name, summary, since, complexity) \<Rightarrow>
     doc_string name @ header @ CRLF @ doc_string ''summary'' @ doc_string summary @ doc_string ''since'' @ doc_string since @
     doc_string ''complexity'' @ doc_string complexity)"

definition docs_response :: "protover \<Rightarrow> bytes" where
  "docs_response p = (case p of
       RESP2 \<Rightarrow> ''*'' @ decimal (length command_docs * 2) @ CRLF @ concat (map (command_doc ''*6'') command_docs)
     | RESP3 \<Rightarrow> ''%'' @ decimal (length command_docs) @ CRLF @ concat (map (command_doc ''%3'') command_docs))"

definition run_command :: "('z, 'f) run" where
  "run_command g e we w = for_client we w (\<lambda>i. case we_args we of
       [] \<Rightarrow> Inr (w, MISSING_SUBCOMMAND_ERROR ''COMMAND'')
     | a # _ \<Rightarrow> let subcommand = to_uppercase a in
         Inr (w, if SSTREQ subcommand ''DOCS'' then docs_response (cl_protover (client_at w i))
           else if SSTREQ subcommand ''LIST''
             then ''*'' @ decimal (length command_docs) @ CRLF @ concat (map (\<lambda>d. ''+'' @ fst d @ CRLF) command_docs)
           else if SSTREQ subcommand ''COUNT'' then '':'' @ decimal (length command_docs) @ CRLF
           else INVALID_SUBCOMMAND_ERROR ''COMMAND''))"

definition cmd_command :: "('z, 'f) handler" where
  "cmd_command = (handler_of ''COMMAND'' P_NONE False False False run_command)\<lparr>h_subcommands := [''LIST'', ''COUNT'', ''DOCS'']\<rparr>"

section \<open>\<open>INFO\<close>\<close>

definition server_section :: "('z, 'f) genv \<Rightarrow> ('z, 'f) world \<Rightarrow> bytes res" where
  "server_section e w =
     bind_res (generate_date_string (replicate 21 NUL) (g_localtime e (w_start_at w))) (\<lambda>started.
       Inr (''# Server'' @ CRLF @ ''Version: '' @ g_version e @ CRLF @ ''Process ID: '' @ int_text (g_pid e) @ CRLF @
         ''Git hash: '' @ g_git_hash e @ CRLF @
         (if g_linux e then ''Multiplexing API: epoll'' @ CRLF else ''Multiplexing API: kqueue'' @ CRLF) @
         ''GCC version: '' @ g_gcc e @ CRLF @ ''TLS server: '' @ (if g_tls e then ''yes'' else ''no'') @ CRLF @
         ''Age: '' @ (case g_time e of None \<Rightarrow> ''unknown''
            | Some now \<Rightarrow> decimal (unat (w_age w + word_of_int (now - w_start_at w))) @ '' seconds'') @ CRLF @
         ''Started at: '' @ take 20 started @ CRLF))"

definition clients_section :: "('z, 'f) genv \<Rightarrow> ('z, 'f) world \<Rightarrow> bytes" where
  "clients_section e w = ''# Clients'' @ CRLF @ ''Connected clients: '' @ decimal (unat (cs_count (w_clients w))) @ CRLF @
     ''Max clients: '' @ decimal (length (cs_slots (w_clients w))) @ CRLF @
     ''Transactions: '' @ decimal (unat (ucast (estimate_tqueue_size (w_queue w)) :: 32 word)) @ CRLF @
     ''Max transaction blocks: '' @ decimal (unat (g_max_blocks e)) @ CRLF @
     ''Total processed transactions: '' @ decimal (unat (w_processed w)) @ CRLF @
     ''Total received connections: '' @ decimal (unat (cs_next_id (w_clients w))) @ CRLF"

text \<open>\<open>get_section\<close> fills an array of 2048 bytes, \<open>run\<close> appends it to one of 8192 bytes; \<open>None\<close> is an unknown name.\<close>

definition get_section :: "('z, 'f) genv \<Rightarrow> ('z, 'f) world \<Rightarrow> string_t \<Rightarrow> bytes option res" where
  "get_section e w name =
     bind_res (if SSTREQ name ''server'' then bind_res (server_section e w) (\<lambda>s. Inr (Some s))
       else if SSTREQ name ''clients'' then Inr (Some (clients_section e w)) else Inr None) (\<lambda>s.
     if (case s of None \<Rightarrow> False | Some s \<Rightarrow> 2048 \<le> length s) then Inl OutOfBounds else Inr s)"

definition append_section :: "bytes \<Rightarrow> bytes \<Rightarrow> bytes res" where
  "append_section buf s = (if 8192 \<le> length buf + length s then Inl OutOfBounds else Inr (buf @ s))"

fun info_loop :: "('z, 'f) genv \<Rightarrow> ('z, 'f) world \<Rightarrow> string_t list \<Rightarrow> bytes \<Rightarrow> bytes option res" where
  "info_loop e w [] buf = Inr (Some buf)"
| "info_loop e w (name # names) buf =
     bind_res (get_section e w name) (\<lambda>section. case section of
         None \<Rightarrow> Inr None
       | Some s \<Rightarrow> bind_res (append_section buf s) (\<lambda>buf.
           if names = [] then Inr (Some buf)
           else bind_res (append_section buf CRLF) (info_loop e w names)))"

definition run_info :: "('z, 'f) run" where
  "run_info g e we w = for_client we w (\<lambda>i.
     bind_res (info_loop e w (if we_args we \<noteq> [] then we_args we else [arg ''server'' [], arg ''clients'' []]) []) (\<lambda>buf.
       Inr (w, case buf of None \<Rightarrow> RESP_ERROR_MESSAGE ''Invalid section name''
         | Some buf \<Rightarrow> ''$'' @ decimal (length buf) @ CRLF @ buf @ CRLF)))"

definition cmd_info :: "('z, 'f) handler" where
  "cmd_info = handler_of ''INFO'' P_NONE False False False run_info"

section \<open>The table of commands\<close>

definition command_list :: "('z, 'f) handler list" where
  "command_list = [cmd_bgsave, cmd_dbsize, cmd_flushall, cmd_flushdb, cmd_lastsave, cmd_save, cmd_select,
     cmd_age, cmd_auth, cmd_client, cmd_command, cmd_discard, cmd_echo, cmd_exec, cmd_hello, cmd_info, cmd_multi, cmd_ping, cmd_pwd, cmd_time,
     on_data cmd_hdel, on_data cmd_hget, on_data cmd_hgetall, on_data cmd_hkeys, on_data cmd_hlen, on_data cmd_hset, on_data cmd_htype, on_data cmd_hvals,
     on_data cmd_append, on_data cmd_decr, on_data cmd_decrby, on_data cmd_del, on_data cmd_exists, on_data cmd_get, on_data cmd_incr,
     on_data cmd_incrby, on_data cmd_rename, on_data cmd_set, on_data cmd_type,
     on_data cmd_lindex, on_data cmd_llen, on_data cmd_lpop, on_data cmd_lpush, on_data cmd_lrange, on_data cmd_ltype, on_data cmd_rpop, on_data cmd_rpush]"

lemmas generic_commands = cmd_bgsave_def cmd_dbsize_def cmd_flushall_def cmd_flushdb_def cmd_lastsave_def cmd_save_def cmd_select_def
  cmd_age_def cmd_auth_def cmd_client_def cmd_command_def cmd_discard_def cmd_echo_def cmd_exec_def cmd_hello_def cmd_info_def cmd_multi_def
  cmd_ping_def cmd_pwd_def cmd_time_def

lemmas data_commands = cmd_hdel_def cmd_hget_def cmd_hgetall_def cmd_hkeys_def cmd_hlen_def cmd_hset_def cmd_htype_def cmd_hvals_def
  cmd_append_def cmd_decr_def cmd_decrby_def cmd_del_def cmd_exists_def cmd_get_def cmd_incr_def cmd_incrby_def cmd_rename_def cmd_set_def
  cmd_type_def cmd_lindex_def cmd_llen_def cmd_lpop_def cmd_lpush_def cmd_lrange_def cmd_ltype_def cmd_rpop_def cmd_rpush_def

text \<open>The names of the table are those of the documentation, and different from each other.\<close>

lemma command_names: "map h_name command_list = map fst command_docs"
  by (simp add: command_list_def command_docs_def generic_commands data_commands handler_of_def on_data_def)

lemma command_names_distinct: "distinct (map fst command_docs)"
  by (simp add: command_docs_def)

lemma get_command_index_nth:
  "\<lbrakk>distinct (map h_name hs); i < length hs\<rbrakk> \<Longrightarrow> get_command_index hs (h_name (hs ! i)) n = Some (n + i)"
proof (induction hs arbitrary: i n)
  case (Cons h hs)
  show ?case
  proof (cases i)
    case (Suc j)
    then have "h_name h \<noteq> h_name (hs ! j)" using Cons.prems nth_mem [of j hs] by fastforce
    then show ?thesis using Cons.IH [of j "n + 1"] Cons.prems Suc by simp
  qed simp
qed simp

lemma command_index: "i < length (command_list :: ('z, 'f) handler list) \<Longrightarrow> get_command_index (command_list :: ('z, 'f) handler list) (h_name ((command_list :: ('z, 'f) handler list) ! i)) 0 = Some i"
  using get_command_index_nth [of "command_list :: ('z, 'f) handler list" i 0] command_names_distinct by (simp add: command_names)

text \<open>
  The list of \<open>command_hash.gperf\<close>, of which the build makes the perfect hash behind \<open>get_command_index\<close>: names and places. The
  server copies its commands to these places when it starts, and wants them to be in the same order.
\<close>

definition command_hash :: "(bytes \<times> nat) list" where
  "command_hash =
    [(''BGSAVE'', 0), (''DBSIZE'', 1), (''FLUSHALL'', 2), (''FLUSHDB'', 3), (''LASTSAVE'', 4), (''SAVE'', 5),
     (''SELECT'', 6), (''AGE'', 7), (''AUTH'', 8), (''CLIENT'', 9), (''COMMAND'', 10), (''DISCARD'', 11),
     (''ECHO'', 12), (''EXEC'', 13), (''HELLO'', 14), (''INFO'', 15), (''MULTI'', 16), (''PING'', 17), (''PWD'', 18),
     (''TIME'', 19), (''HDEL'', 20), (''HGET'', 21), (''HGETALL'', 22), (''HKEYS'', 23), (''HLEN'', 24), (''HSET'', 25),
     (''HTYPE'', 26), (''HVALS'', 27), (''APPEND'', 28), (''DECR'', 29), (''DECRBY'', 30), (''DEL'', 31),
     (''EXISTS'', 32), (''GET'', 33), (''INCR'', 34), (''INCRBY'', 35), (''RENAME'', 36), (''SET'', 37), (''TYPE'', 38),
     (''LINDEX'', 39), (''LLEN'', 40), (''LPOP'', 41), (''LPUSH'', 42), (''LRANGE'', 43), (''LTYPE'', 44),
     (''RPOP'', 45), (''RPUSH'', 46)]"

definition load_commands :: "bool \<Rightarrow> ('z, 'f) handler list option res" where
  "load_commands ok =
     (let hs = command_list :: ('z, 'f) handler list in
      if \<not> ok then Inr None
      else bind_res (assert_that (list_all (\<lambda>(i, h). map_of command_hash (h_name h) = Some i) (zip [0..<length hs] hs))) (\<lambda>_. Inr (Some hs)))"

lemma command_hash_names: "command_hash = zip (map fst command_docs) [0..<47]"
  by code_simp

lemma get_command_index_map_of:
  "get_command_index hs name n = map_of (zip (map h_name hs) [n..<n + length hs]) name"
proof (induction hs arbitrary: n)
  case (Cons h hs)
  have "[n..<n + length (h # hs)] = n # [n + 1..<n + 1 + length hs]" using upt_conv_Cons [of n "n + length (h # hs)"] by (simp del: upt_Suc)
  then show ?case using Cons.IH [of "n + 1"] by (simp del: upt_Suc)
qed simp

text \<open>Searching the commands by name, as this development does, is the look-up of the perfect hash.\<close>

lemma command_count: "length (command_list :: ('z, 'f) handler list) = 47"
  by (simp add: command_list_def)

lemma command_hash_index: "map_of command_hash name = get_command_index (command_list :: ('z, 'f) handler list) name 0"
  unfolding get_command_index_map_of command_names command_hash_names by (simp add: command_count)

lemma load_commands_works: "load_commands True = Inr (Some (command_list :: ('z, 'f) handler list))"
proof -
  let ?hs = "command_list :: ('z, 'f) handler list"
  have "map_of command_hash (h_name (?hs ! i)) = Some i" if "i < length ?hs" for i
    using command_index [OF that] unfolding command_hash_index [symmetric] .
  then have "list_all (\<lambda>(i, h). map_of command_hash (h_name h) = Some i) (zip [0..<length ?hs] ?hs)"
    by (auto simp: list_all_iff in_set_zip)
  then show ?thesis by (simp add: load_commands_def Let_def assert_that_def)
qed

end
