(* ===== verification/Multi.thy ===== *)
theory Multi
  imports Cmd_Generic
begin

text \<open>
  What happens to the commands between \<open>MULTI\<close> and \<open>EXEC\<close> or \<open>DISCARD\<close>: they are kept in the waiting
  block of the client, nothing runs, and \<open>EXEC\<close> puts the block into the shared queue as a whole.
\<close>

fun hand_over_all :: "('z, 'f) handler list \<Rightarrow> nat \<Rightarrow> (bytes \<times> string_t list) list \<Rightarrow> ('z, 'f) world \<Rightarrow> ('z, 'f) world res" where
  "hand_over_all commands i [] w = Inr w"
| "hand_over_all commands i (c # cs) w =
     bind_res (hand_over True True commands i (fst c) (snd c) w) (hand_over_all commands i cs)"

definition queueable :: "('z, 'f) handler list \<Rightarrow> bytes \<times> string_t list \<Rightarrow> bool" where
  "queueable commands c \<longleftrightarrow> (\<exists>k. get_command_index commands (fst c) 0 = Some k \<and> \<not> h_waiting (commands ! k))"

definition transaction_of :: "('z, 'f) handler list \<Rightarrow> nat \<Rightarrow> bytes \<times> string_t list \<Rightarrow> transaction" where
  "transaction_of commands database c = \<lparr>tx_args = snd c, tx_command = the (get_command_index commands (fst c) 0), tx_database = database\<rparr>"

definition connected :: "('z, 'f) world \<Rightarrow> nat \<Rightarrow> bool" where
  "connected w i \<longleftrightarrow> i < length (cs_slots (w_clients w)) \<and> live (client_at w i)"

lemma client_at_set [simp]:
  "i < length (cs_slots (w_clients w)) \<Longrightarrow> client_at (set_client w i c) i = c"
  "length (cs_slots (w_clients (set_client w i c))) = length (cs_slots (w_clients w))"
  "set_client (set_client w i c) i c' = set_client w i c'"
  by (simp_all add: client_at_def set_client_def)

lemma client_at_out [simp]: "client_at (w\<lparr>w_out := x\<rparr>) i = client_at w i" "client_at (w\<lparr>w_queue := q\<rparr>) i = client_at w i"
    "client_at (w\<lparr>w_processed := n\<rparr>) i = client_at w i"
  by (simp_all add: client_at_def)

lemma set_client_out [simp]: "set_client (w\<lparr>w_out := x\<rparr>) i c = (set_client w i c)\<lparr>w_out := x\<rparr>" "set_client (w\<lparr>w_queue := q\<rparr>) i c = (set_client w i c)\<lparr>w_queue := q\<rparr>"
    "w_out (set_client w i c) = w_out w" "w_queue (set_client w i c) = w_queue w" "w_auth (set_client w i c) = w_auth w" "w_dbs (set_client w i c) = w_dbs w"
    "w_processed (set_client w i c) = w_processed w"
    "set_client (w\<lparr>w_processed := n\<rparr>) i c = (set_client w i c)\<lparr>w_processed := n\<rparr>"
  by (simp_all add: set_client_def)

text \<open>\<open>in_block c cmd sub bk\<close>: the client \<open>c\<close> with another last command and another block.\<close>

definition in_block :: "client \<Rightarrow> bytes option \<Rightarrow> bytes option \<Rightarrow> block option \<Rightarrow> client" where
  "in_block c cmd sub bk = c\<lparr>cl_command := cmd, cl_subcommand := sub, cl_waiting_block := bk\<rparr>"

lemma in_block_simps [simp]:
  "cl_waiting_block (in_block c cmd sub bk) = bk" "cl_locked (in_block c cmd sub bk) = cl_locked c" "cl_database (in_block c cmd sub bk) = cl_database c"
  "cl_password (in_block c cmd sub bk) = cl_password c" "live (in_block c cmd sub bk) = live c" "cl_protover (in_block c cmd sub bk) = cl_protover c"
  "in_block (in_block c cmd sub bk) cmd' sub' bk' = in_block c cmd' sub' bk'"
  "(in_block c cmd sub bk)\<lparr>cl_waiting_block := bk'\<rparr> = in_block c cmd sub bk'"
  by (simp_all add: in_block_def live_def)

lemma get_used_command_block: "\<exists>cmd sub. get_used_command h args c = in_block c cmd sub (cl_waiting_block c)"
  by (cases c) (auto simp: get_used_command_def in_block_def)

lemma hand_over_queued:
  assumes i: "i < length (cs_slots (w_clients w))" and l: "\<not> cl_locked (client_at w i)" and b: "cl_waiting_block (client_at w i) = Some bk"
    and q: "queueable commands c"
  shows "\<exists>cmd sub. hand_over True True commands i (fst c) (snd c) w =
    Inr ((set_client w i (in_block (client_at w i) cmd sub
      (Some (bk\<lparr>bk_transactions := bk_transactions bk @ [transaction_of commands (cl_database (client_at w i)) c]\<rparr>))))\<lparr>w_out := w_out w @ [Sent i QUEUED]\<rparr>)"
proof -
  obtain k where k: "get_command_index commands (fst c) 0 = Some k" "\<not> h_waiting (commands ! k)" using q by (auto simp: queueable_def)
  obtain cmd sub where u: "get_used_command (commands ! k) (snd c) (client_at w i) = in_block (client_at w i) cmd sub (cl_waiting_block (client_at w i))"
    using get_used_command_block by blast
  show ?thesis
    by (rule exI [of _ cmd], rule exI [of _ sub])
      (use i l b k u in \<open>simp add: hand_over_def hand_over_command_def add_transaction_def prepare_transaction_def transaction_of_def write_to_socket_def emit_def Let_def\<close>)
qed

lemma hand_over_all_queued:
  "\<lbrakk>i < length (cs_slots (w_clients w)); \<not> cl_locked (client_at w i); cl_waiting_block (client_at w i) = Some bk; list_all (queueable commands) cs\<rbrakk> \<Longrightarrow>
   \<exists>cmd sub. hand_over_all commands i cs w =
     Inr ((set_client w i (in_block (client_at w i) cmd sub
       (Some (bk\<lparr>bk_transactions := bk_transactions bk @ map (transaction_of commands (cl_database (client_at w i))) cs\<rparr>))))
       \<lparr>w_out := w_out w @ replicate (length cs) (Sent i QUEUED)\<rparr>)"
proof (induction cs arbitrary: w bk)
  case Nil
  have "set_client w i (in_block (client_at w i) (cl_command (client_at w i)) (cl_subcommand (client_at w i)) (Some bk)) = w"
    using Nil.prems by (simp add: in_block_def set_client_def client_at_def list_update_same_conv)
  then show ?case by (intro exI [of _ "cl_command (client_at w i)"] exI [of _ "cl_subcommand (client_at w i)"]) simp
next
  case (Cons c cs)
  let ?c = "client_at w i" and ?bk = "bk\<lparr>bk_transactions := bk_transactions bk @ [transaction_of commands (cl_database (client_at w i)) c]\<rparr>"
  obtain cmd sub where h: "hand_over True True commands i (fst c) (snd c) w =
      Inr ((set_client w i (in_block ?c cmd sub (Some ?bk)))\<lparr>w_out := w_out w @ [Sent i QUEUED]\<rparr>)"
    using hand_over_queued [OF Cons.prems(1-3), of commands c] Cons.prems(4) by (auto simp del: fst_conv)
  let ?w = "(set_client w i (in_block ?c cmd sub (Some ?bk)))\<lparr>w_out := w_out w @ [Sent i QUEUED]\<rparr>"
  have cw: "client_at ?w i = in_block ?c cmd sub (Some ?bk)" using Cons.prems(1) by simp
  obtain cmd' sub' where t: "hand_over_all commands i cs ?w = Inr ((set_client ?w i (in_block (client_at ?w i) cmd' sub'
       (Some (?bk\<lparr>bk_transactions := bk_transactions ?bk @ map (transaction_of commands (cl_database (client_at ?w i))) cs\<rparr>))))
       \<lparr>w_out := w_out ?w @ replicate (length cs) (Sent i QUEUED)\<rparr>)"
    using Cons.IH [of ?w ?bk] Cons.prems cw by auto
  show ?case using h t unfolding cw by (intro exI [of _ cmd'] exI [of _ sub']) simp
qed

section \<open>\<open>EXEC\<close> and \<open>DISCARD\<close>\<close>

text \<open>A direct block of a connected client whose command needs no permission.\<close>

lemma hand_over_direct:
  assumes i: "connected w i" and l: "\<not> cl_locked (client_at w i)"
    and k: "get_command_index commands name 0 = Some k" "h_waiting (commands ! k)"
    and q: "holds_list n A (w_queue w) bks" "length bks < 2 ^ n"
  shows "\<exists>cmd sub q'. hand_over True True commands i name args w =
      Inr ((set_client w i (in_block (client_at w i) cmd sub (cl_waiting_block (client_at w i))))\<lparr>w_queue := q'\<rparr>) \<and>
    holds_list n A q' (bks @ [\<lparr>bk_type = TX_DIRECT, bk_client = i, bk_password = cl_password (client_at w i),
      bk_transactions = [\<lparr>tx_args = args, tx_command = k, tx_database = cl_database (client_at w i)\<rparr>]\<rparr>])"
proof -
  obtain cmd sub where u: "get_used_command (commands ! k) args (client_at w i) = in_block (client_at w i) cmd sub (cl_waiting_block (client_at w i))"
    using get_used_command_block by blast
  obtain q' c where "push_tqueue (w_queue w) \<lparr>bk_type = TX_DIRECT, bk_client = i, bk_password = cl_password (client_at w i),
      bk_transactions = [\<lparr>tx_args = args, tx_command = k, tx_database = cl_database (client_at w i)\<rparr>]\<rparr> = Inr (q', Some c)"
      "holds_list n A q' (bks @ [\<lparr>bk_type = TX_DIRECT, bk_client = i, bk_password = cl_password (client_at w i),
      bk_transactions = [\<lparr>tx_args = args, tx_command = k, tx_database = cl_database (client_at w i)\<rparr>]\<rparr>])"
    using push_holds(1) [OF q] by blast
  then show ?thesis
    by (intro exI [of _ cmd] exI [of _ sub] exI [of _ q'])
      (use i l k u in \<open>simp add: hand_over_def hand_over_command_def add_transaction_def prepare_transaction_def connected_def Let_def\<close>)
qed

lemma turn_block:
  assumes q: "holds_list n A (w_queue w) (bk # bks)"
  shows "\<exists>q'. holds_list n (A + 1) q' bks \<and>
    transaction_turn g commands e w = bind_res (execute_transaction_block g commands e bk (w\<lparr>w_queue := q'\<rparr>)) (\<lambda>w. Inr (remove_transaction_block bk w))"
  using pop_holds(1) [OF q refl] by (auto simp: transaction_turn_def)

lemma direct_command:
  assumes i: "live (client_at w i)" and pw: "au_heap (w_auth w) p = Some pw" and h: "commands ! k = handler_of name P_NONE False False waiting run"
    and bk: "bk = \<lparr>bk_type = TX_DIRECT, bk_client = i, bk_password = p, bk_transactions = [\<lparr>tx_args = args, tx_command = k, tx_database = d\<rparr>]\<rparr>"
  shows "execute_transaction_block g commands e bk w =
    bind_res (run g (e 0) \<lparr>we_client = Some i, we_args = args, we_database = d, we_password = p\<rparr> w) (\<lambda>(w, response).
      if response = [] then Inr w else add_io_request (Some i) response w)"
  using i pw h unfolding bk
  by (simp add: execute_transaction_block_def execute_transaction_def get_password_def handler_of_def P_NONE_def expire_keys_def check_autosave_def Let_def)

lemma bind_res_if: "bind_res (if b then r else s) k = (if b then bind_res r k else bind_res s k)"
  by simp

lemma bind_res_prod: "bind_res (case x of (a, b) \<Rightarrow> f a b) k = (case x of (a, b) \<Rightarrow> bind_res (f a b) k)"
  by (simp add: case_prod_beta)

lemma exec_turns:
  assumes i: "connected w i" and pw: "au_heap (w_auth w) p = Some pw" and b: "cl_waiting_block (client_at w i) = Some bk"
    and k: "commands ! k = cmd_exec" and q: "holds_list n A (w_queue w) [\<lparr>bk_type = TX_DIRECT, bk_client = i, bk_password = p,
      bk_transactions = [\<lparr>tx_args = args, tx_command = k, tx_database = d\<rparr>]\<rparr>]"
    and c: "bk_client bk = i"
  shows "\<exists>q'. holds_list n (A + 2) q' [] \<and> (\<exists>w1. w1 = (set_client w i ((client_at w i)\<lparr>cl_waiting_block := None\<rparr>))\<lparr>w_queue := q', w_processed := w_processed w + 1\<rparr> \<and>
    bind_res (transaction_turn g commands e w) (transaction_turn g commands e') =
    bind_res (execute_all g commands e' (Some i) (bk_password bk) (bk_transactions bk) w1) (\<lambda>(w2, results).
      if MAX_RESPONSE_SIZE < length (block_response results) then Inl OutOfBounds
      else bind_res (add_io_request (Some i) (block_response results) w2) (\<lambda>w3. Inr (remove_transaction_block (bk\<lparr>bk_type := TX_MULTIPLE\<rparr>) w3))))"
proof -
  let ?d = "\<lparr>bk_type = TX_DIRECT, bk_client = i, bk_password = p, bk_transactions = [\<lparr>tx_args = args, tx_command = k, tx_database = d\<rparr>]\<rparr>"
  have sl: "i < length (cs_slots (w_clients w))" "live (client_at w i)" using i by (simp_all add: connected_def)
  obtain q1 where q1: "holds_list n (A + 1) q1 []" "transaction_turn g commands e w =
      bind_res (execute_transaction_block g commands e ?d (w\<lparr>w_queue := q1\<rparr>)) (\<lambda>w. Inr (remove_transaction_block ?d w))"
    using turn_block [OF q, of g commands e] by blast
  obtain q2 s where q2: "push_tqueue q1 (bk\<lparr>bk_type := TX_MULTIPLE\<rparr>) = Inr (q2, Some s)" "holds_list n (A + 1) q2 [bk\<lparr>bk_type := TX_MULTIPLE\<rparr>]"
    using push_holds(1) [OF q1(1), of "bk\<lparr>bk_type := TX_MULTIPLE\<rparr>"] by auto
  let ?c = "(client_at w i)\<lparr>cl_waiting_block := None\<rparr>"
  let ?w1 = "(set_client w i ?c)\<lparr>w_queue := q2, w_processed := w_processed w + 1\<rparr>"
  have "transaction_turn g commands e w = Inr ?w1"
    unfolding q1(2) by (subst direct_command [where pw = pw, OF _ _ k [unfolded cmd_exec_def] refl])
      (use sl pw b q2(1) in \<open>simp_all add: run_exec_def for_client_def remove_transaction_block_def\<close>)
  moreover obtain q3 where q3: "holds_list n (A + 2) q3 []" "transaction_turn g commands e' ?w1 =
      bind_res (execute_transaction_block g commands e' (bk\<lparr>bk_type := TX_MULTIPLE\<rparr>) (?w1\<lparr>w_queue := q3\<rparr>)) (\<lambda>w. Inr (remove_transaction_block (bk\<lparr>bk_type := TX_MULTIPLE\<rparr>) w))"
    using turn_block [of n "A + 1" ?w1 "bk\<lparr>bk_type := TX_MULTIPLE\<rparr>" "[]" g commands e'] q2(2) by auto
  moreover have "live ?c" using sl by (simp add: live_def)
  ultimately show ?thesis using sl c
    by (intro exI [of _ q3] conjI q3(1) exI [of _ "?w1\<lparr>w_queue := q3\<rparr>"])
      (simp_all add: execute_transaction_block_def bind_res_assoc bind_res_if bind_res_prod Let_def cong: if_cong)
qed

end
