(* ===== verification/Expiry.thy ===== *)
theory Expiry
  imports Transactions
begin

text \<open>
  What \<open>execute_transaction\<close> does about expiry: before a command runs, every key it asks for
  that has expired is removed from the database. A command on data is therefore the same function on a database
  without its expired keys.
\<close>

definition expired :: "64 word \<Rightarrow> ('z, 'f) kv \<Rightarrow> bool" where
  "expired now kv \<longleftrightarrow> (case kv_expiry kv of None \<Rightarrow> False | Some at \<Rightarrow> at \<le> now)"

definition purge :: "64 word \<Rightarrow> bytes set \<Rightarrow> (bytes \<rightharpoonup> ('z, 'f) kv) \<Rightarrow> bytes \<rightharpoonup> ('z, 'f) kv" where
  "purge now ks m = (\<lambda>k. if k \<in> ks \<and> (\<exists>kv. m k = Some kv \<and> expired now kv) then None else m k)"

lemma purge_union: "purge now ks (purge now ls m) = purge now (ls \<union> ks) m"
  by (auto simp: purge_def fun_eq_iff)

lemma purge_empty [simp]: "purge now {} m = m"
  by (simp add: purge_def)

lemma check_expiries_correct:
  assumes "wf_db db"
  shows "\<exists>db'. check_kv_expiries (Some now) (Some s) db = Inr (Some s, db', True) \<and> wf_db db' \<and> db_name db' = db_name db \<and> db_id db' = db_id db \<and>
    db_map db' = purge now {str_bytes s} (db_map db)"
proof (rule get_data_cases [OF assms, of "str_bytes s"])
  assume a: "db_map db (str_bytes s) = None" "get_data db (str_bytes s) = Inr None"
  then have "purge now {str_bytes s} (db_map db) = db_map db" by (auto simp: purge_def fun_eq_iff)
  then show ?thesis using a assms by (simp add: check_kv_expiries_def)
next
  fix i kv assume a: "db_map db (str_bytes s) = Some kv" "get_data db (str_bytes s) = Inr (Some (i, kv))"
  show ?thesis
  proof (cases "expired now kv")
    case False
    then have "purge now {str_bytes s} (db_map db) = db_map db" using a(1) by (auto simp: purge_def fun_eq_iff)
    moreover have "check_kv_expiry (Some now) db (str_bytes s) kv = Inr (db, EXPIRY_NOT_EXPIRED)"
      using False by (auto simp: check_kv_expiry_def expired_def split: option.splits)
    ultimately show ?thesis using a assms by (simp add: check_kv_expiries_def)
  next
    case True
    then obtain at where at: "kv_expiry kv = Some at" "at \<le> now" by (auto simp: expired_def split: option.splits)
    obtain t' where t': "delete_from_hashtable (db_data db) (str_bytes s) = Inr (t', True)" "wf_table t'"
        "ht_map t' = (ht_map (db_data db))(str_bytes s := None)" "ht_hash t' = ht_hash (db_data db)" "ht_compare t' = ht_compare (db_data db)"
      using delete_correct [OF wf_db_table [OF assms], of "str_bytes s"] a(1) by (auto simp: db_map_def)
    have "db_map (db\<lparr>db_data := t'\<rparr>) = purge now {str_bytes s} (db_map db)"
      using t'(3) a(1) True by (auto simp: db_map_def purge_def fun_eq_iff)
    then show ?thesis using a at t' assms
      by (simp add: check_kv_expiries_def check_kv_expiry_def wf_db_def wf_strings_def)
  qed
qed

lemma expiry_foreach:
  "\<lbrakk>wf_db db; i + length ks \<le> length es; \<forall>j < length ks. es ! (i + j) = Some (ks ! j)\<rbrakk> \<Longrightarrow>
   \<exists>db'. foreach_loop (check_kv_expiries (Some now)) es db i (length ks) = Inr (es, db', True) \<and> wf_db db' \<and>
     db_name db' = db_name db \<and> db_id db' = db_id db \<and> db_map db' = purge now (str_bytes ` set ks) (db_map db)"
proof (induction ks arbitrary: i db)
  case (Cons k ks)
  have e: "es ! i = Some k" "i < length es" using Cons.prems by auto
  obtain d where d: "check_kv_expiries (Some now) (Some k) db = Inr (Some k, d, True)" "wf_db d" "db_name d = db_name db" "db_id d = db_id db"
      "db_map d = purge now {str_bytes k} (db_map db)"
    using check_expiries_correct [OF Cons.prems(1)] by blast
  have n: "\<forall>j < length ks. es ! (i + 1 + j) = Some (ks ! j)" using Cons.prems(3) by auto
  have l: "i + 1 + length ks \<le> length es" using Cons.prems(2) by simp
  show ?case using Cons.IH [OF d(2) l n] e d list_update_id [of es i] by (auto simp: purge_union)
qed simp

lemma keyspace_foreach:
  assumes wf: "wf_db db" "wf_vector vec" and ks: "vec_list vec = map Some ks"
  shows "\<exists>db'. foreach_vector vec (check_kv_expiries (Some now)) db = Inr (vec, db', True) \<and> wf_db db' \<and>
    db_name db' = db_name db \<and> db_id db' = db_id db \<and> db_map db' = purge now (str_bytes ` set ks) (db_map db)"
proof -
  have n: "vec_count vec = length ks" using arg_cong [OF ks, of length] wf(2) by (simp add: vec_list_def wf_vector_def)
  have l: "0 + length ks \<le> length (vec_elements vec)" using wf(2) n by (simp add: wf_vector_def)
  have "\<forall>j < length ks. vec_elements vec ! (0 + j) = Some (ks ! j)"
    using ks n by (metis add_0 length_map nth_map nth_take vec_list_def)
  from expiry_foreach [OF wf(1) l this, of now] show ?thesis by (elim exE conjE) (simp add: foreach_vector_def n)
qed

text \<open>Filling the keyspace succeeds when memory is at hand.\<close>

definition roomy :: "(nat \<Rightarrow> 'a list option) \<Rightarrow> bool" where
  "roomy mem \<longleftrightarrow> (\<forall>n. \<exists>b. mem n = Some b \<and> length b = n)"

lemma roomy_sized: "roomy mem \<Longrightarrow> sized mem"
  unfolding roomy_def sized_def by (metis option.inject)

lemma insert_keys_correct:
  assumes "roomy mem"
  shows "wf_vector vec \<Longrightarrow> \<exists>vec'. insert_keys mem vec ks = Inr vec' \<and> wf_vector vec' \<and> vec_list vec' = vec_list vec @ map Some ks"
proof (induction ks arbitrary: vec)
  case (Cons k ks)
  obtain u ok where u: "insert_into_vector mem vec (Some k) = Inr (u, ok)" "wf_vector u"
      "vec_list u = (if ok then vec_list vec @ [Some k] else vec_list vec)"
    using vector_insert [OF Cons.prems roomy_sized [OF assms], of k] by blast
  obtain b where "mem (2 * vec_capacity vec) = Some b" using assms unfolding roomy_def by blast
  then have "\<not> snd (grow_vector mem vec) < 0" by (simp add: grow_vector_def Let_def)
  then have "ok" using u(1) by (auto simp: insert_into_vector_def bind_res_eq_Inr_iff split: prod.splits)
  then show ?case using Cons.IH [OF u(2)] u by simp
qed simp

section \<open>A command on data in the world\<close>

lemma database_put_same [simp]: "database_at w a = Inr db \<Longrightarrow> database_at (put_database w a db') a = Inr db'"
  by (auto simp: database_at_def put_database_def node_at_def bind_res_eq_Inr_iff split: option.splits)

lemma database_put_twice: "database_at w a = Inr db \<Longrightarrow> put_database (put_database w a d) a d' = put_database w a d'"
  by (auto simp: database_at_def put_database_def node_at_def bind_res_eq_Inr_iff split: option.splits)

lemma put_keyspace [simp]:
  "database_at (w\<lparr>w_keyspace := ks\<rparr>) a = database_at w a" "put_database (w\<lparr>w_keyspace := ks\<rparr>) a db = (put_database w a db)\<lparr>w_keyspace := ks\<rparr>"
  by (simp_all add: database_at_def put_database_def)

lemma put_database_simps [simp]:
  "w_auth (put_database w a db) = w_auth w" "w_clients (put_database w a db) = w_clients w" "w_keyspace (put_database w a db) = w_keyspace w"
  "w_out (put_database w a db) = w_out w" "w_queue (put_database w a db) = w_queue w" "client_at (put_database w a db) i = client_at w i"
  by (simp_all add: put_database_def client_at_def)

lemma plain_entry_cong:
  "\<lbrakk>w_auth w' = w_auth w; w_clients w' = w_clients w\<rbrakk> \<Longrightarrow> plain_entry we w' = plain_entry we w"
  by (simp add: plain_entry_def client_at_def)

lemma expire_keys_correct:
  assumes h: "h_access h" "h_get_keys h = Some gk" and en: "plain_entry we w = Inr en" and db: "database_at w (we_database we) = Inr db" "wf_db db"
    and ks: "wf_vector (w_keyspace w)" "vec_list (w_keyspace w) = []" and mem: "roomy (g_keys e)" and now: "g_clock e 31 = Some now"
  shows "\<exists>db' vec. expire_keys e h we w = Inr ((if gk en = [] then w else put_database w (we_database we) db')\<lparr>w_keyspace := vec\<rparr>) \<and> wf_db db' \<and>
    wf_vector vec \<and> vec_list vec = [] \<and> db_name db' = db_name db \<and> db_id db' = db_id db \<and> db_map db' = purge now (str_bytes ` set (gk en)) (db_map db) \<and>
    (gk en = [] \<longrightarrow> db' = db)"
proof -
  obtain vec where vec: "insert_keys (g_keys e) (w_keyspace w) (gk en) = Inr vec" "wf_vector vec" "vec_list vec = map Some (gk en)"
    using insert_keys_correct [OF mem ks(1), of "gk en"] ks(2) by auto
  have n: "vec_count vec = length (gk en)" using arg_cong [OF vec(3), of length] vec(2) by (simp add: vec_list_def wf_vector_def)
  show ?thesis
  proof (cases "gk en = []")
    case True
    then show ?thesis using h en vec n db by (intro exI [of _ db] exI [of _ vec]) (simp add: expire_keys_def)
  next
    case False
    obtain db' where db': "foreach_vector vec (check_kv_expiries (Some now)) db = Inr (vec, db', True)" "wf_db db'"
        "db_name db' = db_name db" "db_id db' = db_id db" "db_map db' = purge now (str_bytes ` set (gk en)) (db_map db)"
      using keyspace_foreach [OF db(2) vec(2,3), of now] by blast
    obtain vec' where vec': "clear_vector vec False = Inr (vec', [])" "wf_vector vec'" "vec_list vec' = []" using vector_clear [OF vec(2)] by blast
    have "expiry_loop (g_clock e) vec db EXPIRY_RETRY_COUNT = Inr (vec, db')"
      using db'(1) now by (simp add: EXPIRY_RETRY_COUNT_def eval_nat_numeral)
    then show ?thesis using h en vec n db db' vec' False by (intro exI [of _ db'] exI [of _ vec']) (simp add: expire_keys_def)
  qed
qed

lemma execute_on_data:
  assumes c: "c_access c" and tx: "commands ! tx_command tx = on_data c" and pw: "au_heap (w_auth w) password = Some pw"
    and may: "pw_permissions pw AND c_permissions c = c_permissions c"
    and db: "database_at w (tx_database tx) = Inr db" "wf_db db"
    and ks: "wf_vector (w_keyspace w)" "vec_list (w_keyspace w) = []" and mem: "roomy (g_keys e)" and now: "g_clock e 31 = Some now"
    and en: "en = \<lparr>en_client = map_option (\<lambda>i. cl_protover (client_at w i)) client, en_args = tx_args tx, en_permissions = pw_permissions pw\<rparr>"
  shows "\<exists>db' vec. wf_db db' \<and> db_map db' = purge now (str_bytes ` set (c_get_keys c en)) (db_map db) \<and> wf_vector vec \<and> vec_list vec = [] \<and>
    execute_transaction g commands e client password tx w =
      bind_res (c_run c g (g_env e) en db') (\<lambda>(db'', bs). Inr ((put_database w (tx_database tx) db'')\<lparr>w_keyspace := vec\<rparr>, bs))"
proof -
  let ?we = "\<lparr>we_client = client, we_args = tx_args tx, we_database = tx_database tx, we_password = password\<rparr>"
  have p: "plain_entry ?we w = Inr en" using pw en by (simp add: plain_entry_def get_password_def)
  have h: "h_access (on_data c)" "h_get_keys (on_data c) = Some (c_get_keys c)" using c by (simp_all add: on_data_def)
  have d: "database_at w (we_database ?we) = Inr db" using db(1) by simp
  obtain db' vec where x: "expire_keys e (on_data c) ?we w = Inr ((if c_get_keys c en = [] then w else put_database w (tx_database tx) db')\<lparr>w_keyspace := vec\<rparr>)"
      "wf_db db'" "wf_vector vec" "vec_list vec = []" "db_map db' = purge now (str_bytes ` set (c_get_keys c en)) (db_map db)" "c_get_keys c en = [] \<longrightarrow> db' = db"
    using expire_keys_correct [OF h p d db(2) ks mem now] by (elim exE conjE) (rule that; simp only: wentry.select_convs)
  let ?w = "(if c_get_keys c en = [] then w else put_database w (tx_database tx) db')\<lparr>w_keyspace := vec\<rparr>"
  have p': "plain_entry ?we ?w = Inr en" using p by (subst plain_entry_cong [of ?w w]) simp_all
  have d': "database_at ?w (tx_database tx) = Inr db'" using db(1) x(6) by auto
  have put: "put_database ?w (tx_database tx) d = (put_database w (tx_database tx) d)\<lparr>w_keyspace := vec\<rparr>" for d
    using database_put_twice [OF db(1), of db' d] by simp
  have "run_on_data c g e ?we ?w = bind_res (c_run c g (g_env e) en db') (\<lambda>(db'', bs). Inr ((put_database w (tx_database tx) db'')\<lparr>w_keyspace := vec\<rparr>, bs))"
    using p' d' put by (simp add: run_on_data_def)
  moreover have "get_password (w_auth w) password = Inr pw" using pw by (simp add: get_password_def)
  moreover have "h_permissions (on_data c) = c_permissions c" "h_run (on_data c) = run_on_data c" by (simp_all add: on_data_def)
  ultimately have "execute_transaction g commands e client password tx w =
      bind_res (c_run c g (g_env e) en db') (\<lambda>(db'', bs). Inr ((put_database w (tx_database tx) db'')\<lparr>w_keyspace := vec\<rparr>, bs))"
    using tx may x(1) by (simp add: execute_transaction_def Let_def)
  then show ?thesis using x(2-5) by blast
qed

end
