(* ===== verification/HashSet.thy ===== *)
theory HashSet
  imports HashTable
begin

text \<open>
  \<open>src/utils/hashset.c\<close>: a set of non-NULL pointers, with the probing of the hash table over an
  array of pointers, the address being its own hash. A pointer is its address, a 64-bit word;
  the array is an array of slots without values, so that the loops of the two files are the same
  functions. The lemmas reduce every operation to the one of the hash table (\<open>as_table\<close>).
\<close>

type_synonym pslots = "(64 word, unit) slots"

record hashset =
  hs_capacity :: nat
  hs_count :: nat
  hs_elements :: pslots

definition same_pointer :: "64 word option \<Rightarrow> 64 word option \<Rightarrow> bool" where
  "same_pointer a b \<longleftrightarrow> a = b"

definition create_hashset :: "bool \<Rightarrow> bool \<Rightarrow> nat \<Rightarrow> hashset option" where
  "create_hashset ok1 ok2 capacity =
     (if \<not> ok1 then None else if \<not> ok2 then None
      else Some \<lparr>hs_capacity = capacity, hs_count = 0, hs_elements = replicate capacity None\<rparr>)"

definition grow_hashset :: "(nat \<Rightarrow> pslots option) \<Rightarrow> hashset \<Rightarrow> (hashset \<times> int) res" where
  "grow_hashset mem s =
     (if 4 * hs_count s < 3 * hs_capacity s then Inr (s, 0)
      else let new_capacity = 2 * hs_capacity s in
        case mem new_capacity of
          None \<Rightarrow> Inr (s, - 1)
        | Some block \<Rightarrow>
            bind_res (of_loop (rehash id (hs_elements s) block)) (\<lambda>elements.
              Inr (s\<lparr>hs_elements := elements, hs_capacity := new_capacity\<rparr>, 1)))"

definition insert_into_hashset :: "(nat \<Rightarrow> pslots option) \<Rightarrow> hashset \<Rightarrow> 64 word \<Rightarrow> (hashset \<times> int) res" where
  "insert_into_hashset mem s element =
     bind_res (grow_hashset mem s) (\<lambda>(s, grown).
       if grown < 0 then Inr (s, - 2)
       else if hs_capacity s = 0 then Inl DivByZero
       else bind_res (of_loop (probe_insert same_pointer (hs_elements s) element
                        (home id (hs_capacity s) element))) (\<lambda>index.
         case hs_elements s ! index of
           Some _ \<Rightarrow> Inr (s, - 1)
         | None \<Rightarrow> Inr (s\<lparr>hs_elements := (hs_elements s)[index := Some (element, ())],
                          hs_count := hs_count s + 1\<rparr>, 0)))"

definition delete_from_hashset :: "hashset \<Rightarrow> 64 word \<Rightarrow> (hashset \<times> bool) res" where
  "delete_from_hashset s element =
     (if hs_capacity s = 0 then Inl DivByZero
      else let start = home id (hs_capacity s) element in
        bind_res (of_loop (find_loop same_pointer (hs_elements s) element start start)) (\<lambda>found.
          case found of
            None \<Rightarrow> Inr (s, False)
          | Some deletion \<Rightarrow>
              bind_res (of_loop (shift_loop id ((hs_elements s)[deletion := None]) deletion deletion)) (\<lambda>elements.
                Inr (s\<lparr>hs_elements := elements, hs_count := hs_count s - 1\<rparr>, True))))"

definition exist_in_hashset :: "hashset \<Rightarrow> 64 word \<Rightarrow> bool res" where
  "exist_in_hashset s element =
     (if hs_capacity s = 0 then Inl DivByZero
      else let start = home id (hs_capacity s) element in
        bind_res (of_loop (find_loop same_pointer (hs_elements s) element start start)) (\<lambda>found.
          Inr (found \<noteq> None)))"

section \<open>Refinement of the hash table\<close>

definition as_table :: "hashset \<Rightarrow> (64 word, unit) hashtable" where
  "as_table s = \<lparr>ht_capacity = hs_capacity s, ht_count = hs_count s, ht_elements = hs_elements s,
                 ht_hash = id, ht_compare = same_pointer\<rparr>"

definition wf_hashset :: "hashset \<Rightarrow> bool" where
  "wf_hashset s \<longleftrightarrow> wf_table (as_table s)"

definition hs_set :: "hashset \<Rightarrow> 64 word set" where
  "hs_set s = dom (ht_map (as_table s))"

lemma as_table_simps [simp]:
  "ht_capacity (as_table s) = hs_capacity s" "ht_count (as_table s) = hs_count s"
  "ht_elements (as_table s) = hs_elements s" "ht_hash (as_table s) = id"
  "ht_compare (as_table s) = same_pointer"
  by (simp_all add: as_table_def)

lemma key_eq_same_pointer [simp]: "key_eq same_pointer"
  by (simp add: key_eq_def same_pointer_def)

lemma grow_refines:
  "grow_hashtable mem (as_table s) = bind_res (grow_hashset mem s) (\<lambda>(s', r). Inr (as_table s', r))"
  by (simp add: grow_hashtable_def grow_hashset_def Let_def bind_res_assoc split: option.splits)
     (simp add: as_table_def)

text \<open>\<open>insert_into_hashset\<close> answers \<open>0\<close>, \<open>-1\<close>, \<open>-2\<close> where the table answers new, present, NULL.\<close>

lemma insert_refines:
  "bind_res (insert_into_hashtable mem (as_table s) k ()) (\<lambda>(t, r). Inr (t, r = None)) =
   bind_res (insert_into_hashset mem s k) (\<lambda>(s', r). Inr (as_table s', r = - 2))"
proof (cases "grow_hashset mem s")
  case (Inr sr)
  obtain u g where sr: "sr = (u, g)" by (cases sr)
  show ?thesis
    using Inr unfolding insert_into_hashtable_def insert_into_hashset_def grow_refines sr
    by (cases "probe_insert same_pointer (hs_elements u) k (home id (hs_capacity u) k)")
      (simp_all split: option.splits add: as_table_def)
qed (simp add: insert_into_hashtable_def insert_into_hashset_def grow_refines)

lemma delete_refines:
  "delete_from_hashtable (as_table s) k = bind_res (delete_from_hashset s k) (\<lambda>(s', b). Inr (as_table s', b))"
  unfolding delete_from_hashtable_def delete_from_hashset_def Let_def bind_res_def of_loop_def
  by (auto split: option.splits sum.splits simp: as_table_def)

lemma exist_refines: "exist_in_hashtable (as_table s) k = exist_in_hashset s k"
  by (simp add: exist_in_hashtable_def exist_in_hashset_def)

lemma hashset_create:
  "0 < n \<Longrightarrow> \<exists>s. create_hashset True True n = Some s \<and> wf_hashset s \<and> hs_set s = {}"
  by (simp add: create_hashset_def wf_hashset_def wf_table_def hs_set_def ht_map_def foreach_entries fun_eq_iff)

lemma hashset_exist: "wf_hashset s \<Longrightarrow> exist_in_hashset s k = Inr (k \<in> hs_set s)"
  using exist_correct [of "as_table s" k] by (simp add: exist_refines wf_hashset_def hs_set_def dom_def)

lemma hashset_delete:
  assumes "wf_hashset s"
  shows "\<exists>s'. delete_from_hashset s k = Inr (s', k \<in> hs_set s) \<and> wf_hashset s' \<and> hs_set s' = hs_set s - {k}"
proof -
  obtain t' where "delete_from_hashtable (as_table s) k = Inr (t', ht_map (as_table s) k \<noteq> None)" "wf_table t'"
      "ht_map t' = (ht_map (as_table s))(k := None)"
    using delete_correct [of "as_table s" k] assms by (auto simp: wf_hashset_def)
  then show ?thesis
    by (auto simp: delete_refines bind_res_eq_Inr_iff wf_hashset_def hs_set_def split: prod.splits)
qed

lemma hashset_insert:
  assumes "wf_hashset s" "zeroed mem"
  shows "\<exists>s' r. insert_into_hashset mem s k = Inr (s', r) \<and> wf_hashset s' \<and>
    (r = - 2 \<longrightarrow> hs_set s' = hs_set s) \<and> (r \<noteq> - 2 \<longrightarrow> hs_set s' = insert k (hs_set s))"
proof -
  obtain t' r where t: "insert_into_hashtable mem (as_table s) k () = Inr (t', r)" "wf_table t'"
      "ht_map t' = (if r = None \<or> ht_map (as_table s) k \<noteq> None then ht_map (as_table s)
                    else (ht_map (as_table s))(k \<mapsto> ()))"
    using ht.ins_law [of "as_table s" mem k "()"] assms by (auto simp: wf_hashset_def)
  then obtain s' r' where s: "insert_into_hashset mem s k = Inr (s', r')" "t' = as_table s'" "r = None \<longleftrightarrow> r' = - 2"
    using insert_refines [of mem s k] by (auto simp: bind_res_def split: sum.splits)
  have "hs_set s' = (if r = None then hs_set s else insert k (hs_set s))"
    using t(3) s(2) by (auto simp: hs_set_def dom_def)
  then show ?thesis using s t(2) by (auto simp: wf_hashset_def)
qed

end
