(* ===== verification/Arena.thy ===== *)
theory Arena
  imports Telly_Prelude
begin

text \<open>
  \<open>src/utils/arena.c\<close>: a bump allocator over a chain of blocks. A block is its region, known by
  the address it starts at and its size, and the index of the first free byte. The chain is a
  list, \<open>start\<close> is its head and \<open>current\<close> its last block. Addresses and sizes are natural numbers;
  the sizes the callers pass are compile-time constants or lengths of received commands.
\<close>

record arena_block =
  ab_region :: nat
  ab_index :: nat
  ab_size :: nat

type_synonym arena = "arena_block list"

text \<open>
  \<open>region\<close>: the address \<open>malloc\<close> returns for the block's memory (\<open>None\<close>: out of memory), which is
  16-aligned.
\<close>

definition arena_block_create :: "bool \<Rightarrow> nat option \<Rightarrow> nat \<Rightarrow> arena_block option" where
  "arena_block_create ok region sz =
     (if \<not> ok then None
      else case region of None \<Rightarrow> None | Some a \<Rightarrow> Some \<lparr>ab_region = a, ab_index = 0, ab_size = sz\<rparr>)"

definition arena_create :: "bool \<Rightarrow> bool \<Rightarrow> nat option \<Rightarrow> nat \<Rightarrow> arena option" where
  "arena_create ok1 ok2 region sz =
     (if \<not> ok1 then None
      else case arena_block_create ok2 region sz of None \<Rightarrow> None | Some b \<Rightarrow> Some [b])"

text \<open>The result is the arena and the address of the memory (\<open>None\<close> for NULL).\<close>

definition arena_alloc_aligned ::
  "bool \<Rightarrow> nat option \<Rightarrow> arena \<Rightarrow> nat \<Rightarrow> nat \<Rightarrow> (arena \<times> nat option) res" where
  "arena_alloc_aligned ok region ar sz alignment =
     (if alignment = 0 then Inl DivByZero
      else if ar = [] then Inl NullDeref
      else let block = last ar;
               offset = (ab_region block + ab_index block) mod alignment;
               block = (if 0 < offset then block\<lparr>ab_index := ab_index block - offset + alignment\<rparr> else block)
        in if ab_size block < sz + (ab_index block + offset) then
             case arena_block_create ok region (ab_size block) of
               None \<Rightarrow> Inr (butlast ar @ [block], None)
             | Some nblock \<Rightarrow>
                 Inr (butlast ar @ [block, nblock\<lparr>ab_index := ab_index nblock + sz\<rparr>],
                      Some (ab_region nblock + ab_index nblock))
           else Inr (butlast ar @ [block\<lparr>ab_index := ab_index block + sz\<rparr>],
                     Some (ab_region block + ab_index block)))"

definition arena_alloc :: "bool \<Rightarrow> nat option \<Rightarrow> arena \<Rightarrow> nat \<Rightarrow> (arena \<times> nat option) res" where
  "arena_alloc ok region ar sz = arena_alloc_aligned ok region ar sz 8"

definition arena_destroy :: "arena \<Rightarrow> nat list" where
  "arena_destroy ar = map ab_region ar"

section \<open>Allocations are aligned, inside their block and disjoint\<close>

text \<open>A block whose regions are 16-aligned and hold the allocations made so far.\<close>

definition wf_arena :: "arena \<Rightarrow> bool" where
  "wf_arena ar \<longleftrightarrow> ar \<noteq> [] \<and> 16 dvd ab_region (last ar)"

definition malloc_aligned :: "nat option \<Rightarrow> bool" where
  "malloc_aligned region \<longleftrightarrow> (case region of None \<Rightarrow> True | Some a \<Rightarrow> 16 dvd a)"

lemma round_up_aligned: "0 < (a + i) mod n \<Longrightarrow> (a + i) mod n \<le> i \<Longrightarrow> n dvd a + (i - (a + i) mod n + n)" for a i n :: nat
proof -
  assume le: "(a + i) mod n \<le> i"
  then have "a + (i - (a + i) mod n + n) = ((a + i) - (a + i) mod n) + n" by simp
  moreover have "n dvd (a + i) - (a + i) mod n" by (rule dvd_minus_mod)
  ultimately show ?thesis by (metis dvd_add_triv_right_iff)
qed

lemma offset_le_index:
  fixes a i n :: nat assumes "n dvd a" shows "(a + i) mod n \<le> i"
  using assms by (metis add_0_left dvd_imp_mod_0 mod_add_left_eq mod_less_eq_dividend)

text \<open>
  One allocation of \<open>arena_alloc\<close>: the address is 8-aligned; the memory is behind everything the
  block held before or in a fresh block; it stays inside the block when the size asked for is not
  larger than the size of a block.
\<close>

lemma arena_alloc_correct:
  assumes wf: "wf_arena ar" and al: "malloc_aligned region"
    and r: "arena_alloc ok region ar sz = Inr (ar', Some p)"
  defines "b \<equiv> last ar" and "b' \<equiv> last ar'"
  shows "wf_arena ar'" and "8 dvd p" and "ab_size b' = ab_size b" and "p + sz = ab_region b' + ab_index b'"
    and "sz \<le> ab_size b \<Longrightarrow> ab_index b' \<le> ab_size b'"
    and "length ar' = length ar \<and> ab_region b' = ab_region b \<and> ab_region b + ab_index b \<le> p \<or>
      length ar' = Suc (length ar) \<and> p = ab_region b'"
proof -
  let ?o = "(ab_region b + ab_index b) mod 8"
  let ?i = "if 0 < ?o then ab_index b - ?o + 8 else ab_index b"
  have ne: "ar \<noteq> []" and reg: "16 dvd ab_region b" using wf by (simp_all add: wf_arena_def b_def)
  have "8 dvd ab_region b" using reg by (rule dvd_trans [rotated]) simp
  then have off: "?o \<le> ab_index b" by (rule offset_le_index)
  have aligned: "8 dvd ab_region b + ?i"
    using round_up_aligned [of "ab_region b" "ab_index b" 8] off by (auto simp: mod_eq_0_iff_dvd)
  have up: "ab_index b \<le> ?i" using off by (simp add: less_imp_le)
  have cases: "(p = ab_region b + ?i \<and> ar' = butlast ar @ [b\<lparr>ab_index := ?i + sz\<rparr>] \<and> sz + (?i + ?o) \<le> ab_size b) \<or>
      (\<exists>a c. region = Some a \<and> p = a \<and> ar' = butlast ar @ [c, \<lparr>ab_region = a, ab_index = sz, ab_size = ab_size b\<rparr>])"
    using r ne by (auto simp: arena_alloc_def arena_alloc_aligned_def arena_block_create_def Let_def b_def
        not_less split: if_splits option.splits)
  have l: "length ar = Suc (length (butlast ar))" using ne by simp
  show "wf_arena ar'" "8 dvd p" "ab_size b' = ab_size b" "p + sz = ab_region b' + ab_index b'"
    using cases aligned reg al by (auto simp: b'_def wf_arena_def malloc_aligned_def intro: dvd_trans [of 8 16])
  show "ab_index b' \<le> ab_size b'" if "sz \<le> ab_size b" using cases that by (auto simp: b'_def)
  show "length ar' = length ar \<and> ab_region b' = ab_region b \<and> ab_region b + ab_index b \<le> p \<or>
      length ar' = Suc (length ar) \<and> p = ab_region b'"
    using cases up l by (auto simp: b'_def)
qed

text \<open>A request that does not fit in a block is answered with memory that ends outside it.\<close>

lemma arena_alloc_overrun:
  assumes "ar \<noteq> []" "ab_size (last ar) < sz"
  shows "\<exists>ar'. arena_alloc True (Some a) ar sz = Inr (ar', Some a) \<and> ab_size (last ar') < ab_index (last ar')"
  using assms by (auto simp: arena_alloc_def arena_alloc_aligned_def arena_block_create_def Let_def)

end
