(* ===== verification/Resp_Parse.thy ===== *)
theory Resp_Parse
  imports Number
begin

text \<open>
  The reading side of the protocol: \<open>read_from_socket\<close> (\<open>src/server/utils.c\<close>), \<open>take_n_bytes\<close>
  (\<open>src/resp/take.h\<close>), the RESP and the inline parser (\<open>src/resp/resp.c\<close>, \<open>inline.c\<close>,
  \<open>data.c\<close>).

  The socket is a list of events, each the outcome of one \<open>read\<close>; when the list is exhausted there
  is nothing more to read for now. The query buffer is memory of an explicit size, and the two
  32-bit positions \<open>*at\<close> and \<open>*size\<close> wrap as they do in C. \<open>realloc\<close> is a parameter: it stands
  for the allocator and decides what the new part of the buffer contains.
\<close>

section \<open>The socket\<close>

datatype sock_event =
    Recv bytes   \<comment> \<open>bytes arrive; no bytes at all is the end of the stream\<close>
  | Intr         \<comment> \<open>\<open>EINTR\<close>\<close>
  | Again        \<comment> \<open>\<open>EAGAIN\<close>, or \<open>SSL_ERROR_WANT_READ\<close> of a TLS connection\<close>
  | Fail         \<comment> \<open>any other error\<close>

text \<open>
  The bytes written to the buffer, the rest of the events, and whether \<open>-1\<close> is returned. A TLS
  connection asks again until it has all bytes. At the end of the stream \<open>read\<close> returns 0 and leaves \<open>errno\<close> as an earlier
  call set it, but the code looks at it: an end of the stream with \<open>EAGAIN\<close> left over is the event \<open>Again\<close>.
\<close>

fun read_from_socket :: "bool \<Rightarrow> sock_event list \<Rightarrow> nat \<Rightarrow> (bytes \<times> sock_event list \<times> bool) res" where
  "read_from_socket ssl ev nbytes =
     (if nbytes = 0 then Inr ([], ev, False)
      else case ev of
        [] \<Rightarrow> if ssl then Inl Endless else Inr ([], [], False)
      | Fail # ev \<Rightarrow> Inr ([], ev, True)
      | Again # ev \<Rightarrow> if ssl then read_from_socket ssl ev nbytes else Inr ([], ev, False)
      | Intr # ev \<Rightarrow> if ssl then Inr ([], ev, True) else read_from_socket ssl ev nbytes
      | Recv bs # ev \<Rightarrow>
          if bs = [] then Inr ([], ev, True)
          else if nbytes < length bs then Inr (take nbytes bs, Recv (drop nbytes bs) # ev, False)
          else bind_res (read_from_socket ssl ev (nbytes - length bs)) (\<lambda>(d, ev, failed).
            Inr (bs @ d, ev, failed)))"

declare read_from_socket.simps [simp del]

lemma read_amount:
  "read_from_socket ssl ev n = Inr (d, ev', failed) \<Longrightarrow> length d \<le> n"
proof (induction ssl ev n arbitrary: d ev' failed rule: read_from_socket.induct)
  case (1 ssl ev n)
  have r: "\<lbrakk>n \<noteq> 0; ev = Recv bs # e; bs \<noteq> []; \<not> n < length bs; read_from_socket ssl e (n - length bs) = Inr (a, ev', failed)\<rbrakk>
      \<Longrightarrow> length bs + length a \<le> n" for bs e a
    using 1(1) [of "Recv bs" e bs a ev' failed] by simp
  have i: "\<lbrakk>n \<noteq> 0; ev = Intr # e; \<not> ssl; read_from_socket ssl e n = Inr (d, ev', failed)\<rbrakk> \<Longrightarrow> length d \<le> n" for e
    using 1(2) [of Intr e] by simp
  have g: "\<lbrakk>n \<noteq> 0; ev = Again # e; ssl; read_from_socket ssl e n = Inr (d, ev', failed)\<rbrakk> \<Longrightarrow> length d \<le> n" for e
    using 1(3) [of Again e] by simp
  show ?case
    using 1(4) r i g by (subst (asm) read_from_socket.simps)
      (auto split: if_splits list.splits sock_event.splits elim!: bind_res_InrE)
qed

section \<open>Taking bytes\<close>

record reader =
  rd_data :: bytes
  rd_size :: "32 word"
  rd_at :: "32 word"
  rd_used :: "32 word"
  rd_sock :: "sock_event list"

type_synonym allocator = "bytes \<Rightarrow> nat \<Rightarrow> bytes option"

text \<open>A pointer into the buffer is its offset, a signed number.\<close>

definition byte_at :: "reader \<Rightarrow> int \<Rightarrow> char res" where
  "byte_at rd off = (if 0 \<le> off \<and> off < int (length (rd_data rd)) then Inr (rd_data rd ! nat off) else Inl OutOfBounds)"

text \<open>
  The result is the reader, the returned count (\<open>-1\<close> as a word when \<open>realloc\<close> fails) and the
  offset \<open>*data\<close> points to.
\<close>

definition take_n_bytes :: "bool \<Rightarrow> allocator \<Rightarrow> reader \<Rightarrow> 32 word \<Rightarrow> (reader \<times> 32 word \<times> int) res" where
  "take_n_bytes ssl realloc rd n =
     (let current_at = rd_at rd; remaining = rd_used rd - current_at; data = sint current_at in
      if n \<le> remaining then Inr (rd\<lparr>rd_at := current_at + n\<rparr>, n, data)
      else let required = rd_used rd + (n - remaining) in
        case (if rd_size rd < required then
                case realloc (rd_data rd) (unat required) of
                  None \<Rightarrow> None
                | Some d \<Rightarrow> Some (rd\<lparr>rd_data := d, rd_size := required\<rparr>)
              else Some rd) of
          None \<Rightarrow> Inr (rd\<lparr>rd_data := []\<rparr>, - 1, data)
        | Some rd \<Rightarrow>
            bind_res (read_from_socket ssl (rd_sock rd) (unat (n - remaining))) (\<lambda>(bs, ev, failed).
              let rd = rd\<lparr>rd_sock := ev\<rparr> in
              bind_res (if bs = [] then Inr (rd_data rd)
                        else if data + int (unat remaining) < 0 then Inl OutOfBounds
                        else mem_put (rd_data rd) (nat (data + int (unat remaining))) bs) (\<lambda>d.
                let rd = rd\<lparr>rd_data := d\<rparr> in
                if failed \<or> bs = [] then Inr (rd, remaining, data)
                else Inr (rd\<lparr>rd_used := rd_used rd + (n - remaining), rd_at := current_at + n\<rparr>, n, data))))"

text \<open>
  \<open>TAKE_BYTES\<close>: the function that uses it returns false when fewer bytes are there. \<open>'a parse\<close> is
  a step of a parser: the reader after it and a value, or \<open>None\<close> for "return false".
\<close>

type_synonym 'a parse = "(reader \<times> 'a option) res"

definition TAKE_BYTES :: "bool \<Rightarrow> allocator \<Rightarrow> reader \<Rightarrow> 32 word \<Rightarrow> int parse" where
  "TAKE_BYTES ssl realloc rd n =
     bind_res (take_n_bytes ssl realloc rd n) (\<lambda>(rd, k, off). Inr (rd, if k \<noteq> n then None else Some off))"

definition and_then :: "'a parse \<Rightarrow> (reader \<Rightarrow> 'a \<Rightarrow> 'b parse) \<Rightarrow> 'b parse" where
  "and_then p k = bind_res p (\<lambda>(rd, r). case r of None \<Rightarrow> Inr (rd, None) | Some a \<Rightarrow> k rd a)"

definition give_up :: "reader \<Rightarrow> 'a parse" where
  "give_up rd = Inr (rd, None)"

definition accept :: "reader \<Rightarrow> 'a \<Rightarrow> 'a parse" where
  "accept rd a = Inr (rd, Some a)"

lemma and_then_simps [simp]:
  "and_then (Inl f) k = Inl f" "and_then (Inr (rd, None)) k = Inr (rd, None)"
  "and_then (Inr (rd, Some a)) k = k rd a" "and_then (accept rd a) k = k rd a" "and_then (give_up rd) k = Inr (rd, None)"
  by (simp_all add: and_then_def accept_def give_up_def)

text \<open>\<open>TAKE_BYTES\<close> of one byte, dereferenced by the next statement.\<close>

definition take_char :: "bool \<Rightarrow> allocator \<Rightarrow> reader \<Rightarrow> char parse" where
  "take_char ssl realloc rd =
     and_then (TAKE_BYTES ssl realloc rd 1) (\<lambda>rd off. bind_res (byte_at rd off) (\<lambda>c. accept rd c))"

definition check_crlf :: "bool \<Rightarrow> allocator \<Rightarrow> reader \<Rightarrow> bool parse" where
  "check_crlf ssl realloc rd =
     and_then (TAKE_BYTES ssl realloc rd 2) (\<lambda>rd off.
       bind_res (byte_at rd off) (\<lambda>c0.
         if c0 \<noteq> CHR 0x0D then accept rd False
         else bind_res (byte_at rd (off + 1)) (\<lambda>c1. accept rd (c1 = CHR 0x0A))))"

text \<open>A string that was parsed: its offset in the buffer and its length.\<close>

type_synonym slice = "int \<times> 32 word"

section \<open>RESP commands\<close>

definition add_digit :: "32 word \<Rightarrow> char \<Rightarrow> 32 word" where
  "add_digit len c = len * 10 + word_of_nat (digit_val c)"

text \<open>
  \<open>do { len = (len * 10) + (*c - '0'); TAKE_BYTES(c, 1, false); } while (digit)\<close>: the number and
  the character after it.
\<close>

partial_function (option) number_loop ::
  "bool \<Rightarrow> allocator \<Rightarrow> reader \<Rightarrow> 32 word \<Rightarrow> char \<Rightarrow> (32 word \<times> char) parse option" where
  "number_loop ssl realloc rd len c =
     (let len = add_digit len c in
      case take_char ssl realloc rd of
        Inl f \<Rightarrow> Some (Inl f)
      | Inr r \<Rightarrow> (case snd r of
          None \<Rightarrow> Some (Inr (fst r, None))
        | Some c \<Rightarrow> if is_digit c then number_loop ssl realloc (fst r) len c else Some (Inr (fst r, Some (len, c)))))"

text \<open>A number, the first digit of which has to be there, and its CRLF.\<close>

definition parse_number :: "bool \<Rightarrow> allocator \<Rightarrow> reader \<Rightarrow> 32 word parse" where
  "parse_number ssl realloc rd =
     and_then (take_char ssl realloc rd) (\<lambda>rd c.
       if \<not> is_digit c then give_up rd
       else case number_loop ssl realloc rd 0 c of
         None \<Rightarrow> Inl Endless
       | Some p \<Rightarrow> and_then p (\<lambda>rd (len, c).
           if c \<noteq> CHR 0x0D then give_up rd
           else and_then (take_char ssl realloc rd) (\<lambda>rd c.
             if c \<noteq> CHR 0x0A then give_up rd else accept rd len)))"

text \<open>\<open>get_resp_command_name\<close> and \<open>get_resp_command_argument\<close> are the same text.\<close>

definition get_resp_string :: "bool \<Rightarrow> allocator \<Rightarrow> reader \<Rightarrow> slice parse" where
  "get_resp_string ssl realloc rd =
     and_then (take_char ssl realloc rd) (\<lambda>rd c.
       if c \<noteq> CHR ''$'' then give_up rd
       else and_then (parse_number ssl realloc rd) (\<lambda>rd len.
         and_then (TAKE_BYTES ssl realloc rd len) (\<lambda>rd raw.
           and_then (check_crlf ssl realloc rd) (\<lambda>rd ok.
             if \<not> ok then give_up rd else accept rd (raw, len)))))"

fun resp_arguments :: "bool \<Rightarrow> allocator \<Rightarrow> reader \<Rightarrow> nat \<Rightarrow> slice list parse" where
  "resp_arguments ssl realloc rd 0 = accept rd []"
| "resp_arguments ssl realloc rd (Suc n) =
     and_then (get_resp_string ssl realloc rd) (\<lambda>rd a.
       and_then (resp_arguments ssl realloc rd n) (\<lambda>rd as. accept rd (a # as)))"

record commanddata =
  cd_name :: slice
  cd_args :: "slice list"

text \<open>\<open>args_ok n\<close>: whether \<open>malloc\<close> of \<open>n\<close> arguments succeeds.\<close>

definition parse_resp_command :: "bool \<Rightarrow> allocator \<Rightarrow> (nat \<Rightarrow> bool) \<Rightarrow> reader \<Rightarrow> commanddata parse" where
  "parse_resp_command ssl realloc args_ok rd =
     and_then (parse_number ssl realloc rd) (\<lambda>rd count.
       if count = 0 then give_up rd
       else and_then (get_resp_string ssl realloc rd) (\<lambda>rd name.
         let count = count - 1 in
         if count \<noteq> 0 \<and> \<not> args_ok (unat count) then give_up rd
         else and_then (resp_arguments ssl realloc rd (unat count)) (\<lambda>rd args.
           accept rd \<lparr>cd_name = name, cd_args = args\<rparr>)))"

text \<open>The string a slice stands for once it is resolved against the buffer.\<close>

definition resolve :: "reader \<Rightarrow> slice \<Rightarrow> string_t" where
  "resolve rd s = \<lparr>str_mem = drop (nat (fst s)) (rd_data rd), str_len = unat (snd s)\<rparr>"

section \<open>Inline commands\<close>

definition at_last_crlf :: "reader \<Rightarrow> bool" where
  "at_last_crlf rd \<longleftrightarrow> rd_at rd + 2 = rd_used rd"

partial_function (option) name_loop :: "bool \<Rightarrow> allocator \<Rightarrow> reader \<Rightarrow> 32 word \<Rightarrow> 32 word parse option" where
  "name_loop ssl realloc rd len =
     (if at_last_crlf rd then Some (Inr (rd, Some len))
      else case take_char ssl realloc rd of
        Inl f \<Rightarrow> Some (Inl f)
      | Inr r \<Rightarrow> (case snd r of
          None \<Rightarrow> Some (Inr (fst r, Some len))
        | Some c \<Rightarrow> if c = CHR '' '' then Some (Inr (fst r, Some len)) else name_loop ssl realloc (fst r) (len + 1)))"

definition of_parse :: "'a parse option \<Rightarrow> 'a parse" where
  "of_parse p = (case p of None \<Rightarrow> Inl Endless | Some r \<Rightarrow> r)"

definition parse_name :: "bool \<Rightarrow> allocator \<Rightarrow> reader \<Rightarrow> char \<Rightarrow> slice parse" where
  "parse_name ssl realloc rd c =
     (if c = CHR '' '' then give_up rd
      else let start_offset = rd_at rd - 1 in
        and_then (of_parse (name_loop ssl realloc rd 1)) (\<lambda>rd len.
          if at_last_crlf rd then
            and_then (check_crlf ssl realloc rd) (\<lambda>rd ok.
              if ok then accept rd (int (unat start_offset), len) else give_up rd)
          else accept rd (int (unat start_offset), len)))"

partial_function (option) word_loop :: "bool \<Rightarrow> allocator \<Rightarrow> reader \<Rightarrow> 32 word \<Rightarrow> char \<Rightarrow> 32 word parse option" where
  "word_loop ssl realloc rd len c =
     (if c = CHR '' '' then Some (Inr (rd, Some len))
      else if at_last_crlf rd then Some (Inr (rd, Some len))
      else case take_char ssl realloc rd of
        Inl f \<Rightarrow> Some (Inl f)
      | Inr r \<Rightarrow> (case snd r of
          None \<Rightarrow> Some (Inr (fst r, None))
        | Some c \<Rightarrow> if c = CHR '' '' then Some (Inr (fst r, Some len)) else word_loop ssl realloc (fst r) (len + 1) c))"

definition RESP_INLINE_ARGUMENT_COUNT :: nat where
  "RESP_INLINE_ARGUMENT_COUNT = 32"

text \<open>
  \<open>parse_arguments\<close>: the array has room for 32 arguments, and the count is not tested; writing the
  33rd is out of bounds.
\<close>

partial_function (option) arguments_loop :: "bool \<Rightarrow> allocator \<Rightarrow> reader \<Rightarrow> slice list \<Rightarrow> slice list parse option" where
  "arguments_loop ssl realloc rd args =
     (if RESP_INLINE_ARGUMENT_COUNT \<le> length args then Some (Inl OutOfBounds)
      else case take_char ssl realloc rd of
        Inl f \<Rightarrow> Some (Inl f)
      | Inr r \<Rightarrow> (case snd r of
          None \<Rightarrow> Some (Inr (fst r, None))
        | Some c \<Rightarrow>
            let start_offset = rd_at (fst r) - 1 in
            (case of_parse (word_loop ssl realloc (fst r) 1 c) of
               Inl f \<Rightarrow> Some (Inl f)
             | Inr w \<Rightarrow> (case snd w of
                 None \<Rightarrow> Some (Inr (fst w, None))
               | Some len \<Rightarrow>
                   let args = args @ [(int (unat start_offset), len)] in
                   if at_last_crlf (fst w) then
                     Some (and_then (check_crlf ssl realloc (fst w)) (\<lambda>rd ok. if ok then accept rd args else give_up rd))
                   else arguments_loop ssl realloc (fst w) args))))"

definition put_nul :: "reader \<Rightarrow> slice \<Rightarrow> reader res" where
  "put_nul rd s = bind_res (mem_put (rd_data rd) (nat (fst s) + unat (snd s)) [NUL]) (\<lambda>d. Inr (rd\<lparr>rd_data := d\<rparr>))"

fun put_nuls :: "reader \<Rightarrow> slice list \<Rightarrow> reader res" where
  "put_nuls rd [] = Inr rd"
| "put_nuls rd (s # ss) = bind_res (put_nul rd s) (\<lambda>rd. put_nuls rd ss)"

definition parse_inline_command ::
  "bool \<Rightarrow> allocator \<Rightarrow> (nat \<Rightarrow> bool) \<Rightarrow> reader \<Rightarrow> char \<Rightarrow> commanddata parse" where
  "parse_inline_command ssl realloc args_ok rd c =
     and_then (parse_name ssl realloc rd c) (\<lambda>rd name.
       and_then (if rd_at rd \<noteq> rd_used rd then
                   if \<not> args_ok RESP_INLINE_ARGUMENT_COUNT then give_up rd
                   else of_parse (arguments_loop ssl realloc rd [])
                 else accept rd []) (\<lambda>rd args.
         bind_res (put_nuls rd (name # args)) (\<lambda>rd. accept rd \<lparr>cd_name = name, cd_args = args\<rparr>)))"

section \<open>Commands\<close>

definition is_alnum :: "char \<Rightarrow> bool" where
  "is_alnum c \<longleftrightarrow> is_digit c \<or> (65 \<le> code c \<and> code c \<le> 90) \<or> (97 \<le> code c \<and> code c \<le> 122)"

definition PARSE_COMMAND :: "bool \<Rightarrow> allocator \<Rightarrow> (nat \<Rightarrow> bool) \<Rightarrow> reader \<Rightarrow> char \<Rightarrow> commanddata parse" where
  "PARSE_COMMAND ssl realloc args_ok rd c =
     (if c = CHR ''*'' then parse_resp_command ssl realloc args_ok rd
      else if is_alnum c then parse_inline_command ssl realloc args_ok rd c
      else give_up rd)"

text \<open>The loop over leading CRLFs answers the first character that is not \<open>CR\<close>.\<close>

partial_function (option) crlf_loop :: "bool \<Rightarrow> allocator \<Rightarrow> reader \<Rightarrow> char parse option" where
  "crlf_loop ssl realloc rd =
     (case take_char ssl realloc rd of
        Inl f \<Rightarrow> Some (Inl f)
      | Inr r \<Rightarrow> (case snd r of
          None \<Rightarrow> Some (Inr (fst r, None))
        | Some cr \<Rightarrow>
            if cr \<noteq> CHR 0x0D then Some (Inr (fst r, Some cr))
            else (case take_char ssl realloc (fst r) of
                Inl f \<Rightarrow> Some (Inl f)
              | Inr l \<Rightarrow> (case snd l of
                  None \<Rightarrow> Some (Inr (fst l, None))
                | Some lf \<Rightarrow> if lf \<noteq> CHR 0x0A then Some (Inr (fst l, None)) else crlf_loop ssl realloc (fst l)))))"

definition get_command_data :: "bool \<Rightarrow> allocator \<Rightarrow> (nat \<Rightarrow> bool) \<Rightarrow> reader \<Rightarrow> commanddata parse" where
  "get_command_data ssl realloc args_ok rd =
     and_then (take_char ssl realloc rd) (\<lambda>rd type.
       if type = CHR ''*'' \<or> is_alnum type then PARSE_COMMAND ssl realloc args_ok rd type
       else if type = CHR 0x0D then
         and_then (take_char ssl realloc rd) (\<lambda>rd lf.
           if lf \<noteq> CHR 0x0A then give_up rd
           else and_then (of_parse (crlf_loop ssl realloc rd)) (\<lambda>rd cr. PARSE_COMMAND ssl realloc args_ok rd cr))
       else give_up rd)"

section \<open>A complete command in the buffer\<close>

text \<open>\<open>ready rd s\<close>: the next bytes of the buffer are \<open>s\<close>. The buffer is smaller than 2 GiB.\<close>

definition ready :: "reader \<Rightarrow> bytes \<Rightarrow> bool" where
  "ready rd s \<longleftrightarrow> unat (rd_at rd) + length s \<le> unat (rd_used rd) \<and> unat (rd_used rd) \<le> length (rd_data rd) \<and>
     unat (rd_used rd) < 2 ^ 31 \<and> take (length s) (drop (unat (rd_at rd)) (rd_data rd)) = s"

definition advance :: "reader \<Rightarrow> nat \<Rightarrow> reader" where
  "advance rd k = rd\<lparr>rd_at := rd_at rd + word_of_nat k\<rparr>"

lemma advance_simps [simp]:
  "rd_data (advance rd k) = rd_data rd" "rd_used (advance rd k) = rd_used rd" "rd_size (advance rd k) = rd_size rd"
  "rd_sock (advance rd k) = rd_sock rd" "advance (advance rd a) b = advance rd (a + b)"
  by (simp_all add: advance_def add.assoc)

lemma unat_add_small:
  assumes "unat (a :: 32 word) + k < 2 ^ 31" shows "unat (a + word_of_nat k) = unat a + k"
proof -
  have "unat (a + word_of_nat k) = (unat a + k) mod 2 ^ 32" by (simp add: unat_word_ariths unat_of_nat mod_simps)
  then show ?thesis using assms by simp
qed

lemma sint_small:
  assumes "unat (a :: 32 word) < 2 ^ 31" shows "sint a = int (unat a)"
proof -
  have "uint a = int (unat a)" by simp
  also have "\<dots> < int (2 ^ 31)" using assms by (simp only: of_nat_less_iff)
  finally have u: "uint a < 2 ^ 31" by simp
  have "- (2 ^ 31) \<le> (0 :: int)" by simp
  then have l: "- (2 ^ 31) \<le> uint a" using uint_ge_0 [of a] by (rule order_trans)
  have "sint a = signed_take_bit 31 (uint a)" by (simp add: sint_uint)
  also have "\<dots> = uint a" using l u by (rule signed_take_bit_int_eq_self)
  finally show ?thesis by simp
qed

lemma ready_prefix: "ready rd (s @ t) \<Longrightarrow> ready rd s"
proof -
  assume r: "ready rd (s @ t)"
  then have "take (length s) (take (length (s @ t)) (drop (unat (rd_at rd)) (rd_data rd))) = take (length s) (s @ t)"
    by (simp add: ready_def)
  then show ?thesis using r by (simp add: ready_def min_def split: if_splits)
qed

lemma ready_advance: "ready rd (s @ t) \<Longrightarrow> ready (advance rd (length s)) t"
proof -
  assume r: "ready rd (s @ t)"
  then have u: "unat (rd_at rd + word_of_nat (length s)) = unat (rd_at rd) + length s"
    by (intro unat_add_small) (simp add: ready_def)
  have "take (length s + length t) (drop (unat (rd_at rd)) (rd_data rd)) = s @ t" using r by (simp add: ready_def)
  then have "take (length t) (drop (length s) (drop (unat (rd_at rd)) (rd_data rd))) = t"
    by (metis append_eq_conv_conj take_add length_append append_take_drop_id drop_take add_diff_cancel_left' take_drop)
  then show ?thesis using r u by (simp add: ready_def advance_def add.commute)
qed

lemma ready_at: "ready rd s \<Longrightarrow> sint (rd_at rd) = int (unat (rd_at rd))"
  by (rule sint_small) (simp add: ready_def)

lemma ready_nth: "\<lbrakk>ready rd s; i < length s\<rbrakk> \<Longrightarrow> byte_at rd (uint (rd_at rd) + int i) = Inr (s ! i)"
proof -
  assume r: "ready rd s" and i: "i < length s"
  have "take (length s) (drop (unat (rd_at rd)) (rd_data rd)) = s" using r by (simp add: ready_def)
  then have "s ! i = drop (unat (rd_at rd)) (rd_data rd) ! i" using i by (metis nth_take)
  also have "\<dots> = rd_data rd ! (unat (rd_at rd) + i)" using r i by (simp add: ready_def)
  finally have "s ! i = rd_data rd ! (unat (rd_at rd) + i)" .
  moreover have "unat (rd_at rd) + i < length (rd_data rd)" using r i by (simp add: ready_def)
  moreover have "uint (rd_at rd) + int i = int (unat (rd_at rd) + i)" by simp
  ultimately show ?thesis by (simp only: byte_at_def nat_int of_nat_less_iff of_nat_0_le_iff) simp
qed

lemma byte_at_advance [simp]: "byte_at (advance rd k) = byte_at rd"
  by (simp add: byte_at_def fun_eq_iff)

lemma take_ready:
  assumes r: "ready rd (s @ t)" and n: "length s = k"
  shows "TAKE_BYTES ssl realloc rd (word_of_nat k) = accept (advance rd k) (uint (rd_at rd))"
proof -
  have b: "unat (rd_at rd) + k \<le> unat (rd_used rd)" "unat (rd_used rd) < 2 ^ 31" using r n by (simp_all add: ready_def)
  have "rd_at rd \<le> rd_used rd" using b(1) by (simp add: word_le_nat_alt)
  then have "unat (rd_used rd - rd_at rd) = unat (rd_used rd) - unat (rd_at rd)" by (rule unat_sub)
  moreover have "unat (word_of_nat k :: 32 word) = k" using b by (simp add: unat_of_nat)
  ultimately have "word_of_nat k \<le> rd_used rd - rd_at rd" using b(1) by (simp add: word_le_nat_alt)
  then show ?thesis
    using ready_at [OF r] by (simp add: TAKE_BYTES_def take_n_bytes_def Let_def advance_def accept_def)
qed

lemma take_char_ready: "ready rd (c # t) \<Longrightarrow> take_char ssl realloc rd = accept (advance rd 1) c"
  using take_ready [of rd "[c]" t 1 ssl realloc] ready_nth [of rd "c # t" 0]
  by (simp add: take_char_def)

lemma ready_Cons: "ready rd (c # t) \<Longrightarrow> ready (advance rd 1) t"
  using ready_advance [of rd "[c]" t] by simp

lemma check_crlf_ready: "ready rd (CRLF @ t) \<Longrightarrow> check_crlf ssl realloc rd = accept (advance rd 2) True"
  using take_ready [of rd CRLF t 2 ssl realloc] ready_nth [of rd "CRLF @ t" 0] ready_nth [of rd "CRLF @ t" 1]
  by (simp add: check_crlf_def)

lemma number_loop_ready:
  "\<lbrakk>list_all is_digit ds; \<not> is_digit e; ready rd (ds @ e # t)\<rbrakk> \<Longrightarrow>
   number_loop ssl realloc rd len d =
   Some (accept (advance rd (length ds + 1)) (foldl add_digit (add_digit len d) ds, e))"
proof (induction ds arbitrary: rd len d)
  case Nil
  then show ?case using take_char_ready [of rd e t ssl realloc]
    by (subst number_loop.simps) (simp add: accept_def)
next
  case (Cons c ds)
  have "take_char ssl realloc rd = accept (advance rd 1) c" using take_char_ready Cons.prems(3) by simp
  moreover have "ready (advance rd 1) (ds @ e # t)" using ready_Cons Cons.prems(3) by simp
  ultimately show ?case using Cons.IH [of "advance rd 1" "add_digit len d" c] Cons.prems(1,2)
    by (subst number_loop.simps) (simp add: accept_def)
qed

lemma foldl_add_digit: "foldl add_digit (word_of_nat n) ds = word_of_nat (foldl (\<lambda>n c. 10 * n + digit_val c) n ds)"
proof (induction ds arbitrary: n)
  case (Cons c ds)
  have "add_digit (word_of_nat n) c = word_of_nat (10 * n + digit_val c)" by (simp add: add_digit_def)
  then show ?case using Cons.IH [of "10 * n + digit_val c"] by (simp del: of_nat_add of_nat_mult)
qed simp

lemma parse_number_ready:
  assumes r: "ready rd (decimal n @ CRLF @ t)"
  shows "parse_number ssl realloc rd = accept (advance rd (length (decimal n) + 2)) (word_of_nat n)"
proof -
  obtain d ds where d: "decimal n = d # ds" by (cases "decimal n") auto
  have dig: "is_digit d" "list_all is_digit ds" using decimal_digits [of n] d by simp_all
  have c: "take_char ssl realloc rd = accept (advance rd 1) d" using take_char_ready r d by simp
  have r1: "ready (advance rd 1) (ds @ CHR 0x0D # CHR 0x0A # t)" using ready_Cons r d by simp
  have "foldl add_digit (add_digit 0 d) ds = foldl add_digit (word_of_nat 0) (decimal n)" using d by simp
  also have "\<dots> = word_of_nat n"
    using foldl_dec [of 0 "decimal n"] by (simp only: foldl_add_digit decimal_val) simp
  finally have v: "foldl add_digit (add_digit 0 d) ds = word_of_nat n" .
  have l: "number_loop ssl realloc (advance rd 1) 0 d = Some (accept (advance rd (length ds + 2)) (word_of_nat n, CHR 0x0D))"
    using number_loop_ready [OF dig(2) _ r1, of ssl realloc 0 d] v by simp
  have "ready (advance rd (length ds + 2)) (CHR 0x0A # t)"
    using ready_advance [of "advance rd 1" "ds @ [CHR 0x0D]" "CHR 0x0A # t"] r1 by simp
  then have "take_char ssl realloc (advance rd (length ds + 2)) = accept (advance rd (length ds + 3)) (CHR 0x0A)"
    using take_char_ready [of "advance rd (length ds + 2)"] by (simp add: eval_nat_numeral)
  then show ?thesis using c l dig d by (simp add: parse_number_def eval_nat_numeral)
qed

text \<open>The encoding a client sends.\<close>

definition bulk :: "bytes \<Rightarrow> bytes" where
  "bulk s = ''$'' @ decimal (length s) @ CRLF @ s @ CRLF"

definition encode_command :: "bytes \<Rightarrow> bytes list \<Rightarrow> bytes" where
  "encode_command name args = ''*'' @ decimal (Suc (length args)) @ CRLF @ bulk name @ concat (map bulk args)"

text \<open>A part of the buffer that holds these bytes, with a line end behind them.\<close>

definition is_slice :: "reader \<Rightarrow> slice \<Rightarrow> bytes \<Rightarrow> bool" where
  "is_slice rd s b \<longleftrightarrow> 0 \<le> fst s \<and> (\<exists>rest. resolve rd s = arg b (CRLF @ rest))"

lemma is_slice_advance [simp]: "is_slice (advance rd k) = is_slice rd"
  by (simp add: is_slice_def resolve_def fun_eq_iff)

lemma get_resp_string_ready:
  assumes r: "ready rd (bulk s @ t)"
  shows "\<exists>a. get_resp_string ssl realloc rd = accept (advance rd (length (bulk s))) a \<and> is_slice rd a s"
proof -
  let ?d = "decimal (length s)"
  have c: "take_char ssl realloc rd = accept (advance rd 1) (CHR ''$'')" using take_char_ready r by (simp add: bulk_def)
  have r1: "ready (advance rd 1) (?d @ CRLF @ s @ CRLF @ t)" using ready_Cons r by (simp add: bulk_def)
  have n: "parse_number ssl realloc (advance rd 1) = accept (advance rd (length ?d + 3)) (word_of_nat (length s))"
    using parse_number_ready [OF r1, of ssl realloc] by (simp add: eval_nat_numeral)
  let ?rd = "advance rd (length ?d + 3)"
  have r2: "ready ?rd (s @ CRLF @ t)"
    using ready_advance [of "advance rd 1" "?d @ CRLF" "s @ CRLF @ t"] r1 by (simp add: eval_nat_numeral)
  have take_s: "TAKE_BYTES ssl realloc ?rd (word_of_nat (length s)) =
      accept (advance rd (length ?d + 3 + length s)) (uint (rd_at ?rd))"
    using take_ready [OF r2 refl] by simp
  have "check_crlf ssl realloc (advance rd (length ?d + 3 + length s)) = accept (advance rd (length ?d + 3 + length s + 2)) True"
    using check_crlf_ready [of "advance rd (length ?d + 3 + length s)" t] ready_advance [OF r2] by simp
  moreover have "length ?d + 3 + length s + 2 = length (bulk s)" by (simp add: bulk_def)
  ultimately have res: "get_resp_string ssl realloc rd =
      accept (advance rd (length (bulk s))) (uint (rd_at ?rd), word_of_nat (length s))"
    using c n take_s by (simp add: get_resp_string_def)
  have "length s < 2 ^ 31" using r2 by (simp add: ready_def)
  then have "unat (word_of_nat (length s) :: 32 word) = length s" by (simp add: unat_of_nat)
  moreover have "ready ?rd (s @ CRLF)" using ready_prefix [of ?rd "s @ CRLF" t] r2 by simp
  then have "drop (unat (rd_at ?rd)) (rd_data ?rd) = (s @ CRLF) @ drop (length (s @ CRLF)) (drop (unat (rd_at ?rd)) (rd_data ?rd))"
    unfolding ready_def by (metis append_take_drop_id)
  ultimately have "is_slice ?rd (uint (rd_at ?rd), word_of_nat (length s)) s"
    unfolding is_slice_def resolve_def arg_def by (auto simp del: advance_simps)
  then show ?thesis using res by auto
qed

lemma resp_arguments_ready:
  "ready rd (concat (map bulk args) @ t) \<Longrightarrow>
   \<exists>as. resp_arguments ssl realloc rd (length args) = accept (advance rd (length (concat (map bulk args)))) as \<and>
     list_all2 (is_slice rd) as args"
proof (induction args arbitrary: rd)
  case Nil
  then show ?case by (simp add: accept_def advance_def)
next
  case (Cons s args)
  then have r: "ready rd (bulk s @ (concat (map bulk args) @ t))" by simp
  obtain a where a: "get_resp_string ssl realloc rd = accept (advance rd (length (bulk s))) a" "is_slice rd a s"
    using get_resp_string_ready [OF r] by blast
  obtain as where "resp_arguments ssl realloc (advance rd (length (bulk s))) (length args) =
      accept (advance (advance rd (length (bulk s))) (length (concat (map bulk args)))) as"
      "list_all2 (is_slice (advance rd (length (bulk s)))) as args"
    using Cons.IH [OF ready_advance [OF r]] by blast
  then show ?case using a by auto
qed

lemma bulk_length: "5 < length (bulk s)"
proof -
  have "0 < length (decimal (length s))" by simp
  then show ?thesis unfolding bulk_def by (simp del: length_greater_0_conv)
qed

lemma count_bound: "length args \<le> length (concat (map bulk args))"
proof (induction args)
  case (Cons s args)
  then show ?case using bulk_length [of s] by simp
qed simp

text \<open>
  The round trip: a command that a client encodes and that is completely in the buffer is parsed
  to its name and its arguments, and exactly its bytes are consumed.
\<close>

lemma get_command_data_ready:
  assumes r: "ready rd (encode_command name args @ t)" and mem: "\<And>n. args_ok n"
  shows "\<exists>cd. get_command_data ssl realloc args_ok rd = accept (advance rd (length (encode_command name args))) cd \<and>
    is_slice rd (cd_name cd) name \<and> list_all2 (is_slice rd) (cd_args cd) args"
proof -
  let ?d = "decimal (Suc (length args))"
  have c: "take_char ssl realloc rd = accept (advance rd 1) (CHR ''*'')" using take_char_ready r by (simp add: encode_command_def)
  have r1: "ready (advance rd 1) (?d @ CRLF @ bulk name @ concat (map bulk args) @ t)"
    using ready_Cons r by (simp add: encode_command_def)
  have n: "parse_number ssl realloc (advance rd 1) = accept (advance rd (length ?d + 3)) (word_of_nat (Suc (length args)))"
    using parse_number_ready [OF r1, of ssl realloc] by (simp add: eval_nat_numeral)
  let ?rd = "advance rd (length ?d + 3)"
  have r2: "ready ?rd (bulk name @ concat (map bulk args) @ t)"
    using ready_advance [of "advance rd 1" "?d @ CRLF" "bulk name @ concat (map bulk args) @ t"] r1 by (simp add: eval_nat_numeral)
  obtain a where a: "get_resp_string ssl realloc ?rd = accept (advance ?rd (length (bulk name))) a" "is_slice ?rd a name"
    using get_resp_string_ready [OF r2] by blast
  obtain as where as: "resp_arguments ssl realloc (advance ?rd (length (bulk name))) (length args) =
        accept (advance (advance ?rd (length (bulk name))) (length (concat (map bulk args)))) as"
      "list_all2 (is_slice (advance ?rd (length (bulk name)))) as args"
    using resp_arguments_ready [OF ready_advance [OF r2]] by blast
  have small: "Suc (length args) < 2 ^ 31"
    using r2 count_bound [of args] bulk_length [of name] unfolding ready_def length_append by linarith
  have cnt: "(word_of_nat (Suc (length args)) :: 32 word) \<noteq> 0"
    using small by (simp add: word_unat_eq_iff unat_of_nat del: of_nat_Suc)
  have "word_of_nat (Suc (length args)) - (1 :: 32 word) = word_of_nat (length args)" by simp
  moreover have "unat (word_of_nat (length args) :: 32 word) = length args" using small by (simp add: unat_of_nat)
  ultimately have cnt': "unat (word_of_nat (Suc (length args)) - (1 :: 32 word)) = length args" by presburger
  have total: "length ?d + 3 + length (bulk name) + length (concat (map bulk args)) = length (encode_command name args)"
    by (simp add: encode_command_def)
  have "get_command_data ssl realloc args_ok rd = parse_resp_command ssl realloc args_ok (advance rd 1)"
    using c by (simp add: get_command_data_def PARSE_COMMAND_def)
  also have "\<dots> = accept (advance rd (length (encode_command name args))) \<lparr>cd_name = a, cd_args = as\<rparr>"
    using n cnt cnt' a(1) as(1) mem total
    by (simp add: parse_resp_command_def Let_def del: of_nat_Suc)
  finally show ?thesis using a(2) as(2) by auto
qed

end
