(* ===== verification/Bytes.thy ===== *)
theory Bytes
  imports Telly_Prelude
begin

text \<open>Numbers in memory, as \<open>memcpy\<close> from and to integers reads and writes them on a little-endian machine.\<close>

text \<open>Little-endian numbers of \<open>n\<close> bytes.\<close>

fun le_bytes :: "nat \<Rightarrow> nat \<Rightarrow> bytes" where
  "le_bytes 0 v = []"
| "le_bytes (Suc n) v = char_of (v mod 256) # le_bytes n (v div 256)"

fun le_val :: "bytes \<Rightarrow> nat" where
  "le_val [] = 0"
| "le_val (c # cs) = code c + 256 * le_val cs"

lemma le_bytes_length [simp]: "length (le_bytes n v) = n"
  by (induction n arbitrary: v) auto

lemma le_bytes_take: "k \<le> n \<Longrightarrow> take k (le_bytes n v) = le_bytes k v"
proof (induction n arbitrary: k v)
  case (Suc n) then show ?case by (cases k) auto
qed simp

lemma le_bytes_drop: "drop j (le_bytes n v) = le_bytes (n - j) (v div 256 ^ j)"
proof (induction n arbitrary: j v)
  case (Suc n) then show ?case by (cases j) (auto simp: div_mult2_eq)
qed simp

lemma le_val_bytes: "le_val (le_bytes n v) = v mod 256 ^ n"
proof (induction n arbitrary: v)
  case (Suc n)
  have "v mod 256 + 256 * (v div 256 mod 256 ^ n) = v mod (256 * 256 ^ n)" by (simp add: mod_mult2_eq)
  then show ?case using Suc by simp
qed simp

lemma le_val_less: "le_val bs < 256 ^ length bs"
proof (induction bs)
  case (Cons c bs)
  then have "le_val bs + 1 \<le> 256 ^ length bs" by simp
  then have "256 * (le_val bs + 1) \<le> 256 * 256 ^ length bs" by (rule mult_le_mono2)
  moreover have "code c + 256 * le_val bs < 256 * (le_val bs + 1)" using nat_of_char_less_256 [of c] by simp
  ultimately have "code c + 256 * le_val bs < 256 * 256 ^ length bs" by (rule order.strict_trans2 [rotated])
  then show ?case by simp
qed simp

end
