(* ===== verification/Config.thy ===== *)
theory Config
  imports Text Number Bytes
begin

text \<open>
  \<open>src/utils/config.c\<close>: the configuration file. A \<open>Config\<close> is its 296 bytes of memory, because the setters write
  eight bytes wherever the field is narrower and so reach the fields behind it. \<open>write_config\<close> and \<open>read_config\<close>
  convert between the memory and a record of the fields. The contents of the padding do not matter.

  \<open>errno\<close> is not \<open>EINVAL\<close>: \<open>strtoll\<close> and \<open>strtoull\<close> set it for a wrong base only.
\<close>

section \<open>Memory\<close>

type_synonym memory = "nat \<Rightarrow> char"

definition poke :: "memory \<Rightarrow> nat \<Rightarrow> bytes \<Rightarrow> memory" where
  "poke m off xs = (\<lambda>j. if off \<le> j \<and> j < off + length xs then xs ! (j - off) else m j)"

definition bytes_at :: "memory \<Rightarrow> nat \<Rightarrow> nat \<Rightarrow> bytes" where
  "bytes_at m off n = map m [off..<off + n]"

record config =
  cf_port :: nat
  cf_max_clients :: nat
  cf_max_blocks :: nat
  cf_log_levels :: nat
  cf_max_log_lines :: int
  cf_log_file :: bytes
  cf_data_file :: bytes
  cf_database_name :: bytes
  cf_autosave_seconds :: nat
  cf_autosave_count :: nat
  cf_expire_seconds :: nat
  cf_expire_size :: nat
  cf_tls :: bool
  cf_cert :: bytes
  cf_private_key :: bytes

text \<open>The offsets of the fields.\<close>

definition read_config :: "memory \<Rightarrow> config" where
  "read_config m = \<lparr>cf_port = le_val (bytes_at m 0 2), cf_max_clients = le_val (bytes_at m 2 2), cf_max_blocks = le_val (bytes_at m 4 4),
     cf_log_levels = le_val (bytes_at m 8 1), cf_max_log_lines = sint (word_of_nat (le_val (bytes_at m 12 4)) :: 32 word),
     cf_log_file = c_string (bytes_at m 16 49), cf_data_file = c_string (bytes_at m 65 49), cf_database_name = c_string (bytes_at m 114 65),
     cf_autosave_seconds = le_val (bytes_at m 180 4), cf_autosave_count = le_val (bytes_at m 184 4),
     cf_expire_seconds = le_val (bytes_at m 188 4), cf_expire_size = le_val (bytes_at m 192 4),
     cf_tls = (le_val (bytes_at m 196 1) \<noteq> 0), cf_cert = c_string (bytes_at m 197 49), cf_private_key = c_string (bytes_at m 246 49)\<rparr>"

definition LOG_INFO :: nat where "LOG_INFO = 1"
definition LOG_WARN :: nat where "LOG_WARN = 2"
definition LOG_ERR :: nat where "LOG_ERR = 4"
definition LOG_DBG :: nat where "LOG_DBG = 8"

definition default_conf :: config where
  "default_conf = \<lparr>cf_port = 6379, cf_max_clients = 128, cf_max_blocks = 262144, cf_log_levels = 15, cf_max_log_lines = 128,
     cf_log_file = ''.tellylog'', cf_data_file = ''.tellydb'', cf_database_name = ''telly'', cf_autosave_seconds = 60, cf_autosave_count = 100000,
     cf_expire_seconds = 60, cf_expire_size = 20, cf_tls = False, cf_cert = [], cf_private_key = []\<rparr>"

section \<open>Numbers of the C library\<close>

definition is_space :: "char \<Rightarrow> bool" where
  "is_space c \<longleftrightarrow> code c = 32 \<or> (9 \<le> code c \<and> code c \<le> 13)"

text \<open>A minus sign, the digits, and what \<open>end\<close> points to.\<close>

definition scan_int :: "bytes \<Rightarrow> bool \<times> bytes \<times> bytes" where
  "scan_int s = (let t = dropWhile is_space s; neg = (t \<noteq> [] \<and> hd t = CHR ''-'');
       u = (if t \<noteq> [] \<and> hd t \<in> {CHR ''-'', CHR ''+''} then tl t else t); ds = takeWhile is_digit u in
     if ds = [] then (False, [], s) else (neg, ds, drop (length ds) u))"

definition strtoull_end :: "bytes \<Rightarrow> 64 word \<times> bytes" where
  "strtoull_end s = (case scan_int s of (neg, ds, rest) \<Rightarrow>
     (if 2 ^ 64 \<le> dec_val ds then - 1 else if neg then - word_of_nat (dec_val ds) else word_of_nat (dec_val ds), rest))"

definition strtoll_end :: "bytes \<Rightarrow> int \<times> bytes" where
  "strtoll_end s = (case scan_int s of (neg, ds, rest) \<Rightarrow>
     (max (- (2 ^ 63)) (min (2 ^ 63 - 1) (if neg then - int (dec_val ds) else int (dec_val ds))), rest))"

section \<open>The setters\<close>

definition log_levels_map :: "(char \<times> nat) list" where
  "log_levels_map = [(CHR ''i'', LOG_INFO), (CHR ''e'', LOG_ERR), (CHR ''w'', LOG_WARN), (CHR ''d'', LOG_DBG)]"

definition get_allowed_log_levels :: "nat \<Rightarrow> bytes" where
  "get_allowed_log_levels value = map fst (filter (\<lambda>l. (value div snd l) mod 2 = 1) log_levels_map)"

definition set_uint :: "memory \<Rightarrow> nat \<Rightarrow> bytes \<Rightarrow> memory option" where
  "set_uint m off buf = (if buf \<noteq> [] \<and> hd buf = CHR ''-'' then None
     else case strtoull_end buf of (v, rest) \<Rightarrow> if rest = [] then Some (poke m off (le_bytes 8 (unat v))) else None)"

definition set_int :: "memory \<Rightarrow> nat \<Rightarrow> bytes \<Rightarrow> memory option" where
  "set_int m off buf = (case strtoll_end buf of (v, rest) \<Rightarrow>
     if rest = [] then Some (poke m off (le_bytes 8 (unat (word_of_int v :: 64 word)))) else None)"

definition set_autosave :: "memory \<Rightarrow> nat \<Rightarrow> bytes \<Rightarrow> memory option" where
  "set_autosave m off buf = (case strtoll_end buf of (seconds, rest) \<Rightarrow> case strtoll_end rest of (count, rest) \<Rightarrow>
     if rest = [] then Some (poke (poke m off (le_bytes 4 (unat (word_of_int seconds :: 32 word)))) (off + 4) (le_bytes 4 (unat (word_of_int count :: 32 word))))
     else None)"

definition set_str :: "memory \<Rightarrow> nat \<Rightarrow> bytes \<Rightarrow> memory option" where
  "set_str m off buf = Some (poke m off (buf @ [NUL]))"

definition set_bool :: "memory \<Rightarrow> nat \<Rightarrow> bytes \<Rightarrow> memory option" where
  "set_bool m off buf = (if buf = ''true'' then Some (poke m off (le_bytes 1 1)) else if buf = ''false'' then Some (poke m off (le_bytes 1 0)) else None)"

text \<open>The level is or-ed into the byte; each level is one bit.\<close>

fun set_allowed_log_levels :: "memory \<Rightarrow> nat \<Rightarrow> bytes \<Rightarrow> memory option" where
  "set_allowed_log_levels m off [] = Some m"
| "set_allowed_log_levels m off (c # cs) = (case map_of log_levels_map c of
       None \<Rightarrow> None
     | Some l \<Rightarrow> set_allowed_log_levels (poke m off [char_of (or (code (m off)) l)]) off cs)"

definition config_entries :: "(bytes \<times> nat \<times> (memory \<Rightarrow> nat \<Rightarrow> bytes \<Rightarrow> memory option)) list" where
  "config_entries = [
     (''port'', 0, set_uint), (''max_clients'', 2, set_uint), (''max_transaction_blocks'', 4, set_uint),
     (''allowed_log_levels'', 8, set_allowed_log_levels), (''max_log_lines'', 12, set_int), (''log_file'', 16, set_str),
     (''save'', 180, set_autosave), (''data_file'', 65, set_str), (''database_name'', 114, set_str),
     (''expire_check_batch_size'', 192, set_uint), (''expire_check_interval_secs'', 188, set_uint),
     (''tls'', 196, set_bool), (''cert'', 197, set_str), (''private_key'', 246, set_str)]"

section \<open>Parsing\<close>

text \<open>\<open>exit(EXIT_FAILURE)\<close>, with what the log says.\<close>

datatype config_error = InvalidKey bytes | InvalidValue bytes | BadLogLines

abbreviation LF :: char where "LF \<equiv> CHR 0x0A"

definition pass_line :: "bytes \<Rightarrow> bytes" where
  "pass_line file = tl (dropWhile (\<lambda>c. c \<noteq> LF) file)"

text \<open>\<open>strncat(buf, &c, 1)\<close> on an array of 49 bytes.\<close>

definition append_char :: "bytes \<Rightarrow> char \<Rightarrow> bytes res" where
  "append_char buf c = (if c = NUL then Inr buf else if 48 \<le> length buf then Inl OutOfBounds else Inr (buf @ [c]))"

fun read_value :: "bytes \<Rightarrow> bytes \<Rightarrow> (bytes \<times> bytes) res" where
  "read_value [] buf = Inr ([], buf)"
| "read_value (c # cs) buf = (if c = LF then Inr (cs, buf)
     else if c = CHR '' '' then read_value cs buf
     else bind_res (append_char buf c) (\<lambda>buf. read_value cs buf))"

lemma pass_line_length: "length (pass_line s) \<le> length s"
  by (simp add: pass_line_def) (metis diff_le_self length_dropWhile_le order_trans)

lemma read_value_length: "read_value cs buf = Inr (rest, buf') \<Longrightarrow> length rest \<le> length cs"
  by (induction cs buf rule: read_value.induct) (auto simp: bind_res_eq_Inr_iff split: if_splits)

text \<open>The end of the file is appended to the key as a byte 255.\<close>

function parse_loop :: "bytes \<Rightarrow> bytes \<Rightarrow> memory \<Rightarrow> (config_error + memory) res" where
  "parse_loop [] buf m = bind_res (append_char buf (CHR 0xFF)) (\<lambda>_. Inr (Inr m))"
| "parse_loop (c # cs) buf m =
     (if c = CHR ''#'' \<or> c = LF then parse_loop (pass_line cs) buf m
      else if c = CHR ''='' then
        (case map_of config_entries buf of
           None \<Rightarrow> Inr (Inl (InvalidKey buf))
         | Some (off, setter) \<Rightarrow> bind_res (read_value cs []) (\<lambda>(rest, value). case setter m off value of
               None \<Rightarrow> Inr (Inl (InvalidValue buf))
             | Some m \<Rightarrow> parse_loop rest [] m))
      else if c = CHR '' '' then parse_loop cs buf m
      else bind_res (append_char buf c) (\<lambda>buf. parse_loop cs buf m))"
  by pat_completeness auto
termination
  by (relation "measure (\<lambda>(cs, _, _). length cs)") (auto dest: read_value_length simp: less_Suc_eq_le pass_line_length)

definition parse_config :: "bytes \<Rightarrow> (config_error + memory) res" where
  "parse_config file = bind_res (parse_loop file [] (\<lambda>_. NUL)) (\<lambda>r. case r of
       Inl e \<Rightarrow> Inr (Inl e)
     | Inr m \<Rightarrow> let lines = cf_max_log_lines (read_config m) in
         Inr (if lines \<le> 0 \<and> lines \<noteq> - 1 then Inl BadLogLines else Inr m))"

section \<open>Printing\<close>

definition config_line :: "bytes \<Rightarrow> bytes \<Rightarrow> bytes" where
  "config_line key value = key @ '' = '' @ value @ [LF]"

definition comment :: "bytes \<Rightarrow> bytes" where
  "comment s = ''#'' @ s @ [LF]"

definition get_config_string :: "config \<Rightarrow> bytes" where
  "get_config_string conf =
     comment '' TCP server port'' @ config_line ''port'' (decimal (cf_port conf)) @ [LF] @
     comment '' Specifies max connectable client count, higher values may cause higher resource usage'' @
     config_line ''max_clients'' (decimal (cf_max_clients conf)) @ [LF] @
     comment '' Specifies max storable transaction block count, higher values may cause higher resource usage'' @
     comment '' 2^n values are possible. If it is not 2^n, it will be rounded down.'' @
     config_line ''max_transaction_blocks'' (decimal (cf_max_blocks conf)) @ [LF] @
     comment '' Allowed log levels:'' @ comment '' w = warning'' @ comment '' i = information'' @ comment '' e = error'' @ comment '' d = debug'' @ [LF] @
     comment '' Order of keys does not matter'' @
     config_line ''allowed_log_levels'' (get_allowed_log_levels (cf_log_levels conf)) @ [LF] @
     comment '' Specifies maximum line count of logs will be saved to log file, to make undetermined, change it to -1.'' @
     comment '' If the log file contains more log lines than this value, will not be deleted old logs and will not be saved new logs.'' @
     comment '' MAX_LOG_LINES * (FILE BLOCK SIZE [512, 4096 or a power of 2] + 1) bytes will be allocated, so be careful'' @
     config_line ''max_log_lines'' (int_text (cf_max_log_lines conf)) @ [LF] @
     comment '' Specifies log file where logs will be saved'' @
     config_line ''log_file'' (cf_log_file conf) @ [LF] @
     comment '' If K keys are changed on S seconds, saves database'' @ comment '' save = S K'' @
     comment '' If seconds is -1, this feature will be deactivated.'' @
     config_line ''save'' (decimal (cf_autosave_seconds conf) @ '' '' @ decimal (cf_autosave_count conf)) @ [LF] @
     comment '' Specifies database file where data will be saved'' @
     config_line ''data_file'' (cf_data_file conf) @ [LF] @
     comment '' Specifies default database name, it will be created on first startup of server and deletion of all databases'' @
     comment '' On a client connection to the server, the client will be paired with this database'' @
     comment '' This length must be less than or equal to 64'' @
     config_line ''database_name'' (cf_database_name conf) @ [LF] @
     comment '' Randomly `expire_check_batch_size` keys will be checked'' @
     comment '' if they have expired every `expire_check_interval_secs` seconds.'' @
     config_line ''expire_check_batch_size'' (int_text (sint (word_of_nat (cf_expire_size conf) :: 32 word))) @
     config_line ''expire_check_interval_secs'' (int_text (sint (word_of_nat (cf_expire_seconds conf) :: 32 word))) @ [LF] @
     comment '' Enables/disables creating TLS server'' @ comment [] @ comment '' If it is enabled:'' @
     comment '' CERT specifies certificate file path of TLS server'' @ comment '' PRIVATE_KEY specifies private key file path of TLS server'' @
     comment '' TLS value must be true or false'' @ comment '' File paths length must be less than or equal to 48'' @
     config_line ''tls'' (if cf_tls conf then ''true'' else ''false'') @
     config_line ''cert'' (cf_cert conf) @ config_line ''private_key'' (cf_private_key conf)"

text \<open>
  \<open>get_config\<close>: \<open>disk\<close> is the contents of a file that can be opened. An unreadable file means the default file, and without
  that the default configuration.
\<close>

definition file_or_default :: "(bytes \<Rightarrow> bytes option) \<Rightarrow> (config_error + config) res" where
  "file_or_default disk = (case disk ''.tellyconf'' of
       Some file \<Rightarrow> bind_res (parse_config file) (\<lambda>r. Inr (map_sum id read_config r))
     | None \<Rightarrow> Inr (Inr default_conf))"

definition get_config :: "(bytes \<Rightarrow> bytes option) \<Rightarrow> bool \<Rightarrow> bool \<Rightarrow> bytes option \<Rightarrow> (config_error + config) option res" where
  "get_config disk ok1 ok2 filename =
     (if \<not> ok1 then Inr None
      else case filename of
        None \<Rightarrow> bind_res (file_or_default disk) (\<lambda>r. Inr (Some r))
      | Some name \<Rightarrow> (case disk name of
            Some file \<Rightarrow> bind_res (parse_config file) (\<lambda>r. Inr (Some (map_sum id read_config r)))
          | None \<Rightarrow> if \<not> ok2 then Inr None else bind_res (file_or_default disk) (\<lambda>r. Inr (Some r))))"

section \<open>Reading a printed configuration\<close>

lemma bytes_at_poke_other [simp]:
  "b + n \<le> a \<or> a + length xs \<le> b \<Longrightarrow> bytes_at (poke m a xs) b n = bytes_at m b n"
  by (auto simp: bytes_at_def poke_def)

lemma bytes_at_poke_inside:
  "\<lbrakk>a \<le> b; b + n \<le> a + length xs\<rbrakk> \<Longrightarrow> bytes_at (poke m a xs) b n = take n (drop (b - a) xs)"
  by (rule nth_equalityI) (auto simp: bytes_at_def poke_def)

lemma field_written:
  "\<lbrakk>a \<le> b; b + n \<le> a + k\<rbrakk> \<Longrightarrow> le_val (bytes_at (poke m a (le_bytes k v)) b n) = v div 256 ^ (b - a) mod 256 ^ n"
  by (simp add: bytes_at_poke_inside le_bytes_drop le_bytes_take le_val_bytes)

text \<open>A string field: the bytes up to the NUL that \<open>strcpy\<close> writes.\<close>

lemma string_written:
  assumes s: "NUL \<notin> set s" "length s < n"
  shows "c_string (bytes_at (poke m a (s @ [NUL])) a n) = s"
proof -
  have "bytes_at (poke m a (s @ [NUL])) a n = s @ NUL # map m [a + length s + 1..<a + n]"
    using s(2) by (intro nth_equalityI) (auto simp: bytes_at_def poke_def nth_append nth_Cons split: nat.splits intro!: arg_cong [of _ _ m])
  then show ?thesis using s(1) by (auto simp: c_string_def takeWhile_append list_all_iff)
qed

lemma poke_one: "poke m a [x] = m(a := x)"
  by (auto simp: poke_def fun_eq_iff less_Suc_eq)

section \<open>Lines\<close>

lemma pass_to_end: "LF \<notin> set s \<Longrightarrow> pass_line (s @ LF # rest) = rest"
  by (induction s) (auto simp: pass_line_def)

lemma parse_comment [simp]: "LF \<notin> set s \<Longrightarrow> parse_loop (comment s @ rest) buf m = parse_loop rest buf m"
  by (simp add: comment_def pass_to_end)

lemma parse_blank [simp]: "LF \<notin> set s \<Longrightarrow> parse_loop (LF # comment s @ rest) buf m = parse_loop rest buf m"
  using pass_to_end [of "CHR ''#'' # s" rest] by (simp add: comment_def)

definition key_char :: "char \<Rightarrow> bool" where
  "key_char c \<longleftrightarrow> c \<notin> {CHR ''#'', LF, CHR ''='', CHR '' '', NUL}"

lemma parse_key: "\<lbrakk>list_all key_char key; length buf + length key \<le> 48\<rbrakk> \<Longrightarrow> parse_loop (key @ rest) buf m = parse_loop rest (buf @ key) m"
  by (induction key arbitrary: buf) (auto simp: key_char_def append_char_def)

definition no_space :: "bytes \<Rightarrow> bytes" where
  "no_space = filter (\<lambda>c. c \<noteq> CHR '' '')"

lemma read_value_line:
  "\<lbrakk>LF \<notin> set v; NUL \<notin> set v; length buf + length (no_space v) \<le> 48\<rbrakk> \<Longrightarrow> read_value (v @ LF # rest) buf = Inr (rest, buf @ no_space v)"
proof (induction v arbitrary: buf)
  case (Cons a v)
  then show ?case by (cases "a = CHR '' ''") (auto simp: no_space_def append_char_def)
qed (simp add: no_space_def)

lemma parse_line:
  assumes e: "map_of config_entries key = Some (off, setter)" "list_all key_char key" "length key \<le> 48"
    and v: "LF \<notin> set v" "NUL \<notin> set v" "length (no_space v) \<le> 48" and s: "setter m off (no_space v) = Some m'"
  shows "parse_loop (config_line key v @ rest) [] m = parse_loop rest [] m'"
proof -
  have "parse_loop (config_line key v @ rest) [] m = parse_loop ('' = '' @ v @ LF # rest) key m"
    using parse_key [OF e(2), of "[]"] e(3) by (simp add: config_line_def)
  moreover have "read_value ((CHR '' '' # v) @ LF # rest) [] = Inr (rest, no_space (CHR '' '' # v))"
    using read_value_line [of "CHR '' '' # v" "[]" rest] v by (auto simp: no_space_def)
  moreover have "no_space (CHR '' '' # v) = no_space v" by (simp add: no_space_def)
  ultimately show ?thesis using e(1) s by simp
qed

section \<open>Values\<close>

lemma digit_facts: "is_digit c \<Longrightarrow> \<not> is_space c \<and> c \<noteq> CHR ''-'' \<and> c \<noteq> CHR ''+'' \<and> c \<noteq> CHR '' '' \<and> c \<noteq> LF \<and> c \<noteq> NUL"
  by (auto simp: is_digit_def is_space_def)

lemma takeWhile_all: "list_all P xs \<Longrightarrow> takeWhile P xs = xs"
  by (induction xs) auto

lemma scan_digits: "\<lbrakk>list_all is_digit ds; ds \<noteq> []\<rbrakk> \<Longrightarrow> scan_int ds = (False, ds, [])"
  using digit_facts [of "hd ds"] by (cases ds) (auto simp: scan_int_def takeWhile_all Let_def)

lemma scan_minus: "\<lbrakk>list_all is_digit ds; ds \<noteq> []\<rbrakk> \<Longrightarrow> scan_int (CHR ''-'' # ds) = (True, ds, [])"
  by (cases ds) (auto simp: scan_int_def takeWhile_all is_space_def Let_def)

lemma no_space_digits [simp]: "no_space (decimal v) = decimal v"
  using decimal_digits [of v] digit_facts by (auto simp: no_space_def list_all_iff filter_id_conv)

lemma decimal_clean: "LF \<notin> set (decimal v)" "NUL \<notin> set (decimal v)"
  using decimal_digits [of v] digit_facts by (auto simp: list_all_iff)

lemma decimal_hd: "hd (decimal v) \<noteq> CHR ''-''"
  using decimal_digits [of v] digit_facts by (cases "decimal v") (auto simp: list_all_iff)

lemma decimal_short:
  assumes v: "v < 10 ^ k" and k: "0 < k"
  shows "length (decimal v) \<le> k"
proof (cases "v = 0")
  case True
  have "decimal 0 = [digit_char 0]" by (subst decimal.simps) simp
  then show ?thesis using True k by simp
next
  case False
  have "(10::nat) ^ (length (decimal v) - 1) \<le> v" using decimal_length [of v] False by simp
  then have "(10::nat) ^ (length (decimal v) - 1) < 10 ^ k" using v by (rule le_less_trans)
  then have "length (decimal v) - 1 < k" by (rule power_less_imp_less_exp [rotated]) simp
  then show ?thesis by simp
qed

lemma set_uint_decimal: "v < 2 ^ 64 \<Longrightarrow> set_uint m off (decimal v) = Some (poke m off (le_bytes 8 v))"
  using decimal_hd [of v] by (simp add: set_uint_def strtoull_end_def scan_digits decimal_digits decimal_val unsigned_of_nat take_bit_nat_eq_self)

lemma set_int_text:
  assumes "- (2 ^ 31) \<le> i" "i < 2 ^ 31"
  shows "set_int m off (int_text i) = Some (poke m off (le_bytes 8 (unat (word_of_int i :: 64 word))))"
proof -
  have "strtoll_end (int_text i) = (i, [])"
    using assms by (simp add: strtoll_end_def int_text_def scan_digits scan_minus decimal_digits decimal_val)
  then show ?thesis by (simp add: set_int_def)
qed

lemma set_autosave_decimal:
  "set_autosave m off (decimal s @ decimal c) = Some (poke (poke m off (le_bytes 4
     (unat (word_of_int (min (2 ^ 63 - 1) (int (dec_val (decimal s @ decimal c)))) :: 32 word)))) (off + 4) (le_bytes 4 0))"
  by (simp add: set_autosave_def strtoll_end_def scan_digits decimal_digits) (simp add: scan_int_def dec_val_def)

lemma char_of_0: "char_of (0 :: nat) = NUL"
  by (simp add: char_of_def)

lemma levels_written:
  assumes "v < 16" "m off = NUL"
  shows "set_allowed_log_levels m off (get_allowed_log_levels v) = Some (poke m off [char_of v])"
proof -
  have "v = 0 \<or> v = 1 \<or> v = 2 \<or> v = 3 \<or> v = 4 \<or> v = 5 \<or> v = 6 \<or> v = 7 \<or> v = 8 \<or> v = 9 \<or> v = 10 \<or> v = 11 \<or>
    v = 12 \<or> v = 13 \<or> v = 14 \<or> v = 15" using assms(1) by presburger
  then show ?thesis using assms(2)
    by (elim disjE) (simp_all add: get_allowed_log_levels_def log_levels_map_def LOG_INFO_def LOG_WARN_def LOG_ERR_def LOG_DBG_def poke_one char_of_0 fun_upd_idem)
qed


section \<open>The whole file\<close>

definition plain_text :: "bytes \<Rightarrow> bool" where
  "plain_text s \<longleftrightarrow> length s \<le> 48 \<and> list_all (\<lambda>c. c \<notin> {CHR '' '', LF, NUL}) s"

definition valid_config :: "config \<Rightarrow> bool" where
  "valid_config c \<longleftrightarrow> cf_port c < 2 ^ 16 \<and> cf_max_clients c < 2 ^ 16 \<and> cf_max_blocks c < 2 ^ 32 \<and> cf_log_levels c < 16 \<and>
     (cf_max_log_lines c = - 1 \<or> 0 < cf_max_log_lines c) \<and> cf_max_log_lines c < 2 ^ 31 \<and>
     cf_autosave_seconds c < 2 ^ 32 \<and> cf_autosave_count c < 2 ^ 32 \<and> cf_expire_seconds c < 2 ^ 31 \<and> cf_expire_size c < 2 ^ 31 \<and>
     plain_text (cf_log_file c) \<and> plain_text (cf_data_file c) \<and> plain_text (cf_database_name c) \<and> plain_text (cf_cert c) \<and> plain_text (cf_private_key c)"

text \<open>What is left of a configuration that was printed and read again.\<close>

definition reread :: "config \<Rightarrow> config" where
  "reread c = c\<lparr>cf_autosave_seconds := unat (word_of_int (min (2 ^ 63 - 1)
       (int (dec_val (decimal (cf_autosave_seconds c) @ decimal (cf_autosave_count c))))) :: 32 word),
     cf_autosave_count := 0, cf_expire_size := 0\<rparr>"

lemma plain_text_facts:
  assumes "plain_text s"
  shows "LF \<notin> set s" "NUL \<notin> set s" "no_space s = s" "length s \<le> 48"
  using assms by (auto simp: plain_text_def no_space_def list_all_iff filter_id_conv)

lemma keys_ok:
  "list_all key_char ''port''" "list_all key_char ''max_clients''" "list_all key_char ''max_transaction_blocks''" "list_all key_char ''allowed_log_levels''"
  "list_all key_char ''max_log_lines''" "list_all key_char ''log_file''" "list_all key_char ''save''" "list_all key_char ''data_file''"
  "list_all key_char ''database_name''" "list_all key_char ''expire_check_batch_size''" "list_all key_char ''expire_check_interval_secs''"
  "list_all key_char ''tls''" "list_all key_char ''cert''" "list_all key_char ''private_key''"
  by (simp_all add: key_char_def)

lemma uint_line:
  assumes "map_of config_entries key = Some (off, set_uint)" "list_all key_char key" "length key \<le> 48" "v < 2 ^ 64"
  shows "parse_loop (config_line key (decimal v) @ rest) [] m = parse_loop rest [] (poke m off (le_bytes 8 v))"
proof (rule parse_line [OF assms(1-3)])
  have "v < 10 ^ 20" using assms(4) by simp
  then show "length (no_space (decimal v)) \<le> 48" using decimal_short [of v 20] by simp
qed (use assms(4) set_uint_decimal decimal_clean in auto)

lemma str_line:
  assumes "map_of config_entries key = Some (off, set_str)" "list_all key_char key" "length key \<le> 48" "plain_text v"
  shows "parse_loop (config_line key v @ rest) [] m = parse_loop rest [] (poke m off (v @ [NUL]))"
  using parse_line [OF assms(1-3)] plain_text_facts [OF assms(4)] by (simp add: set_str_def)

lemma int_text_nat: "0 \<le> i \<Longrightarrow> int_text i = decimal (nat i)"
  by (simp add: int_text_def)

lemma int_text_facts:
  assumes "- (2 ^ 31) \<le> i" "i < 2 ^ 31"
  shows "LF \<notin> set (int_text i)" "NUL \<notin> set (int_text i)" "no_space (int_text i) = int_text i" "length (int_text i) \<le> 48"
proof -
  show "LF \<notin> set (int_text i)" "NUL \<notin> set (int_text i)" using decimal_clean by (auto simp: int_text_def)
  show "no_space (int_text i) = int_text i" using no_space_digits by (auto simp: int_text_def no_space_def)
  have "nat \<bar>i\<bar> < 10 ^ 20" using assms by simp
  then have "length (decimal (nat \<bar>i\<bar>)) \<le> 20" by (rule decimal_short) simp
  then show "length (int_text i) \<le> 48" by (cases "i < 0") (simp_all add: int_text_def)
qed

lemma int_line:
  assumes "- (2 ^ 31) \<le> i" "i < 2 ^ 31"
  shows "parse_loop (config_line ''max_log_lines'' (int_text i) @ rest) [] m =
    parse_loop rest [] (poke m 12 (le_bytes 8 (unat (word_of_int i :: 64 word))))"
  by (rule parse_line [where setter = set_int]) (use keys_ok int_text_facts [OF assms] set_int_text [OF assms] in \<open>simp_all add: config_entries_def\<close>)

lemma levels_line:
  assumes "v < 16" "m 8 = NUL"
  shows "parse_loop (config_line ''allowed_log_levels'' (get_allowed_log_levels v) @ rest) [] m = parse_loop rest [] (poke m 8 [char_of v])"
proof (rule parse_line [where setter = set_allowed_log_levels])
  have sub: "set (get_allowed_log_levels v) \<subseteq> {CHR ''i'', CHR ''e'', CHR ''w'', CHR ''d''}" "length (get_allowed_log_levels v) \<le> 4"
    by (auto simp: get_allowed_log_levels_def log_levels_map_def)
  then show "LF \<notin> set (get_allowed_log_levels v)" "NUL \<notin> set (get_allowed_log_levels v)" by auto
  have "no_space (get_allowed_log_levels v) = get_allowed_log_levels v" unfolding no_space_def using sub(1) by (intro filter_True) auto
  then show "length (no_space (get_allowed_log_levels v)) \<le> 48" "set_allowed_log_levels m 8 (no_space (get_allowed_log_levels v)) = Some (poke m 8 [char_of v])"
    using sub(2) levels_written [of v m 8] assms by simp_all
qed (use keys_ok in \<open>simp_all add: config_entries_def\<close>)

lemma save_line:
  assumes "s < 2 ^ 32" "c < 2 ^ 32"
  shows "parse_loop (config_line ''save'' (decimal s @ '' '' @ decimal c) @ rest) [] m = parse_loop rest [] (poke (poke m 180 (le_bytes 4
     (unat (word_of_int (min (2 ^ 63 - 1) (int (dec_val (decimal s @ decimal c)))) :: 32 word)))) 184 (le_bytes 4 0))"
proof (rule parse_line [where setter = set_autosave])
  have n: "no_space (decimal s @ '' '' @ decimal c) = decimal s @ decimal c" using no_space_digits [of s] no_space_digits [of c] by (simp add: no_space_def)
  have "s < 10 ^ 10" "c < 10 ^ 10" using assms by simp_all
  then show "length (no_space (decimal s @ '' '' @ decimal c)) \<le> 48" unfolding n using decimal_short [of s 10] decimal_short [of c 10] by simp
  show "set_autosave m 180 (no_space (decimal s @ '' '' @ decimal c)) = Some (poke (poke m 180 (le_bytes 4
     (unat (word_of_int (min (2 ^ 63 - 1) (int (dec_val (decimal s @ decimal c)))) :: 32 word)))) 184 (le_bytes 4 0))"
    unfolding n using set_autosave_decimal [of m 180 s c] by simp
  show "LF \<notin> set (decimal s @ '' '' @ decimal c)" "NUL \<notin> set (decimal s @ '' '' @ decimal c)" using decimal_clean by auto
qed (use keys_ok in \<open>simp_all add: config_entries_def\<close>)

lemma tls_line:
  "parse_loop (config_line ''tls'' (if b then ''true'' else ''false'') @ rest) [] m = parse_loop rest [] (poke m 196 (le_bytes 1 (if b then 1 else 0)))"
  by (rule parse_line [where setter = set_bool]) (use keys_ok in \<open>cases b; simp add: config_entries_def set_bool_def no_space_def\<close>)+

lemma uint_lines:
  assumes "v < 2 ^ 64"
  shows "parse_loop (config_line ''port'' (decimal v) @ rest) [] m = parse_loop rest [] (poke m 0 (le_bytes 8 v))"
    "parse_loop (config_line ''max_clients'' (decimal v) @ rest) [] m = parse_loop rest [] (poke m 2 (le_bytes 8 v))"
    "parse_loop (config_line ''max_transaction_blocks'' (decimal v) @ rest) [] m = parse_loop rest [] (poke m 4 (le_bytes 8 v))"
    "parse_loop (config_line ''expire_check_batch_size'' (decimal v) @ rest) [] m = parse_loop rest [] (poke m 192 (le_bytes 8 v))"
    "parse_loop (config_line ''expire_check_interval_secs'' (decimal v) @ rest) [] m = parse_loop rest [] (poke m 188 (le_bytes 8 v))"
  using assms keys_ok by - (rule uint_line; simp add: config_entries_def)+

lemma str_lines:
  assumes "plain_text v"
  shows "parse_loop (config_line ''log_file'' v @ rest) [] m = parse_loop rest [] (poke m 16 (v @ [NUL]))"
    "parse_loop (config_line ''data_file'' v @ rest) [] m = parse_loop rest [] (poke m 65 (v @ [NUL]))"
    "parse_loop (config_line ''database_name'' v @ rest) [] m = parse_loop rest [] (poke m 114 (v @ [NUL]))"
    "parse_loop (config_line ''cert'' v @ rest) [] m = parse_loop rest [] (poke m 197 (v @ [NUL]))"
    "parse_loop (config_line ''private_key'' v @ rest) [] m = parse_loop rest [] (poke m 246 (v @ [NUL]))"
  using assms keys_ok by - (rule str_line; simp add: config_entries_def)+

text \<open>The memory after the last line.\<close>

definition final_memory :: "config \<Rightarrow> memory" where
  "final_memory c = (let m = poke (poke (poke (\<lambda>_. NUL) 0 (le_bytes 8 (cf_port c))) 2 (le_bytes 8 (cf_max_clients c))) 4 (le_bytes 8 (cf_max_blocks c));
     m = poke (poke (poke m 8 [char_of (cf_log_levels c)]) 12 (le_bytes 8 (unat (word_of_int (cf_max_log_lines c) :: 64 word)))) 16 (cf_log_file c @ [NUL]);
     m = poke (poke m 180 (le_bytes 4 (cf_autosave_seconds (reread c)))) 184 (le_bytes 4 0);
     m = poke (poke m 65 (cf_data_file c @ [NUL])) 114 (cf_database_name c @ [NUL]);
     m = poke (poke m 192 (le_bytes 8 (cf_expire_size c))) 188 (le_bytes 8 (cf_expire_seconds c)) in
     poke (poke (poke m 196 (le_bytes 1 (if cf_tls c then 1 else 0))) 197 (cf_cert c @ [NUL])) 246 (cf_private_key c @ [NUL]))"

lemma small_sint: "v < 2 ^ 31 \<Longrightarrow> sint (word_of_nat v :: 32 word) = int v"
proof -
  assume "v < 2 ^ 31"
  then have "int v < 2 ^ 31" using of_nat_less_iff [of v "2 ^ 31", where 'a = int] by simp
  then have "signed_take_bit 31 (int v) = int v" by (intro signed_take_bit_int_eq_self) simp_all
  then show ?thesis by (simp add: signed_of_nat)
qed

lemma high_byte_zero: "v < 2 ^ 32 \<Longrightarrow> poke m 4 (le_bytes 8 v) 8 = NUL"
proof -
  assume v: "v < 2 ^ 32"
  have "le_val (bytes_at (poke m 4 (le_bytes 8 v)) 8 1) = v div 256 ^ 4 mod 256" by (subst field_written) simp_all
  also have "\<dots> = 0" using v by simp
  finally have "code (poke m 4 (le_bytes 8 v) 8) = 0" by (simp add: bytes_at_def)
  then show ?thesis by (metis char_of_0 char_of_char)
qed

lemma parse_printed:
  assumes v: "valid_config c"
  shows "parse_loop (get_config_string c) [] (\<lambda>_. NUL) = Inr (Inr (final_memory c))"
proof -
  have p: "plain_text (cf_log_file c)" "plain_text (cf_data_file c)" "plain_text (cf_database_name c)" "plain_text (cf_cert c)" "plain_text (cf_private_key c)"
    and n: "cf_port c < 2 ^ 64" "cf_max_clients c < 2 ^ 64" "cf_max_blocks c < 2 ^ 64" "cf_expire_size c < 2 ^ 64" "cf_expire_seconds c < 2 ^ 64"
    and l: "cf_log_levels c < 16" "- (2 ^ 31) \<le> cf_max_log_lines c" "cf_max_log_lines c < 2 ^ 31" "cf_max_blocks c < 2 ^ 32"
    and s: "cf_autosave_seconds c < 2 ^ 32" "cf_autosave_count c < 2 ^ 32" "cf_expire_seconds c < 2 ^ 31" "cf_expire_size c < 2 ^ 31"
    using v by (auto simp: valid_config_def)
  have last: "parse_loop (config_line ''private_key'' (cf_private_key c)) [] m = parse_loop [] [] (poke m 246 (cf_private_key c @ [NUL]))" for m
    using str_lines(5) [OF p(5), of "[]" m] by simp
  have e: "nat (int v) = v" "int_text (int v) = decimal v" for v by (simp_all add: int_text_def)
  have h: "poke (poke (poke (\<lambda>_. NUL) 0 (le_bytes 8 (cf_port c))) 2 (le_bytes 8 (cf_max_clients c))) 4 (le_bytes 8 (cf_max_blocks c)) 8 = NUL"
    by (rule high_byte_zero [OF l(4)])
  note lines = uint_lines [OF n(1)] uint_lines [OF n(2)] uint_lines [OF n(3)] uint_lines [OF n(4)] uint_lines [OF n(5)]
    str_lines [OF p(1)] str_lines [OF p(2)] str_lines [OF p(3)] str_lines [OF p(4)] levels_line [OF l(1)] int_line [OF l(2,3)] save_line [OF s(1,2), unfolded append_Cons append_Nil] tls_line [of True, unfolded if_True] tls_line [of False, unfolded if_False] last
  show ?thesis unfolding get_config_string_def
    by (simp add: lines h e small_sint [OF s(3)] small_sint [OF s(4)] del: parse_loop.simps)
      (simp add: final_memory_def reread_def append_char_def Let_def)
qed


lemma final_port: "v < 2 ^ 16 \<Longrightarrow> le_val (bytes_at (poke m a (le_bytes 8 v)) a 2) = v" "v < 2 ^ 32 \<Longrightarrow> le_val (bytes_at (poke m a (le_bytes 8 v)) a 4) = v"
    "v < 2 ^ 32 \<Longrightarrow> le_val (bytes_at (poke m a (le_bytes 4 v)) a 4) = v" "v < 2 ^ 32 \<Longrightarrow> le_val (bytes_at (poke m 188 (le_bytes 8 v)) 192 4) = 0"
    "le_val (bytes_at (poke m a (le_bytes 8 v)) a 4) = v mod 2 ^ 32"
  by (simp_all add: field_written)

lemma flag_written: "le_val (bytes_at (poke m a (le_bytes (Suc 0) v)) a (Suc 0)) = v mod 256"
  by (simp add: field_written del: le_bytes.simps)

lemma byte_written: "v < 256 \<Longrightarrow> le_val (bytes_at (poke m a [char_of v]) a (Suc 0)) = v"
  by (simp add: bytes_at_poke_inside)

lemma lines_written: "\<lbrakk>- (2 ^ 31) \<le> i; i < 2 ^ 31\<rbrakk> \<Longrightarrow> sint (word_of_nat (unat (word_of_int i :: 64 word) mod 2 ^ 32) :: 32 word) = i"
proof -
  assume i: "- (2 ^ 31) \<le> i" "i < 2 ^ 31"
  have "(word_of_nat (unat (word_of_int i :: 64 word) mod 2 ^ 32) :: 32 word) = word_of_int i"
  proof -
    have "(word_of_nat (unat (word_of_int i :: 64 word) mod 2 ^ 32) :: 32 word) = word_of_nat (unat (word_of_int i :: 64 word))"
      by (rule word_of_nat_eq_iff [THEN iffD2]) (simp add: take_bit_eq_mod)
    also have "\<dots> = ucast (word_of_int i :: 64 word)" by simp
    also have "\<dots> = word_of_int i" by (rule bit_word_eqI) (simp add: bit_simps)
    finally show ?thesis .
  qed
  then show ?thesis using i by (simp add: signed_of_int signed_take_bit_int_eq_self)
qed

lemma read_final:
  assumes v: "valid_config c"
  shows "read_config (final_memory c) = reread c"
proof -
  have p: "plain_text (cf_log_file c)" "plain_text (cf_data_file c)" "plain_text (cf_database_name c)" "plain_text (cf_cert c)" "plain_text (cf_private_key c)"
    and n: "cf_port c < 2 ^ 16" "cf_max_clients c < 2 ^ 16" "cf_max_blocks c < 2 ^ 32" "cf_expire_size c < 2 ^ 32" "cf_expire_seconds c < 2 ^ 32" "cf_log_levels c < 256"
    and l: "- (2 ^ 31) \<le> cf_max_log_lines c" "cf_max_log_lines c < 2 ^ 31"
    using v by (auto simp: valid_config_def)
  have "unat w < 2 ^ 32" for w :: "32 word" using unsigned_less [of w, where 'a = nat] by simp
  then have a: "cf_autosave_seconds (reread c) < 2 ^ 32" by (simp add: reread_def)
  note f = plain_text_facts [OF p(1)] plain_text_facts [OF p(2)] plain_text_facts [OF p(3)] plain_text_facts [OF p(4)] plain_text_facts [OF p(5)]
  have strings: "c_string (bytes_at (final_memory c) 16 49) = cf_log_file c" "c_string (bytes_at (final_memory c) 65 49) = cf_data_file c"
      "c_string (bytes_at (final_memory c) 114 65) = cf_database_name c" "c_string (bytes_at (final_memory c) 197 49) = cf_cert c"
      "c_string (bytes_at (final_memory c) 246 49) = cf_private_key c"
    using f by (simp_all add: final_memory_def Let_def string_written)
  have numbers: "le_val (bytes_at (final_memory c) 0 2) = cf_port c" "le_val (bytes_at (final_memory c) 2 2) = cf_max_clients c"
      "le_val (bytes_at (final_memory c) 4 4) = cf_max_blocks c" "le_val (bytes_at (final_memory c) 8 1) = cf_log_levels c"
      "le_val (bytes_at (final_memory c) 12 4) = unat (word_of_int (cf_max_log_lines c) :: 64 word) mod 2 ^ 32"
      "le_val (bytes_at (final_memory c) 180 4) = cf_autosave_seconds (reread c)" "le_val (bytes_at (final_memory c) 184 4) = 0"
      "le_val (bytes_at (final_memory c) 188 4) = cf_expire_seconds c" "le_val (bytes_at (final_memory c) 192 4) = 0"
      "le_val (bytes_at (final_memory c) 196 1) = (if cf_tls c then 1 else 0)"
    using f n a by (simp_all add: final_memory_def Let_def final_port byte_written flag_written del: le_bytes.simps)
  show ?thesis unfolding read_config_def strings numbers lines_written [OF l] by (cases c) (simp add: reread_def)
qed

lemma config_reread:
  assumes v: "valid_config c"
  shows "\<exists>m. parse_config (get_config_string c) = Inr (Inr m) \<and> read_config m = reread c"
proof -
  have "\<not> (cf_max_log_lines (read_config (final_memory c)) \<le> 0 \<and> cf_max_log_lines (read_config (final_memory c)) \<noteq> - 1)"
    unfolding read_final [OF v] using v by (auto simp: valid_config_def reread_def)
  then show ?thesis using parse_printed [OF v] read_final [OF v] by (simp add: parse_config_def Let_def)
qed

end
