(* ===== verification/Sessions.thy ===== *)
theory Sessions
  imports Multi Expiry
begin

text \<open>What a client may do: logging in, losing a password, commands without permission.\<close>

section \<open>\<open>AUTH\<close>\<close>

lemma auth_login:
  assumes wf: "wf_auth (w_auth w)" and d: "g_kdf e (str_bytes pass_arg) = Some d" and we: "we_client we = Some i" "we_args we = [pass_arg]" "we_password we = au_empty (w_auth w)"
  shows "if d \<in> pw_data ` set (passwords (w_auth w))
    then \<exists>p pw. Some p \<in> set (au_list (w_auth w)) \<and> au_heap (w_auth w) p = Some pw \<and> pw_data pw = d \<and>
      run_auth g e we w = Inr (set_client w i ((client_at w i)\<lparr>cl_password := p\<rparr>), RESP_OK)
    else run_auth g e we w = Inr (w, RESP_ERROR_MESSAGE ''This password does not exist'')"
proof -
  let ?au = "w_auth w" and ?P = "\<lambda>pw. pw_data pw = d"
  have w: "where_password (g_kdf e) ?au (str_bytes pass_arg) = Inr (?au, index_of ?P (passwords ?au) 0)" by (rule where_password_index [where kdf = "g_kdf e", OF wf d])
  show ?thesis
  proof (cases "index_of ?P (passwords ?au) 0")
    case None
    then have "\<forall>pw \<in> set (passwords ?au). pw_data pw \<noteq> d" by (simp add: index_of_None)
    then show ?thesis using w we None by (auto simp: run_auth_def for_client_def Let_def)
  next
    case (Some j)
    then have j: "j < length (passwords ?au)" "pw_data (passwords ?au ! j) = d" using index_of_Some [OF Some] by auto
    then have l: "j < length (au_list ?au)" by (simp add: passwords_def)
    then obtain p where p: "au_list ?au ! j = Some p" "au_heap ?au p \<noteq> None" using wf nth_mem unfolding wf_auth_def by blast
    then obtain pw where pw: "au_heap ?au p = Some pw" by blast
    have "pw_data pw = d" using j(2) l p pw by (simp add: passwords_def)
    moreover have "d \<in> pw_data ` set (passwords ?au)" using j nth_mem by blast
    moreover have "run_auth g e we w = Inr (set_client w i ((client_at w i)\<lparr>cl_password := p\<rparr>), RESP_OK)"
      using w we Some p l by (simp add: run_auth_def for_client_def password_at_def Let_def)
    moreover have "Some p \<in> set (au_list ?au)" using p(1) l nth_mem by metis
    ultimately show ?thesis using pw by auto
  qed
qed

section \<open>\<open>PWD REMOVE\<close>\<close>

lemma removed_password:
  assumes wf: "wf_auth au" and many: "1 < length (au_list au)" and d: "kdf value = Some d" and at: "i < length (passwords au)" "pw_data (passwords au ! i) = d"
  shows "\<exists>au' cs'. remove_password kdf True au cs executor value = Inr (au', cs', True) \<and> wf_auth au' \<and>
    passwords au' = take i (passwords au) @ drop (i + 1) (passwords au) \<and> where_password kdf au' value = Inr (au', None) \<and>
    (\<forall>c \<in> set (cs_slots cs'). live c \<longrightarrow> au_heap au' (cl_password c) = None \<longrightarrow> au_heap au (cl_password c) = None)"
proof -
  obtain au' cs' where r: "remove_password kdf True au cs executor value = Inr (au', cs', True)" "wf_auth au'" "passwords au' = take i (passwords au) @ drop (i + 1) (passwords au)"
      "\<forall>c \<in> set (cs_slots cs'). live c \<longrightarrow> au_heap au' (cl_password c) = None \<longrightarrow> au_heap au (cl_password c) = None"
    using remove_password_more [where kdf = kdf, OF wf many d at] by blast
  have "distinct (map pw_data (passwords au))" using wf by (simp add: wf_auth_def passwords_def comp_def)
  then have "distinct (map pw_data (take i (passwords au) @ passwords au ! i # drop (i + 1) (passwords au)))" using id_take_nth_drop [OF at(1)] by simp
  then have "d \<notin> pw_data ` set (passwords au')" unfolding r(3) at(2) [symmetric] by auto
  then have "\<forall>pw \<in> set (passwords au'). pw_data pw \<noteq> d" by blast
  then have "index_of (\<lambda>pw. pw_data pw = d) (passwords au') 0 = None" by (simp add: index_of_None)
  then show ?thesis using r where_password_index [where kdf = kdf, OF r(2) d] by auto
qed

section \<open>A command without permission\<close>

lemma autosave_not_due:
  assumes "w_operations w + 1 < w_count w"
  shows "\<exists>ops at. check_autosave (Some now) h w = Inr (w\<lparr>w_operations := ops, w_saved_at := at\<rparr>)"
proof (cases "h_affect h")
  case False
  then show ?thesis by (intro exI [of _ "w_operations w"] exI [of _ "w_saved_at w"]) (simp add: check_autosave_def)
next
  case True
  have "\<not> w_count w \<le> w_operations w + 1" using assms by simp
  then have "check_autosave (Some now) h w = Inr (if w_saved_at w + uint (w_seconds w) \<le> now
      then w\<lparr>w_operations := 1, w_saved_at := now\<rparr> else w\<lparr>w_operations := w_operations w + 1, w_saved_at := w_saved_at w\<rparr>)"
    using True by (simp add: check_autosave_def Let_def)
  then show ?thesis
    by (intro exI [of _ "if w_saved_at w + uint (w_seconds w) \<le> now then 1 else w_operations w + 1"]
        exI [of _ "if w_saved_at w + uint (w_seconds w) \<le> now then now else w_saved_at w"]) simp
qed

lemma denied_turn:
  assumes i: "connected w i" and q: "holds_list n A (w_queue w) (\<lparr>bk_type = TX_DIRECT, bk_client = i, bk_password = p, bk_transactions = [tx]\<rparr> # bks)"
    and pw: "au_heap (w_auth w) p = Some pw" "pw_permissions pw AND h_permissions (commands ! tx_command tx) \<noteq> h_permissions (commands ! tx_command tx)"
    and time: "g_time (e 0) = Some now" and calm: "w_operations w + 1 < w_count w"
  shows "\<exists>q' w'. transaction_turn g commands e w = Inr w' \<and> holds_list n (A + 1) q' bks \<and> w_queue w' = q' \<and> w_dbs w' = w_dbs w \<and> w_auth w' = w_auth w \<and>
    w_clients w' = w_clients w \<and> w_keyspace w' = w_keyspace w \<and> w_out w' = w_out w @ [Sent i NO_PERMISSION] \<and> w_processed w' = w_processed w + 1"
proof -
  let ?bk = "\<lparr>bk_type = TX_DIRECT, bk_client = i, bk_password = p, bk_transactions = [tx]\<rparr>"
  obtain q' where q': "holds_list n (A + 1) q' bks" "transaction_turn g commands e w =
      bind_res (execute_transaction_block g commands e ?bk (w\<lparr>w_queue := q'\<rparr>)) (\<lambda>w. Inr (remove_transaction_block ?bk w))"
    using turn_block [OF q, of g commands e] by blast
  have l: "live (client_at w i)" using i by (simp add: connected_def)
  let ?w = "emit (Sent i NO_PERMISSION) (w\<lparr>w_queue := q'\<rparr>)"
  have x: "execute_transaction g commands (e 0) (Some i) p tx (w\<lparr>w_queue := q'\<rparr>) = Inr (?w, [])"
    using pw by (simp add: execute_transaction_def get_password_def write_to_socket_def Let_def)
  have "w_operations ?w + 1 < w_count ?w" using calm by (simp add: emit_def)
  then obtain ops at where "check_autosave (Some now) (commands ! tx_command tx) ?w = Inr (?w\<lparr>w_operations := ops, w_saved_at := at\<rparr>)"
    using autosave_not_due by blast
  then have "transaction_turn g commands e w = Inr (remove_transaction_block ?bk (?w\<lparr>w_operations := ops, w_saved_at := at\<rparr>))"
    unfolding q'(2) using x l time by (simp add: execute_transaction_block_def Let_def)
  then show ?thesis using q'(1) by (simp add: remove_transaction_block_def emit_def)
qed

section \<open>The search for a client\<close>

text \<open>With a free slot, or from a home other than slot 0, the search ends. In a full table it goes round for ever for an absent id at home in slot 0.\<close>

lemma client_search:
  assumes wf: "wf_clients cs" and k: "0 \<le> k" "k < 2 ^ 31"
  shows "(\<exists>c \<in> set (cs_slots cs). \<not> live c) \<or> nat k mod length (cs_slots cs) \<noteq> 0 \<Longrightarrow> get_client cs k = Inr (index_of (\<lambda>c. live c \<and> cl_id c = k) (cs_slots cs) 0)"
    and "(\<forall>c \<in> set (cs_slots cs). live c \<and> cl_id c \<noteq> k) \<and> nat k mod length (cs_slots cs) = 0 \<Longrightarrow> get_client cs k = Inl Endless"
proof -
  let ?P = "\<lambda>c. live c \<and> cl_id c = k"
  assume room: "(\<exists>c \<in> set (cs_slots cs). \<not> live c) \<or> nat k mod length (cs_slots cs) \<noteq> 0"
  obtain r where r: "get_client cs k = Inr r" "case r of None \<Rightarrow> \<forall>c \<in> set (cs_slots cs). live c \<longrightarrow> cl_id c \<noteq> k
     | Some i \<Rightarrow> i < length (cs_slots cs) \<and> live (cs_slots cs ! i) \<and> cl_id (cs_slots cs ! i) = k"
    using get_client_finds [OF wf k room] by blast
  have "r = index_of ?P (cs_slots cs) 0"
  proof (cases r)
    case None
    then show ?thesis using r(2) index_of_None [of ?P "cs_slots cs" 0] by auto
  next
    case (Some i)
    then have i: "i < length (cs_slots cs)" "?P (cs_slots cs ! i)" using r(2) by auto
    then obtain j where j: "index_of ?P (cs_slots cs) 0 = Some j"
      using index_of_None [of ?P "cs_slots cs" 0] nth_mem [OF i(1)] by (cases "index_of ?P (cs_slots cs) 0") auto
    then have "j < length (cs_slots cs)" "?P (cs_slots cs ! j)" using index_of_Some [OF j] by auto
    then have "in_slots (id_slots cs) i k ()" "in_slots (id_slots cs) j k ()" using i by (simp_all add: in_id_slots)
    then have "i = j" using wf by (auto simp: wf_clients_def dest: uniqD)
    then show ?thesis using Some j by simp
  qed
  then show "get_client cs k = Inr (index_of ?P (cs_slots cs) 0)" using r(1) by simp
next
  assume "(\<forall>c \<in> set (cs_slots cs). live c \<and> cl_id c \<noteq> k) \<and> nat k mod length (cs_slots cs) = 0"
  then show "get_client cs k = Inl Endless" using full_table_spins [of cs k] wf k by (auto simp: wf_clients_def)
qed

end
