(* ===== verification/File_Write.thy ===== *)
theory File_Write
  imports Auth Bytes
begin

unbundle bit_operations_syntax

text \<open>
  Writing the database file: \<open>src/database/file/generate.c\<close>, \<open>size.c\<close> and \<open>save_data\<close> of \<open>file.c\<close>. A generator
  returns the bytes it appends to the buffer; the size of the buffer is checked where the buffer is known. GMP in base 16 is a parameter,
  beside the base 10 functions of \<open>Resp_Write\<close>.
\<close>

record ('z, 'f) hex_gmp = "('z, 'f) gmp" +
  mpz_bits :: "'z \<Rightarrow> nat"                  \<comment> \<open>\<open>mpz_sizeinbase(n, 2)\<close>\<close>
  mpz_hex :: "'z \<Rightarrow> bytes"
  mpz_ior :: "'z \<Rightarrow> 'z \<Rightarrow> 'z"
  mpz_mul_2exp :: "'z \<Rightarrow> nat \<Rightarrow> 'z"
  mpf_hex :: "nat \<Rightarrow> 'f \<Rightarrow> bytes \<times> int"  \<comment> \<open>at most so many digits, and the exponent\<close>
  mpf_of_hex :: "bytes \<Rightarrow> 'f"

definition FLOAT_PRECISION :: nat where
  "FLOAT_PRECISION = 1024"

section \<open>Values\<close>

definition type_code :: "('z, 'f) prim \<Rightarrow> nat" where
  "type_code v = (case v of PNull \<Rightarrow> 1 | PInt _ \<Rightarrow> 2 | PDouble _ \<Rightarrow> 3 | PStr _ \<Rightarrow> 4 | PBool _ \<Rightarrow> 5)"

definition TELLY_HASHTABLE :: nat where "TELLY_HASHTABLE = 6"
definition TELLY_LIST :: nat where "TELLY_LIST = 7"

definition byte :: "nat \<Rightarrow> bytes" where
  "byte n = [char_of n]"

definition generate_string_value :: "bytes \<Rightarrow> bytes" where
  "generate_string_value s =
     (let byte_count = get_byte_count (word_of_nat (length s div 64)); first = byte_count * 64 + length s mod 64 in
      byte first @ le_bytes byte_count (length s div 64) @ s)"

definition hex_digit :: "char \<Rightarrow> nat option" where
  "hex_digit c = (if is_digit c then Some (digit_val c) else if 97 \<le> code c \<and> code c \<le> 102 then Some (code c - 87) else None)"

text \<open>\<open>strtol\<close> of two characters in base 16, as a byte.\<close>

definition hex_pair :: "char \<Rightarrow> char \<Rightarrow> nat" where
  "hex_pair x y = (case hex_digit x of
       None \<Rightarrow> if x = CHR ''-'' then (case hex_digit y of None \<Rightarrow> 0 | Some b \<Rightarrow> (256 - b) mod 256) else 0
     | Some a \<Rightarrow> (case hex_digit y of None \<Rightarrow> a | Some b \<Rightarrow> 16 * a + b))"

text \<open>The bytes of a number: \<open>i\<close> counts them, \<open>hex\<close> is the text with its NUL, \<open>str_index\<close> a byte.\<close>

definition hex_byte :: "bytes \<Rightarrow> bool \<Rightarrow> nat \<Rightarrow> nat \<Rightarrow> char res" where
  "hex_byte hex is_even negative i =
     (if i = 0 \<and> \<not> is_even then bind_res (mem_get hex negative) (\<lambda>x. Inr (char_of (hex_pair (CHR ''0'') x)))
      else let str_index = ((if is_even then i * 2 else i * 2 - 1) + negative) mod 256 in
        bind_res (mem_get hex str_index) (\<lambda>x.
        bind_res (mem_get hex (str_index + 1)) (\<lambda>y. Inr (char_of (hex_pair x y)))))"

fun hex_bytes :: "bytes \<Rightarrow> bool \<Rightarrow> nat \<Rightarrow> nat \<Rightarrow> nat \<Rightarrow> bytes res" where
  "hex_bytes hex is_even negative i 0 = Inr []"
| "hex_bytes hex is_even negative i (Suc left) =
     bind_res (hex_byte hex is_even negative i) (\<lambda>b.
     bind_res (hex_bytes hex is_even negative (i + 1) left) (\<lambda>bs. Inr (b # bs)))"

text \<open>\<open>hex[(byte_count * 2) - !negative] != NUL\<close>: for an empty text the index is -1.\<close>

definition even_digits :: "bytes \<Rightarrow> nat \<Rightarrow> bool \<Rightarrow> bool res" where
  "even_digits hex byte_count negative =
     (if byte_count = 0 \<and> \<not> negative then Inl OutOfBounds
      else bind_res (mem_get hex (byte_count * 2 - (if negative then 0 else 1))) (\<lambda>c. Inr (c \<noteq> NUL)))"

definition sign_byte :: "nat \<Rightarrow> bool \<Rightarrow> bytes" where
  "sign_byte byte_count negative = byte (((byte_count + 255) mod 256) OR (if negative then 128 else 0))"

definition generate_integer_value :: "('z, 'f, 'more) hex_gmp_scheme \<Rightarrow> 'z \<Rightarrow> bytes res" where
  "generate_integer_value g z =
     (let negative = (mpz_sgn g z = - 1); byte_count = ((mpz_bits g z + 7) div 8) mod 256; hex = mpz_hex g z @ [NUL] in
      bind_res (even_digits hex byte_count negative) (\<lambda>is_even.
      bind_res (hex_bytes hex is_even (if negative then 1 else 0) 0 byte_count) (\<lambda>bs.
        Inr (sign_byte byte_count negative @ bs))))"

definition generate_double_value :: "('z, 'f, 'more) hex_gmp_scheme \<Rightarrow> 'f \<Rightarrow> bytes res" where
  "generate_double_value g f =
     (case mpf_hex g (FLOAT_PRECISION div 8 * 2) f of (text, exp) \<Rightarrow>
      let negative = (text \<noteq> [] \<and> hd text = CHR ''-''); byte_count = ((length text - (if negative then 1 else 0) + 1) div 2) mod 256;
          is_zeroed = (int byte_count \<le> exp); hex = text @ [NUL];
          indicator = (if is_zeroed then 0 else 128 OR nat (exp mod 256)) in
      bind_res (even_digits hex byte_count negative) (\<lambda>is_even.
      bind_res (hex_bytes hex is_even (if negative then 1 else 0) 0 byte_count) (\<lambda>bs.
        Inr (sign_byte byte_count negative @ byte indicator @ bs))))"

definition generate_boolean_value :: "bool \<Rightarrow> bytes" where
  "generate_boolean_value b = byte (if b then 1 else 0)"

text \<open>\<open>GENERATORS[type]\<close>: there is no function for \<open>TELLY_NULL\<close>.\<close>

definition generate_prim :: "('z, 'f, 'more) hex_gmp_scheme \<Rightarrow> ('z, 'f) prim \<Rightarrow> bytes res" where
  "generate_prim g v = (case v of
       PNull \<Rightarrow> Inl NullDeref
     | PInt z \<Rightarrow> generate_integer_value g z
     | PDouble f \<Rightarrow> generate_double_value g f
     | PStr s \<Rightarrow> Inr (generate_string_value s)
     | PBool b \<Rightarrow> Inr (generate_boolean_value b))"

definition generate_hashtable_element :: "('z, 'f, 'more) hex_gmp_scheme \<Rightarrow> bytes \<times> ('z, 'f) prim \<Rightarrow> bytes res" where
  "generate_hashtable_element g e = bind_res (generate_prim g (snd e)) (\<lambda>bs.
     Inr (byte (type_code (snd e)) @ generate_string_value (fst e) @ bs))"

fun generate_fields :: "('z, 'f, 'more) hex_gmp_scheme \<Rightarrow> (bytes \<times> ('z, 'f) prim) list \<Rightarrow> bytes res" where
  "generate_fields g [] = Inr []"
| "generate_fields g (e # es) = bind_res (generate_hashtable_element g e) (\<lambda>bs. bind_res (generate_fields g es) (\<lambda>cs. Inr (bs @ cs)))"

partial_function (option) generate_nodes :: "('z, 'f, 'more) hex_gmp_scheme \<Rightarrow> ('z, 'f) prim linkedlist \<Rightarrow> nat option \<Rightarrow> bytes \<Rightarrow> bytes res option" where
  "generate_nodes g l p out =
     (if p = None then Some (Inr out)
      else case bind_res (node_at l p) (\<lambda>n. bind_res (if nd_data n = PNull then Inr [] else generate_prim g (nd_data n)) (\<lambda>bs.
          Inr (byte (type_code (nd_data n)) @ bs, nd_next n))) of
        Inl f \<Rightarrow> Some (Inl f)
      | Inr (bs, q) \<Rightarrow> generate_nodes g l q (out @ bs))"

text \<open>The bytes that \<open>generate_value\<close> writes, and the length it returns. A value that is lost is a double without its number.\<close>

definition generate_value :: "('z, 'f, 'more) hex_gmp_scheme \<Rightarrow> bytes \<Rightarrow> ('z, 'f) val \<Rightarrow> (bytes \<times> nat) res" where
  "generate_value g key v =
     (let k = generate_string_value key in
      case v of
        Prim PNull \<Rightarrow> Inr (k @ byte (type_code (PNull :: ('z, 'f) prim)) , 0)
      | Prim p \<Rightarrow> bind_res (generate_prim g p) (\<lambda>bs. let out = k @ byte (type_code p) @ bs in Inr (out, length out))
      | VHash t \<Rightarrow> bind_res (generate_fields g (foreach_hashtable t)) (\<lambda>bs.
          let out = k @ byte TELLY_HASHTABLE @ le_bytes 8 (ht_capacity t) @ bs @ byte 0x17 in Inr (out, length out))
      | VList l \<Rightarrow> bind_res (flat_loop (generate_nodes g l (ll_begin l) [])) (\<lambda>bs.
          let out = k @ byte TELLY_LIST @ le_bytes 8 (ll_size l) @ bs in Inr (out, length out))
      | VLost \<Rightarrow> Inl NullDeref)"

section \<open>Sizes\<close>

definition string_size :: "bytes \<Rightarrow> nat" where
  "string_size s = get_byte_count (word_of_nat (length s)) mod 256 + length s"

definition get_prim_size :: "('z, 'f, 'more) hex_gmp_scheme \<Rightarrow> ('z, 'f) prim \<Rightarrow> nat" where
  "get_prim_size g v = (case v of
       PNull \<Rightarrow> 0
     | PInt z \<Rightarrow> ((mpz_bits g z + 7) div 8) mod 256 + 1
     | PDouble f \<Rightarrow> (let text = fst (mpf_hex g 128 f); negative = (text \<noteq> [] \<and> hd text = CHR ''-'') in
         (length text - (if negative then 1 else 0) + 2) mod 256)
     | PStr s \<Rightarrow> string_size s
     | PBool b \<Rightarrow> 1)"

partial_function (option) nodes_size :: "('z, 'f, 'more) hex_gmp_scheme \<Rightarrow> ('z, 'f) prim linkedlist \<Rightarrow> nat option \<Rightarrow> nat \<Rightarrow> nat res option" where
  "nodes_size g l p n =
     (if p = None then Some (Inr n)
      else case node_at l p of
        Inl f \<Rightarrow> Some (Inl f)
      | Inr x \<Rightarrow> nodes_size g l (nd_next x) (n + 1 + get_prim_size g (nd_data x)))"

definition get_value_size :: "('z, 'f, 'more) hex_gmp_scheme \<Rightarrow> ('z, 'f) val \<Rightarrow> nat res" where
  "get_value_size g v = (case v of
       Prim p \<Rightarrow> Inr (get_prim_size g p)
     | VHash t \<Rightarrow> Inr (9 + sum_list (map (\<lambda>e. 1 + string_size (fst e) + get_prim_size g (snd e)) (foreach_hashtable t)))
     | VList l \<Rightarrow> flat_loop (nodes_size g l (ll_begin l) 8)
     | VLost \<Rightarrow> Inl NullDeref)"

fun get_maximum_keyvalue_size :: "('z, 'f, 'more) hex_gmp_scheme \<Rightarrow> (bytes \<times> ('z, 'f) kv) list \<Rightarrow> nat \<Rightarrow> nat res" where
  "get_maximum_keyvalue_size g [] m = Inr m"
| "get_maximum_keyvalue_size g (e # es) m = bind_res (get_value_size g (kv_value (snd e))) (\<lambda>n.
     get_maximum_keyvalue_size g es (max m (1 + string_size (fst e) + n)))"

section \<open>\<open>save_data\<close>\<close>

text \<open>
  \<open>sv_size\<close> is the file size the code computes, \<open>sv_filled\<close> its \<open>block_size\<close>, \<open>sv_block\<close> the block of \<open>block_capacity\<close> bytes,
  \<open>sv_file\<close> what has been written to the file, in \<open>sv_writes\<close> writes.
\<close>

record saver =
  sv_size :: nat
  sv_filled :: nat
  sv_block :: bytes
  sv_file :: bytes
  sv_writes :: nat

definition put_block :: "saver \<Rightarrow> nat \<Rightarrow> bytes \<Rightarrow> saver res" where
  "put_block s off bs = bind_res (mem_put (sv_block s) off bs) (\<lambda>b. Inr (s\<lparr>sv_block := b\<rparr>))"

text \<open>Appending to the block at \<open>block_size\<close>, without a test that it fits.\<close>

definition fill_block :: "saver \<Rightarrow> bytes \<Rightarrow> saver res" where
  "fill_block s bs = bind_res (put_block s (sv_filled s) bs) (\<lambda>s. Inr (s\<lparr>sv_filled := sv_filled s + length bs\<rparr>))"

definition flush_block :: "(nat \<Rightarrow> bool) \<Rightarrow> saver \<Rightarrow> saver \<times> bool" where
  "flush_block ok s = (if ok (sv_writes s) then (s\<lparr>sv_file := sv_file s @ sv_block s, sv_writes := sv_writes s + 1\<rparr>, True) else (s, False))"

definition generate_headers :: "32 word \<Rightarrow> bytes" where
  "generate_headers server_age = byte 0x18 @ byte 0x10 @ le_bytes 4 (unat server_age)"

definition password_byte_count :: "nat \<Rightarrow> nat" where
  "password_byte_count count = (if count = 0 then 0 else nbits count)"

text \<open>\<open>allowed\<close> is what does not fit, and that many bytes are copied to the end of the block.\<close>

fun save_passwords :: "(nat \<Rightarrow> bool) \<Rightarrow> password list \<Rightarrow> saver \<Rightarrow> (saver \<times> bool) res" where
  "save_passwords ok [] s = Inr (s, True)"
| "save_passwords ok (p # ps) s =
     (let capacity = length (sv_block s); new_length = sv_filled s + 49; permissions = byte (unat (pw_permissions p) mod 256) in
      if capacity < new_length then
        let allowed = new_length - capacity in
        bind_res (put_block s (sv_filled s) (take allowed (pw_data p))) (\<lambda>s.
          case flush_block ok s of
            (s, False) \<Rightarrow> Inr (s, False)
          | (s, True) \<Rightarrow>
              if 48 < allowed then Inl OutOfBounds
              else let remaining = 48 - allowed in
                bind_res (put_block s 0 (take remaining (pw_data p) @ permissions)) (\<lambda>s.
                  save_passwords ok ps (s\<lparr>sv_filled := remaining + 1, sv_size := sv_size s + capacity + remaining + 1\<rparr>)))
      else bind_res (fill_block s (pw_data p @ permissions)) (\<lambda>s. save_passwords ok ps (s\<lparr>sv_size := sv_size s + sv_filled s\<rparr>)))"

text \<open>The whole blocks of a value: \<open>remaining > block_capacity\<close> is the condition of the loop.\<close>

function dump_blocks :: "(nat \<Rightarrow> bool) \<Rightarrow> bytes \<Rightarrow> saver \<Rightarrow> (saver \<times> bytes) res" where
  "dump_blocks ok data s =
     (if length (sv_block s) < length data \<and> sv_block s \<noteq> [] then
        case flush_block ok (s\<lparr>sv_block := take (length (sv_block s)) data\<rparr>) of
          (s', False) \<Rightarrow> Inl UseAfterFree
        | (s', True) \<Rightarrow> dump_blocks ok (drop (length (sv_block s)) data) s'
      else Inr (s, data))"
  by pat_completeness auto
termination
  by (relation "measure (\<lambda>(_, data, _). length data)") (auto intro!: diff_less)

text \<open>
  \<open>dump_into_file\<close> of one key. After a write that failed the buffers are freed, and the caller frees them again.
  \<open>room\<close> is the size of the buffer the value is generated in.
\<close>

definition dump_into_file :: "('z, 'f, 'more) hex_gmp_scheme \<Rightarrow> (nat \<Rightarrow> bool) \<Rightarrow> nat \<Rightarrow> bytes \<times> ('z, 'f) kv \<Rightarrow> saver \<Rightarrow> saver res" where
  "dump_into_file g ok room e s =
     bind_res (generate_value g (fst e) (kv_value (snd e))) (\<lambda>(written, kv_size).
       if room < length written then Inl OutOfBounds
       else let data = take kv_size written; capacity = length (sv_block s); block_count = (sv_filled s + kv_size + capacity - 1) div capacity in
         if block_count \<noteq> 1 then
           if kv_size < capacity - sv_filled s then Inl OutOfBounds
           else let complete = capacity - sv_filled s in
             bind_res (put_block s (sv_filled s) (take complete data)) (\<lambda>s.
               case flush_block ok s of
                 (s, False) \<Rightarrow> Inl UseAfterFree
               | (s, True) \<Rightarrow> bind_res (dump_blocks ok (drop complete data) s) (\<lambda>(s, rest).
                   bind_res (put_block s 0 rest) (\<lambda>s. Inr (s\<lparr>sv_filled := length rest, sv_size := sv_size s + kv_size\<rparr>))))
         else bind_res (fill_block s data) (\<lambda>s. Inr (s\<lparr>sv_size := sv_size s + kv_size\<rparr>)))"

fun dump_all :: "('z, 'f, 'more) hex_gmp_scheme \<Rightarrow> (nat \<Rightarrow> bool) \<Rightarrow> nat \<Rightarrow> (bytes \<times> ('z, 'f) kv) list \<Rightarrow> saver \<Rightarrow> saver res" where
  "dump_all g ok room [] s = Inr s"
| "dump_all g ok room (e # es) s = bind_res (dump_into_file g ok room e s) (dump_all g ok room es)"

definition save_database :: "('z, 'f, 'more) hex_gmp_scheme \<Rightarrow> bool \<Rightarrow> (nat \<Rightarrow> bool) \<Rightarrow> ('z, 'f) database \<Rightarrow> saver \<Rightarrow> (saver \<times> bool) res" where
  "save_database g mem ok db s =
     (let name = generate_string_value (db_name db); entries = foreach_hashtable (db_data db) in
      bind_res (fill_block s (le_bytes 8 (ht_count (db_data db)))) (\<lambda>s.
      bind_res (fill_block s name) (\<lambda>s.
      bind_res (get_maximum_keyvalue_size g entries 0) (\<lambda>data_size.
        let s = s\<lparr>sv_size := sv_size s + length name + 8\<rparr> in
        if data_size = 0 then Inr (s, True)
        else if \<not> mem then Inr (s, False)
        else bind_res (dump_all g ok data_size entries s) (\<lambda>s. Inr (s, True))))))"

partial_function (option) save_databases ::
  "('z, 'f, 'more) hex_gmp_scheme \<Rightarrow> bool \<Rightarrow> (nat \<Rightarrow> bool) \<Rightarrow> ('z, 'f) database linkedlist \<Rightarrow> nat option \<Rightarrow> saver \<Rightarrow> (saver \<times> bool) res option" where
  "save_databases g mem ok l p s =
     (if p = None then Some (Inr (s, True))
      else case bind_res (node_at l p) (\<lambda>n. bind_res (save_database g mem ok (nd_data n) s) (\<lambda>r. Inr (r, nd_next n))) of
        Inl f \<Rightarrow> Some (Inl f)
      | Inr (r, q) \<Rightarrow> if snd r then save_databases g mem ok l q (fst r) else Some (Inr r))"

text \<open>\<open>ftruncate\<close>: what the file held before is overwritten, and the rest cut off or filled with zeros.\<close>

definition truncate_file :: "bytes \<Rightarrow> bytes \<Rightarrow> nat \<Rightarrow> bytes" where
  "truncate_file old written n = (let file = written @ drop (length written) old in take n (file @ replicate n NUL))"

text \<open>
  \<open>save_data\<close>: the new contents of the file, or what it held before and -1 (\<open>False\<close>). \<open>mem1\<close> is the block, \<open>mem2\<close> the buffer of the
  values, \<open>ok i\<close> the \<open>i\<close>-th write, \<open>ok_end\<close> the truncation. More than 15 passwords make \<open>memcpy\<close> read past \<open>password_count\<close>.
\<close>

definition save_data ::
  "('z, 'f, 'more) hex_gmp_scheme \<Rightarrow> bool \<Rightarrow> bool \<Rightarrow> (nat \<Rightarrow> bool) \<Rightarrow> bool \<Rightarrow> nat \<Rightarrow> 32 word \<Rightarrow> password list \<Rightarrow>
   ('z, 'f) databases \<Rightarrow> bytes \<Rightarrow> (bytes \<times> bool) res" where
  "save_data g mem1 mem2 ok ok_end block_capacity server_age pws dbs old =
     (if \<not> mem1 then Inr (old, False)
      else let count = length pws; bc = password_byte_count count;
               s = \<lparr>sv_size = 0, sv_filled = 0, sv_block = replicate block_capacity NUL, sv_file = [], sv_writes = 0\<rparr>;
               partly = (\<lambda>s. sv_file s @ drop (length (sv_file s)) old) in
        bind_res (fill_block s (generate_headers server_age @ byte bc)) (\<lambda>s.
        if 4 < bc then Inl OutOfBounds
        else bind_res (fill_block s (le_bytes bc count)) (\<lambda>s.
        bind_res (save_passwords ok pws (if count = 0 then s\<lparr>sv_size := sv_filled s\<rparr> else s)) (\<lambda>(s, saved).
          if \<not> saved then Inr (partly s, False)
          else case dbs of None \<Rightarrow> Inl NullDeref
          | Some l \<Rightarrow> bind_res (flat_loop (save_databases g mem2 ok l (ll_begin l) s)) (\<lambda>(s, saved).
              if \<not> saved then Inr (partly s, False)
              else case (if sv_filled s \<noteq> block_capacity then flush_block ok s else (s, True)) of
                (s, False) \<Rightarrow> Inr (partly s, False)
              | (s, True) \<Rightarrow> if \<not> ok_end then Inr (partly s, False) else Inr (truncate_file old (sv_file s) (sv_size s), True))))))"

end
