(* ===== verification/File_Read.thy ===== *)
theory File_Read
  imports File_Write
begin

text \<open>
  Reading the database file: \<open>src/database/read\<close>, \<open>open_database_fd\<close> of \<open>src/database/file/file.c\<close> and
  \<open>get_authorization_from_file\<close> of \<open>src/server/auth.c\<close>. The file is read block by block; a \<open>read\<close> returns what is left of
  it, up to a block, and the \<open>ASSERT\<close> behind it wants a whole one. \<open>ga_mem\<close> is how many more allocations succeed: the
  first one that fails ends the reading.
\<close>

section \<open>\<open>bytes.c\<close>\<close>

record generic_arguments =
  ga_block :: bytes
  ga_at :: nat
  ga_rest :: bytes   \<comment> \<open>the file behind the blocks that were read\<close>
  ga_mem :: nat

definition read_block :: "generic_arguments \<Rightarrow> generic_arguments res" where
  "read_block r = (let n = length (ga_block r) in
     bind_res (assert_that (n \<le> length (ga_rest r))) (\<lambda>_.
       Inr (r\<lparr>ga_block := take n (ga_rest r), ga_rest := drop n (ga_rest r), ga_at := 0\<rparr>)))"

function collect_blocks :: "nat \<Rightarrow> generic_arguments \<Rightarrow> bytes \<Rightarrow> (bytes \<times> generic_arguments) res" where
  "collect_blocks remaining r out =
     (if length (ga_block r) \<le> remaining \<and> ga_block r \<noteq> [] then
        bind_res (read_block r) (\<lambda>r'. collect_blocks (remaining - length (ga_block r)) r' (out @ ga_block r))
      else Inr (out @ take remaining (ga_block r), r\<lparr>ga_at := remaining\<rparr>))"
  by pat_completeness auto
termination
  by (relation "measure (\<lambda>(n, _, _). n)") (auto simp: neq_Nil_conv)

definition collect_bytes :: "nat \<Rightarrow> generic_arguments \<Rightarrow> (bytes \<times> generic_arguments) res" where
  "collect_bytes count r =
     (if ga_at r + count < length (ga_block r) then Inr (take count (drop (ga_at r) (ga_block r)), r\<lparr>ga_at := ga_at r + count\<rparr>)
      else let available = length (ga_block r) - ga_at r in
        if count < available then Inl OutOfBounds
        else bind_res (read_block r) (\<lambda>r'. collect_blocks (count - available) r' (drop (ga_at r) (ga_block r))))"

definition allocate :: "generic_arguments \<Rightarrow> generic_arguments option" where
  "allocate r = (if ga_mem r = 0 then None else Some (r\<lparr>ga_mem := ga_mem r - 1\<rparr>))"

section \<open>\<open>types.c\<close>\<close>

text \<open>The results are \<open>None\<close> when memory is short, else the value and how many bytes it took.\<close>

definition collect_string :: "generic_arguments \<Rightarrow> (generic_arguments \<times> (bytes \<times> nat) option) res" where
  "collect_string r =
     bind_res (collect_bytes 1 r) (\<lambda>(first, r).
     let first = le_val first; byte_count = first div 64 in
     bind_res (collect_bytes byte_count r) (\<lambda>(len, r).
     let len = le_val len * 64 + first mod 64 in
       case allocate r of None \<Rightarrow> Inr (r, None)
       | Some r \<Rightarrow> bind_res (collect_bytes len r) (\<lambda>(s, r). Inr (r, Some (s, 1 + byte_count + len)))))"

fun or_bytes :: "('z, 'f, 'more) hex_gmp_scheme \<Rightarrow> bytes \<Rightarrow> 'z \<Rightarrow> 'z" where
  "or_bytes g [] z = z"
| "or_bytes g [b] z = mpz_ior g z (mpz_init_set_ui g (code b))"
| "or_bytes g (b # bs) z = or_bytes g bs (mpz_mul_2exp g (mpz_ior g z (mpz_init_set_ui g (code b))) 8)"

definition collect_integer :: "('z, 'f, 'more) hex_gmp_scheme \<Rightarrow> generic_arguments \<Rightarrow> (generic_arguments \<times> 'z \<times> nat) res" where
  "collect_integer g r =
     bind_res (collect_bytes 1 r) (\<lambda>(specifier, r).
     let negative = (128 \<le> le_val specifier); byte_count = le_val specifier mod 128 + 1 in
     bind_res (collect_bytes byte_count r) (\<lambda>(data, r).
     let z = or_bytes g data (mpz_init_set_ui g 0) in
       Inr (r, if negative then mpz_neg g z else z, 1 + byte_count)))"

definition hex_char :: "nat \<Rightarrow> char" where
  "hex_char d = (if d < 10 then digit_char d else char_of (87 + d))"

definition hex2 :: "char \<Rightarrow> bytes" where
  "hex2 b = [hex_char (code b div 16), hex_char (code b mod 16)]"

text \<open>The digits with a point before digit number \<open>exp\<close>; every \<open>sprintf\<close> ends with a NUL.\<close>

fun put_digits :: "int \<Rightarrow> bytes \<Rightarrow> nat \<Rightarrow> bytes \<Rightarrow> bytes res" where
  "put_digits exp [] i hex = Inr hex"
| "put_digits exp (b # bs) i hex = bind_res
     (if exp = - 1 then mem_put hex (i * 2) (hex2 b @ [NUL])
      else if exp mod 2 = 0 then
        if int (i * 2) = exp then mem_put hex (i * 2) (CHR ''.'' # hex2 b @ [NUL])
        else mem_put hex (i * 2 + (if exp < int (i * 2) then 1 else 0)) (hex2 b @ [NUL])
      else if int (i * 2 + 1) = exp then mem_put hex (i * 2) [hex2 b ! 0, CHR ''.'', hex2 b ! 1]
      else mem_put hex (i * 2 + (if exp < int (i * 2 + 1) then 1 else 0)) (hex2 b @ [NUL])) (put_digits exp bs (i + 1))"

definition collect_double :: "('z, 'f, 'more) hex_gmp_scheme \<Rightarrow> generic_arguments \<Rightarrow> (generic_arguments \<times> 'f \<times> nat) res" where
  "collect_double g r =
     bind_res (collect_bytes 2 r) (\<lambda>(two, r).
     let specifier = code (two ! 0); indicator = code (two ! 1); negative = (128 \<le> specifier); byte_count = specifier mod 128 + 1;
         point = (if 128 \<le> indicator then int (indicator mod 128) else - 1) in
     bind_res (collect_bytes byte_count r) (\<lambda>(data, r).
     let is_even = (0x10 < code (data ! 0)); hex_len = byte_count * 2 + (if point \<noteq> - 1 then 1 else 0);
         exp = (if \<not> is_even then point + 1 else point) in
     bind_res (put_digits exp data 0 (replicate (hex_len + 1) NUL)) (\<lambda>hex.
     bind_res (mem_put hex hex_len [NUL]) (\<lambda>hex.
     let f = mpf_of_hex g (c_string hex) in
       Inr (r, if negative then mpf_neg g f else f, 2 + byte_count)))))"

section \<open>\<open>read.c\<close>\<close>

text \<open>
  \<open>allocate_value\<close> and \<open>COLLECT_PRIMARY_TYPES\<close> for a primitive type. A list or table inside of another value has no place for its
  count. A value of type 0 would be one that no operation knows.
\<close>

definition collect_prim :: "('z, 'f, 'more) hex_gmp_scheme \<Rightarrow> nat \<Rightarrow> generic_arguments \<Rightarrow> (generic_arguments \<times> (('z, 'f) prim \<times> nat) option) res" where
  "collect_prim g type r =
     (if type = TELLY_LIST \<or> type = TELLY_HASHTABLE then bind_res (collect_bytes 8 r) (\<lambda>_. Inl NullDeref)
      else if 7 < type then Inl OutOfBounds
      else if type = 0 then Inl Undefined
      else case allocate r of None \<Rightarrow> Inr (r, None)
      | Some r \<Rightarrow>
          if type = 1 then Inr (r, Some (PNull, 0))
          else if type = 2 then bind_res (collect_integer g r) (\<lambda>(r, z, n). Inr (r, Some (PInt z, n)))
          else if type = 3 then bind_res (collect_double g r) (\<lambda>(r, f, n). Inr (r, Some (PDouble f, n)))
          else if type = 4 then bind_res (collect_string r) (\<lambda>(r, s). Inr (r, map_option (\<lambda>(s, n). (PStr s, n)) s))
          else bind_res (collect_bytes 1 r) (\<lambda>(b, r). Inr (r, Some (PBool (le_val b \<noteq> 0), 1))))"

text \<open>What the building of tables and lists needs: blocks to grow into and nodes.\<close>

record ('z, 'f) builder =
  bd_fields :: "nat \<Rightarrow> (bytes, ('z, 'f) prim) slots option"
  bd_keys :: "nat \<Rightarrow> (bytes, ('z, 'f) kv) slots option"
  bd_node :: "nat \<Rightarrow> nat option"

partial_function (option) collect_fields ::
  "('z, 'f, 'more) hex_gmp_scheme \<Rightarrow> ('z, 'f) builder \<Rightarrow> (bytes, ('z, 'f) prim) hashtable \<Rightarrow> nat \<Rightarrow> generic_arguments \<Rightarrow>
   (generic_arguments \<times> ((bytes, ('z, 'f) prim) hashtable \<times> nat) option) res option" where
  "collect_fields g bd t n r =
     (case collect_bytes 1 r of Inl f \<Rightarrow> Some (Inl f)
      | Inr (type, r) \<Rightarrow>
          if le_val type = 0x17 then Some (Inr (r, Some (t, n)))
          else case (case allocate r of None \<Rightarrow> Inr (r, None)
              | Some r \<Rightarrow> bind_res (collect_string r) (\<lambda>(r, name). case name of None \<Rightarrow> Inr (r, None)
                | Some (name, k) \<Rightarrow> bind_res (collect_prim g (le_val type) r) (\<lambda>(r, v). case v of None \<Rightarrow> Inr (r, None)
                  | Some (v, l) \<Rightarrow> bind_res (insert_into_hashtable (bd_fields bd) t name v) (\<lambda>(t, element).
                      Inr (r, if element = None then None else Some (t, n + k + 1 + l)))))) of
            Inl f \<Rightarrow> Some (Inl f)
          | Inr (r, x) \<Rightarrow> if x = None then Some (Inr (r, None)) else collect_fields g bd (fst (the x)) (snd (the x)) r)"

fun collect_elements ::
  "('z, 'f, 'more) hex_gmp_scheme \<Rightarrow> ('z, 'f) builder \<Rightarrow> nat \<Rightarrow> ('z, 'f) prim linkedlist \<Rightarrow> nat \<Rightarrow> nat \<Rightarrow> generic_arguments \<Rightarrow>
   (generic_arguments \<times> (('z, 'f) prim linkedlist \<times> nat) option) res" where
  "collect_elements g bd i l n 0 r = Inr (r, Some (l, n))"
| "collect_elements g bd i l n (Suc left) r =
     (case allocate r of None \<Rightarrow> Inr (r, None)
      | Some r \<Rightarrow> bind_res (collect_bytes 1 r) (\<lambda>(type, r).
        bind_res (collect_prim g (le_val type) r) (\<lambda>(r, v). case v of None \<Rightarrow> Inr (r, None)
          | Some (v, k) \<Rightarrow> bind_res (ll_insert_back (bd_node bd i) l v) (\<lambda>(l, node).
              if node = None then Inr (r, None) else collect_elements g bd (i + 1) l (n + k) left r))))"

definition collect_value :: "('z, 'f, 'more) hex_gmp_scheme \<Rightarrow> ('z, 'f) builder \<Rightarrow> nat \<Rightarrow> generic_arguments \<Rightarrow> (generic_arguments \<times> (('z, 'f) val \<times> nat) option) res" where
  "collect_value g bd type r =
     (if type = TELLY_HASHTABLE then
        bind_res (collect_bytes 8 r) (\<lambda>(capacity, r). case allocate r of None \<Rightarrow> Inr (r, None)
          | Some r \<Rightarrow> (case create_hashtable True True (le_val capacity) string_hash string_compare of None \<Rightarrow> Inr (r, None)
            | Some t \<Rightarrow> bind_res (flat_loop (collect_fields g bd t 9 r)) (\<lambda>(r, x). Inr (r, map_option (\<lambda>(t, n). (VHash t, n)) x))))
      else if type = TELLY_LIST then
        bind_res (collect_bytes 8 r) (\<lambda>(count, r). case allocate r of None \<Rightarrow> Inr (r, None)
          | Some r \<Rightarrow> (case ll_create True of None \<Rightarrow> Inr (r, None)
            | Some l \<Rightarrow> bind_res (collect_elements g bd 0 l (8 + le_val count) (le_val count) r) (\<lambda>(r, x).
                Inr (r, map_option (\<lambda>(l, n). (VList l, n)) x))))
      else bind_res (collect_prim g type r) (\<lambda>(r, x). Inr (r, map_option (\<lambda>(p, n). (Prim p, n)) x)))"

text \<open>A key: its name, its value without an expiry, and the bytes it took.\<close>

definition collect_kv :: "('z, 'f, 'more) hex_gmp_scheme \<Rightarrow> ('z, 'f) builder \<Rightarrow> generic_arguments \<Rightarrow> (generic_arguments \<times> (bytes \<times> ('z, 'f) kv \<times> nat) option) res" where
  "collect_kv g bd r =
     bind_res (collect_string r) (\<lambda>(r, key). case key of None \<Rightarrow> Inr (r, None)
       | Some (key, k) \<Rightarrow>
           bind_res (collect_bytes 1 r) (\<lambda>(type, r).
           bind_res (collect_value g bd (le_val type) r) (\<lambda>(r, v). case v of None \<Rightarrow> Inr (r, None)
             | Some (v, n) \<Rightarrow> (case allocate r of None \<Rightarrow> Inr (r, None)
               | Some r \<Rightarrow> Inr (r, Some (key, \<lparr>kv_value = v, kv_expiry = None\<rparr>, k + 1 + n))))))"

fun collect_kvs :: "('z, 'f, 'more) hex_gmp_scheme \<Rightarrow> ('z, 'f) builder \<Rightarrow> nat \<Rightarrow> ('z, 'f) database \<Rightarrow> nat \<Rightarrow> generic_arguments \<Rightarrow>
   (generic_arguments \<times> (('z, 'f) database \<times> nat) option) res" where
  "collect_kvs g bd 0 db n r = Inr (r, Some (db, n))"
| "collect_kvs g bd (Suc left) db n r =
     (case allocate r of None \<Rightarrow> Inr (r, None)
      | Some r \<Rightarrow> bind_res (collect_kv g bd r) (\<lambda>(r, x). case x of None \<Rightarrow> Inr (r, None)
        | Some (key, kv, k) \<Rightarrow> bind_res (insert_into_hashtable (bd_keys bd) (db_data db) key kv) (\<lambda>(t, element).
            if element = None then Inr (r, None) else collect_kvs g bd left (db\<lparr>db_data := t\<rparr>) (n + k) r)))"

definition DATABASE_INITIAL_SIZE :: nat where
  "DATABASE_INITIAL_SIZE = 1024"

text \<open>The database with the node it gets in the list, its key count and the bytes it took.\<close>

definition collect_database ::
  "('z, 'f, 'more) hex_gmp_scheme \<Rightarrow> ('z, 'f) builder \<Rightarrow> nat option \<Rightarrow> ('z, 'f) databases \<Rightarrow> generic_arguments \<Rightarrow>
   (generic_arguments \<times> (('z, 'f) databases \<times> nat \<times> nat \<times> nat) option) res" where
  "collect_database g bd fresh dbs r =
     bind_res (collect_bytes 8 r) (\<lambda>(count, r).
     let count = le_val count in
     bind_res (collect_string r) (\<lambda>(r, name). case name of None \<Rightarrow> Inr (r, None)
       | Some (name, k) \<Rightarrow>
           let needed = 2 ^ get_bit_count (word_of_nat count); capacity = max needed DATABASE_INITIAL_SIZE in
           (case allocate r of None \<Rightarrow> Inr (r, None)
            | Some r \<Rightarrow> bind_res (create_database True True True True True fresh dbs name capacity) (\<lambda>(dbs, node). case (dbs, node) of
                (Some l, Some a) \<Rightarrow> bind_res (node_at l (Some a)) (\<lambda>n.
                  bind_res (collect_kvs g bd count (nd_data n) (k + 8) r) (\<lambda>(r, x). case x of None \<Rightarrow> Inr (r, None)
                    | Some (db, m) \<Rightarrow> Inr (r, Some (Some (l\<lparr>ll_nodes := (ll_nodes l)(a \<mapsto> n\<lparr>nd_data := db\<rparr>)\<rparr>), a, count, m))))
              | _ \<Rightarrow> Inr (r, None)))))"

text \<open>
  The loop of \<open>read_file\<close>: \<open>initial\<close> is the initial database, \<open>fresh i\<close> the node of the database number \<open>i\<close>.
\<close>

partial_function (option) read_databases ::
  "('z, 'f, 'more) hex_gmp_scheme \<Rightarrow> ('z, 'f) builder \<Rightarrow> (nat \<Rightarrow> nat option) \<Rightarrow> nat \<Rightarrow> bytes \<Rightarrow> nat \<Rightarrow> nat \<Rightarrow> nat option \<Rightarrow> ('z, 'f) databases \<Rightarrow> generic_arguments \<Rightarrow>
   (('z, 'f) databases \<times> nat option \<times> nat option) res option" where
  "read_databases g bd fresh file_size name collected loaded initial dbs r =
     (case collect_database g bd (fresh 0) dbs r of Inl f \<Rightarrow> Some (Inl f)
      | Inr (r, x) \<Rightarrow> (case x of None \<Rightarrow> Some (Inr (dbs, None, None))
        | Some (dbs, y) \<Rightarrow> (case dbs of None \<Rightarrow> Some (Inl NullDeref)
          | Some l \<Rightarrow>
              if collected + snd (snd y) = file_size
              then Some (Inr (dbs, if db_id (nd_data (the (ll_nodes l (fst y)))) = string_hash name then Some (fst y) else initial, Some (loaded + fst (snd y))))
              else read_databases g bd (\<lambda>i. fresh (i + 1)) file_size name (collected + snd (snd y)) (loaded + fst (snd y))
                (if db_id (nd_data (the (ll_nodes l (fst y)))) = string_hash name then Some (fst y) else initial) dbs r)))"

definition create_initial_database :: "nat option \<Rightarrow> ('z, 'f) databases \<Rightarrow> bytes \<Rightarrow> (('z, 'f) databases \<times> nat option) res" where
  "create_initial_database fresh dbs name = create_database True True True True True fresh dbs name DATABASE_INITIAL_SIZE"

text \<open>The databases, the initial one, and the number of keys that were loaded, or \<open>None\<close> for -1.\<close>

definition read_file ::
  "('z, 'f, 'more) hex_gmp_scheme \<Rightarrow> ('z, 'f) builder \<Rightarrow> (nat \<Rightarrow> nat option) \<Rightarrow> nat option \<Rightarrow> bytes \<Rightarrow> nat \<Rightarrow> ('z, 'f) databases \<Rightarrow> generic_arguments \<Rightarrow>
   (('z, 'f) databases \<times> nat option \<times> nat option) res" where
  "read_file g bd fresh last_fresh name file_size dbs r =
     (if ga_at r = file_size
      then bind_res (create_initial_database last_fresh dbs name) (\<lambda>(dbs, a). Inr (dbs, a, if a = None then None else Some 0))
      else bind_res (flat_loop (read_databases g bd fresh file_size name (ga_at r) 0 None dbs r)) (\<lambda>(dbs, initial, loaded).
        if loaded = None \<or> initial \<noteq> None then Inr (dbs, initial, loaded)
        else bind_res (create_initial_database last_fresh dbs name) (\<lambda>(dbs, a). Inr (dbs, a, if a = None then None else loaded))))"

section \<open>\<open>get_authorization_from_file\<close>\<close>

text \<open>
  The passwords read so far, the data of the one that is being read, \<open>op\<close> (what was interrupted), \<open>overflow_len\<close> and \<open>at\<close>.
  A password that was allocated but not filled holds \<open>junk\<close>.
\<close>

record auth_state =
  as_done :: "password list"
  as_data :: bytes
  as_op :: nat
  as_overflow :: nat
  as_at :: nat

definition signed_byte :: "char \<Rightarrow> 32 word" where
  "signed_byte c = word_of_int (if 128 \<le> code c then int (code c) - 256 else int (code c))"

function fill_passwords :: "bytes \<Rightarrow> bytes \<Rightarrow> nat \<Rightarrow> auth_state \<Rightarrow> auth_state res" where
  "fill_passwords block junk count a =
     (if count \<le> length (as_done a) then Inr a
      else if as_op a = 0 \<and> length block < as_at a + 48 then
        if length block < as_at a then Inl OutOfBounds
        else let remaining = length block - as_at a in
          Inr (a\<lparr>as_data := drop (as_at a) block @ drop remaining junk, as_overflow := 48 - remaining, as_op := 1\<rparr>)
      else let a = (if as_op a = 0 then a\<lparr>as_data := take 48 (drop (as_at a) block), as_at := as_at a + 48\<rparr> else a) in
        if length block < as_at a + 1 then Inr (a\<lparr>as_op := 2\<rparr>)
        else fill_passwords block junk count (a\<lparr>as_done := as_done a @ [\<lparr>pw_data = as_data a, pw_permissions = signed_byte (block ! as_at a)\<rparr>],
          as_at := as_at a + 1, as_op := 0\<rparr>))"
  by pat_completeness auto
termination
  by (relation "measure (\<lambda>(_, _, count, a). count - length (as_done a))") (auto simp: Let_def split: if_splits)

definition resume_password :: "bytes \<Rightarrow> auth_state \<Rightarrow> auth_state" where
  "resume_password block a =
     (if as_op a = 1 then a\<lparr>as_data := take (48 - as_overflow a) (as_data a) @ take (as_overflow a) block, as_at := as_overflow a\<rparr>
      else if as_op a = 2 then a\<lparr>as_done := as_done a @ [\<lparr>pw_data = as_data a, pw_permissions = signed_byte (block ! 0)\<rparr>], as_op := 0, as_at := as_at a + 1\<rparr>
      else a)"

text \<open>A short block keeps the tail of the one before it. At the end of the file the loop ends with fewer passwords.\<close>

partial_function (option) read_passwords :: "bytes \<Rightarrow> nat \<Rightarrow> auth_state \<Rightarrow> nat \<Rightarrow> bytes \<Rightarrow> bytes \<Rightarrow> (auth_state \<times> nat \<times> bytes \<times> bytes) res option" where
  "read_passwords junk count a filled block rest =
     (case fill_passwords block junk count (resume_password block a) of Inl f \<Rightarrow> Some (Inl f)
      | Inr a \<Rightarrow>
          if length (as_done a) = count then Some (Inr (a, filled + as_at a, block, rest))
          else if rest = [] then Some (Inr (a\<lparr>as_at := 0\<rparr>, filled + as_at a, block, rest))
          else read_passwords junk count (a\<lparr>as_at := 0\<rparr>) (filled + as_at a)
            (take (length block) rest @ drop (length rest) block) (drop (length block) rest))"

text \<open>The passwords, how much of the block they fill, the block and the rest of the file.\<close>

definition get_authorization_from_file :: "bytes \<Rightarrow> bytes \<Rightarrow> bytes \<Rightarrow> (password list \<times> nat \<times> bytes \<times> bytes) res" where
  "get_authorization_from_file junk block rest =
     bind_res (mem_get block 6) (\<lambda>bc.
     let n = code bc in
       if 4 < n then Inl OutOfBounds
       else if length block < 7 + n then Inl OutOfBounds
       else let count = le_val (take n (drop 7 block)) in
         if count = 0 then Inr ([], 7 mod length block, block, rest)
         else bind_res (flat_loop (read_passwords junk count \<lparr>as_done = [], as_data = junk, as_op = 0, as_overflow = 0, as_at = 7 + n\<rparr> 0 block rest))
           (\<lambda>(a, filled, block, rest).
             if length (as_done a) < count then Inl Undefined
             else Inr (as_done a, (filled mod length block) mod 65536, block, rest)))"

section \<open>\<open>open_database_fd\<close>\<close>

text \<open>
  \<open>junk\<close> is the contents of the new block. The result is the age, the passwords, the databases and the initial one; \<open>None\<close> when the
  file is refused.
\<close>

definition open_database ::
  "('z, 'f, 'more) hex_gmp_scheme \<Rightarrow> ('z, 'f) builder \<Rightarrow> (nat \<Rightarrow> nat option) \<Rightarrow> nat option \<Rightarrow> nat \<Rightarrow> bytes \<Rightarrow> bytes \<Rightarrow> bytes \<Rightarrow> bytes \<Rightarrow>
   (32 word \<times> password list \<times> ('z, 'f) databases \<times> nat option) option res" where
  "open_database g bd fresh last_fresh mem name junk pjunk file =
     (if file = [] then bind_res (create_initial_database last_fresh None name) (\<lambda>(dbs, a). Inr (if a = None then None else Some (0, [], dbs, a)))
      else if mem = 0 then Inr None
      else let block = take (length junk) file @ drop (length file) junk; rest = drop (length junk) file in
        if take 2 block \<noteq> byte 0x18 @ byte 0x10 then Inr None
        else bind_res (get_authorization_from_file pjunk block rest) (\<lambda>(passwords, filled, block, rest).
          bind_res (read_file g bd fresh last_fresh name (length file) None \<lparr>ga_block = block, ga_at = filled, ga_rest = rest, ga_mem = mem - 1\<rparr>)
            (\<lambda>(dbs, initial, loaded). Inr (if loaded = None then None
              else Some (word_of_nat (le_val (take 4 (drop 2 block))), passwords, dbs, initial)))))"

end
