(* ===== verification/File_Facts.thy ===== *)
theory File_Facts
  imports File_Read
begin

text \<open>
  What is written is read back: strings, whole numbers of up to 128 bytes, booleans, and the keys, lists and tables made of them, as long as
  the file is shorter than a block.
\<close>

section \<open>Reading inside a block\<close>

definition ahead :: "generic_arguments \<Rightarrow> bytes" where
  "ahead r = drop (ga_at r) (ga_block r)"

definition moved :: "generic_arguments \<Rightarrow> nat \<Rightarrow> nat \<Rightarrow> generic_arguments" where
  "moved r n m = r\<lparr>ga_at := ga_at r + n, ga_mem := ga_mem r - m\<rparr>"

lemma moved_simps [simp]:
  "moved (moved r n m) n' m' = moved r (n + n') (m + m')" "moved r 0 0 = r" "ahead (moved r n m) = drop n (ahead r)" "ga_mem (moved r n m) = ga_mem r - m"
  by (simp_all add: moved_def ahead_def add.commute add.left_commute)

lemma collect_ahead: "\<lbrakk>ahead r = bs @ t; t \<noteq> []\<rbrakk> \<Longrightarrow> collect_bytes (length bs) r = Inr (bs, moved r (length bs) 0)"
proof -
  assume a: "ahead r = bs @ t" "t \<noteq> []"
  have l: "length (ga_block r) - ga_at r = length bs + length t" using arg_cong [OF a(1), of length] by (simp add: ahead_def)
  moreover have "0 < length t" using a(2) by simp
  ultimately have "ga_at r + length bs < length (ga_block r)" by linarith
  then show ?thesis using a by (simp add: collect_bytes_def ahead_def moved_def)
qed

lemma collect_n: "\<lbrakk>ahead r = bs @ t; t \<noteq> []; n = length bs\<rbrakk> \<Longrightarrow> collect_bytes n r = Inr (bs, moved r n 0)"
  using collect_ahead by simp

lemma allocate_moved: "0 < ga_mem r \<Longrightarrow> allocate r = Some (moved r 0 1)"
  by (simp add: allocate_def moved_def)

lemma byte_length [simp]: "length (byte n) = 1" "le_val (byte n) = n mod 256" "byte n \<noteq> []"
  by (simp_all add: byte_def)

section \<open>Strings\<close>

lemma byte_count_enough:
  assumes "v < 2 ^ 24"
  shows "v < 256 ^ get_byte_count (word_of_nat v)" "get_byte_count (word_of_nat v) \<le> 3"
proof -
  have u: "unat (word_of_nat v :: 64 word) = v" using assms by (simp add: unsigned_of_nat take_bit_nat_eq_self)
  have z: "(word_of_nat v :: 64 word) = 0 \<longleftrightarrow> v = 0" using u by (metis unsigned_0 word_of_nat_eq_0_iff unsigned_eq_0_iff)
  have "v < 256 ^ get_byte_count (word_of_nat v) \<and> get_byte_count (word_of_nat v) \<le> 3"
  proof (cases "v = 0")
    case False
    have "v < 2 ^ nbits v" using nbits_bounds False by simp
    also have "\<dots> \<le> 2 ^ (8 * ((nbits v + 7) div 8))" by (rule power_increasing) auto
    finally have "v < 256 ^ ((nbits v + 7) div 8)" by (simp add: power_mult)
    moreover have "nbits v \<le> 24" using assms by (rule nbits_le)
    ultimately show ?thesis using z False u by (simp add: get_byte_count_def)
  qed (simp add: get_byte_count_def)
  then show "v < 256 ^ get_byte_count (word_of_nat v)" "get_byte_count (word_of_nat v) \<le> 3" by simp_all
qed

lemma collect_string_back:
  assumes s: "length s < 2 ^ 30" and a: "ahead r = generate_string_value s @ t" "t \<noteq> []" and m: "0 < ga_mem r"
  shows "collect_string r = Inr (moved r (length (generate_string_value s)) 1, Some (s, length (generate_string_value s)))"
proof -
  let ?q = "length s div 64" and ?bc = "get_byte_count (word_of_nat (length s div 64))"
  have q: "?q < 2 ^ 24" using s by simp
  note bc = byte_count_enough [OF q]
  let ?first = "?bc * 64 + length s mod 64"
  have "?bc * 64 \<le> 3 * 64" using bc(2) by simp
  moreover have "length s mod 64 < 64" by simp
  ultimately have f: "?first < 256" by linarith
  have g: "generate_string_value s = byte ?first @ le_bytes ?bc ?q @ s" by (simp add: generate_string_value_def Let_def)
  have 1: "collect_bytes 1 r = Inr (byte ?first, moved r 1 0)" using collect_n [of r "byte ?first"] a g by simp
  have 2: "collect_bytes ?bc (moved r 1 0) = Inr (le_bytes ?bc ?q, moved r (1 + ?bc) 0)"
    using collect_n [of "moved r 1 0" "le_bytes ?bc ?q" "s @ t"] a g by (simp add: byte_def)
  have len: "le_val (le_bytes ?bc ?q) * 64 + ?first mod 64 = length s" using bc(1) by (simp add: le_val_bytes)
  have d: "?first div 64 = ?bc" by simp
  have 3: "collect_bytes (length s) (moved r (1 + ?bc) 1) = Inr (s, moved r (1 + ?bc + length s) 1)"
    using collect_n [of "moved r (1 + ?bc) 1" s t] a g by (simp add: byte_def)
  show ?thesis unfolding collect_string_def g using 1 2 3 f d len m
    by (simp add: Let_def allocate_moved del: div_mult_self1 div_mult_self2 div_mult_self3 div_mult_self4 mod_mult_self1 mod_mult_self2 mod_mult_self3 mod_mult_self4)
qed

section \<open>Whole numbers\<close>

fun hexadecimal :: "nat \<Rightarrow> bytes" where
  "hexadecimal n = (if n < 16 then [hex_char n] else hexadecimal (n div 16) @ [hex_char (n mod 16)])"

declare hexadecimal.simps [simp del]

definition hex_val :: "bytes \<Rightarrow> nat" where
  "hex_val = foldl (\<lambda>a c. a * 16 + the (hex_digit c)) 0"

definition is_hex :: "char \<Rightarrow> bool" where
  "is_hex c \<longleftrightarrow> hex_digit c \<noteq> None"

lemma hex_digit_char: "d < 16 \<Longrightarrow> hex_digit (hex_char d) = Some d"
proof -
  assume "d < 16"
  then have "d = 0 \<or> d = 1 \<or> d = 2 \<or> d = 3 \<or> d = 4 \<or> d = 5 \<or> d = 6 \<or> d = 7 \<or> d = 8 \<or> d = 9 \<or> d = 10 \<or> d = 11 \<or> d = 12 \<or> d = 13 \<or> d = 14 \<or> d = 15" by presburger
  then show ?thesis by (elim disjE) (simp_all add: hex_digit_def hex_char_def digit_char_def is_digit_def digit_val_def)
qed

lemma hex_digit_less: "hex_digit c = Some d \<Longrightarrow> d < 16"
  by (auto simp: hex_digit_def is_digit_def digit_val_def split: if_splits)

lemma hexadecimal_digits: "list_all is_hex (hexadecimal n)"
proof (induction n rule: hexadecimal.induct)
  case (1 n)
  have h: "is_hex (hex_char d)" if "d < 16" for d using that by (simp add: is_hex_def hex_digit_char)
  show ?case using 1 h by (subst hexadecimal.simps) simp
qed

lemma hexadecimal_val: "hex_val (hexadecimal n) = n"
proof (induction n rule: hexadecimal.induct)
  case (1 n)
  show ?case
  proof (cases "n < 16")
    case True
    then show ?thesis by (subst hexadecimal.simps) (simp add: hex_val_def hex_digit_char)
  next
    case False
    then have "foldl (\<lambda>a c. a * 16 + the (hex_digit c)) 0 (hexadecimal (n div 16)) = n div 16" using 1 by (simp add: hex_val_def)
    then show ?thesis using False by (subst hexadecimal.simps) (simp add: hex_val_def hex_digit_char)
  qed
qed

lemma hexadecimal_not_Nil [simp]: "hexadecimal n \<noteq> []"
  by (subst hexadecimal.simps) simp

lemma hexadecimal_length: "0 < n \<Longrightarrow> 16 ^ (length (hexadecimal n) - 1) \<le> n \<and> n < 16 ^ length (hexadecimal n)"
proof (induction n rule: hexadecimal.induct)
  case (1 n)
  show ?case
  proof (cases "n < 16")
    case True
    then show ?thesis using 1 by (subst (1 2) hexadecimal.simps) simp
  next
    case False
    let ?l = "length (hexadecimal (n div 16))"
    obtain k where k: "?l = Suc k" by (cases "hexadecimal (n div 16)") auto
    have ih: "16 ^ (?l - 1) \<le> n div 16" "n div 16 < 16 ^ ?l" using 1 False by auto
    have l: "length (hexadecimal n) = Suc ?l" using False by (subst hexadecimal.simps) simp
    have "16 ^ ?l \<le> n" using ih(1) unfolding k by (simp add: less_eq_div_iff_mult_less_eq mult.commute)
    moreover have "n < 16 * 16 ^ ?l" using ih(2) by (simp add: div_less_iff_less_mult mult.commute)
    ultimately show ?thesis unfolding l by simp
  qed
qed

text \<open>The bytes of a text of an even number of digits.\<close>

fun pairs :: "bytes \<Rightarrow> bytes" where
  "pairs (x # y # r) = char_of (16 * the (hex_digit x) + the (hex_digit y)) # pairs r"
| "pairs r = []"

definition padded :: "bytes \<Rightarrow> bytes" where
  "padded ds = (if even (length ds) then ds else CHR ''0'' # ds)"

lemma hex_digit_0: "hex_digit (CHR ''0'') = Some 0"
  by (simp add: hex_digit_def is_digit_def digit_val_def)

lemma padded_facts: "even (length (padded ds))" "length (padded ds) = 2 * ((length ds + 1) div 2)" "hex_val (padded ds) = hex_val ds"
    "list_all is_hex ds \<Longrightarrow> list_all is_hex (padded ds)"
  by (auto simp: padded_def hex_val_def hex_digit_0 is_hex_def)

definition be_val :: "nat \<Rightarrow> bytes \<Rightarrow> nat" where
  "be_val = foldl (\<lambda>a b. a * 256 + code b)"

lemma pairs_val: "\<lbrakk>list_all is_hex ps; even (length ps)\<rbrakk> \<Longrightarrow> be_val a (pairs ps) = foldl (\<lambda>a c. a * 16 + the (hex_digit c)) a ps"
proof (induction ps arbitrary: a rule: pairs.induct)
  case (1 x y r)
  then obtain dx dy where d: "hex_digit x = Some dx" "hex_digit y = Some dy" "dx < 16" "dy < 16"
    using hex_digit_less by (auto simp: is_hex_def)
  then have "16 * dx + dy < 256" by linarith
  then show ?case using 1 d by (simp add: be_val_def algebra_simps)
qed (simp_all add: be_val_def)

lemma pairs_length: "even (length ps) \<Longrightarrow> length (pairs ps) = length ps div 2"
  by (induction ps rule: pairs.induct) auto

lemma hex_pair_digits: "\<lbrakk>is_hex x; is_hex y\<rbrakk> \<Longrightarrow> hex_pair x y = 16 * the (hex_digit x) + the (hex_digit y)"
  by (auto simp: hex_pair_def is_hex_def)

lemma hex_bytes_pairs:
  assumes ds: "list_all is_hex ds" "ds \<noteq> []" and bc: "(length ds + 1) div 2 \<le> 128" and sg: "length sg \<le> 1"
  shows "i + left = (length ds + 1) div 2 \<Longrightarrow>
    hex_bytes (sg @ ds @ [NUL]) (even (length ds)) (length sg) i left = Inr (pairs (drop (2 * i) (padded ds)))"
proof (induction left arbitrary: i)
  case 0
  then have "length (padded ds) \<le> 2 * i" by (simp add: padded_facts)
  then show ?case by simp
next
  case (Suc left)
  let ?ps = "padded ds"
  have i: "i < (length ds + 1) div 2" using Suc.prems by simp
  then have l: "2 * i + 1 < length ?ps" by (simp add: padded_facts)
  then have d: "drop (2 * i) ?ps = ?ps ! (2 * i) # ?ps ! (2 * i + 1) # drop (2 * (i + 1)) ?ps"
    using Cons_nth_drop_Suc [of "2 * i" ?ps] Cons_nth_drop_Suc [of "Suc (2 * i)" ?ps] by simp
  have h: "is_hex (?ps ! (2 * i))" "is_hex (?ps ! (2 * i + 1))" using padded_facts(4) [OF ds(1)] l by (simp_all add: list_all_length)
  have "hex_byte (sg @ ds @ [NUL]) (even (length ds)) (length sg) i = Inr (char_of (hex_pair (?ps ! (2 * i)) (?ps ! (2 * i + 1))))"
  proof (cases "even (length ds)")
    case True
    have "i * 2 + length sg < 256" using i bc sg by linarith
    moreover have "2 * i + 1 < length ds" using l True by (simp add: padded_def)
    ultimately show ?thesis using True by (simp add: hex_byte_def Let_def padded_def nth_append mult.commute)
  next
    case False
    show ?thesis
    proof (cases "i = 0")
      case True
      then show ?thesis using False ds(2) by (simp add: hex_byte_def padded_def nth_append)
    next
      case i0: False
      then obtain j where j: "i = Suc j" by (cases i) auto
      have "2 * j + 1 + length sg < 256" using i bc sg j by linarith
      moreover have "2 * j + 2 < length ds" using l False j by (simp add: padded_def)
      ultimately show ?thesis using False j by (simp add: hex_byte_def Let_def padded_def nth_append mult.commute)
    qed
  qed
  then show ?case using Suc.IH [of "i + 1"] Suc.prems d h by (simp add: hex_pair_digits)
qed

lemma even_digits_text:
  assumes ds: "list_all is_hex ds" "ds \<noteq> []"
  shows "even_digits ((if neg then ''-'' else []) @ ds @ [NUL]) ((length ds + 1) div 2) neg = Inr (even (length ds))"
proof -
  have p: "0 < (length ds + 1) div 2" using ds(2) by (cases ds) auto
  have nn: "ds ! (length ds - 1) \<noteq> NUL" using ds by (auto simp: list_all_length is_hex_def hex_digit_def is_digit_def dest!: spec [of _ "length ds - 1"])
  show ?thesis
  proof (cases "even (length ds)")
    case True
    then have "(length ds + 1) div 2 * 2 = length ds" by simp
    moreover have "0 < length ds" using ds(2) by simp
    ultimately show ?thesis using True p nn by (simp add: even_digits_def nth_append)
  next
    case False
    then have "(length ds + 1) div 2 * 2 = length ds + 1" by presburger
    then show ?thesis using False p by (simp add: even_digits_def nth_append)
  qed
qed


text \<open>What GMP promises about the functions the file uses; \<open>rep\<close> is the number that is meant.\<close>

definition hex_ok :: "('z, 'f, 'more) hex_gmp_scheme \<Rightarrow> ('z \<Rightarrow> int) \<Rightarrow> bool" where
  "hex_ok g rep \<longleftrightarrow> (\<forall>z. mpz_sgn g z = sgn (rep z)) \<and> (\<forall>z. mpz_bits g z = (if rep z = 0 then 1 else nbits (nat \<bar>rep z\<bar>))) \<and>
     (\<forall>z. mpz_hex g z = (if rep z < 0 then ''-'' else []) @ hexadecimal (nat \<bar>rep z\<bar>)) \<and>
     (\<forall>n. rep (mpz_init_set_ui g n) = int n) \<and> (\<forall>a b. rep (mpz_ior g a b) = rep a OR rep b) \<and>
     (\<forall>a n. rep (mpz_mul_2exp g a n) = rep a * 2 ^ n) \<and> (\<forall>a. rep (mpz_neg g a) = - rep a)"

lemma bits_of_digits: "\<lbrakk>k - 1 < 4 * l; 4 * (l - 1) < k; 0 < l\<rbrakk> \<Longrightarrow> (k + 7) div 8 = (l + 1) div (2 :: nat)"
proof -
  assume a: "k - 1 < 4 * l" "4 * (l - 1) < k" "0 < l"
  show ?thesis
  proof (cases "even l")
    case True
    then obtain i where i: "l = 2 * i" by (rule evenE)
    then have "8 * i \<le> k + 7" "k + 7 < 8 * Suc i" using a by auto
    then have "(k + 7) div 8 = i" by (intro div_nat_eqI) auto
    then show ?thesis using i by simp
  next
    case False
    then obtain i where i: "l = 2 * i + 1" by (rule oddE)
    then have "8 * Suc i \<le> k + 7" "k + 7 < 8 * Suc (Suc i)" using a by auto
    then have "(k + 7) div 8 = Suc i" by (intro div_nat_eqI) auto
    then show ?thesis using i by simp
  qed
qed

lemma hex_byte_count: "(if n = 0 then 1 else (nbits n + 7) div 8) = (length (hexadecimal n) + 1) div 2"
proof (cases "n = 0")
  case True
  have "length (hexadecimal 0) = 1" by (subst hexadecimal.simps) simp
  then show ?thesis using True by simp
next
  case False
  let ?l = "length (hexadecimal n)"
  have l: "16 ^ (?l - 1) \<le> n" "n < 16 ^ ?l" using hexadecimal_length False by auto
  have b: "2 ^ (nbits n - 1) \<le> n" "n < 2 ^ nbits n" "0 < nbits n" using nbits_bounds False by auto
  have p: "(16::nat) ^ k = 2 ^ (4 * k)" for k by (simp add: power_mult)
  have "(2::nat) ^ (nbits n - 1) < 2 ^ (4 * ?l)" using b(1) l(2) unfolding p by (rule le_less_trans)
  then have "nbits n - 1 < 4 * ?l" by (rule power_less_imp_less_exp [rotated]) simp
  moreover have "(2::nat) ^ (4 * (?l - 1)) < 2 ^ nbits n" using l(1) b(2) unfolding p by (rule le_less_trans)
  then have "4 * (?l - 1) < nbits n" by (rule power_less_imp_less_exp [rotated]) simp
  moreover have "0 < ?l" by simp
  ultimately have "(nbits n + 7) div 8 = (?l + 1) div 2" by (intro bits_of_digits)
  then show ?thesis using False by simp
qed

lemma or_shifted: "\<lbrakk>0 \<le> b; b < 256\<rbrakk> \<Longrightarrow> (256 * a) OR b = 256 * a + (b :: int)"
proof -
  assume b: "0 \<le> b" "b < 256"
  have t: "take_bit 8 b = b" using b by (simp add: take_bit_int_eq_self)
  have "push_bit 8 a AND take_bit 8 b = 0" by (auto simp: bit_eq_iff bit_simps)
  then have "push_bit 8 a + take_bit 8 b = push_bit 8 a OR take_bit 8 b" by (rule disjunctive_add_eq_or)
  then show ?thesis using t by (simp add: push_bit_eq_mult mult.commute)
qed

lemma hex_okD:
  assumes "hex_ok g rep"
  shows "mpz_sgn g z = sgn (rep z)" "mpz_bits g z = (if rep z = 0 then 1 else nbits (nat \<bar>rep z\<bar>))"
    "mpz_hex g z = (if rep z < 0 then ''-'' else []) @ hexadecimal (nat \<bar>rep z\<bar>)" "rep (mpz_init_set_ui g n) = int n"
    "rep (mpz_ior g a b) = rep a OR rep b" "rep (mpz_mul_2exp g a n) = rep a * 2 ^ n" "rep (mpz_neg g a) = - rep a"
  using assms by (auto simp: hex_ok_def)

lemma or_bytes_val:
  assumes g: "hex_ok g rep"
  shows "\<lbrakk>bs \<noteq> []; rep z = 256 * int a\<rbrakk> \<Longrightarrow> rep (or_bytes g bs z) = int (be_val a bs)"
proof (induction bs arbitrary: a z rule: induct_list012)
  case (2 b)
  have c: "int (code b) < 256" using nat_of_char_less_256 [of b] by linarith
  show ?case using 2 or_shifted [OF _ c, of "int a"] by (simp add: hex_okD [OF g] be_val_def mult.commute)
next
  case (3 b b' bs)
  have c: "int (code b) < 256" using nat_of_char_less_256 [of b] by linarith
  let ?z = "mpz_mul_2exp g (mpz_ior g z (mpz_init_set_ui g (code b))) 8"
  have "rep ?z = 256 * int (a * 256 + code b)"
    using 3 or_shifted [OF _ c, of "int a"] by (simp add: hex_okD [OF g])
  then have "rep (or_bytes g (b' # bs) ?z) = int (be_val (a * 256 + code b) (b' # bs))" by (rule "3.IH"(2) [OF list.distinct(2)])
  then show ?case by (simp add: be_val_def)
qed simp

lemma or_128: "v < 128 \<Longrightarrow> v OR 128 = v + (128 :: nat)"
proof -
  assume "v < 128"
  then have t: "take_bit 7 v = v" by (simp add: take_bit_nat_eq_self)
  have "take_bit 7 v AND push_bit 7 1 = 0" by (rule bit_eqI) (simp only: bit_and_iff bit_take_bit_iff bit_push_bit_iff bit_0_eq, simp)
  then have "take_bit 7 v + push_bit 7 1 = take_bit 7 v OR push_bit 7 1" by (rule disjunctive_add_eq_or)
  then show ?thesis using t by (simp add: push_bit_eq_mult)
qed

lemma sign_byte_val: "\<lbrakk>0 < n; n \<le> 128\<rbrakk> \<Longrightarrow> sign_byte n neg = byte (n - 1 + (if neg then 128 else 0))"
proof -
  assume n: "0 < n" "n \<le> 128"
  then obtain m where m: "n = Suc m" by (cases n) auto
  have "(n + 255) mod 256 = (m + 256) mod 256" using m by (simp add: add.commute)
  also have "\<dots> = m" using n m by (subst mod_add_self2) simp
  finally show ?thesis using n m or_128 [of m] by (simp add: sign_byte_def)
qed

lemma generate_integer_correct:
  assumes g: "hex_ok g rep" and z: "\<bar>rep z\<bar> < 2 ^ 1024"
  shows "\<exists>bs. generate_integer_value g z = Inr (byte (length bs - 1 + (if rep z < 0 then 128 else 0)) @ bs) \<and> 0 < length bs \<and> length bs \<le> 128 \<and>
    be_val 0 bs = nat \<bar>rep z\<bar> \<and> length bs = (mpz_bits g z + 7) div 8"
proof -
  let ?n = "nat \<bar>rep z\<bar>" and ?ds = "hexadecimal (nat \<bar>rep z\<bar>)" and ?neg = "rep z < 0"
  let ?bc = "(length ?ds + 1) div 2" and ?hex = "(if ?neg then ''-'' else []) @ ?ds @ [NUL]"
  have n: "?n < 2 ^ 1024" using z by (simp add: nat_less_iff)
  have bits: "(mpz_bits g z + 7) div 8 = ?bc" using hex_byte_count [of ?n] g by (auto simp: hex_ok_def split: if_splits)
  have "nbits ?n \<le> 1024" using n by (rule nbits_le)
  then have "(nbits ?n + 7) div 8 \<le> 128" by simp
  then have le: "?bc \<le> 128" unfolding hex_byte_count [of ?n, symmetric] by (simp split: if_splits)
  have pos: "0 < ?bc" by (cases ?ds) auto
  have neg: "mpz_sgn g z = - 1 \<longleftrightarrow> ?neg" using g by (simp add: hex_ok_def sgn_if)
  have hex: "mpz_hex g z @ [NUL] = ?hex" using g by (simp add: hex_ok_def)
  have ds: "list_all is_hex ?ds" "?ds \<noteq> []" using hexadecimal_digits by simp_all
  have e: "even_digits ?hex ?bc ?neg = Inr (even (length ?ds))" by (rule even_digits_text [OF ds])
  have h: "hex_bytes ?hex (even (length ?ds)) (if ?neg then 1 else 0) 0 ?bc = Inr (pairs (padded ?ds))"
    using hex_bytes_pairs [OF ds le, of "if ?neg then ''-'' else []" 0 ?bc] by (cases ?neg) simp_all
  have len: "length (pairs (padded ?ds)) = ?bc" using pairs_length padded_facts(1,2) by simp
  have val: "be_val 0 (pairs (padded ?ds)) = ?n"
    using pairs_val [OF padded_facts(4) [OF ds(1)] padded_facts(1), of 0] padded_facts(3) hexadecimal_val by (simp add: hex_val_def)
  have "generate_integer_value g z = Inr (sign_byte ?bc ?neg @ pairs (padded ?ds))"
    unfolding generate_integer_value_def Let_def neg hex bits using le e h by simp
  then show ?thesis using pos le by (intro exI [of _ "pairs (padded ?ds)"] conjI) (simp_all only: sign_byte_val [OF pos le] len val bits)
qed

lemma collect_integer_back:
  assumes g: "hex_ok g rep" and a: "ahead r = (byte (length bs - 1 + (if neg then 128 else 0)) @ bs) @ t" "t \<noteq> []" and l: "0 < length bs" "length bs \<le> 128"
  shows "\<exists>z. collect_integer g r = Inr (moved r (length bs + 1) 0, z, length bs + 1) \<and> rep z = (if neg then - int (be_val 0 bs) else int (be_val 0 bs))"
proof -
  let ?f = "length bs - 1 + (if neg then 128 else 0)"
  have "?f < 256" "128 \<le> ?f \<longleftrightarrow> neg" "?f mod 128 + 1 = length bs" using l by (auto simp: mod_if)
  then obtain f where f: "?f = f" "f < 256" "128 \<le> f \<longleftrightarrow> neg" "f mod 128 + 1 = length bs" by blast
  note a = a [unfolded f(1)]
  have 1: "collect_bytes 1 r = Inr (byte f, moved r 1 0)" using collect_n [of r "byte f"] a by simp
  have 2: "collect_bytes (length bs) (moved r 1 0) = Inr (bs, moved r (1 + length bs) 0)"
    using collect_n [of "moved r 1 0" bs t] a by (simp add: byte_def)
  have ne: "bs \<noteq> []" using l(1) by auto
  have z0: "rep (mpz_init_set_ui g 0) = 256 * int 0" using g by (simp add: hex_ok_def)
  have "rep (or_bytes g bs (mpz_init_set_ui g 0)) = int (be_val 0 bs)" by (rule or_bytes_val [OF g ne z0])
  then show ?thesis using 1 2 f unfolding collect_integer_def
    by (intro exI [of _ "if neg then mpz_neg g (or_bytes g bs (mpz_init_set_ui g 0)) else or_bytes g bs (mpz_init_set_ui g 0)"])
      (simp add: Let_def hex_okD [OF g])
qed

end
