(* ===== verification/File_Values.thy ===== *)
theory File_Values
  imports File_Facts
begin

text \<open>Values and keys that are written are read back.\<close>

section \<open>What is read back\<close>

text \<open>\<open>restores m bs read P\<close>: where the block goes on with \<open>bs\<close>, and with something behind it, \<open>read\<close> takes these bytes and at most \<open>m\<close> allocations, and what it returns satisfies \<open>P\<close>.\<close>

definition restores :: "nat \<Rightarrow> bytes \<Rightarrow> (generic_arguments \<Rightarrow> (generic_arguments \<times> 'a option) res) \<Rightarrow> ('a \<Rightarrow> bool) \<Rightarrow> bool" where
  "restores m bs rd P \<longleftrightarrow> (\<forall>r t. ahead r = bs @ t \<longrightarrow> t \<noteq> [] \<longrightarrow> m \<le> ga_mem r \<longrightarrow>
     (\<exists>k x. k \<le> m \<and> rd r = Inr (moved r (length bs) k, Some x) \<and> P x))"

lemma restoresI:
  "(\<And>r t. \<lbrakk>ahead r = bs @ t; t \<noteq> []; m \<le> ga_mem r\<rbrakk> \<Longrightarrow> \<exists>k x. k \<le> m \<and> rd r = Inr (moved r (length bs) k, Some x) \<and> P x) \<Longrightarrow> restores m bs rd P"
  unfolding restores_def by blast

lemma restoresE:
  assumes "restores m bs rd P" "ahead r = bs @ t" "t \<noteq> []" "m \<le> ga_mem r"
  obtains k x where "k \<le> m" "rd r = Inr (moved r (length bs) k, Some x)" "P x"
  using assms unfolding restores_def by blast

lemma restores_le: "\<lbrakk>restores m bs rd P; m \<le> m'\<rbrakk> \<Longrightarrow> restores m' bs rd P"
  unfolding restores_def by (meson order.trans)

section \<open>Primitive values\<close>

fun same_prim :: "('z \<Rightarrow> int) \<Rightarrow> ('z, 'f) prim \<Rightarrow> ('z, 'f) prim \<Rightarrow> bool" where
  "same_prim rep (PInt a) (PInt b) \<longleftrightarrow> rep a = rep b"
| "same_prim rep (PStr s) (PStr s') \<longleftrightarrow> s = s'"
| "same_prim rep (PBool b) (PBool b') \<longleftrightarrow> b = b'"
| "same_prim rep PNull PNull \<longleftrightarrow> True"
| "same_prim rep p q \<longleftrightarrow> False"

definition plain_prim :: "('z \<Rightarrow> int) \<Rightarrow> ('z, 'f) prim \<Rightarrow> bool" where
  "plain_prim rep p \<longleftrightarrow> (case p of PInt z \<Rightarrow> \<bar>rep z\<bar> < 2 ^ 1024 | PStr s \<Rightarrow> length s < 2 ^ 30 | PBool _ \<Rightarrow> True | _ \<Rightarrow> False)"

definition restores_prim :: "('z, 'f, 'more) hex_gmp_scheme \<Rightarrow> ('z \<Rightarrow> int) \<Rightarrow> ('z, 'f) prim \<Rightarrow> bytes \<Rightarrow> bool" where
  "restores_prim g rep p bs \<longleftrightarrow> restores 2 bs (collect_prim g (type_code p)) (\<lambda>(q, n). n = length bs \<and> same_prim rep p q)"

lemma restores_primE:
  assumes "restores_prim g rep p bs" "ahead r = bs @ t" "t \<noteq> []" "2 \<le> ga_mem r"
  obtains k q where "k \<le> 2" "collect_prim g (type_code p) r = Inr (moved r (length bs) k, Some (q, length bs))" "same_prim rep p q"
  by (rule restoresE [OF assms(1) [unfolded restores_prim_def] assms(2-4)]) (auto intro: that)

lemma type_code_read [simp]: "type_code p mod 256 = type_code p" "le_val (byte (type_code p)) = type_code p" "0 < type_code p" "type_code p < 6" "type_code p \<noteq> 0x17" "type_code p \<noteq> 6" "type_code p \<noteq> 7" "type_code p < 256"
  by (cases p; simp add: type_code_def)+

lemma string_back: "length s < 2 ^ 30 \<Longrightarrow> restores 1 (generate_string_value s) collect_string (\<lambda>(s', n). n = length (generate_string_value s) \<and> s' = s)"
  by (rule restoresI) (use collect_string_back in fastforce)

lemma null_back: "restores_prim g rep PNull []"
  unfolding restores_prim_def
  by (rule restoresI) (auto simp: collect_prim_def type_code_def TELLY_LIST_def TELLY_HASHTABLE_def allocate_moved intro!: exI [of _ 1])

lemma prim_back:
  assumes g: "hex_ok g rep" and p: "plain_prim rep p"
  shows "\<exists>bs. generate_prim g p = Inr bs \<and> restores_prim g rep p bs"
proof (cases p)
  case (PInt z)
  have "\<bar>rep z\<bar> < 2 ^ 1024" using p PInt by (simp add: plain_prim_def)
  then obtain bs where bs: "generate_integer_value g z = Inr (byte (length bs - 1 + (if rep z < 0 then 128 else 0)) @ bs)" "0 < length bs" "length bs \<le> 128"
      "be_val 0 bs = nat \<bar>rep z\<bar>"
    using generate_integer_correct [OF g] by blast
  let ?bs = "byte (length bs - 1 + (if rep z < 0 then 128 else 0)) @ bs"
  have "restores_prim g rep p ?bs" unfolding restores_prim_def
  proof (rule restoresI)
    fix r t assume a: "ahead r = ?bs @ t" "t \<noteq> []" "2 \<le> ga_mem r"
    obtain y where y: "collect_integer g (moved r 0 1) = Inr (moved r (length bs + 1) 1, y, length bs + 1)" "rep y = (if rep z < 0 then - int (be_val 0 bs) else int (be_val 0 bs))"
      using collect_integer_back [OF g, of "moved r 0 1" bs "rep z < 0" t] a bs(2,3) by auto
    have "rep z = rep y" using y(2) bs(4) by simp
    then show "\<exists>k x. k \<le> 2 \<and> collect_prim g (type_code p) r = Inr (moved r (length ?bs) k, Some x) \<and> (case x of (q, n) \<Rightarrow> n = length ?bs \<and> same_prim rep p q)"
      using y(1) a PInt by (intro exI [of _ 1] exI [of _ "(PInt y, length bs + 1)"])
        (simp add: collect_prim_def type_code_def TELLY_LIST_def TELLY_HASHTABLE_def allocate_moved)
  qed
  then show ?thesis using bs(1) PInt by (simp add: generate_prim_def)
next
  case (PStr s)
  let ?bs = "generate_string_value s"
  have s: "length s < 2 ^ 30" using p PStr by (simp add: plain_prim_def)
  have "restores_prim g rep p ?bs" unfolding restores_prim_def
  proof (rule restoresI)
    fix r t assume a: "ahead r = ?bs @ t" "t \<noteq> []" "2 \<le> ga_mem r"
    have "collect_string (moved r 0 1) = Inr (moved r (length ?bs) 2, Some (s, length ?bs))"
      using collect_string_back [OF s, of "moved r 0 1" t] a by (simp add: numeral_2_eq_2)
    then show "\<exists>k x. k \<le> 2 \<and> collect_prim g (type_code p) r = Inr (moved r (length ?bs) k, Some x) \<and> (case x of (q, n) \<Rightarrow> n = length ?bs \<and> same_prim rep p q)"
      using a PStr by (intro exI [of _ 2] exI [of _ "(PStr s, length ?bs)"])
        (simp add: collect_prim_def type_code_def TELLY_LIST_def TELLY_HASHTABLE_def allocate_moved)
  qed
  then show ?thesis using PStr by (simp add: generate_prim_def)
next
  case (PBool b)
  let ?bs = "generate_boolean_value b"
  have "restores_prim g rep p ?bs" unfolding restores_prim_def
  proof (rule restoresI)
    fix r t assume a: "ahead r = ?bs @ t" "t \<noteq> []" "2 \<le> ga_mem r"
    have "collect_bytes 1 (moved r 0 1) = Inr (?bs, moved r 1 1)"
      using collect_n [of "moved r 0 1" ?bs t 1] a by (simp add: generate_boolean_value_def)
    then show "\<exists>k x. k \<le> 2 \<and> collect_prim g (type_code p) r = Inr (moved r (length ?bs) k, Some x) \<and> (case x of (q, n) \<Rightarrow> n = length ?bs \<and> same_prim rep p q)"
      using a PBool by (intro exI [of _ 1] exI [of _ "(PBool b, 1)"])
        (simp add: collect_prim_def type_code_def TELLY_LIST_def TELLY_HASHTABLE_def allocate_moved generate_boolean_value_def)
  qed
  then show ?thesis using PBool by (simp add: generate_prim_def)
qed (use p in \<open>simp_all add: plain_prim_def\<close>)

section \<open>Lists\<close>

definition roomy_builder :: "('z, 'f) builder \<Rightarrow> bool" where
  "roomy_builder bd \<longleftrightarrow> (\<forall>n. bd_fields bd n = Some (replicate n None)) \<and> (\<forall>n. bd_keys bd n = Some (replicate n None)) \<and>
     inj (bd_node bd) \<and> (\<forall>i. bd_node bd i \<noteq> None)"

definition new_from :: "('z, 'f) builder \<Rightarrow> nat \<Rightarrow> 'a linkedlist \<Rightarrow> bool" where
  "new_from bd i l \<longleftrightarrow> (\<forall>j \<ge> i. \<forall>a. bd_node bd j = Some a \<longrightarrow> a \<notin> dom (ll_nodes l))"

lemma list_push:
  assumes "wf_list l" "roomy_builder bd" "new_from bd i l"
  shows "\<exists>l' a. ll_insert_back (bd_node bd i) l d = Inr (l', Some a) \<and> wf_list l' \<and> ended l' \<and> ll_list l' = ll_list l @ [d] \<and> new_from bd (i + 1) l'"
proof -
  obtain a where a: "bd_node bd i = Some a" using assms(2) unfolding roomy_builder_def by blast
  then have "a \<notin> dom (ll_nodes l)" using assms(3) unfolding new_from_def by blast
  then obtain l' where l': "ll_insert_back (Some a) l d = Inr (l', Some a)" "chain l' (ll_ptrs l @ [a])"
      "data_of l' (ll_ptrs l @ [a]) = data_of l (ll_ptrs l) @ [d]" "ended l'" "dom (ll_nodes l') = insert a (dom (ll_nodes l))"
    using insert_back_chain [of l "ll_ptrs l" a d] assms(1) unfolding wf_list_def by blast
  have "new_from bd (i + 1) l'" unfolding new_from_def
  proof (intro allI impI)
    fix j b assume j: "i + 1 \<le> j" "bd_node bd j = Some b"
    have "b \<noteq> a" using j a injD [of "bd_node bd" i j] assms(2) by (auto simp: roomy_builder_def)
    moreover have "b \<notin> dom (ll_nodes l)" using assms(3) j unfolding new_from_def by (meson add_leD1)
    ultimately show "b \<notin> dom (ll_nodes l')" using l'(5) by blast
  qed
  then show ?thesis using l' a wf_listI [OF l'(2)] by (auto simp: ll_list_def)
qed

definition node_bytes :: "('z, 'f) prim \<Rightarrow> bytes \<Rightarrow> bytes" where
  "node_bytes p bs = byte (type_code p) @ bs"

lemma collect_type:
  assumes "ahead r = (byte (type_code p) @ bs) @ t" "t \<noteq> []"
  shows "collect_bytes 1 r = Inr (byte (type_code p), moved r 1 0)" "ahead (moved r 1 0) = bs @ t"
  using collect_n [of r "byte (type_code p)"] assms by (simp_all add: byte_def)

lemma elements_back:
  assumes bd: "roomy_builder bd"
  shows "\<lbrakk>list_all2 (restores_prim g rep) ps bss; wf_list l; ended l; new_from bd i l; ahead r = concat (map2 node_bytes ps bss) @ t; t \<noteq> []; 3 * length ps \<le> ga_mem r\<rbrakk> \<Longrightarrow>
    \<exists>k l' qs. k \<le> 3 * length ps \<and> collect_elements g bd i l n (length ps) r = Inr (moved r (length (concat (map2 node_bytes ps bss))) k, Some (l', n + length (concat bss))) \<and>
      wf_list l' \<and> ended l' \<and> ll_list l' = ll_list l @ qs \<and> list_all2 (same_prim rep) ps qs"
proof (induction ps arbitrary: bss l i n r)
  case (Cons p ps)
  obtain bs bss' where b: "bss = bs # bss'" "restores_prim g rep p bs" "list_all2 (restores_prim g rep) ps bss'"
    using Cons.prems(1) by (auto simp: list_all2_Cons1)
  let ?rest = "concat (map2 node_bytes ps bss')"
  have a: "ahead (moved r 0 1) = (byte (type_code p) @ bs) @ (?rest @ t)" "?rest @ t \<noteq> []" using Cons.prems(5,6) b(1) by (simp_all add: node_bytes_def)
  note c = collect_type [OF a]
  obtain k q where q: "k \<le> 2" "collect_prim g (type_code p) (moved r 1 1) = Inr (moved r (1 + length bs) (1 + k), Some (q, length bs))" "same_prim rep p q"
    by (rule restores_primE [OF b(2), of "moved r 1 1" "?rest @ t"]) (use c(2) a(2) Cons.prems(7) in simp_all)
  obtain l1 x where l1: "ll_insert_back (bd_node bd i) l q = Inr (l1, Some x)" "wf_list l1" "ended l1" "ll_list l1 = ll_list l @ [q]" "new_from bd (i + 1) l1"
    using list_push [OF Cons.prems(2) bd Cons.prems(4), of q] by blast
  let ?r = "moved r (1 + length bs) (1 + k)"
  have "ahead ?r = ?rest @ t" using Cons.prems(5) b(1) by (simp add: node_bytes_def byte_def)
  moreover have "3 * length ps \<le> ga_mem ?r" using Cons.prems(7) q(1) by simp
  ultimately obtain k' l' qs where e: "k' \<le> 3 * length ps"
      "collect_elements g bd (i + 1) l1 (n + length bs) (length ps) ?r = Inr (moved ?r (length ?rest) k', Some (l', n + length bs + length (concat bss')))"
      "wf_list l'" "ended l'" "ll_list l' = ll_list l1 @ qs" "list_all2 (same_prim rep) ps qs"
    using Cons.IH [OF b(3) l1(2,3,5) _ Cons.prems(6), of ?r "n + length bs"] by blast
  have "0 < ga_mem r" using Cons.prems(7) by simp
  then show ?case using e b(1) c(1) q l1
    by (intro exI [of _ "1 + k + k'"] exI [of _ l'] exI [of _ "q # qs"]) (simp add: allocate_moved node_bytes_def moved_simps(1) add_ac)
qed auto

lemma generate_nodes_None [simp]: "generate_nodes g l None out = Some (Inr out)"
  by (subst generate_nodes.simps) simp

lemma chain_suffix_next:
  assumes "chain l ps" "ended l" "i < length ps"
  shows "nd_next (nd l (ps ! i)) = (if Suc i < length ps then Some (ps ! Suc i) else None)"
proof (cases "Suc i < length ps")
  case False
  then have "i = length ps - 1" "ps \<noteq> []" using assms(3) by auto
  then have "ps ! i = last ps" "ps \<noteq> []" by (simp_all add: last_conv_nth)
  then show ?thesis using assms(1,2) False by (simp add: chain_def ended_def)
qed (use chain_next [OF assms(1)] in simp)

lemma generate_nodes_chain:
  assumes c: "chain l ps" "ended l"
  shows "\<lbrakk>list_all2 (\<lambda>p bs. (if p = PNull then Inr [] else generate_prim g p) = Inr bs) (drop i (data_of l ps)) bss; i \<le> length ps\<rbrakk> \<Longrightarrow>
    generate_nodes g l (if i < length ps then Some (ps ! i) else None) out = Some (Inr (out @ concat (map2 node_bytes (drop i (data_of l ps)) bss)))"
proof (induction bss arbitrary: i out)
  case Nil
  then show ?case by (simp add: data_of_def)
next
  case (Cons bs bss)
  have i: "i < length ps" using Cons.prems by (cases "i = length ps") (auto simp: data_of_def)
  let ?n = "nd l (ps ! i)"
  have d: "drop i (data_of l ps) = nd_data ?n # drop (Suc i) (data_of l ps)" using i by (simp add: data_of_def Cons_nth_drop_Suc [symmetric])
  have n: "node_at l (Some (ps ! i)) = Inr ?n" using chain_node_at [OF c(1)] i by simp
  have g: "(if nd_data ?n = PNull then Inr [] else generate_prim g (nd_data ?n)) = Inr bs" using Cons.prems(1) d by simp
  have "generate_nodes g l (Some (ps ! i)) out = generate_nodes g l (nd_next ?n) (out @ node_bytes (nd_data ?n) bs)"
    using n g by (subst generate_nodes.simps) (simp add: node_bytes_def)
  also have "\<dots> = Some (Inr (out @ node_bytes (nd_data ?n) bs @ concat (map2 node_bytes (drop (Suc i) (data_of l ps)) bss)))"
    using Cons.IH [of "Suc i"] Cons.prems(1) d i chain_suffix_next [OF c i] by simp
  finally show ?case using i d by simp
qed

definition list_prim :: "('z \<Rightarrow> int) \<Rightarrow> ('z, 'f) prim \<Rightarrow> bool" where
  "list_prim rep p \<longleftrightarrow> p = PNull \<or> plain_prim rep p"

lemma list_prims_back:
  assumes g: "hex_ok g rep"
  shows "\<forall>p \<in> set ps. list_prim rep p \<Longrightarrow> \<exists>bss. list_all2 (\<lambda>p bs. (if p = PNull then Inr [] else generate_prim g p) = Inr bs) ps bss \<and> list_all2 (restores_prim g rep) ps bss"
proof (induction ps)
  case (Cons p ps)
  obtain bss where bss: "list_all2 (\<lambda>p bs. (if p = PNull then Inr [] else generate_prim g p) = Inr bs) ps bss" "list_all2 (restores_prim g rep) ps bss"
    using Cons by auto
  obtain bs where "(if p = PNull then Inr [] else generate_prim g p) = Inr bs" "restores_prim g rep p bs"
  proof (cases "p = PNull")
    case True
    then show ?thesis using that [of "[]"] null_back [of g rep] by simp
  next
    case False
    then have "plain_prim rep p" using Cons.prems by (simp add: list_prim_def)
    then show ?thesis using that prim_back [OF g] False by force
  qed
  then show ?case using bss by (intro exI [of _ "bs # bss"]) simp
qed simp

section \<open>Tables\<close>

definition field_bytes :: "bytes \<times> ('z, 'f) prim \<Rightarrow> bytes \<Rightarrow> bytes" where
  "field_bytes e bs = byte (type_code (snd e)) @ generate_string_value (fst e) @ bs"

lemma generate_fields_all:
  "list_all2 (\<lambda>e bs. generate_prim g (snd e) = Inr bs) es bss \<Longrightarrow> generate_fields g es = Inr (concat (map2 field_bytes es bss))"
  by (induction rule: list_all2_induct) (simp_all add: generate_hashtable_element_def field_bytes_def)

lemma fields_prims_back:
  assumes g: "hex_ok g rep"
  shows "\<forall>e \<in> set es. plain_prim rep (snd e) \<Longrightarrow> \<exists>bss. list_all2 (\<lambda>e bs. generate_prim g (snd e) = Inr bs) es bss \<and> list_all2 (\<lambda>e. restores_prim g rep (snd e)) es bss"
proof (induction es)
  case (Cons e es)
  then obtain bss where "list_all2 (\<lambda>e bs. generate_prim g (snd e) = Inr bs) es bss" "list_all2 (\<lambda>e. restores_prim g rep (snd e)) es bss" by auto
  moreover obtain bs where "generate_prim g (snd e) = Inr bs" "restores_prim g rep (snd e) bs" using prim_back [OF g, of "snd e"] Cons.prems by auto
  ultimately show ?case by (intro exI [of _ "bs # bss"]) simp
qed simp

lemma collect_fields_end:
  assumes "ahead r = byte 0x17 @ t" "t \<noteq> []"
  shows "collect_fields g bd t0 n r = Some (Inr (moved r 1 0, Some (t0, n)))"
  using collect_n [of r "byte 0x17" t 1] assms by (subst collect_fields.simps) (simp add: byte_def)

lemma fields_back:
  assumes bd: "roomy_builder bd"
  shows "\<lbrakk>list_all2 (\<lambda>e. restores_prim g rep (snd e)) es bss; \<forall>e \<in> set es. length (fst e) < 2 ^ 30; distinct (map fst es); \<forall>e \<in> set es. ht_map t0 (fst e) = None;
      wf_strings t0; ahead r = concat (map2 field_bytes es bss) @ byte 0x17 @ t; t \<noteq> []; 4 * length es \<le> ga_mem r\<rbrakk> \<Longrightarrow>
    \<exists>k t' qs. k \<le> 4 * length es \<and>
      collect_fields g bd t0 n r = Some (Inr (moved r (length (concat (map2 field_bytes es bss)) + 1) k, Some (t', n + length (concat (map2 field_bytes es bss))))) \<and>
      wf_strings t' \<and> list_all2 (same_prim rep) (map snd es) qs \<and> ht_map t' = ht_map t0 ++ map_of (zip (map fst es) qs)"
proof (induction es arbitrary: bss t0 n r)
  case Nil
  then show ?case using collect_fields_end [of r t g bd t0 n] by auto
next
  case (Cons e es)
  obtain key p where e: "e = (key, p)" by (cases e)
  obtain bs bss' where b: "bss = bs # bss'" "restores_prim g rep p bs" "list_all2 (\<lambda>e. restores_prim g rep (snd e)) es bss'"
    using Cons.prems(1) e by (auto simp: list_all2_Cons1)
  let ?rest = "concat (map2 field_bytes es bss') @ byte 0x17 @ t" and ?kb = "generate_string_value key"
  have k: "length key < 2 ^ 30" using Cons.prems(2) e by simp
  have a: "ahead r = (byte (type_code p) @ ?kb @ bs) @ ?rest" "?rest \<noteq> []" using Cons.prems(6,7) b(1) e by (simp_all add: field_bytes_def)
  note c = collect_type [OF a]
  have s: "collect_string (moved r 1 1) = Inr (moved r (1 + length ?kb) 2, Some (key, length ?kb))"
    using collect_string_back [OF k, of "moved r 1 1" "bs @ ?rest"] c(2) a(2) Cons.prems(8) by (simp add: numeral_2_eq_2)
  obtain i q where q: "i \<le> 2" "collect_prim g (type_code p) (moved r (1 + length ?kb) 2) = Inr (moved r (1 + length ?kb + length bs) (2 + i), Some (q, length bs))" "same_prim rep p q"
    by (rule restores_primE [OF b(2), of "moved r (1 + length ?kb) 2" ?rest]) (use a Cons.prems(8) in \<open>simp_all add: add_ac byte_def\<close>)
  have m: "\<And>n. bd_fields bd n = Some (replicate n None)" using bd by (simp add: roomy_builder_def)
  have w: "wf_table t0" using Cons.prems(5) by (simp add: wf_strings_def)
  have new: "ht_map t0 key = None" using Cons.prems(4) e by simp
  obtain t1 x where t1: "insert_into_hashtable (bd_fields bd) t0 key q = Inr (t1, Some x)" "wf_table t1" "ht_hash t1 = ht_hash t0" "ht_compare t1 = ht_compare t0" "ht_map t1 = (ht_map t0)(key \<mapsto> q)"
    using insert_succeeds [OF w m, of key q] new by auto
  have w1: "wf_strings t1" using t1 Cons.prems(5) by (simp add: wf_strings_def)
  let ?r = "moved r (1 + length ?kb + length bs) (2 + i)" and ?n = "n + length ?kb + 1 + length bs"
  have "ahead ?r = ?rest" using a by (simp add: byte_def)
  moreover have "\<forall>e \<in> set es. ht_map t1 (fst e) = None" using Cons.prems(3,4) e t1(5) by (auto simp: image_iff)
  moreover have "4 * length es \<le> ga_mem ?r" using Cons.prems(8) q(1) by simp
  ultimately obtain k t' qs where r: "k \<le> 4 * length es"
      "collect_fields g bd t1 ?n ?r = Some (Inr (moved ?r (length (concat (map2 field_bytes es bss')) + 1) k, Some (t', ?n + length (concat (map2 field_bytes es bss')))))"
      "wf_strings t'" "list_all2 (same_prim rep) (map snd es) qs" "ht_map t' = ht_map t1 ++ map_of (zip (map fst es) qs)"
    using Cons.IH [OF b(3) _ _ _ w1 _ Cons.prems(7), of ?r ?n] Cons.prems(2,3) by auto
  have "0 < ga_mem r" using Cons.prems(8) by simp
  then have "collect_fields g bd t0 n r = collect_fields g bd t1 ?n ?r"
    using c(1) s q t1(1) by (subst collect_fields.simps) (simp add: allocate_moved)
  moreover have "ht_map t0 ++ map_of (zip (map fst (e # es)) (q # qs)) = ht_map t1 ++ map_of (zip (map fst es) qs)"
  proof -
    have "dom (map_of (zip (map fst es) qs)) = fst ` set es" using list_all2_lengthD [OF r(4)] by simp
    then have "key \<notin> dom (map_of (zip (map fst es) qs))" using Cons.prems(3) e by simp
    then show ?thesis using t1(5) e by (simp add: map_add_upd_left)
  qed
  ultimately show ?case
  proof (intro exI conjI)
    show "2 + i + k \<le> 4 * length (e # es)" "wf_strings t'" using r(1,3) q(1) by simp_all
    show "list_all2 (same_prim rep) (map snd (e # es)) (q # qs)" using r(4) q(3) e by simp
    show "ht_map t' = ht_map t0 ++ map_of (zip (map fst (e # es)) (q # qs))"
      using \<open>ht_map t0 ++ map_of (zip (map fst (e # es)) (q # qs)) = ht_map t1 ++ map_of (zip (map fst es) qs)\<close> r(5) by simp
    show "collect_fields g bd t0 n r = Some (Inr (moved r (length (concat (map2 field_bytes (e # es) bss)) + 1) (2 + i + k), Some (t', n + length (concat (map2 field_bytes (e # es) bss)))))"
      using \<open>collect_fields g bd t0 n r = collect_fields g bd t1 ?n ?r\<close> r(2) b(1) e by (simp add: field_bytes_def add_ac)
  qed
qed

section \<open>Values\<close>

fun same_val :: "('z \<Rightarrow> int) \<Rightarrow> ('z, 'f) val \<Rightarrow> ('z, 'f) val \<Rightarrow> bool" where
  "same_val rep (Prim p) (Prim q) \<longleftrightarrow> same_prim rep p q"
| "same_val rep (VList l) (VList l') \<longleftrightarrow> wf_list l' \<and> ended l' \<and> list_all2 (same_prim rep) (ll_list l) (ll_list l')"
| "same_val rep (VHash t) (VHash t') \<longleftrightarrow> wf_strings t' \<and> (\<forall>k. rel_option (same_prim rep) (ht_map t k) (ht_map t' k))"
| "same_val rep v w \<longleftrightarrow> False"

text \<open>The values that the file can hold.\<close>

definition storable :: "('z \<Rightarrow> int) \<Rightarrow> ('z, 'f) val \<Rightarrow> bool" where
  "storable rep v \<longleftrightarrow> (case v of Prim p \<Rightarrow> plain_prim rep p
     | VList l \<Rightarrow> wf_list l \<and> ended l \<and> ll_size l < 2 ^ 64 \<and> (\<forall>p \<in> set (ll_list l). list_prim rep p)
     | VHash t \<Rightarrow> wf_strings t \<and> ht_capacity t < 2 ^ 64 \<and> (\<forall>e \<in> set (foreach_hashtable t). length (fst e) < 2 ^ 30 \<and> plain_prim rep (snd e))
     | VLost \<Rightarrow> False)"

definition val_code :: "('z, 'f) val \<Rightarrow> nat" where
  "val_code v = (case v of Prim p \<Rightarrow> type_code p | VList _ \<Rightarrow> TELLY_LIST | VHash _ \<Rightarrow> TELLY_HASHTABLE | VLost \<Rightarrow> 0)"

lemma rel_map_of:
  "\<lbrakk>list_all2 R (map snd es) qs\<rbrakk> \<Longrightarrow> rel_option R (map_of es k) (map_of (zip (map fst es) qs) k)"
  by (induction es arbitrary: qs) (auto simp: list_all2_Cons1)

lemma generate_value_prim: "p \<noteq> PNull \<Longrightarrow> generate_value g key (Prim p) = bind_res (generate_prim g p) (\<lambda>bs.
    Inr (generate_string_value key @ byte (type_code p) @ bs, length (generate_string_value key @ byte (type_code p) @ bs)))"
  by (cases p) (simp_all add: generate_value_def Let_def)

lemma node_bytes_length: "length ps = length bss \<Longrightarrow> length (concat (map2 node_bytes ps bss)) = length ps + length (concat bss)"
  by (induction ps bss rule: list_induct2) (simp_all add: node_bytes_def)

lemma list_back:
  assumes g: "hex_ok g rep" and bd: "roomy_builder bd" and l: "storable rep (VList l)"
  shows "\<exists>bs m. generate_value g key (VList l) = Inr (generate_string_value key @ byte TELLY_LIST @ bs, length (generate_string_value key @ byte TELLY_LIST @ bs)) \<and>
    restores m bs (collect_value g bd TELLY_LIST) (\<lambda>(v, n). n = length bs \<and> same_val rep (VList l) v)"
proof -
  have c: "chain l (ll_ptrs l)" "ended l" "ll_size l < 2 ^ 64" "\<forall>p \<in> set (ll_list l). list_prim rep p" using l by (auto simp: storable_def wf_list_def)
  obtain bss where bss: "list_all2 (\<lambda>p bs. (if p = PNull then Inr [] else generate_prim g p) = Inr bs) (ll_list l) bss" "list_all2 (restores_prim g rep) (ll_list l) bss"
    using list_prims_back [OF g c(4)] by blast
  let ?cs = "concat (map2 node_bytes (ll_list l) bss)" and ?n = "length (ll_list l)"
  let ?bs = "le_bytes 8 (ll_size l) @ ?cs"
  have n: "ll_size l = ?n" using l wf_list_size [of l] by (simp add: storable_def)
  have "ll_begin l = (if 0 < length (ll_ptrs l) then Some (ll_ptrs l ! 0) else None)"
    using c(1,2) by (auto simp: chain_def ended_def hd_conv_nth)
  then have gen: "generate_nodes g l (ll_begin l) [] = Some (Inr ?cs)" using generate_nodes_chain [OF c(1,2), of g 0 bss "[]"] bss(1) by (simp add: ll_list_def)
  have len: "length ?cs = ?n + length (concat bss)" by (rule node_bytes_length [OF list_all2_lengthD [OF bss(1)]])
  have "restores (1 + 3 * ?n) ?bs (collect_value g bd TELLY_LIST) (\<lambda>(v, n). n = length ?bs \<and> same_val rep (VList l) v)"
  proof (rule restoresI)
    fix r t assume a: "ahead r = ?bs @ t" "t \<noteq> []" "1 + 3 * ?n \<le> ga_mem r"
    have c8: "collect_bytes 8 r = Inr (le_bytes 8 (ll_size l), moved r 8 0)" using collect_n [of r "le_bytes 8 (ll_size l)" "?cs @ t" 8] a by simp
    have v: "le_val (le_bytes 8 (ll_size l)) = ?n" using c(3) n by (simp add: le_val_bytes)
    obtain l0 :: "('a, 'b) prim linkedlist" where l0: "ll_create True = Some l0" "wf_list l0" "closed l0" "ll_list l0 = []" "ll_nodes l0 = Map.empty"
      using wf_create by (auto simp: ll_create_def)
    have e: "ended l0" "new_from bd 0 l0" using closed_ended [OF l0(3)] l0(5) by (simp_all add: new_from_def)
    have ah: "ahead (moved r 8 1) = ?cs @ t" "3 * ?n \<le> ga_mem (moved r 8 1)" using a by simp_all
    obtain k l' qs where k: "k \<le> 3 * ?n" "collect_elements g bd 0 l0 (8 + ?n) ?n (moved r 8 1) = Inr (moved (moved r 8 1) (length ?cs) k, Some (l', 8 + ?n + length (concat bss)))"
        "wf_list l'" "ended l'" "ll_list l' = ll_list l0 @ qs" "list_all2 (same_prim rep) (ll_list l) qs"
      using elements_back [OF bd bss(2) l0(2) e ah(1) a(2) ah(2), of "8 + ?n"] by blast
    then show "\<exists>k x. k \<le> 1 + 3 * ?n \<and> collect_value g bd TELLY_LIST r = Inr (moved r (length ?bs) k, Some x) \<and> (case x of (v, n) \<Rightarrow> n = length ?bs \<and> same_val rep (VList l) v)"
      using a c8 v l0(1,4) len by (intro exI [of _ "1 + k"] exI [of _ "(VList l', length ?bs)"])
        (simp add: collect_value_def TELLY_LIST_def TELLY_HASHTABLE_def allocate_moved add_ac)
  qed
  moreover have "generate_value g key (VList l) = Inr (generate_string_value key @ byte TELLY_LIST @ ?bs, length (generate_string_value key @ byte TELLY_LIST @ ?bs))"
    using gen by (simp add: generate_value_def flat_loop_def Let_def)
  ultimately show ?thesis by blast
qed

lemma table_foreach_map:
  assumes "wf_table t" shows "distinct (map fst (foreach_hashtable t))" "ht_map t = map_of (foreach_hashtable t)"
proof -
  have "uniq (ht_elements t)" using assms by (simp add: wf_table_def)
  then show "distinct (map fst (foreach_hashtable t))" unfolding foreach_entries by (rule uniq_distinct)
qed (simp add: ht_map_def fun_eq_iff)

lemma table_back:
  assumes g: "hex_ok g rep" and bd: "roomy_builder bd" and h: "storable rep (VHash t)"
  shows "\<exists>bs m. generate_value g key (VHash t) = Inr (generate_string_value key @ byte TELLY_HASHTABLE @ bs, length (generate_string_value key @ byte TELLY_HASHTABLE @ bs)) \<and>
    restores m bs (collect_value g bd TELLY_HASHTABLE) (\<lambda>(v, n). n = length bs \<and> same_val rep (VHash t) v)"
proof -
  let ?es = "foreach_hashtable t"
  have c: "wf_table t" "ht_hash t = string_hash" "ht_compare t = string_compare" "ht_capacity t < 2 ^ 64" "\<forall>e \<in> set ?es. length (fst e) < 2 ^ 30"
      "\<forall>e \<in> set ?es. plain_prim rep (snd e)" using h by (auto simp: storable_def wf_strings_def)
  obtain bss where bss: "list_all2 (\<lambda>e bs. generate_prim g (snd e) = Inr bs) ?es bss" "list_all2 (\<lambda>e. restores_prim g rep (snd e)) ?es bss"
    using fields_prims_back [OF g c(6)] by blast
  let ?cs = "concat (map2 field_bytes ?es bss)"
  let ?bs = "le_bytes 8 (ht_capacity t) @ ?cs @ byte 0x17"
  note m = table_foreach_map [OF c(1)]
  have "restores (1 + 4 * length ?es) ?bs (collect_value g bd TELLY_HASHTABLE) (\<lambda>(v, n). n = length ?bs \<and> same_val rep (VHash t) v)"
  proof (rule restoresI)
    fix r u assume a: "ahead r = ?bs @ u" "u \<noteq> []" "1 + 4 * length ?es \<le> ga_mem r"
    have c8: "collect_bytes 8 r = Inr (le_bytes 8 (ht_capacity t), moved r 8 0)" using collect_n [of r "le_bytes 8 (ht_capacity t)" "?cs @ byte 0x17 @ u" 8] a by simp
    have v: "le_val (le_bytes 8 (ht_capacity t)) = ht_capacity t" using c(4) by (simp add: le_val_bytes)
    have pos: "0 < ht_capacity t" using c(1) by (simp add: wf_table_def)
    have kc: "key_eq string_compare" using c(1,3) by (simp add: wf_table_def)
    obtain t0 :: "(bytes, ('a, 'b) prim) hashtable" where t0: "create_hashtable True True (ht_capacity t) string_hash string_compare = Some t0" "wf_table t0" "ht_map t0 = (\<lambda>_. None)"
      using create_correct [OF pos kc] by blast
    have w0: "wf_strings t0" using t0(1,2) pos by (auto simp: wf_strings_def create_hashtable_def split: if_splits)
    have none: "\<forall>e \<in> set ?es. ht_map t0 (fst e) = None" using t0(3) by simp
    have ah: "ahead (moved r 8 1) = ?cs @ byte 0x17 @ u" "4 * length ?es \<le> ga_mem (moved r 8 1)" using a by simp_all
    obtain k t' qs where k: "k \<le> 4 * length ?es" "collect_fields g bd t0 9 (moved r 8 1) = Some (Inr (moved (moved r 8 1) (length ?cs + 1) k, Some (t', 9 + length ?cs)))"
        "wf_strings t'" "list_all2 (same_prim rep) (map snd ?es) qs" "ht_map t' = ht_map t0 ++ map_of (zip (map fst ?es) qs)"
      using fields_back [OF bd bss(2) c(5) m(1) none w0 ah(1) a(2) ah(2), of 9] by blast
    have "same_val rep (VHash t) (VHash t')" using k(3,5) t0(3) rel_map_of [OF k(4)] m(2) by (simp add: map_add_def)
    then show "\<exists>k x. k \<le> 1 + 4 * length ?es \<and> collect_value g bd TELLY_HASHTABLE r = Inr (moved r (length ?bs) k, Some x) \<and> (case x of (v, n) \<Rightarrow> n = length ?bs \<and> same_val rep (VHash t) v)"
      using a c8 v t0(1) k(1,2) by (intro exI [of _ "1 + k"] exI [of _ "(VHash t', length ?bs)"])
        (simp add: collect_value_def allocate_moved flat_loop_def add_ac)
  qed
  moreover have "generate_value g key (VHash t) = Inr (generate_string_value key @ byte TELLY_HASHTABLE @ ?bs, length (generate_string_value key @ byte TELLY_HASHTABLE @ ?bs))"
    using generate_fields_all [OF bss(1)] by (simp add: generate_value_def Let_def)
  ultimately show ?thesis by blast
qed

lemma value_back:
  assumes g: "hex_ok g rep" and bd: "roomy_builder bd" and v: "storable rep v"
  shows "\<exists>bs m. generate_value g key v = Inr (generate_string_value key @ byte (val_code v) @ bs, length (generate_string_value key @ byte (val_code v) @ bs)) \<and>
    restores m bs (collect_value g bd (val_code v)) (\<lambda>(w, n). n = length bs \<and> same_val rep v w)"
proof (cases v)
  case (Prim p)
  then have p: "plain_prim rep p" using v by (simp add: storable_def)
  obtain bs where bs: "generate_prim g p = Inr bs" "restores_prim g rep p bs" using prim_back [OF g p] by blast
  have n: "p \<noteq> PNull" using p by (auto simp: plain_prim_def)
  have "type_code p \<noteq> TELLY_LIST" "type_code p \<noteq> TELLY_HASHTABLE" by (simp_all add: TELLY_LIST_def TELLY_HASHTABLE_def)
  then have "restores 2 bs (collect_value g bd (val_code v)) (\<lambda>(w, n). n = length bs \<and> same_val rep v w)"
    using bs(2) Prim by (fastforce simp: restores_prim_def restores_def collect_value_def val_code_def)
  then show ?thesis using bs(1) n Prim by (intro exI [of _ bs] exI [of _ 2]) (simp add: generate_value_prim val_code_def)
next
  case (VHash t)
  then show ?thesis using table_back [OF g bd, of t key] v by (simp add: val_code_def)
next
  case (VList l)
  then show ?thesis using list_back [OF g bd, of l key] v by (simp add: val_code_def)
qed (use v in \<open>simp add: storable_def\<close>)

lemma kv_back:
  assumes g: "hex_ok g rep" and bd: "roomy_builder bd" and v: "storable rep v" and key: "length key < 2 ^ 30"
  shows "\<exists>bs m. generate_value g key v = Inr (bs, length bs) \<and>
    restores m bs (collect_kv g bd) (\<lambda>(k, kv, n). k = key \<and> n = length bs \<and> kv_expiry kv = None \<and> same_val rep v (kv_value kv))"
proof -
  obtain vs m where vs: "generate_value g key v = Inr (generate_string_value key @ byte (val_code v) @ vs, length (generate_string_value key @ byte (val_code v) @ vs))"
      "restores m vs (collect_value g bd (val_code v)) (\<lambda>(w, n). n = length vs \<and> same_val rep v w)"
    using value_back [OF g bd v] by blast
  let ?k = "generate_string_value key"
  let ?bs = "?k @ byte (val_code v) @ vs"
  have code: "val_code v < 256" using v by (auto simp: val_code_def storable_def TELLY_LIST_def TELLY_HASHTABLE_def split: val.splits)
  have "restores (m + 2) ?bs (collect_kv g bd) (\<lambda>(k, kv, n). k = key \<and> n = length ?bs \<and> kv_expiry kv = None \<and> same_val rep v (kv_value kv))"
  proof (rule restoresI)
    fix r t assume a: "ahead r = ?bs @ t" "t \<noteq> []" "m + 2 \<le> ga_mem r"
    have s: "collect_string r = Inr (moved r (length ?k) 1, Some (key, length ?k))" using collect_string_back [OF key, of r "byte (val_code v) @ vs @ t"] a by simp
    have b: "collect_bytes 1 (moved r (length ?k) 1) = Inr (byte (val_code v), moved r (length ?k + 1) 1)"
      using collect_n [of "moved r (length ?k) 1" "byte (val_code v)" "vs @ t" 1] a by simp
    obtain i w where w: "i \<le> m" "collect_value g bd (val_code v) (moved r (length ?k + 1) 1) = Inr (moved r (length ?bs) (1 + i), Some (w, length vs))" "same_val rep v w"
      by (rule restoresE [OF vs(2), of "moved r (length ?k + 1) 1" t]) (use a in \<open>auto simp: byte_def add_ac\<close>)
    have "allocate (moved r (length ?bs) (1 + i)) = Some (moved r (length ?bs) (2 + i))" using a(3) w(1) by (simp add: allocate_moved)
    then show "\<exists>k x. k \<le> m + 2 \<and> collect_kv g bd r = Inr (moved r (length ?bs) k, Some x) \<and>
        (case x of (k, kv, n) \<Rightarrow> k = key \<and> n = length ?bs \<and> kv_expiry kv = None \<and> same_val rep v (kv_value kv))"
      using s b w code by (intro exI [of _ "2 + i"] exI [of _ "(key, \<lparr>kv_value = w, kv_expiry = None\<rparr>, length ?bs)"]) (simp add: collect_kv_def)
  qed
  then show ?thesis using vs(1) by blast
qed

end
