(* ===== verification/File_Saved.thy ===== *)
theory File_Saved
  imports File_Values
begin

text \<open>
  Saving databases that fit into one block: the estimated sizes are enough for short strings, and the file is the header and the
  databases one after the other.
\<close>

section \<open>Sizes\<close>

text \<open>\<open>get_value_size\<close> of a string counts the bytes of its length, which is right for 1 to 63 bytes.\<close>

definition short :: "bytes \<Rightarrow> bool" where
  "short s \<longleftrightarrow> 0 < length s \<and> length s < 64"

definition short_prim :: "('z, 'f) prim \<Rightarrow> bool" where
  "short_prim p \<longleftrightarrow> (case p of PStr s \<Rightarrow> short s | _ \<Rightarrow> True)"

definition short_val :: "('z, 'f) val \<Rightarrow> bool" where
  "short_val v \<longleftrightarrow> (case v of Prim p \<Rightarrow> short_prim p | VList l \<Rightarrow> (\<forall>p \<in> set (ll_list l). short_prim p)
     | VHash t \<Rightarrow> (\<forall>e \<in> set (foreach_hashtable t). short (fst e) \<and> short_prim (snd e)) | VLost \<Rightarrow> True)"

lemma byte_count_small: "v < 256 \<Longrightarrow> get_byte_count (word_of_nat v) = (if v = 0 then 0 else 1)"
proof -
  assume v: "v < 256"
  have u: "unat (word_of_nat v :: 64 word) = v" using v by (simp add: unsigned_of_nat take_bit_nat_eq_self)
  have z: "(word_of_nat v :: 64 word) = 0 \<longleftrightarrow> v = 0" using u by (metis unsigned_0 word_of_nat_eq_0_iff unsigned_eq_0_iff)
  show ?thesis
  proof (cases "v = 0")
    case False
    have "v < 2 ^ 8" using v by simp
    then have "nbits v \<le> 8" by (rule nbits_le)
    moreover have "0 < nbits v" using nbits_bounds False by simp
    ultimately have "(nbits v + 7) div 8 = 1" by (intro div_nat_eqI) auto
    then show ?thesis using u z False by (simp add: get_byte_count_def)
  qed (simp add: get_byte_count_def)
qed

lemma short_string: "short s \<Longrightarrow> length (generate_string_value s) = string_size s"
  by (simp add: short_def generate_string_value_def string_size_def byte_count_small byte_count_small [of 0, simplified] Let_def)

lemma prim_size:
  assumes g: "hex_ok g rep" and p: "plain_prim rep p" "short_prim p" and bs: "generate_prim g p = Inr bs"
  shows "length bs = get_prim_size g p"
proof (cases p)
  case (PInt z)
  have "\<bar>rep z\<bar> < 2 ^ 1024" using p(1) PInt by (simp add: plain_prim_def)
  then obtain cs where cs: "generate_integer_value g z = Inr (byte (length cs - 1 + (if rep z < 0 then 128 else 0)) @ cs)" "length cs \<le> 128" "length cs = (mpz_bits g z + 7) div 8"
    using generate_integer_correct [OF g] by blast
  have "length bs = length cs + 1" using bs PInt cs(1) by (auto simp: generate_prim_def)
  then show ?thesis using PInt cs(2,3) by (simp add: get_prim_size_def)
next
  case (PStr s)
  then show ?thesis using p bs short_string by (auto simp: short_prim_def generate_prim_def get_prim_size_def)
next
  case (PBool b)
  then show ?thesis using bs by (auto simp: generate_prim_def get_prim_size_def generate_boolean_value_def)
qed (use p in \<open>simp_all add: plain_prim_def\<close>)

lemma nodes_size_None [simp]: "nodes_size g l None n = Some (Inr n)"
  by (subst nodes_size.simps) simp

lemma nodes_size_chain:
  assumes c: "chain l ps" "ended l"
  shows "\<lbrakk>j = length ps - i; i \<le> length ps\<rbrakk> \<Longrightarrow>
    nodes_size g l (if i < length ps then Some (ps ! i) else None) n = Some (Inr (n + sum_list (map (\<lambda>p. 1 + get_prim_size g p) (drop i (data_of l ps)))))"
proof (induction j arbitrary: i n)
  case 0
  then show ?case by (simp add: data_of_def)
next
  case (Suc j)
  then have i: "i < length ps" by simp
  let ?n = "nd l (ps ! i)"
  have d: "drop i (data_of l ps) = nd_data ?n # drop (Suc i) (data_of l ps)" using i by (simp add: data_of_def Cons_nth_drop_Suc [symmetric])
  have "node_at l (Some (ps ! i)) = Inr ?n" using chain_node_at [OF c(1)] i by simp
  then have "nodes_size g l (Some (ps ! i)) n = nodes_size g l (nd_next ?n) (n + 1 + get_prim_size g (nd_data ?n))" by (subst nodes_size.simps) simp
  then show ?case using Suc.IH [of "Suc i"] Suc.prems i d chain_suffix_next [OF c i] by simp
qed

lemma list_value_size:
  assumes "wf_list l" "ended l"
  shows "get_value_size g (VList l) = Inr (8 + sum_list (map (\<lambda>p. 1 + get_prim_size g p) (ll_list l)))"
proof -
  have c: "chain l (ll_ptrs l)" using assms(1) by (simp add: wf_list_def)
  have "ll_begin l = (if 0 < length (ll_ptrs l) then Some (ll_ptrs l ! 0) else None)" using c assms(2) by (auto simp: chain_def ended_def hd_conv_nth)
  then show ?thesis using nodes_size_chain [OF c assms(2), of "length (ll_ptrs l)" 0 g 8] by (simp add: get_value_size_def flat_loop_def ll_list_def)
qed

lemma node_sizes:
  assumes "hex_ok g rep"
  shows "\<lbrakk>list_all2 (\<lambda>p bs. (if p = PNull then Inr [] else generate_prim g p) = Inr bs) ps bss; \<forall>p \<in> set ps. list_prim rep p \<and> short_prim p\<rbrakk> \<Longrightarrow>
    length (concat (map2 node_bytes ps bss)) = sum_list (map (\<lambda>p. 1 + get_prim_size g p) ps)"
proof (induction rule: list_all2_induct)
  case (Cons p ps bs bss)
  have "length bs = get_prim_size g p"
  proof (cases "p = PNull")
    case True
    then show ?thesis using Cons.hyps(1) by (simp add: get_prim_size_def)
  next
    case False
    then show ?thesis using Cons prim_size [OF assms, of p bs] by (simp add: list_prim_def)
  qed
  then show ?case using Cons by (simp add: node_bytes_def)
qed simp

lemma field_sizes:
  assumes "hex_ok g rep"
  shows "\<lbrakk>list_all2 (\<lambda>e bs. generate_prim g (snd e) = Inr bs) es bss; \<forall>e \<in> set es. plain_prim rep (snd e) \<and> short (fst e) \<and> short_prim (snd e)\<rbrakk> \<Longrightarrow>
    length (concat (map2 field_bytes es bss)) = sum_list (map (\<lambda>e. 1 + string_size (fst e) + get_prim_size g (snd e)) es)"
proof (induction rule: list_all2_induct)
  case (Cons e es bs bss)
  then show ?case using prim_size [OF assms, of "snd e" bs] by (simp add: field_bytes_def short_string)
qed simp

lemma value_size:
  assumes g: "hex_ok g rep" and v: "storable rep v" "short_val v" and key: "short key" and bs: "generate_value g key v = Inr (bs, n)"
  shows "\<exists>m. get_value_size g v = Inr m \<and> length bs = 1 + string_size key + m"
proof (cases v)
  case (Prim p)
  have p: "plain_prim rep p" "short_prim p" "p \<noteq> PNull" using v Prim by (auto simp: storable_def short_val_def plain_prim_def)
  obtain cs where cs: "generate_prim g p = Inr cs" using prim_back [OF g p(1)] by blast
  show ?thesis using bs Prim p(3) cs prim_size [OF g p(1,2) cs] short_string [OF key] by (auto simp: generate_value_prim get_value_size_def)
next
  case (VList l)
  have l: "wf_list l" "ended l" "\<forall>p \<in> set (ll_list l). list_prim rep p" "\<forall>p \<in> set (ll_list l). short_prim p" using v VList by (auto simp: storable_def short_val_def)
  obtain bss where bss: "list_all2 (\<lambda>p bs. (if p = PNull then Inr [] else generate_prim g p) = Inr bs) (ll_list l) bss" using list_prims_back [OF g l(3)] by blast
  have c: "chain l (ll_ptrs l)" using l(1) by (simp add: wf_list_def)
  have "ll_begin l = (if 0 < length (ll_ptrs l) then Some (ll_ptrs l ! 0) else None)" using c l(2) by (auto simp: chain_def ended_def hd_conv_nth)
  then have "generate_nodes g l (ll_begin l) [] = Some (Inr (concat (map2 node_bytes (ll_list l) bss)))"
    using generate_nodes_chain [OF c l(2), of g 0 bss "[]"] bss by (simp add: ll_list_def)
  then have "length bs = string_size key + 1 + 8 + length (concat (map2 node_bytes (ll_list l) bss))"
    using bs VList short_string [OF key] by (auto simp: generate_value_def Let_def flat_loop_def)
  then show ?thesis using VList list_value_size [OF l(1,2)] node_sizes [OF g bss] l(3,4) by auto
next
  case (VHash t)
  have t: "\<forall>e \<in> set (foreach_hashtable t). plain_prim rep (snd e)" "\<forall>e \<in> set (foreach_hashtable t). plain_prim rep (snd e) \<and> short (fst e) \<and> short_prim (snd e)"
    using v VHash by (auto simp: storable_def short_val_def)
  obtain bss where bss: "list_all2 (\<lambda>e bs. generate_prim g (snd e) = Inr bs) (foreach_hashtable t) bss" using fields_prims_back [OF g t(1)] by blast
  have "length bs = string_size key + 1 + 8 + length (concat (map2 field_bytes (foreach_hashtable t) bss)) + 1"
    using bs VHash short_string [OF key] generate_fields_all [OF bss] by (auto simp: generate_value_def Let_def)
  then show ?thesis using VHash field_sizes [OF g bss t(2)] by (simp add: get_value_size_def)
qed (use v in \<open>simp add: storable_def\<close>)

lemma maximum_size:
  "\<forall>e \<in> set es. \<exists>n. get_value_size g (kv_value (snd e)) = Inr n \<Longrightarrow>
   \<exists>M \<ge> m. get_maximum_keyvalue_size g es m = Inr M \<and> (\<forall>e \<in> set es. \<forall>n. get_value_size g (kv_value (snd e)) = Inr n \<longrightarrow> 1 + string_size (fst e) + n \<le> M)"
proof (induction es arbitrary: m)
  case (Cons e es)
  obtain n where n: "get_value_size g (kv_value (snd e)) = Inr n" using Cons.prems by auto
  obtain M where "max m (1 + string_size (fst e) + n) \<le> M" "get_maximum_keyvalue_size g es (max m (1 + string_size (fst e) + n)) = Inr M"
      "\<forall>e \<in> set es. \<forall>n. get_value_size g (kv_value (snd e)) = Inr n \<longrightarrow> 1 + string_size (fst e) + n \<le> M"
    using Cons.IH [of "max m (1 + string_size (fst e) + n)"] Cons.prems by auto
  then show ?case using n by (intro exI [of _ M]) auto
qed simp

section \<open>Filling the block\<close>

text \<open>Nothing has been written yet, and the block begins with \<open>out\<close>.\<close>

definition holding :: "nat \<Rightarrow> saver \<Rightarrow> bytes \<Rightarrow> bool" where
  "holding capacity s out \<longleftrightarrow> length (sv_block s) = capacity \<and> sv_filled s = length out \<and> take (length out) (sv_block s) = out \<and>
     sv_file s = [] \<and> sv_writes s = 0"

lemma fill_holding:
  assumes "holding capacity s out" "length out + length bs \<le> capacity"
  shows "\<exists>s'. fill_block s bs = Inr s' \<and> holding capacity s' (out @ bs) \<and> sv_size s' = sv_size s"
proof -
  let ?b = "take (length out) (sv_block s) @ bs @ drop (length out + length bs) (sv_block s)"
  have "mem_put (sv_block s) (sv_filled s) bs = Inr ?b" using assms by (simp add: mem_put_def holding_def)
  moreover have "length ?b = capacity" "take (length (out @ bs)) ?b = out @ bs" using assms by (simp_all add: holding_def)
  ultimately show ?thesis using assms by (simp add: fill_block_def put_block_def holding_def)
qed

lemma dump_holding:
  assumes h: "holding capacity s out" and bs: "generate_value g (fst e) (kv_value (snd e)) = Inr (bs, length bs)" "length bs \<le> room" "bs \<noteq> []"
    and fits: "length out + length bs \<le> capacity"
  shows "\<exists>s'. dump_into_file g ok room e s = Inr s' \<and> holding capacity s' (out @ bs) \<and> sv_size s' = sv_size s + length bs"
proof -
  obtain s' where s': "fill_block s bs = Inr s'" "holding capacity s' (out @ bs)" "sv_size s' = sv_size s" using fill_holding [OF h fits] by blast
  have n: "0 < length bs" using bs(3) by simp
  have "(sv_filled s + length bs + length (sv_block s) - 1) div length (sv_block s) = 1"
  proof -
    obtain j where j: "length bs = Suc j" using n by (cases bs) auto
    show ?thesis using h fits j by (intro div_nat_eqI) (auto simp: holding_def)
  qed
  then show ?thesis using bs s' h by (simp add: dump_into_file_def Let_def holding_def)
qed

lemma dump_all_holding:
  "\<lbrakk>holding capacity s out; list_all2 (\<lambda>e bs. generate_value g (fst e) (kv_value (snd e)) = Inr (bs, length bs) \<and> length bs \<le> room \<and> bs \<noteq> []) es bss;
    length out + length (concat bss) \<le> capacity\<rbrakk> \<Longrightarrow>
   \<exists>s'. dump_all g ok room es s = Inr s' \<and> holding capacity s' (out @ concat bss) \<and> sv_size s' = sv_size s + length (concat bss)"
proof (induction es arbitrary: bss s out)
  case (Cons e es)
  obtain bs bss' where b: "bss = bs # bss'" "generate_value g (fst e) (kv_value (snd e)) = Inr (bs, length bs)" "length bs \<le> room" "bs \<noteq> []"
      "list_all2 (\<lambda>e bs. generate_value g (fst e) (kv_value (snd e)) = Inr (bs, length bs) \<and> length bs \<le> room \<and> bs \<noteq> []) es bss'"
    using Cons.prems(2) by (auto simp: list_all2_Cons1)
  have f: "length out + length bs \<le> capacity" using Cons.prems(3) b(1) by simp
  obtain s1 where s1: "dump_into_file g ok room e s = Inr s1" "holding capacity s1 (out @ bs)" "sv_size s1 = sv_size s + length bs"
    using dump_holding [OF Cons.prems(1) b(2-4) f] by blast
  have "length (out @ bs) + length (concat bss') \<le> capacity" using Cons.prems(3) b(1) by simp
  then obtain s2 where "dump_all g ok room es s1 = Inr s2" "holding capacity s2 ((out @ bs) @ concat bss')" "sv_size s2 = sv_size s1 + length (concat bss')"
    using Cons.IH [OF s1(2) b(5)] by blast
  then show ?case using s1 b(1) by simp
qed simp

section \<open>Databases\<close>

text \<open>The databases that the file can hold.\<close>

definition storable_db :: "('z \<Rightarrow> int) \<Rightarrow> ('z, 'f) database \<Rightarrow> bool" where
  "storable_db rep db \<longleftrightarrow> wf_db db \<and> db_id db = string_hash (db_name db) \<and> length (db_name db) < 2 ^ 30 \<and> ht_count (db_data db) < 2 ^ 63 \<and>
     (\<forall>e \<in> set (foreach_hashtable (db_data db)). short (fst e) \<and> storable rep (kv_value (snd e)) \<and> short_val (kv_value (snd e)))"

text \<open>The bytes of a database, and what reads them back.\<close>

definition kv_restores :: "nat \<Rightarrow> ('z, 'f, 'more) hex_gmp_scheme \<Rightarrow> ('z, 'f) builder \<Rightarrow> ('z \<Rightarrow> int) \<Rightarrow> bytes \<times> ('z, 'f) kv \<Rightarrow> bytes \<Rightarrow> bool" where
  "kv_restores m g bd rep e bs \<longleftrightarrow> restores m bs (collect_kv g bd) (\<lambda>(k, kv, n). k = fst e \<and> n = length bs \<and> kv_expiry kv = None \<and> same_val rep (kv_value (snd e)) (kv_value kv))"

definition db_bytes :: "('z, 'f, 'more) hex_gmp_scheme \<Rightarrow> ('z, 'f) builder \<Rightarrow> ('z \<Rightarrow> int) \<Rightarrow> ('z, 'f) database \<Rightarrow> nat \<Rightarrow> bytes list \<Rightarrow> bytes \<Rightarrow> bool" where
  "db_bytes g bd rep db m bss bs \<longleftrightarrow> list_all2 (kv_restores m g bd rep) (foreach_hashtable (db_data db)) bss \<and>
     bs = le_bytes 8 (ht_count (db_data db)) @ generate_string_value (db_name db) @ concat bss"

lemma list_all2_left: "\<lbrakk>list_all2 P xs ys; \<And>x y. P x y \<Longrightarrow> Q x\<rbrakk> \<Longrightarrow> \<forall>x \<in> set xs. Q x"
  by (induction rule: list_all2_induct) auto

lemma entries_bytes:
  assumes g: "hex_ok g rep" and bd: "roomy_builder bd"
  shows "\<forall>e \<in> set es. short (fst e) \<and> storable rep (kv_value (snd e)) \<and> short_val (kv_value (snd e)) \<Longrightarrow>
    \<exists>m bss. list_all2 (kv_restores m g bd rep) es bss \<and>
      list_all2 (\<lambda>e bs. generate_value g (fst e) (kv_value (snd e)) = Inr (bs, length bs) \<and> bs \<noteq> [] \<and>
        (\<exists>n. get_value_size g (kv_value (snd e)) = Inr n \<and> length bs = 1 + string_size (fst e) + n)) es bss"
proof (induction es)
  case (Cons e es)
  then obtain m bss where m: "list_all2 (kv_restores m g bd rep) es bss"
      "list_all2 (\<lambda>e bs. generate_value g (fst e) (kv_value (snd e)) = Inr (bs, length bs) \<and> bs \<noteq> [] \<and>
        (\<exists>n. get_value_size g (kv_value (snd e)) = Inr n \<and> length bs = 1 + string_size (fst e) + n)) es bss" by auto
  have e: "short (fst e)" "storable rep (kv_value (snd e))" "short_val (kv_value (snd e))" "length (fst e) < 2 ^ 30" using Cons.prems by (auto simp: short_def)
  obtain bs j where bs: "generate_value g (fst e) (kv_value (snd e)) = Inr (bs, length bs)" "kv_restores j g bd rep e bs"
    using kv_back [OF g bd e(2,4)] by (auto simp: kv_restores_def)
  obtain n where n: "get_value_size g (kv_value (snd e)) = Inr n" "length bs = 1 + string_size (fst e) + n" using value_size [OF g e(2,3,1) bs(1)] by blast
  have "kv_restores (max m j) g bd rep e bs" using bs(2) unfolding kv_restores_def by (rule restores_le) simp
  moreover have "list_all2 (kv_restores (max m j) g bd rep) es bss" using m(1) unfolding kv_restores_def
    by (rule list_all2_mono) (erule restores_le, simp)
  moreover have "bs \<noteq> []" using n(2) by auto
  ultimately show ?case using m(2) bs(1) n by (intro exI [of _ "max m j"] exI [of _ "bs # bss"]) simp
qed simp

lemma save_database_holding:
  assumes g: "hex_ok g rep" and bd: "roomy_builder bd" and db: "storable_db rep db"
  shows "\<exists>m bss bs. db_bytes g bd rep db m bss bs \<and> (\<forall>capacity s out. holding capacity s out \<longrightarrow> length out + length bs \<le> capacity \<longrightarrow>
    (\<exists>s'. save_database g True ok db s = Inr (s', True) \<and> holding capacity s' (out @ bs) \<and> sv_size s' = sv_size s + length bs))"
proof -
  let ?es = "foreach_hashtable (db_data db)" and ?h = "le_bytes 8 (ht_count (db_data db))" and ?nm = "generate_string_value (db_name db)"
  have es: "\<forall>e \<in> set ?es. short (fst e) \<and> storable rep (kv_value (snd e)) \<and> short_val (kv_value (snd e))" using db by (simp add: storable_db_def)
  obtain m bss where m: "list_all2 (kv_restores m g bd rep) ?es bss"
      "list_all2 (\<lambda>e bs. generate_value g (fst e) (kv_value (snd e)) = Inr (bs, length bs) \<and> bs \<noteq> [] \<and>
        (\<exists>n. get_value_size g (kv_value (snd e)) = Inr n \<and> length bs = 1 + string_size (fst e) + n)) ?es bss"
    using entries_bytes [OF g bd es] by blast
  have "\<forall>e \<in> set ?es. \<exists>n. get_value_size g (kv_value (snd e)) = Inr n"
    by (rule list_all2_left [OF m(2)]) blast
  from maximum_size [OF this, of 0]
  obtain M where M: "get_maximum_keyvalue_size g ?es 0 = Inr M" "\<forall>e \<in> set ?es. \<forall>n. get_value_size g (kv_value (snd e)) = Inr n \<longrightarrow> 1 + string_size (fst e) + n \<le> M"
    by blast
  have room: "list_all2 (\<lambda>e bs. generate_value g (fst e) (kv_value (snd e)) = Inr (bs, length bs) \<and> length bs \<le> M \<and> bs \<noteq> []) ?es bss"
    using m(2) M(2) by (fastforce simp: list_all2_conv_all_nth)
  let ?bs = "?h @ ?nm @ concat bss"
  have "\<exists>s'. save_database g True ok db s = Inr (s', True) \<and> holding capacity s' (out @ ?bs) \<and> sv_size s' = sv_size s + length ?bs"
    if h: "holding capacity s out" and fits: "length out + length ?bs \<le> capacity" for capacity s out
  proof -
    obtain s1 where s1: "fill_block s ?h = Inr s1" "holding capacity s1 (out @ ?h)" "sv_size s1 = sv_size s" using fill_holding [OF h, of ?h] fits by auto
    obtain s2 where s2: "fill_block s1 ?nm = Inr s2" "holding capacity s2 (out @ ?h @ ?nm)" "sv_size s2 = sv_size s" using fill_holding [OF s1(2), of ?nm] s1(3) fits by auto
    let ?s = "s2\<lparr>sv_size := sv_size s2 + length ?nm + 8\<rparr>"
    have hs: "holding capacity ?s (out @ ?h @ ?nm)" using s2(2) by (simp add: holding_def)
    have f: "length (out @ ?h @ ?nm) + length (concat bss) \<le> capacity" using fits by simp
    obtain s3 where s3: "dump_all g ok M ?es ?s = Inr s3" "holding capacity s3 (out @ ?bs)" "sv_size s3 = sv_size s + length ?bs"
      using dump_all_holding [OF hs room f, of ok] s2(3) by auto
    show ?thesis
    proof (cases "M = 0")
      case True
      then have "bss = []" using room by (cases bss) (auto simp: list_all2_Cons2)
      then show ?thesis using True s1 s2 s3 hs M(1) by (simp add: save_database_def Let_def)
    next
      case False
      then show ?thesis using s1 s2 s3 M(1) by (simp add: save_database_def Let_def)
    qed
  qed
  then show ?thesis using m(1) by (intro exI [of _ m] exI [of _ bss] exI [of _ ?bs]) (simp add: db_bytes_def)
qed

definition db_saves :: "('z, 'f, 'more) hex_gmp_scheme \<Rightarrow> (nat \<Rightarrow> bool) \<Rightarrow> ('z, 'f) database \<Rightarrow> bytes \<Rightarrow> bool" where
  "db_saves g ok db bs \<longleftrightarrow> (\<forall>capacity s out. holding capacity s out \<longrightarrow> length out + length bs \<le> capacity \<longrightarrow>
     (\<exists>s'. save_database g True ok db s = Inr (s', True) \<and> holding capacity s' (out @ bs) \<and> sv_size s' = sv_size s + length bs))"

lemma save_databases_None [simp]: "save_databases g mem ok l None s = Some (Inr (s, True))"
  by (subst save_databases.simps) simp

lemma save_databases_chain:
  assumes c: "chain l ps" "ended l"
  shows "\<lbrakk>list_all2 (db_saves g ok) (drop i (data_of l ps)) bss; i \<le> length ps; holding capacity s out; length out + length (concat bss) \<le> capacity\<rbrakk> \<Longrightarrow>
    \<exists>s'. save_databases g True ok l (if i < length ps then Some (ps ! i) else None) s = Some (Inr (s', True)) \<and>
      holding capacity s' (out @ concat bss) \<and> sv_size s' = sv_size s + length (concat bss)"
proof (induction bss arbitrary: i s out)
  case Nil
  then show ?case by (simp add: data_of_def)
next
  case (Cons bs bss)
  have i: "i < length ps" using Cons.prems(1,2) by (cases "i = length ps") (auto simp: data_of_def)
  let ?n = "nd l (ps ! i)"
  have d: "drop i (data_of l ps) = nd_data ?n # drop (Suc i) (data_of l ps)" using i by (simp add: data_of_def Cons_nth_drop_Suc [symmetric])
  have n: "node_at l (Some (ps ! i)) = Inr ?n" using chain_node_at [OF c(1)] i by simp
  have "db_saves g ok (nd_data ?n) bs" "length out + length bs \<le> capacity" using Cons.prems(1,4) d by simp_all
  then obtain s1 where s1: "save_database g True ok (nd_data ?n) s = Inr (s1, True)" "holding capacity s1 (out @ bs)" "sv_size s1 = sv_size s + length bs"
    using Cons.prems(3) unfolding db_saves_def by blast
  have r: "list_all2 (db_saves g ok) (drop (Suc i) (data_of l ps)) bss" "Suc i \<le> length ps" "length (out @ bs) + length (concat bss) \<le> capacity"
    using Cons.prems(1,4) d i by simp_all
  obtain s2 where s2: "save_databases g True ok l (if Suc i < length ps then Some (ps ! Suc i) else None) s1 = Some (Inr (s2, True))"
      "holding capacity s2 ((out @ bs) @ concat bss)" "sv_size s2 = sv_size s1 + length (concat bss)"
    using Cons.IH [OF r(1,2) s1(2) r(3)] by blast
  have "save_databases g True ok l (Some (ps ! i)) s = save_databases g True ok l (nd_next ?n) s1"
    using n s1(1) by (subst save_databases.simps) simp
  then show ?case using s2 s1(3) i chain_suffix_next [OF c i] by simp
qed

definition file_bytes :: "32 word \<Rightarrow> bytes list \<Rightarrow> bytes" where
  "file_bytes age bss = (generate_headers age @ byte 0) @ concat bss"

lemma file_header_length [simp]: "length (generate_headers age) = 6"
  by (simp add: generate_headers_def byte_def)

lemma save_data_one_block:
  assumes l: "wf_list l" "ended l" and dbs: "list_all2 (db_saves g ok) (ll_list l) bss" and fits: "length (file_bytes age bss) < capacity" and ok: "ok 0"
  shows "save_data g True True ok True capacity age [] (Some l) old = Inr (file_bytes age bss, True)"
proof -
  have c: "chain l (ll_ptrs l)" using l(1) by (simp add: wf_list_def)
  have b: "ll_begin l = (if 0 < length (ll_ptrs l) then Some (ll_ptrs l ! 0) else None)" using c l(2) by (auto simp: chain_def ended_def hd_conv_nth)
  let ?s = "\<lparr>sv_size = 0, sv_filled = 0, sv_block = replicate capacity NUL, sv_file = [], sv_writes = 0\<rparr>" and ?h = "generate_headers age @ byte 0"
  have h0: "holding capacity ?s []" by (simp add: holding_def)
  have f: "7 + length (concat bss) < capacity" using fits by (simp add: file_bytes_def byte_def)
  have "length [] + length ?h \<le> capacity" using f by (simp add: byte_def)
  then obtain s1 where s1: "fill_block ?s ?h = Inr s1" "holding capacity s1 ?h" using fill_holding [OF h0, of ?h] by auto
  have "length ?h + length [] \<le> capacity" using f by (simp add: byte_def)
  then obtain s2 where s2: "fill_block s1 [] = Inr s2" "holding capacity s2 ?h" using fill_holding [OF s1(2), of "[]"] by auto
  let ?s2 = "s2\<lparr>sv_size := sv_filled s2\<rparr>"
  have h2: "holding capacity ?s2 ?h" "sv_size ?s2 = length ?h" using s2(2) by (simp_all add: holding_def)
  have d: "list_all2 (db_saves g ok) (drop 0 (data_of l (ll_ptrs l))) bss" using dbs by (simp add: ll_list_def)
  have f2: "length ?h + length (concat bss) \<le> capacity" using f by (simp add: byte_def)
  obtain s3 where s3: "save_databases g True ok l (ll_begin l) ?s2 = Some (Inr (s3, True))" "holding capacity s3 (file_bytes age bss)" "sv_size s3 = length (file_bytes age bss)"
    using save_databases_chain [OF c l(2) d _ h2(1) f2] h2(2) unfolding b file_bytes_def by auto
  have ne: "sv_filled s3 \<noteq> capacity" using s3(2) fits by (simp add: holding_def)
  have "truncate_file old (sv_file s3 @ sv_block s3) (sv_size s3) = file_bytes age bss"
    using s3(2,3) fits by (simp add: truncate_file_def Let_def holding_def)
  then show ?thesis using s1(1) s2(1) s3 ne ok
    by (simp add: save_data_def Let_def password_byte_count_def flat_loop_def flush_block_def holding_def)
qed

text \<open>Every database that the file can hold has its bytes, which it is saved as and restored from.\<close>

lemma databases_bytes:
  assumes g: "hex_ok g rep" and bd: "roomy_builder bd"
  shows "\<forall>db \<in> set dbs. storable_db rep db \<Longrightarrow> \<exists>bss. list_all2 (db_saves g ok) dbs bss \<and> list_all2 (\<lambda>db bs. \<exists>m kvs. db_bytes g bd rep db m kvs bs) dbs bss"
proof (induction dbs)
  case (Cons db dbs)
  then obtain bss where "list_all2 (db_saves g ok) dbs bss" "list_all2 (\<lambda>db bs. \<exists>m kvs. db_bytes g bd rep db m kvs bs) dbs bss" by auto
  moreover obtain m kvs bs where "db_bytes g bd rep db m kvs bs" "db_saves g ok db bs"
    using save_database_holding [OF g bd, of db ok] Cons.prems unfolding db_saves_def by auto
  ultimately show ?case by (intro exI [of _ "bs # bss"]) auto
qed simp

end
