(* ===== verification/File_Loaded.thy ===== *)
theory File_Loaded
  imports File_Saved
begin

text \<open>Opening a file of less than a block that \<open>save_data\<close> wrote.\<close>

section \<open>The keys of a database\<close>

definition same_kv :: "('z \<Rightarrow> int) \<Rightarrow> ('z, 'f) kv \<Rightarrow> ('z, 'f) kv \<Rightarrow> bool" where
  "same_kv rep kv kv' \<longleftrightarrow> kv_expiry kv' = None \<and> same_val rep (kv_value kv) (kv_value kv')"

definition same_db :: "('z \<Rightarrow> int) \<Rightarrow> ('z, 'f) database \<Rightarrow> ('z, 'f) database \<Rightarrow> bool" where
  "same_db rep db db' \<longleftrightarrow> wf_db db' \<and> db_name db' = db_name db \<and> db_id db' = string_hash (db_name db) \<and>
     (\<forall>k. rel_option (same_kv rep) (db_map db k) (db_map db' k))"

lemma kvs_back:
  assumes bd: "roomy_builder bd"
  shows "\<lbrakk>list_all2 (kv_restores m g bd rep) es bss; distinct (map fst es); \<forall>e \<in> set es. db_map db (fst e) = None; wf_db db;
      ahead r = concat bss @ t; t \<noteq> []; (m + 1) * length es \<le> ga_mem r\<rbrakk> \<Longrightarrow>
    \<exists>k db' kvs. k \<le> (m + 1) * length es \<and> collect_kvs g bd (length es) db n r = Inr (moved r (length (concat bss)) k, Some (db', n + length (concat bss))) \<and>
      wf_db db' \<and> db_name db' = db_name db \<and> db_id db' = db_id db \<and> list_all2 (same_kv rep) (map snd es) kvs \<and> db_map db' = db_map db ++ map_of (zip (map fst es) kvs)"
proof (induction es arbitrary: bss db n r)
  case (Cons e es)
  obtain key v where e: "e = (key, v)" by (cases e)
  obtain bs bss' where b: "bss = bs # bss'" "kv_restores m g bd rep e bs" "list_all2 (kv_restores m g bd rep) es bss'"
    using Cons.prems(1) by (auto simp: list_all2_Cons1)
  have a: "ahead (moved r 0 1) = bs @ concat bss' @ t" "concat bss' @ t \<noteq> []" "m \<le> ga_mem (moved r 0 1)" "0 < ga_mem r" using Cons.prems(5-7) b(1) by simp_all
  obtain i x where x: "i \<le> m" "collect_kv g bd (moved r 0 1) = Inr (moved (moved r 0 1) (length bs) i, Some x)"
      "case x of (k, kv, n) \<Rightarrow> k = fst e \<and> n = length bs \<and> kv_expiry kv = None \<and> same_val rep (kv_value (snd e)) (kv_value kv)"
    using restoresE [OF b(2) [unfolded kv_restores_def] a(1-3)] by blast
  obtain kv where kv: "x = (key, kv, length bs)" "same_kv rep v kv" using x(3) e by (cases x) (auto simp: same_kv_def)
  have mem: "\<And>n. bd_keys bd n = Some (replicate n None)" using bd by (simp add: roomy_builder_def)
  have w: "wf_table (db_data db)" "ht_map (db_data db) key = None" using wf_db_table [OF Cons.prems(4)] Cons.prems(3) e by (simp_all add: db_map_def)
  obtain t1 s where t1: "insert_into_hashtable (bd_keys bd) (db_data db) key kv = Inr (t1, Some s)" "wf_table t1" "ht_hash t1 = ht_hash (db_data db)"
      "ht_compare t1 = ht_compare (db_data db)" "ht_map t1 = (ht_map (db_data db))(key \<mapsto> kv)"
    using insert_succeeds [OF w(1) mem, of key kv] w(2) by auto
  let ?db = "db\<lparr>db_data := t1\<rparr>" and ?r = "moved r (length bs) (1 + i)"
  have w1: "wf_db ?db" using t1 Cons.prems(4) by (simp add: wf_db_def wf_strings_def)
  have m1: "db_map ?db = (db_map db)(key \<mapsto> kv)" using t1(5) by (simp add: db_map_def)
  have "\<forall>e \<in> set es. db_map ?db (fst e) = None" using Cons.prems(2,3) e m1 by (auto simp: image_iff)
  moreover have "ahead ?r = concat bss' @ t" using a(1) by simp
  moreover have "(m + 1) * length es \<le> ga_mem ?r" using Cons.prems(7) x(1) by (simp add: algebra_simps)
  ultimately obtain k db' kvs where r: "k \<le> (m + 1) * length es"
      "collect_kvs g bd (length es) ?db (n + length bs) ?r = Inr (moved ?r (length (concat bss')) k, Some (db', n + length bs + length (concat bss')))"
      "wf_db db'" "db_name db' = db_name db" "db_id db' = db_id db" "list_all2 (same_kv rep) (map snd es) kvs" "db_map db' = db_map ?db ++ map_of (zip (map fst es) kvs)"
    using Cons.IH [OF b(3) _ _ w1 _ Cons.prems(6), of ?r "n + length bs"] Cons.prems(2) by auto
  have map: "db_map db' = db_map db ++ map_of (zip (map fst (e # es)) (kv # kvs))"
  proof -
    have "dom (map_of (zip (map fst es) kvs)) = fst ` set es" using list_all2_lengthD [OF r(6)] by simp
    then have "key \<notin> dom (map_of (zip (map fst es) kvs))" using Cons.prems(2) e by simp
    then show ?thesis using r(7) m1 e by (simp add: map_add_upd_left)
  qed
  show ?case
  proof (intro exI conjI)
    show "1 + i + k \<le> (m + 1) * length (e # es)" "wf_db db'" "db_name db' = db_name db" "db_id db' = db_id db" using x(1) r(1,3-5) by (simp_all add: algebra_simps)
    show "list_all2 (same_kv rep) (map snd (e # es)) (kv # kvs)" using r(6) kv(2) e by simp
    show "db_map db' = db_map db ++ map_of (zip (map fst (e # es)) (kv # kvs))" by (rule map)
    show "collect_kvs g bd (length (e # es)) db n r = Inr (moved r (length (concat bss)) (1 + i + k), Some (db', n + length (concat bss)))"
      using a(4) x(2) kv(1) t1(1) r(2) b(1) by (simp add: allocate_moved add_ac)
  qed
qed auto

section \<open>The list of databases\<close>

definition dbs_list :: "('z, 'f) databases \<Rightarrow> ('z, 'f) database linkedlist" where
  "dbs_list dbs = (case dbs of None \<Rightarrow> the (ll_create True) | Some l \<Rightarrow> l)"

lemma dbs_list_Some [simp]: "dbs_list (Some l) = l"
  by (simp add: dbs_list_def)

lemma dbs_list_None: "wf_list (dbs_list None)" "ll_list (dbs_list None) = []" "ll_nodes (dbs_list None) = Map.empty"
  using wf_create by (auto simp: dbs_list_def ll_create_def)

text \<open>A node that is added at the end and then gets its data.\<close>

lemma push_then_set:
  assumes l: "wf_list l" and a: "a \<notin> dom (ll_nodes l)"
  shows "\<exists>l' n. ll_insert_back (Some a) l d = Inr (l', Some a) \<and> node_at l' (Some a) = Inr n \<and> nd_data n = d \<and>
    (\<forall>d'. let l'' = l'\<lparr>ll_nodes := (ll_nodes l')(a \<mapsto> n\<lparr>nd_data := d'\<rparr>)\<rparr> in
      wf_list l'' \<and> ended l'' \<and> ll_ptrs l'' = ll_ptrs l @ [a] \<and> ll_list l'' = ll_list l @ [d'] \<and> dom (ll_nodes l'') = insert a (dom (ll_nodes l)))"
proof -
  let ?ps = "ll_ptrs l"
  have c: "chain l ?ps" using l by (simp add: wf_list_def)
  obtain l' where l': "ll_insert_back (Some a) l d = Inr (l', Some a)" "chain l' (?ps @ [a])" "data_of l' (?ps @ [a]) = data_of l ?ps @ [d]" "ended l'"
      "dom (ll_nodes l') = insert a (dom (ll_nodes l))" using insert_back_chain [OF c a, of d] by blast
  obtain n where n: "ll_nodes l' a = Some n" using l'(5) by blast
  have nd: "nd_data n = d" using l'(3) n by (simp add: data_of_def)
  have np: "a \<notin> set ?ps" using c a by (simp add: chain_def)
  have "wf_list l'' \<and> ended l'' \<and> ll_ptrs l'' = ?ps @ [a] \<and> ll_list l'' = ll_list l @ [d'] \<and> dom (ll_nodes l'') = insert a (dom (ll_nodes l))"
    if eq: "l'' = l'\<lparr>ll_nodes := (ll_nodes l')(a \<mapsto> n\<lparr>nd_data := d'\<rparr>)\<rparr>" for l'' d'
  proof -
    have same: "nd_next (nd l'' p) = nd_next (nd l' p)" "nd_prev (nd l'' p) = nd_prev (nd l' p)" for p using n eq by (cases "p = a"; simp)+
    have "linked l'' (?ps @ [a])" using l'(2) same unfolding chain_def linked_def by simp
    then have ch: "chain l'' (?ps @ [a])" using l'(2,5) n eq by (auto simp: chain_def)
    have "ended l''" using l'(4) same eq unfolding ended_def by simp
    moreover have "data_of l'' (?ps @ [a]) = data_of l ?ps @ [d']" using l'(3) np eq by (auto simp: data_of_def)
    ultimately show ?thesis using wf_listI [OF ch] l'(5) eq by (auto simp: ll_list_def)
  qed
  then show ?thesis using l'(1) n nd by (intro exI [of _ l'] exI [of _ n]) (simp add: node_at_def Let_def)
qed

definition db_back :: "('z, 'f, 'more) hex_gmp_scheme \<Rightarrow> ('z, 'f) builder \<Rightarrow> ('z \<Rightarrow> int) \<Rightarrow> ('z, 'f) database \<Rightarrow> nat \<Rightarrow> bytes \<Rightarrow> bool" where
  "db_back g bd rep db m bs \<longleftrightarrow> (\<forall>a dbs r t. wf_list (dbs_list dbs) \<longrightarrow> a \<notin> dom (ll_nodes (dbs_list dbs)) \<longrightarrow> ahead r = bs @ t \<longrightarrow> t \<noteq> [] \<longrightarrow> m \<le> ga_mem r \<longrightarrow>
     (\<exists>k l db'. k \<le> m \<and> collect_database g bd (Some a) dbs r = Inr (moved r (length bs) k, Some (Some l, a, ht_count (db_data db), length bs)) \<and>
       wf_list l \<and> ended l \<and> ll_ptrs l = ll_ptrs (dbs_list dbs) @ [a] \<and> ll_list l = ll_list (dbs_list dbs) @ [db'] \<and>
       dom (ll_nodes l) = insert a (dom (ll_nodes (dbs_list dbs))) \<and> same_db rep db db'))"

lemma database_back:
  assumes bd: "roomy_builder bd" and db: "storable_db rep db" and b: "db_bytes g bd rep db m bss bs"
  shows "db_back g bd rep db (2 + (m + 1) * ht_count (db_data db)) bs"
  unfolding db_back_def
proof (intro allI impI)
  fix a and dbs :: "('a, 'b) databases" and r t
  assume l: "wf_list (dbs_list dbs)" "a \<notin> dom (ll_nodes (dbs_list dbs))" and ah: "ahead r = bs @ t" "t \<noteq> []" and mem: "2 + (m + 1) * ht_count (db_data db) \<le> ga_mem r"
  let ?es = "foreach_hashtable (db_data db)" and ?c = "ht_count (db_data db)" and ?nm = "generate_string_value (db_name db)"
  have w: "wf_table (db_data db)" using db wf_db_table by (auto simp: storable_db_def)
  have es: "length ?es = ?c" using w by (simp add: foreach_entries length_entries wf_table_def)
  have bs: "bs = le_bytes 8 ?c @ ?nm @ concat bss" "list_all2 (kv_restores m g bd rep) ?es bss" using b by (simp_all add: db_bytes_def)
  have c8: "collect_bytes 8 r = Inr (le_bytes 8 ?c, moved r 8 0)" using collect_n [of r "le_bytes 8 ?c" "?nm @ concat bss @ t" 8] ah bs(1) by simp
  have v: "le_val (le_bytes 8 ?c) = ?c" using db by (simp add: le_val_bytes storable_db_def)
  have nm: "length (db_name db) < 2 ^ 30" using db by (simp add: storable_db_def)
  have s: "collect_string (moved r 8 0) = Inr (moved r (8 + length ?nm) 1, Some (db_name db, length ?nm))"
    using collect_string_back [OF nm, of "moved r 8 0" "concat bss @ t"] ah bs(1) mem by simp
  let ?cap = "max (2 ^ get_bit_count (word_of_nat ?c)) DATABASE_INITIAL_SIZE"
  have "0 < ?cap" by (simp add: DATABASE_INITIAL_SIZE_def)
  then obtain t0 :: "(bytes, ('a, 'b) kv) hashtable" where t0: "create_hashtable True True ?cap string_hash string_compare = Some t0" "wf_table t0" "ht_map t0 = (\<lambda>_. None)"
    using create_correct [OF _ key_eq_string_compare] by blast
  let ?db = "\<lparr>db_name = db_name db, db_id = string_hash (db_name db), db_data = t0\<rparr>"
  have w0: "wf_db ?db" "db_map ?db = (\<lambda>_. None)" using t0 by (auto simp: wf_db_def wf_strings_def db_map_def create_hashtable_def split: if_splits)
  obtain l' n where p: "ll_insert_back (Some a) (dbs_list dbs) ?db = Inr (l', Some a)" "node_at l' (Some a) = Inr n" "nd_data n = ?db"
      "\<forall>d'. let l'' = l'\<lparr>ll_nodes := (ll_nodes l')(a \<mapsto> n\<lparr>nd_data := d'\<rparr>)\<rparr> in
        wf_list l'' \<and> ended l'' \<and> ll_ptrs l'' = ll_ptrs (dbs_list dbs) @ [a] \<and> ll_list l'' = ll_list (dbs_list dbs) @ [d'] \<and> dom (ll_nodes l'') = insert a (dom (ll_nodes (dbs_list dbs)))"
    using push_then_set [OF l, of ?db] by blast
  have cr: "create_database True True True True True (Some a) dbs (db_name db) ?cap = Inr (Some l', Some a)"
    using t0(1) p(1) by (cases dbs) (simp_all add: create_database_def allocate_database_def dbs_list_def ll_create_def)
  let ?r = "moved r (8 + length ?nm) 2"
  have a2: "ahead ?r = concat bss @ t" "(m + 1) * length ?es \<le> ga_mem ?r" using ah(1) bs(1) mem es by simp_all
  have none: "\<forall>e \<in> set ?es. db_map ?db (fst e) = None" using w0(2) by simp
  obtain k db' kvs where k: "k \<le> (m + 1) * length ?es" "collect_kvs g bd (length ?es) ?db (length ?nm + 8) ?r = Inr (moved ?r (length (concat bss)) k, Some (db', length ?nm + 8 + length (concat bss)))"
      "wf_db db'" "db_name db' = db_name db" "db_id db' = string_hash (db_name db)" "list_all2 (same_kv rep) (map snd ?es) kvs" "db_map db' = db_map ?db ++ map_of (zip (map fst ?es) kvs)"
    using kvs_back [OF bd bs(2) table_foreach_map(1) [OF w] none w0(1) a2(1) ah(2) a2(2), of "length ?nm + 8"] by auto
  let ?l = "l'\<lparr>ll_nodes := (ll_nodes l')(a \<mapsto> n\<lparr>nd_data := db'\<rparr>)\<rparr>"
  have "db_map db' = map_of (zip (map fst ?es) kvs)" unfolding k(7) w0(2) by (rule empty_map_add)
  then have same: "same_db rep db db'" using k(3-5) rel_map_of [OF k(6)] table_foreach_map(2) [OF w] by (simp add: same_db_def db_map_def)
  have al: "allocate (moved r (8 + length ?nm) 1) = Some ?r" using mem by (simp add: allocate_moved numeral_2_eq_2)
  have "collect_database g bd (Some a) dbs r = Inr (moved r (length bs) (2 + k), Some (Some ?l, a, ?c, length bs))"
    using c8 v s cr p(2,3) k(2) es al bs(1) by (simp add: collect_database_def Let_def add_ac)
  moreover have "wf_list ?l \<and> ended ?l \<and> ll_ptrs ?l = ll_ptrs (dbs_list dbs) @ [a] \<and> ll_list ?l = ll_list (dbs_list dbs) @ [db'] \<and> dom (ll_nodes ?l) = insert a (dom (ll_nodes (dbs_list dbs)))"
    using spec [OF p(4), of db'] by (simp only: Let_def)
  ultimately show "\<exists>k l db'. k \<le> 2 + (m + 1) * ?c \<and> collect_database g bd (Some a) dbs r = Inr (moved r (length bs) k, Some (Some l, a, ?c, length bs)) \<and>
       wf_list l \<and> ended l \<and> ll_ptrs l = ll_ptrs (dbs_list dbs) @ [a] \<and> ll_list l = ll_list (dbs_list dbs) @ [db'] \<and>
       dom (ll_nodes l) = insert a (dom (ll_nodes (dbs_list dbs))) \<and> same_db rep db db'"
    using same k(1) es by (intro exI [of _ "2 + k"] exI [of _ ?l] exI [of _ db']) simp
qed

section \<open>The file\<close>

definition is_initial :: "bytes \<Rightarrow> ('z, 'f) database linkedlist \<Rightarrow> nat option \<Rightarrow> bool" where
  "is_initial name l p \<longleftrightarrow> (case p of None \<Rightarrow> False | Some a \<Rightarrow> a \<in> set (ll_ptrs l) \<and> db_id (nd_data (nd l a)) = string_hash name)"

lemma is_initial_snoc:
  assumes "is_initial name l p" "ll_ptrs l' = ll_ptrs l @ [a]" "ll_list l' = ll_list l @ [d]"
  shows "is_initial name l' p"
proof -
  have "map (\<lambda>p. nd_data (nd l' p)) (ll_ptrs l) = map (\<lambda>p. nd_data (nd l p)) (ll_ptrs l)" using assms(2,3) by (simp add: ll_list_def data_of_def)
  then show ?thesis using assms(1,2) by (auto simp: is_initial_def split: option.splits)
qed

lemma databases_back:
  fixes fresh :: "nat \<Rightarrow> nat option"
  shows "\<lbrakk>list_all2 (\<lambda>db bs. db_back g bd rep db m bs \<and> bs \<noteq> []) ds bss; ds \<noteq> []; inj fresh; \<forall>i. \<exists>a. fresh i = Some a \<and> a \<notin> dom (ll_nodes (dbs_list dbs)); wf_list (dbs_list dbs);
      ahead r = concat bss @ t; t \<noteq> []; m * length ds \<le> ga_mem r; collected + length (concat bss) = file_size; initial \<noteq> None \<longrightarrow> is_initial name (dbs_list dbs) initial\<rbrakk> \<Longrightarrow>
    \<exists>l ds' loaded' initial'. read_databases g bd fresh file_size name collected loaded initial dbs r = Some (Inr (Some l, initial', Some loaded')) \<and>
      wf_list l \<and> ended l \<and> ll_list l = ll_list (dbs_list dbs) @ ds' \<and> list_all2 (same_db rep) ds ds' \<and> loaded' = loaded + sum_list (map (\<lambda>d. ht_count (db_data d)) ds) \<and>
      (initial \<noteq> None \<or> (\<exists>d \<in> set ds. string_hash (db_name d) = string_hash name) \<longrightarrow> is_initial name l initial')"
proof (induction ds arbitrary: bss fresh dbs r collected loaded initial)
  case (Cons d ds)
  obtain bs bss' where b: "bss = bs # bss'" "db_back g bd rep d m bs" "bs \<noteq> []" "list_all2 (\<lambda>db bs. db_back g bd rep db m bs \<and> bs \<noteq> []) ds bss'"
    using Cons.prems(1) by (auto simp: list_all2_Cons1)
  obtain a where a: "fresh 0 = Some a" "a \<notin> dom (ll_nodes (dbs_list dbs))" using Cons.prems(4) by blast
  have ah: "ahead r = bs @ concat bss' @ t" "concat bss' @ t \<noteq> []" "m \<le> ga_mem r" using Cons.prems(6-8) b(1) by simp_all
  obtain k l d' where k: "k \<le> m" "collect_database g bd (Some a) dbs r = Inr (moved r (length bs) k, Some (Some l, a, ht_count (db_data d), length bs))"
      "wf_list l" "ended l" "ll_ptrs l = ll_ptrs (dbs_list dbs) @ [a]" "ll_list l = ll_list (dbs_list dbs) @ [d']"
      "dom (ll_nodes l) = insert a (dom (ll_nodes (dbs_list dbs)))" "same_db rep d d'"
    using b(2) Cons.prems(5) a(2) ah unfolding db_back_def by blast
  let ?initial = "if db_id (nd_data (the (ll_nodes l a))) = string_hash name then Some a else initial" and ?loaded = "loaded + ht_count (db_data d)"
  have last: "nd_data (nd l a) = d'" using k(5,6) by (simp add: ll_list_def data_of_def)
  have id: "db_id d' = string_hash (db_name d)" using k(8) by (simp add: same_db_def)
  have ini: "?initial \<noteq> None \<longrightarrow> is_initial name l ?initial" 
    using Cons.prems(10) is_initial_snoc [of name "dbs_list dbs" initial l a d'] k(5,6) by (auto simp: is_initial_def)
  have some: "initial \<noteq> None \<or> string_hash (db_name d) = string_hash name \<longrightarrow> ?initial \<noteq> None" using last id by simp
  have step: "read_databases g bd fresh file_size name collected loaded initial dbs r =
      (if collected + length bs = file_size then Some (Inr (Some l, ?initial, Some ?loaded))
       else read_databases g bd (\<lambda>i. fresh (i + 1)) file_size name (collected + length bs) ?loaded ?initial (Some l) (moved r (length bs) k))"
    using a(1) k(2) by (subst read_databases.simps) simp
  show ?case
  proof (cases "ds = []")
    case True
    then have "collected + length bs = file_size" using Cons.prems(9) b(1,4) by simp
    then show ?thesis using step k(3,4,6,8) ini some True by (intro exI [of _ l] exI [of _ "[d']"] exI [of _ ?loaded] exI [of _ ?initial]) auto
  next
    case False
    have nb: "concat bss' \<noteq> []" using b(4) False by (cases ds) (auto simp: list_all2_Cons1)
    then have ne: "collected + length bs \<noteq> file_size" using Cons.prems(9) b(1) by auto
    have fr: "inj (\<lambda>i. fresh (i + 1))" using Cons.prems(3) by (auto simp: inj_def)
    have new: "\<forall>i. \<exists>c. fresh (i + 1) = Some c \<and> c \<notin> dom (ll_nodes (dbs_list (Some l)))"
    proof
      fix i
      obtain c where c: "fresh (i + 1) = Some c" "c \<notin> dom (ll_nodes (dbs_list dbs))" using Cons.prems(4) by blast
      have "c \<noteq> a" using injD [OF Cons.prems(3), of "i + 1" 0] c(1) a(1) by auto
      then show "\<exists>c. fresh (i + 1) = Some c \<and> c \<notin> dom (ll_nodes (dbs_list (Some l)))" using c k(7) by auto
    qed
    have w: "wf_list (dbs_list (Some l))" and r: "ahead (moved r (length bs) k) = concat bss' @ t" and mm: "m * length ds \<le> ga_mem (moved r (length bs) k)"
      and sz: "collected + length bs + length (concat bss') = file_size" using k(1,3) ah(1) Cons.prems(8,9) b(1) by simp_all
    have ini': "?initial \<noteq> None \<longrightarrow> is_initial name (dbs_list (Some l)) ?initial" using ini by simp
    obtain l2 ds' initial' where l2: "read_databases g bd (\<lambda>i. fresh (i + 1)) file_size name (collected + length bs) ?loaded ?initial (Some l) (moved r (length bs) k) =
          Some (Inr (Some l2, initial', Some (?loaded + sum_list (map (\<lambda>d. ht_count (db_data d)) ds))))"
        "wf_list l2" "ended l2" "ll_list l2 = ll_list (dbs_list (Some l)) @ ds'" "list_all2 (same_db rep) ds ds'"
        "?initial \<noteq> None \<or> (\<exists>d \<in> set ds. string_hash (db_name d) = string_hash name) \<longrightarrow> is_initial name l2 initial'"
      using Cons.IH [OF b(4) False fr new w r Cons.prems(7) mm sz ini', of ?loaded] by blast
    show ?thesis
    proof (intro exI conjI)
      show "read_databases g bd fresh file_size name collected loaded initial dbs r = Some (Inr (Some l2, initial', Some (?loaded + sum_list (map (\<lambda>d. ht_count (db_data d)) ds))))"
        using step ne l2(1) by (simp only: if_False)
      show "wf_list l2" "ended l2" "ll_list l2 = ll_list (dbs_list dbs) @ d' # ds'" "list_all2 (same_db rep) (d # ds) (d' # ds')" using l2(2-5) k(6,8) by simp_all
      show "?loaded + sum_list (map (\<lambda>d. ht_count (db_data d)) ds) = loaded + sum_list (map (\<lambda>d. ht_count (db_data d)) (d # ds))" by simp
      show "initial \<noteq> None \<or> (\<exists>d \<in> set (d # ds). string_hash (db_name d) = string_hash name) \<longrightarrow> is_initial name l2 initial'" using l2(6) some by auto
    qed
  qed
qed simp

text \<open>How much memory the reading of all of them takes.\<close>

lemma databases_memory:
  assumes bd: "roomy_builder bd"
  shows "\<lbrakk>list_all2 (\<lambda>db bs. \<exists>m kvs. db_bytes g bd rep db m kvs bs) ds bss; \<forall>db \<in> set ds. storable_db rep db\<rbrakk> \<Longrightarrow>
    \<exists>m. list_all2 (\<lambda>db bs. db_back g bd rep db m bs \<and> bs \<noteq> []) ds bss"
proof (induction rule: list_all2_induct)
  case (Cons d ds bs bss)
  have more: "db_back g bd rep d m bs \<Longrightarrow> m \<le> m' \<Longrightarrow> db_back g bd rep d m' bs" for d bs m m' unfolding db_back_def by (meson order.trans)
  obtain m where m: "list_all2 (\<lambda>db bs. db_back g bd rep db m bs \<and> bs \<noteq> []) ds bss" using Cons by auto
  obtain j kvs where j: "db_bytes g bd rep d j kvs bs" using Cons.hyps(1) by blast
  have "db_back g bd rep d (2 + (j + 1) * ht_count (db_data d)) bs" by (rule database_back [OF bd _ j]) (use Cons.prems in simp)
  moreover have "bs \<noteq> []" using j by (auto simp: db_bytes_def dest: arg_cong [of _ _ length])
  moreover have "list_all2 (\<lambda>db bs. db_back g bd rep db (max m (2 + (j + 1) * ht_count (db_data d))) bs \<and> bs \<noteq> []) ds bss"
    using m by (rule list_all2_mono) (meson more max.cobounded1)
  ultimately show ?case by (intro exI [of _ "max m (2 + (j + 1) * ht_count (db_data d))"]) (auto intro: more)
qed simp

lemma open_header:
  assumes bss: "concat bss \<noteq> []" and fb: "file = file_bytes age bss" "length file < length junk" and mem: "0 < mem"
  shows "open_database g bd fresh last_fresh mem name junk pjunk file =
    bind_res (flat_loop (read_databases g bd fresh (length file) name 7 0 None None \<lparr>ga_block = file @ drop (length file) junk, ga_at = 7, ga_rest = [], ga_mem = mem - 1\<rparr>))
      (\<lambda>(dbs, initial, loaded). bind_res (if loaded = None \<or> initial \<noteq> None then Inr (dbs, initial, loaded)
          else bind_res (create_initial_database last_fresh dbs name) (\<lambda>(dbs, a). Inr (dbs, a, if a = None then None else loaded)))
        (\<lambda>(dbs, initial, loaded). Inr (if loaded = None then None else Some (age, [], dbs, initial))))"
proof -
  let ?block = "file @ drop (length file) junk"
  have f: "file = [char_of (0x18 :: nat), char_of (0x10 :: nat)] @ le_bytes 4 (unat age) @ [char_of (0 :: nat)] @ concat bss"
    using fb(1) by (simp add: file_bytes_def generate_headers_def byte_def)
  have l: "7 < length file" using bss f by (cases "concat bss") simp_all
  have "le_val (le_bytes 4 (unat age)) = unat age" using unsigned_less [of age, where ?'a = nat] by (simp add: le_val_bytes)
  then have age: "word_of_nat (le_val (take 4 (drop 2 ?block))) = age" unfolding f by simp
  have head: "take 2 ?block = byte 0x18 @ byte 0x10" "?block \<noteq> []" "file \<noteq> []" unfolding f by (simp_all add: byte_def)
  have six: "mem_get ?block 6 = Inr (char_of (0 :: nat))" unfolding mem_get_def f by (simp add: nth_append)
  have seven: "7 mod length ?block = 7" using l fb(2) by simp
  have "get_authorization_from_file pjunk ?block [] = Inr ([], 7, ?block, [])"
    using six seven l by (simp add: get_authorization_from_file_def Let_def)
  moreover have "take (length junk) file @ drop (length file) junk = ?block" "drop (length junk) file = []" using fb(2) by simp_all
  ultimately show ?thesis using head age l mem
    by (simp add: open_database_def read_file_def Let_def bind_res_assoc split_def del: append_Cons cong: if_cong)
qed

lemma saved_is_opened:
  fixes fresh :: "nat \<Rightarrow> nat option"
  assumes g: "hex_ok g rep" and bd: "roomy_builder bd" and l: "wf_list l" "ended l" and dbs: "\<forall>db \<in> set (ll_list l). storable_db rep db"
    and name: "\<exists>db \<in> set (ll_list l). db_name db = name" and fresh: "inj fresh" "\<forall>i. fresh i \<noteq> None" and ok: "ok 0"
  shows "\<exists>file m. \<forall>capacity > length file.
    save_data g True True ok True capacity age [] (Some l) old = Inr (file, True) \<and>
    (\<forall>junk mem. length junk = capacity \<longrightarrow> m \<le> mem \<longrightarrow>
      (\<exists>l' initial. open_database g bd fresh last_fresh mem name junk pjunk file = Inr (Some (age, [], Some l', initial)) \<and>
        wf_list l' \<and> list_all2 (same_db rep) (ll_list l) (ll_list l') \<and> is_initial name l' initial))"
proof -
  obtain bss where bss: "list_all2 (db_saves g ok) (ll_list l) bss" "list_all2 (\<lambda>db bs. \<exists>m kvs. db_bytes g bd rep db m kvs bs) (ll_list l) bss"
    using databases_bytes [OF g bd dbs] by blast
  obtain m where m: "list_all2 (\<lambda>db bs. db_back g bd rep db m bs \<and> bs \<noteq> []) (ll_list l) bss" using databases_memory [OF bd bss(2) dbs] by blast
  let ?file = "file_bytes age bss" and ?ds = "ll_list l"
  have ne: "?ds \<noteq> []" using name by auto
  then have nb: "concat bss \<noteq> []" using m by (cases ?ds) (auto simp: list_all2_Cons1)
  have opened: "\<exists>l' initial. open_database g bd fresh last_fresh mem name junk pjunk ?file = Inr (Some (age, [], Some l', initial)) \<and>
        wf_list l' \<and> list_all2 (same_db rep) ?ds (ll_list l') \<and> is_initial name l' initial"
    if len: "length ?file < length junk" and mem: "m * length ?ds + 1 \<le> mem" for junk mem
  proof -
    let ?r = "\<lparr>ga_block = ?file @ drop (length ?file) junk, ga_at = 7, ga_rest = [], ga_mem = mem - 1\<rparr>"
    have seven: "length (generate_headers age @ byte 0) = 7" by (simp add: byte_def)
    have a: "ahead ?r = concat bss @ drop (length ?file) junk" "drop (length ?file) junk \<noteq> []"
      using len by (simp_all add: ahead_def file_bytes_def byte_def generate_headers_def)
    have sz: "7 + length (concat bss) = length ?file" using seven unfolding file_bytes_def by (metis length_append)
    have new: "\<forall>i. \<exists>a. fresh i = Some a \<and> a \<notin> dom (ll_nodes (dbs_list (None :: ('a, 'b) databases)))" using fresh(2) by (auto simp: dbs_list_None)
    have mm: "m * length ?ds \<le> ga_mem ?r" using mem by simp
    obtain l' ds' loaded initial where r: "read_databases g bd fresh (length ?file) name 7 0 None None ?r = Some (Inr (Some l', initial, Some loaded))"
        "wf_list l'" "ll_list l' = ll_list (dbs_list (None :: ('a, 'b) databases)) @ ds'" "list_all2 (same_db rep) ?ds ds'"
        "(\<exists>d \<in> set ?ds. string_hash (db_name d) = string_hash name) \<longrightarrow> is_initial name l' initial"
      using databases_back [OF m ne fresh(1) new dbs_list_None(1) a(1,2) mm sz, of None name 0] by auto
    have i: "is_initial name l' initial" using r(5) name by blast
    then have "initial \<noteq> None" by (cases initial) (simp_all add: is_initial_def)
    then show ?thesis using open_header [OF nb refl len, of mem g bd fresh last_fresh name pjunk] mem r(1-4) i by (simp add: flat_loop_def dbs_list_None)
  qed
  have "save_data g True True ok True capacity age [] (Some l) old = Inr (?file, True)" if "length ?file < capacity" for capacity
    by (rule save_data_one_block [OF l bss(1) that ok])
  then show ?thesis using opened by (intro exI [of _ ?file] exI [of _ "m * length ?ds + 1"]) blast
qed

end
