(* ===== verification/File_Limits.thy ===== *)
theory File_Limits
  imports File_Loaded
begin

text \<open>
  What the file cannot hold: a file of a block or more is never opened again, a string of 64 bytes does not fit the buffer it is
  saved from, and a key without a value is counted but not written.
\<close>

section \<open>What is left to read\<close>

definition avail :: "generic_arguments \<Rightarrow> nat" where
  "avail r = (length (ga_block r) - ga_at r) + length (ga_rest r)"

definition inside :: "generic_arguments \<Rightarrow> bool" where
  "inside r \<longleftrightarrow> ga_at r < length (ga_block r)"

definition used :: "generic_arguments \<Rightarrow> generic_arguments \<Rightarrow> nat \<Rightarrow> bool" where
  "used r r' n \<longleftrightarrow> inside r' \<and> avail r = avail r' + n"

lemma inside_avail: "inside r \<Longrightarrow> 0 < avail r"
  by (simp add: inside_def avail_def)

lemma used_trans: "\<lbrakk>used r r' n; used r' r'' m\<rbrakk> \<Longrightarrow> used r r'' (n + m)"
  by (simp add: used_def)

lemma used_inside: "used r r' n \<Longrightarrow> inside r'"
  by (simp add: used_def)

lemma used_none: "inside r \<Longrightarrow> used r r 0"
  by (simp add: used_def)

lemma blocks_used:
  "\<lbrakk>collect_blocks n r out = Inr (bs, r'); ga_at r = 0; ga_block r \<noteq> []\<rbrakk> \<Longrightarrow> used r r' n"
proof (induction n r out rule: collect_blocks.induct)
  case (1 n r out)
  show ?case
  proof (cases "length (ga_block r) \<le> n")
    case True
    then obtain s where s: "read_block r = Inr s" "collect_blocks (n - length (ga_block r)) s (out @ ga_block r) = Inr (bs, r')"
      using 1 by (subst (asm) (2) collect_blocks.simps) (auto elim!: bind_res_InrE)
    have h: "length (ga_block r) \<le> length (ga_rest r)" "s = r\<lparr>ga_block := take (length (ga_block r)) (ga_rest r), ga_rest := drop (length (ga_block r)) (ga_rest r), ga_at := 0\<rparr>"
      using s(1) by (auto simp: read_block_def Let_def assert_that_def split: if_splits)
    have "ga_block s \<noteq> []" "ga_at s = 0" using h 1(4) by auto
    then have "used s r' (n - length (ga_block r))" using 1(1) [OF _ s] True 1(4) by simp
    moreover have "avail r = avail s + length (ga_block r)" using h 1(3) by (simp add: avail_def)
    ultimately show ?thesis using True by (simp add: used_def)
  next
    case False
    then have "r' = r\<lparr>ga_at := n\<rparr>" using 1(2) by (subst (asm) collect_blocks.simps) auto
    then show ?thesis using False 1(3) by (simp add: used_def inside_def avail_def)
  qed
qed

lemma bytes_used: "\<lbrakk>collect_bytes n r = Inr (bs, r'); inside r\<rbrakk> \<Longrightarrow> used r r' n"
proof -
  assume a: "collect_bytes n r = Inr (bs, r')" "inside r"
  show ?thesis
  proof (cases "ga_at r + n < length (ga_block r)")
    case True
    then show ?thesis using a by (auto simp: collect_bytes_def used_def inside_def avail_def)
  next
    case False
    let ?m = "length (ga_block r) - ga_at r"
    obtain s where s: "read_block r = Inr s" "collect_blocks (n - ?m) s (drop (ga_at r) (ga_block r)) = Inr (bs, r')"
      using a(1) False by (auto simp: collect_bytes_def Let_def elim!: bind_res_InrE split: if_splits)
    have h: "length (ga_block r) \<le> length (ga_rest r)" "s = r\<lparr>ga_block := take (length (ga_block r)) (ga_rest r), ga_rest := drop (length (ga_block r)) (ga_rest r), ga_at := 0\<rparr>"
      using s(1) by (auto simp: read_block_def Let_def assert_that_def split: if_splits)
    have "used s r' (n - ?m)" by (rule blocks_used [OF s(2)]) (use h a(2) in \<open>auto simp: inside_def\<close>)
    moreover have "avail r = avail s + ?m" using h by (simp add: avail_def)
    ultimately show ?thesis using False by (simp add: used_def)
  qed
qed

lemma allocate_used: "\<lbrakk>allocate r = Some r'; inside r\<rbrakk> \<Longrightarrow> used r r' 0"
  by (auto simp: allocate_def used_def inside_def avail_def split: if_splits)

lemma collect_string_used:
  assumes "collect_string r = Inr (r', Some (s, n))" "inside r" shows "used r r' n"
proof -
  obtain f r1 l r2 r3 where s: "collect_bytes 1 r = Inr (f, r1)" "collect_bytes (le_val f div 64) r1 = Inr (l, r2)" "allocate r2 = Some r3"
      "collect_bytes (le_val l * 64 + le_val f mod 64) r3 = Inr (s, r')" "n = 1 + le_val f div 64 + (le_val l * 64 + le_val f mod 64)"
    using assms(1) by (auto simp: collect_string_def Let_def elim!: bind_res_InrE split: option.splits)
  note 1 = bytes_used [OF s(1) assms(2)]
  note 2 = bytes_used [OF s(2) used_inside [OF 1]]
  note 3 = allocate_used [OF s(3) used_inside [OF 2]]
  note 4 = bytes_used [OF s(4) used_inside [OF 3]]
  show ?thesis using used_trans [OF used_trans [OF used_trans [OF 1 2] 3] 4] s(5) by (simp add: add.assoc)
qed

lemma collect_integer_used:
  assumes "collect_integer g r = Inr (r', z, n)" "inside r" shows "used r r' n"
proof -
  obtain f r1 d where s: "collect_bytes 1 r = Inr (f, r1)" "collect_bytes (le_val f mod 128 + 1) r1 = Inr (d, r')" "n = 1 + (le_val f mod 128 + 1)"
    using assms(1) by (auto simp: collect_integer_def Let_def elim!: bind_res_InrE)
  note 1 = bytes_used [OF s(1) assms(2)]
  show ?thesis using used_trans [OF 1 bytes_used [OF s(2) used_inside [OF 1]]] s(3) by simp
qed

lemma collect_double_used:
  assumes "collect_double g r = Inr (r', f, n)" "inside r" shows "used r r' n"
proof -
  obtain t r1 d where s: "collect_bytes 2 r = Inr (t, r1)" "collect_bytes (code (t ! 0) mod 128 + 1) r1 = Inr (d, r')" "n = 2 + (code (t ! 0) mod 128 + 1)"
    using assms(1) by (auto simp: collect_double_def Let_def elim!: bind_res_InrE)
  note 1 = bytes_used [OF s(1) assms(2)]
  show ?thesis using used_trans [OF 1 bytes_used [OF s(2) used_inside [OF 1]]] s(3) by simp
qed

lemma collect_prim_used:
  assumes p: "collect_prim g type r = Inr (r', Some (p, n))" and i: "inside r" shows "used r r' n"
proof -
  obtain r1 where a: "allocate r = Some r1" "type \<noteq> TELLY_LIST" "type \<noteq> TELLY_HASHTABLE" "\<not> 7 < type" "type \<noteq> 0"
    using p by (auto simp: collect_prim_def elim!: bind_res_InrE split: if_splits option.splits)
  note 1 = allocate_used [OF a(1) i]
  have "used r1 r' n"
  proof -
    consider "r' = r1" "n = 0" | z where "collect_integer g r1 = Inr (r', z, n)" | f where "collect_double g r1 = Inr (r', f, n)"
      | s where "collect_string r1 = Inr (r', Some (s, n))" | b where "collect_bytes 1 r1 = Inr (b, r')" "n = 1"
      using p a by (auto simp: collect_prim_def elim!: bind_res_InrE split: if_splits)
    then show ?thesis by cases (auto intro: used_none collect_integer_used collect_double_used collect_string_used bytes_used used_inside [OF 1])
  qed
  from used_trans [OF 1 this] show ?thesis by simp
qed

lemma collect_fields_used':
  "collect_fields g bd t n r = Some y \<Longrightarrow> inside r \<longrightarrow> (\<forall>r' t' m. y = Inr (r', Some (t', m)) \<longrightarrow> (\<exists>k. used r r' k \<and> m + 1 = n + k))"
proof (induction rule: collect_fields.raw_induct [rotated, consumes 1, case_names step])
  case (step rec g bd t n r y)
  show ?case
  proof (intro impI allI)
    fix r' t' m assume i: "inside r" and y: "y = Inr (r', Some (t', m))"
    obtain c r1 where c: "collect_bytes 1 r = Inr (c, r1)" using step(2) y by (cases "collect_bytes 1 r") auto
    note u = bytes_used [OF c i]
    show "\<exists>k. used r r' k \<and> m + 1 = n + k"
    proof (cases "le_val c = 0x17")
      case True
      then have "r' = r1" "m = n" using step(2) c y by auto
      then show ?thesis using u by auto
    next
      case False
      obtain r2 name k r3 v l r4 t2 e where s: "allocate r1 = Some r2" "collect_string r2 = Inr (r3, Some (name, k))" "collect_prim g (le_val c) r3 = Inr (r4, Some (v, l))"
          "insert_into_hashtable (bd_fields bd) t name v = Inr (t2, Some e)" "rec g bd t2 (n + k + 1 + l) r4 = Some (Inr (r', Some (t', m)))"
        using step(2) c False y by (auto split: sum.splits option.splits if_splits prod.splits simp: bind_res_def)
      note a = allocate_used [OF s(1) used_inside [OF u]]
      note b = collect_string_used [OF s(2) used_inside [OF a]]
      note d = collect_prim_used [OF s(3) used_inside [OF b]]
      obtain j where j: "used r4 r' j" "m + 1 = n + k + 1 + l + j" using step(1) [OF s(5)] used_inside [OF d] by blast
      show ?thesis using used_trans [OF used_trans [OF used_trans [OF used_trans [OF u a] b] d] j(1)] j(2) by (intro exI [of _ "1 + k + l + j"]) (simp add: add.assoc)
    qed
  qed
qed

lemma collect_fields_used: "\<lbrakk>collect_fields g bd t n r = Some (Inr (r', Some (t', m))); inside r\<rbrakk> \<Longrightarrow> \<exists>k. used r r' k \<and> m + 1 = n + k"
  using collect_fields_used' by blast

lemma collect_elements_used:
  "\<lbrakk>collect_elements g bd i l n left r = Inr (r', Some (l', m)); inside r\<rbrakk> \<Longrightarrow> \<exists>k. used r r' k \<and> m + left = n + k"
proof (induction left arbitrary: i l n r)
  case 0
  then show ?case using used_none by auto
next
  case (Suc left)
  obtain r1 c r2 v k r3 l2 e where s: "allocate r = Some r1" "collect_bytes 1 r1 = Inr (c, r2)" "collect_prim g (le_val c) r2 = Inr (r3, Some (v, k))"
      "ll_insert_back (bd_node bd i) l v = Inr (l2, Some e)" "collect_elements g bd (i + 1) l2 (n + k) left r3 = Inr (r', Some (l', m))"
    using Suc.prems(1) by (auto elim!: bind_res_InrE split: option.splits if_splits)
  note a = allocate_used [OF s(1) Suc.prems(2)]
  note b = bytes_used [OF s(2) used_inside [OF a]]
  note d = collect_prim_used [OF s(3) used_inside [OF b]]
  obtain j where j: "used r3 r' j" "m + left = n + k + j" using Suc.IH [OF s(5) used_inside [OF d]] by blast
  show ?case using used_trans [OF used_trans [OF used_trans [OF a b] d] j(1)] j(2) by (intro exI [of _ "1 + k + j"]) (simp add: add.assoc)
qed

lemma collect_value_used:
  assumes v: "collect_value g bd type r = Inr (r', Some (v, n))" and i: "inside r" shows "used r r' n"
proof -
  consider (hash) "type = TELLY_HASHTABLE" | (list) "type = TELLY_LIST" "type \<noteq> TELLY_HASHTABLE" | (prim) "type \<noteq> TELLY_HASHTABLE" "type \<noteq> TELLY_LIST" by blast
  then show ?thesis
  proof cases
    case hash
    then obtain c r1 r2 t t' where s: "collect_bytes 8 r = Inr (c, r1)" "allocate r1 = Some r2" "collect_fields g bd t 9 r2 = Some (Inr (r', Some (t', n)))"
      using v by (auto simp: collect_value_def flat_loop_def of_loop_def elim!: bind_res_InrE split: option.splits)
    note a = bytes_used [OF s(1) i]
    note b = allocate_used [OF s(2) used_inside [OF a]]
    obtain k where k: "used r2 r' k" "n + 1 = 9 + k" using collect_fields_used [OF s(3) used_inside [OF b]] by blast
    then show ?thesis using used_trans [OF used_trans [OF a b] k(1)] by simp
  next
    case list
    then obtain c r1 r2 l l' where s: "collect_bytes 8 r = Inr (c, r1)" "allocate r1 = Some r2" "collect_elements g bd 0 l (8 + le_val c) (le_val c) r2 = Inr (r', Some (l', n))"
      using v by (auto simp: collect_value_def elim!: bind_res_InrE split: option.splits)
    note a = bytes_used [OF s(1) i]
    note b = allocate_used [OF s(2) used_inside [OF a]]
    obtain k where k: "used r2 r' k" "n + le_val c = 8 + le_val c + k" using collect_elements_used [OF s(3) used_inside [OF b]] by blast
    then show ?thesis using used_trans [OF used_trans [OF a b] k(1)] by simp
  next
    case prim
    then obtain p where "collect_prim g type r = Inr (r', Some (p, n))" using v by (auto simp: collect_value_def elim!: bind_res_InrE)
    then show ?thesis using collect_prim_used i by blast
  qed
qed

lemma collect_kv_used:
  assumes "collect_kv g bd r = Inr (r', Some (key, kv, n))" "inside r" shows "used r r' n"
proof -
  obtain k r1 c r2 v m r3 where s: "collect_string r = Inr (r1, Some (key, k))" "collect_bytes 1 r1 = Inr (c, r2)" "collect_value g bd (le_val c) r2 = Inr (r3, Some (v, m))"
      "allocate r3 = Some r'" "n = k + 1 + m"
    using assms(1) by (auto simp: collect_kv_def elim!: bind_res_InrE split: option.splits)
  note a = collect_string_used [OF s(1) assms(2)]
  note b = bytes_used [OF s(2) used_inside [OF a]]
  note c = collect_value_used [OF s(3) used_inside [OF b]]
  note d = allocate_used [OF s(4) used_inside [OF c]]
  show ?thesis using used_trans [OF used_trans [OF used_trans [OF a b] c] d] s(5) by simp
qed

lemma collect_kvs_used:
  "\<lbrakk>collect_kvs g bd left db n r = Inr (r', Some (db', m)); inside r\<rbrakk> \<Longrightarrow> \<exists>k. used r r' k \<and> m = n + k"
proof (induction left arbitrary: db n r)
  case 0
  then show ?case using used_none by auto
next
  case (Suc left)
  obtain r1 r2 key kv k t e where s: "allocate r = Some r1" "collect_kv g bd r1 = Inr (r2, Some (key, kv, k))"
      "insert_into_hashtable (bd_keys bd) (db_data db) key kv = Inr (t, Some e)" "collect_kvs g bd left (db\<lparr>db_data := t\<rparr>) (n + k) r2 = Inr (r', Some (db', m))"
    using Suc.prems(1) by (auto elim!: bind_res_InrE split: option.splits if_splits)
  note a = allocate_used [OF s(1) Suc.prems(2)]
  note b = collect_kv_used [OF s(2) used_inside [OF a]]
  obtain j where j: "used r2 r' j" "m = n + k + j" using Suc.IH [OF s(4) used_inside [OF b]] by blast
  show ?case using used_trans [OF used_trans [OF a b] j(1)] j(2) by (intro exI [of _ "k + j"]) (simp add: add.assoc)
qed

lemma collect_database_used:
  assumes "collect_database g bd fresh dbs r = Inr (r', Some (dbs', a, count, n))" "inside r" shows "used r r' n"
proof -
  obtain c r1 r2 name k r3 db db' where s: "collect_bytes 8 r = Inr (c, r1)" "collect_string r1 = Inr (r2, Some (name, k))" "allocate r2 = Some r3"
      "collect_kvs g bd (le_val c) db (k + 8) r3 = Inr (r', Some (db', n))"
    using assms(1) by (auto simp: collect_database_def Let_def elim!: bind_res_InrE split: option.splits)
  note a = bytes_used [OF s(1) assms(2)]
  note b = collect_string_used [OF s(2) used_inside [OF a]]
  note d = allocate_used [OF s(3) used_inside [OF b]]
  obtain j where "used r3 r' j" "n = k + 8 + j" using collect_kvs_used [OF s(4) used_inside [OF d]] by blast
  then show ?thesis using used_trans [OF used_trans [OF used_trans [OF a b] d]] by (metis add.commute add.right_neutral)
qed

lemma read_databases_used:
  "read_databases g bd fresh file_size name collected loaded initial dbs r = Some y \<Longrightarrow> inside r \<longrightarrow>
    (\<forall>dbs' i n. y = Inr (dbs', i, Some n) \<longrightarrow> file_size < collected + avail r)"
proof (induction rule: read_databases.raw_induct [rotated, consumes 1, case_names step])
  case (step rec g bd fresh file_size name collected loaded initial dbs r y)
  show ?case
  proof (intro impI allI)
    fix dbs' i n assume ins: "inside r" and y: "y = Inr (dbs', i, Some n)"
    obtain r1 l a count k where s: "collect_database g bd (fresh 0) dbs r = Inr (r1, Some (Some l, a, count, k))"
      using step(2) y by (auto split: sum.splits option.splits prod.splits)
    note u = collect_database_used [OF s ins]
    have av: "avail r = avail r1 + k" "0 < avail r1" using u inside_avail [OF used_inside [OF u]] by (simp_all add: used_def)
    let ?initial = "if db_id (nd_data (the (ll_nodes l a))) = string_hash name then Some a else initial"
    show "file_size < collected + avail r"
    proof (cases "collected + k = file_size")
      case True
      then show ?thesis using av by simp
    next
      case False
      then have "rec g bd (\<lambda>i. fresh (i + 1)) file_size name (collected + k) (loaded + count) ?initial (Some l) r1 = Some (Inr (dbs', i, Some n))"
        using step(2) s y by (simp cong: if_cong)
      then have "file_size < collected + k + avail r1" using step(1) used_inside [OF u] by blast
      then show ?thesis using av by simp
    qed
  qed
qed

section \<open>A file of a block or more\<close>

lemma never_opens:
  assumes fl: "length junk \<le> length fb" "fb ! 6 = NUL" and block: "7 < length junk"
  shows "open_database g bd fresh last_fresh mem name junk pjunk fb \<noteq> Inr (Some x)"
proof
  assume o: "open_database g bd fresh last_fresh mem name junk pjunk fb = Inr (Some x)"
  let ?block = "take (length junk) fb" and ?rest = "drop (length junk) fb"
  have b: "length ?block = length junk" "fb \<noteq> []" using fl(1) block by auto
  have six: "mem_get ?block 6 = Inr NUL" using fl block by (simp add: mem_get_def)
  have auth: "get_authorization_from_file pjunk ?block ?rest = Inr ([], 7, ?block, ?rest)"
    using six b block by (simp add: get_authorization_from_file_def Let_def)
  let ?r = "\<lparr>ga_block = ?block, ga_at = 7, ga_rest = ?rest, ga_mem = mem - 1\<rparr>"
  have tail: "drop (length fb) junk = []" using fl(1) by simp
  obtain dbs initial loaded where rf: "read_file g bd fresh last_fresh name (length fb) None ?r = Inr (dbs, initial, loaded)" "loaded \<noteq> None"
    using o auth b(2) tail by (auto simp: open_database_def Let_def elim!: bind_res_InrE split: if_splits)
  have ne: "7 \<noteq> length fb" using fl(1) block by simp
  obtain dbs' initial' n where rd: "read_databases g bd fresh (length fb) name 7 0 None None ?r = Some (Inr (dbs', initial', Some n))"
    using rf ne by (auto simp: read_file_def flat_loop_def of_loop_def elim!: bind_res_InrE split: option.splits if_splits)
  have "inside ?r" using b(1) block by (simp add: inside_def)
  then have "length fb < 7 + avail ?r" using read_databases_used [OF rd] by blast
  then show False using fl(1) block by (simp add: avail_def)
qed

section \<open>A string of 64 to 255 bytes\<close>

text \<open>\<open>get_value_size\<close> counts one byte for the length of the string, \<open>generate_string_value\<close> writes two.\<close>

lemma long_string:
  assumes "64 \<le> length v" "length v < 256"
  shows "length (generate_string_value v) = length v + 2" "string_size v = length v + 1"
proof -
  have "0 < length v div 64" "length v div 64 < 256" using assms by auto
  then show "length (generate_string_value v) = length v + 2" by (simp add: generate_string_value_def byte_count_small Let_def del: div_greater_zero_iff)
  show "string_size v = length v + 1" using assms byte_count_small [of "length v"] by (auto simp: string_size_def)
qed

lemma save_database_overflows:
  assumes one: "foreach_hashtable (db_data db) = [(key, kv)]" "kv_value kv = Prim (PStr v)" and key: "short key" and v: "64 \<le> length v" "length v < 256"
    and h: "holding capacity s out" "length out + 8 + length (generate_string_value (db_name db)) \<le> capacity"
  shows "save_database g True ok db s = Inl OutOfBounds"
proof -
  let ?h = "le_bytes 8 (ht_count (db_data db))" and ?nm = "generate_string_value (db_name db)"
  obtain s1 where s1: "fill_block s ?h = Inr s1" "holding capacity s1 (out @ ?h)" using fill_holding [OF h(1), of ?h] h(2) by auto
  obtain s2 where s2: "fill_block s1 ?nm = Inr s2" using fill_holding [OF s1(2), of ?nm] h(2) by auto
  have m: "get_maximum_keyvalue_size g [(key, kv)] 0 = Inr (1 + string_size key + string_size v)"
    using one(2) by (simp add: get_value_size_def get_prim_size_def)
  have gen: "generate_value g key (kv_value kv) = Inr (generate_string_value key @ byte 4 @ generate_string_value v, length (generate_string_value key @ byte 4 @ generate_string_value v))"
    using one(2) by (simp add: generate_value_def generate_prim_def type_code_def Let_def)
  have "1 + string_size key + string_size v < length (generate_string_value key @ byte 4 @ generate_string_value v)"
    using long_string [OF v] short_string [OF key] by simp
  then have "dump_into_file g ok (1 + string_size key + string_size v) (key, kv) s = Inl OutOfBounds" for s
    using gen by (simp add: dump_into_file_def)
  then show ?thesis using s1(1) s2 one(1) m by (simp add: save_database_def Let_def)
qed

lemma long_string_overflows:
  assumes l: "wf_list l" "ll_list l = [db]" and one: "foreach_hashtable (db_data db) = [(key, kv)]" "kv_value kv = Prim (PStr v)"
    and key: "short key" and v: "64 \<le> length v" "length v < 256" and room: "15 + length (generate_string_value (db_name db)) \<le> capacity"
  shows "save_data g True True ok True capacity age [] (Some l) old = Inl OutOfBounds"
proof -
  have c: "chain l (ll_ptrs l)" using l(1) by (simp add: wf_list_def)
  obtain a where a: "ll_ptrs l = [a]" using l(2) by (cases "ll_ptrs l") (auto simp: ll_list_def data_of_def)
  have n: "node_at l (ll_begin l) = Inr (nd l a)" "nd_data (nd l a) = db" "ll_begin l = Some a"
    using c a chain_node_at [OF c, of a] l(2) by (simp_all add: chain_def ll_list_def data_of_def)
  let ?s = "\<lparr>sv_size = 0, sv_filled = 0, sv_block = replicate capacity NUL, sv_file = [], sv_writes = 0\<rparr>" and ?h = "generate_headers age @ byte 0"
  have h0: "holding capacity ?s []" by (simp add: holding_def)
  have "length [] + length ?h \<le> capacity" using room by (simp add: byte_def)
  then obtain s1 where s1: "fill_block ?s ?h = Inr s1" "holding capacity s1 ?h" using fill_holding [OF h0, of ?h] by auto
  have "length ?h + length [] \<le> capacity" using room by (simp add: byte_def)
  then obtain s2 where s2: "fill_block s1 [] = Inr s2" "holding capacity s2 ?h" using fill_holding [OF s1(2), of "[]"] by auto
  let ?s2 = "s2\<lparr>sv_size := sv_filled s2\<rparr>"
  have h2: "holding capacity ?s2 ?h" using s2(2) by (simp add: holding_def)
  have "save_database g True ok db ?s2 = Inl OutOfBounds"
    by (rule save_database_overflows [OF one key v h2]) (use room in \<open>simp add: byte_def\<close>)
  then have "save_databases g True ok l (ll_begin l) ?s2 = Some (Inl OutOfBounds)" using n by (subst save_databases.simps) simp
  then show ?thesis using s1(1) s2(1) by (simp add: save_data_def Let_def password_byte_count_def flat_loop_def)
qed

end
