(* ===== verification/World_Samples.thy ===== *)
theory World_Samples
  imports Sessions Samples Cmd_Server File_Limits Config
begin

text \<open>Concrete states of the whole server: clients, passwords, databases, a queue, and GMP in base 16.\<close>

section \<open>The world\<close>

definition sample_client :: "nat \<Rightarrow> client" where
  "sample_client p = \<lparr>cl_id = 1, cl_connfd = 4, cl_connected_at = 0, cl_database = 10, cl_command = None, cl_subcommand = None, cl_lib_name = None,
     cl_lib_ver = None, cl_password = p, cl_protover = RESP3, cl_locked = False, cl_waiting_block = None\<rparr>"

text \<open>Two slots, and one client, whose home is slot 1.\<close>

definition sample_clients :: "client \<Rightarrow> clients" where
  "sample_clients c = \<lparr>cs_slots = [free_slot_client (sample_client 0), c], cs_count = 1, cs_next_id = 2\<rparr>"

text \<open>The three constant passwords and two others, of which one may only read.\<close>

definition sample_auth :: auth where
  "sample_auth = \<lparr>au_heap = [0 \<mapsto> \<lparr>pw_data = [], pw_permissions = all_permissions\<rparr>, 1 \<mapsto> \<lparr>pw_data = [], pw_permissions = 0\<rparr>,
       2 \<mapsto> \<lparr>pw_data = [], pw_permissions = all_permissions\<rparr>, 3 \<mapsto> \<lparr>pw_data = ''one'', pw_permissions = P_READ\<rparr>, 4 \<mapsto> \<lparr>pw_data = ''two'', pw_permissions = all_permissions\<rparr>],
     au_list = [Some 3, Some 4], au_null = False, au_kdf = True, au_default = 0, au_empty = 1, au_full = 2\<rparr>"

lemma sample_auth_simps [simp]:
  "wf_auth sample_auth" "passwords sample_auth = [\<lparr>pw_data = ''one'', pw_permissions = P_READ\<rparr>, \<lparr>pw_data = ''two'', pw_permissions = all_permissions\<rparr>]"
  "au_empty sample_auth = 1" "length (au_list sample_auth) = 2"
  by (auto simp: wf_auth_def passwords_def sample_auth_def)

definition sample_queue :: "'a tqueue" where
  "sample_queue = the (create_tqueue True True True (\<lambda>_. \<lparr>sl_seq = 0, sl_data = 0\<rparr>) (word_of_nat (2 ^ 3)) 8)"

definition queue_with :: "'a \<Rightarrow> 'a tqueue" where
  "queue_with x = (case push_tqueue sample_queue x of Inl _ \<Rightarrow> sample_queue | Inr (q, _) \<Rightarrow> q)"

lemma sample_queue_holds: "holds_list 3 0 sample_queue []"
proof -
  obtain q :: "'a tqueue" where "create_tqueue True True True (\<lambda>_. \<lparr>sl_seq = 0, sl_data = 0\<rparr>) (word_of_nat (2 ^ 3)) 8 = Some q" "fresh_tqueue 3 q"
    using create_tqueue_fresh [of 3 "\<lambda>_. \<lparr>sl_seq = 0, sl_data = 0\<rparr>"] by auto
  then show ?thesis using fresh_holds by (simp add: sample_queue_def)
qed

lemma queue_with_holds: "holds_list 3 0 (queue_with x) [x]"
  using push_holds(1) [OF sample_queue_holds, of x] by (auto simp: queue_with_def)

definition sample_world :: "client \<Rightarrow> block tqueue \<Rightarrow> ('z, 'f) database \<Rightarrow> ('z, 'f) world" where
  "sample_world c q db = \<lparr>w_clients = sample_clients c, w_auth = sample_auth, w_dbs = Some (two_list db db), w_initial = 10, w_queue = q,
     w_keyspace = \<lparr>vec_capacity = 4, vec_count = 0, vec_elements = replicate 4 None\<rparr>, w_seconds = 60, w_count = 100, w_operations = 1,
     w_saved_at = 0, w_age = 0, w_start_at = 0, w_processed = 0, w_out = []\<rparr>"

lemma sample_world_simps [simp]:
  "w_auth (sample_world c q db) = sample_auth" "w_clients (sample_world c q db) = sample_clients c" "w_queue (sample_world c q db) = q"
  "w_out (sample_world c q db) = []" "client_at (sample_world c q db) 1 = c" "client_at (sample_world c q db) (Suc 0) = c" "length (cs_slots (sample_clients c)) = 2"
  "database_at (sample_world c q db) 10 = Inr db" "wf_vector (w_keyspace (sample_world c q db))" "vec_list (w_keyspace (sample_world c q db)) = []"
  "w_operations (sample_world c q db) = 1" "w_count (sample_world c q db) = 100"
  by (simp_all add: sample_world_def client_at_def sample_clients_def database_at_def node_at_def two_list_def wf_vector_def vec_list_def)

lemma sample_connected [simp]: "connected (sample_world (sample_client p) q db) 1" "connected (sample_world ((sample_client p)\<lparr>cl_waiting_block := b\<rparr>) q db) 1"
  by (simp_all add: connected_def live_def sample_client_def)

lemma sample_clients_wf: "wf_clients (sample_clients (sample_client p))"
proof -
  let ?cs = "sample_clients (sample_client p)"
  have s: "id_slots ?cs = [None, Some (1, ())]" by (simp add: id_slots_def id_entry_def live_def sample_clients_def sample_client_def free_slot_client_def)
  have i: "in_slots (id_slots ?cs) i k u \<longleftrightarrow> i = 1 \<and> k = 1" for i k u by (auto simp: s in_slots_def less_Suc_eq)
  have "home word_of_int 2 (1 :: int) = 1" "cdist 2 1 1 = 0" by (simp_all add: home_def cdist_def)
  then have "uniq (id_slots ?cs)" "chained word_of_int {} (id_slots ?cs)" unfolding uniq_def chained_def i by (simp_all add: s numeral_2_eq_2)
  moreover have "\<forall>c \<in> set (cs_slots ?cs). live c \<longrightarrow> 0 < cl_id c \<and> cl_id c < int (unat (cs_next_id ?cs))"
    by (auto simp: sample_clients_def sample_client_def free_slot_client_def live_def)
  moreover have "cs_slots ?cs \<noteq> []" "length (cs_slots ?cs) < 2 ^ 16" "unat (cs_next_id ?cs) < 2 ^ 31" by (simp_all add: sample_clients_def)
  ultimately show ?thesis unfolding wf_clients_def by blast
qed

definition sample_genv :: "('z, 'f) genv" where
  "sample_genv = \<lparr>g_env = calm_env, g_time = Some 0, g_clock = (\<lambda>_. Some 1000), g_keys = (\<lambda>n. Some (replicate n None)), g_kdf = Some, g_ok = (\<lambda>_. True),
     g_fresh = Some 50, g_random = [], g_realtime = None, g_localtime = (\<lambda>_. \<lparr>tm_mday = 1, tm_mon = 1, tm_year = 0, tm_hour = 0, tm_min = 0, tm_sec = 0\<rparr>),
     g_saved = True, g_bgsave = BGSAVE_SUCCESSFUL, g_mtime = None, g_pid = 1, g_version = [], g_git_hash = [], g_gcc = [], g_linux = True, g_tls = False, g_max_blocks = 8\<rparr>"

lemma sample_genv_simps [simp]:
  "g_env sample_genv = calm_env" "g_time sample_genv = Some 0" "g_clock sample_genv i = Some 1000" "g_kdf sample_genv = Some" "roomy (g_keys sample_genv)"
  by (simp_all add: sample_genv_def roomy_def)

section \<open>The database file\<close>

definition int_hex :: "(int, int) hex_gmp" where
  "int_hex = gmp.extend int_gmp (hex_gmp.fields (\<lambda>z. if z = 0 then 1 else nbits (nat \<bar>z\<bar>))
     (\<lambda>z. (if z < 0 then ''-'' else []) @ hexadecimal (nat \<bar>z\<bar>)) (\<lambda>a b. a OR b) (\<lambda>a n. a * 2 ^ n) (\<lambda>_ z. (hexadecimal (nat z), 0)) (\<lambda>s. int (hex_val s)))"

lemma int_hex_ok [simp]: "hex_ok int_hex id"
  by (simp add: hex_ok_def int_hex_def int_gmp_def gmp.defs hex_gmp.defs)

definition sample_builder :: "('z, 'f) builder" where
  "sample_builder = \<lparr>bd_fields = (\<lambda>n. Some (replicate n None)), bd_keys = (\<lambda>n. Some (replicate n None)), bd_node = Some\<rparr>"

lemma sample_builder_roomy [simp]: "roomy_builder sample_builder"
  by (simp add: roomy_builder_def sample_builder_def)

lemma one_table_foreach [simp]: "foreach_hashtable (one_table k v h cmp) = [(k, v)]" "ht_count (one_table k v h cmp) = 1" "ht_capacity (one_table k v h cmp) = 1"
  "ht_hash (one_table k v h cmp) = h" "ht_compare (one_table k v h cmp) = cmp"
  by (simp_all add: foreach_entries one_table_def)

definition one_list :: "'a \<Rightarrow> 'a linkedlist" where
  "one_list x = \<lparr>ll_nodes = [10 \<mapsto> \<lparr>nd_data = x, nd_prev = None, nd_next = None\<rparr>], ll_begin = Some 10, ll_end = Some 10, ll_size = 1\<rparr>"

lemma one_list_chain: "chain (one_list x) [10]"
  by (simp add: chain_def linked_def one_list_def)

lemma one_list_simps [simp]: "wf_list (one_list x)" "ll_list (one_list x) = [x]"
  using wf_listI [OF one_list_chain, of x] by (simp_all add: data_of_def) (simp add: one_list_def)

lemma one_db_storable: "storable_db rep (one_db k v) \<longleftrightarrow> short k \<and> storable rep v \<and> short_val v"
  by (simp add: storable_db_def) (simp add: one_db_def)

lemma one_db_name [simp]: "db_name (one_db k v) = ''db0''" "foreach_hashtable (db_data (one_db k v)) = [(k, \<lparr>kv_value = v, kv_expiry = None\<rparr>)]"
  by (simp_all add: one_db_def)

definition old_db :: "bytes \<Rightarrow> ('z, 'f) val \<Rightarrow> 64 word \<Rightarrow> ('z, 'f) database" where
  "old_db k v at = (one_db k v)\<lparr>db_data := one_table k \<lparr>kv_value = v, kv_expiry = Some at\<rparr> string_hash string_compare\<rparr>"

lemma old_db_simps [simp]: "wf_db (old_db k v at)" "db_map (old_db k v at) = [k \<mapsto> \<lparr>kv_value = v, kv_expiry = Some at\<rparr>]"
  by (simp_all add: old_db_def wf_db_def wf_strings_def one_table_wf db_map_def)

definition sample_list_val :: "(int, int) val" where
  "sample_list_val = VList (two_list (PInt (- 7)) (PStr ''x''))"

definition sample_hash_val :: "(int, int) val" where
  "sample_hash_val = one_hash ''f'' (PInt 300)"

lemma sample_vals_storable [simp]: "storable id sample_list_val" "short_val sample_list_val" "storable id sample_hash_val" "short_val sample_hash_val"
proof -
  have p: "list_prim id (PInt (- 7) :: (int, int) prim)" "list_prim id (PStr ''x'' :: (int, int) prim)" "plain_prim id (PInt 300 :: (int, int) prim)" "short_prim (PStr ''x'' :: (int, int) prim)" "\<And>z. short_prim (PInt z :: (int, int) prim)" "short ''f''"
    by (simp_all add: list_prim_def plain_prim_def short_prim_def short_def)
  have "ll_size (two_list a b) < 2 ^ 64" for a b :: "(int, int) prim" by (simp add: two_list_def)
  then show "storable id sample_list_val" "short_val sample_list_val" using p by (simp_all add: sample_list_val_def storable_def short_val_def)
  show "storable id sample_hash_val" "short_val sample_hash_val" using p
    by (simp_all add: sample_hash_val_def one_hash_def storable_def short_val_def wf_strings_def one_table_wf short_def)
qed

end
