(* ===== verification/Aligned.thy ===== *)
theory Aligned
  imports Telly_Prelude
begin

text \<open>
  \<open>src/utils/memcpy_aligned.c\<close> and \<open>memset_aligned.c\<close>: copying and filling in steps of a vector register. What the
  compiler was asked for is a parameter. A block of memory is the list of its bytes; an access outside of it is
  \<open>OutOfBounds\<close>. The stores of \<open>memset_aligned\<close> need an address that is a multiple of the width of the register
  (\<open>_mm256_store_si256\<close>, \<open>_mm_store_si128\<close>), those of \<open>memcpy_aligned\<close> do not.
\<close>

datatype simd = AVX2 | SSE2 | NEON | NO_SIMD

fun vector_width :: "simd \<Rightarrow> nat" where
  "vector_width AVX2 = 32"
| "vector_width SSE2 = 16"
| "vector_width NEON = 16"
| "vector_width NO_SIMD = 1"

text \<open>Below this size the plain function is used; without vector registers it always is.\<close>

definition too_small :: "simd \<Rightarrow> nat \<Rightarrow> bool" where
  "too_small v n \<longleftrightarrow> (case v of AVX2 \<Rightarrow> n < 64 | SSE2 \<Rightarrow> n < 32 | NEON \<Rightarrow> n < 32 | NO_SIMD \<Rightarrow> True)"

definition mem_read :: "bytes \<Rightarrow> nat \<Rightarrow> nat \<Rightarrow> bytes res" where
  "mem_read m i n = (if i + n \<le> length m then Inr (take n (drop i m)) else Inl OutOfBounds)"

text \<open>\<open>memcpy(d + off, s + off, n)\<close>\<close>

definition copy_at :: "bytes \<Rightarrow> bytes \<Rightarrow> nat \<Rightarrow> nat \<Rightarrow> bytes res" where
  "copy_at d s off n = bind_res (mem_read s off n) (\<lambda>bs. mem_put d off bs)"

lemma vector_width_pos [simp]: "0 < vector_width v"
  by (cases v) simp_all

lemma vector_step: "off + vector_width v \<le> n \<Longrightarrow> n - (off + vector_width v) < n - off"
  using vector_width_pos [of v] by linarith

function copy_vectors :: "simd \<Rightarrow> bytes \<Rightarrow> bytes \<Rightarrow> nat \<Rightarrow> nat \<Rightarrow> (bytes \<times> nat) res" where
  "copy_vectors v d s n off =
     (if off + vector_width v \<le> n
      then bind_res (copy_at d s off (vector_width v)) (\<lambda>d. copy_vectors v d s n (off + vector_width v))
      else Inr (d, off))"
  by pat_completeness auto
termination
  by (relation "measure (\<lambda>(v, d, s, n, off). n - off)") (auto simp: vector_step)

declare copy_vectors.simps [simp del]

definition memcpy_aligned :: "simd \<Rightarrow> bytes \<Rightarrow> bytes \<Rightarrow> nat \<Rightarrow> bytes res" where
  "memcpy_aligned v d s n =
     (if too_small v n then copy_at d s 0 n
      else bind_res (copy_vectors v d s n 0) (\<lambda>(d, off).
        if off < n then copy_at d s off (n - off) else Inr d))"

text \<open>\<open>for (i = off; i < n; ++i) d[i] = c\<close>\<close>

function fill_bytes :: "char \<Rightarrow> nat \<Rightarrow> bytes \<Rightarrow> nat \<Rightarrow> bytes res" where
  "fill_bytes c n d i = (if i < n then bind_res (mem_put d i [c]) (\<lambda>d. fill_bytes c n d (i + 1)) else Inr d)"
  by pat_completeness auto
termination
  by (relation "measure (\<lambda>(c, n, d, i). n - i)") auto

declare fill_bytes.simps [simp del]

text \<open>\<open>address\<close> is where the block lies. A misaligned vector store is undefined (on x86 it traps).\<close>

definition store_vector :: "simd \<Rightarrow> nat \<Rightarrow> char \<Rightarrow> bytes \<Rightarrow> nat \<Rightarrow> bytes res" where
  "store_vector v address c d off =
     (if v \<in> {AVX2, SSE2} \<and> \<not> vector_width v dvd address + off then Inl Undefined
      else mem_put d off (replicate (vector_width v) c))"

function fill_vectors :: "simd \<Rightarrow> nat \<Rightarrow> char \<Rightarrow> nat \<Rightarrow> bytes \<Rightarrow> nat \<Rightarrow> (bytes \<times> nat) res" where
  "fill_vectors v address c n d off =
     (if off + vector_width v \<le> n
      then bind_res (store_vector v address c d off) (\<lambda>d. fill_vectors v address c n d (off + vector_width v))
      else Inr (d, off))"
  by pat_completeness auto
termination
  by (relation "measure (\<lambda>(v, address, c, n, d, off). n - off)") (auto simp: vector_step)

declare fill_vectors.simps [simp del]

definition memset_aligned :: "simd \<Rightarrow> nat \<Rightarrow> bytes \<Rightarrow> char \<Rightarrow> nat \<Rightarrow> bytes res" where
  "memset_aligned v address d c n =
     (if too_small v n then fill_bytes c n d 0
      else bind_res (fill_vectors v address c n d 0) (\<lambda>(d, off).
        if off < n then fill_bytes c n d off else Inr d))"

section \<open>The plain copy and the plain fill\<close>

text \<open>A block of which the first \<open>off\<close> bytes are those of \<open>s\<close>.\<close>

definition copied :: "bytes \<Rightarrow> bytes \<Rightarrow> nat \<Rightarrow> bytes" where
  "copied s d off = take off s @ drop off d"

lemma copied_0 [simp]: "copied s d 0 = d"
  by (simp add: copied_def)

lemma copy_at_copied:
  assumes "off + w \<le> length s" "off + w \<le> length d"
  shows "copy_at (copied s d off) s off w = Inr (copied s d (off + w))"
proof -
  have t: "take off s @ take w (drop off s) @ drop (off + w) d = copied s d (off + w)"
    by (simp add: take_add copied_def)
  have "mem_put (copied s d off) off (take w (drop off s)) = Inr (take off s @ take w (drop off s) @ drop (off + w) d)"
    using assms by (simp add: mem_put_def copied_def min_absorb2 add.commute)
  then show ?thesis using assms t by (simp add: copy_at_def mem_read_def)
qed

lemma copy_vectors_copied:
  "\<lbrakk>off \<le> n; n \<le> length s; n \<le> length d\<rbrakk> \<Longrightarrow>
   \<exists>k. off \<le> k \<and> k \<le> n \<and> copy_vectors v (copied s d off) s n off = Inr (copied s d k, k)"
proof (induction "n - off" arbitrary: off rule: less_induct)
  case less
  show ?case
  proof (cases "off + vector_width v \<le> n")
    case True
    have c: "copy_at (copied s d off) s off (vector_width v) = Inr (copied s d (off + vector_width v))"
      using copy_at_copied True less.prems by simp
    have "n - (off + vector_width v) < n - off" using True by (rule vector_step)
    then obtain k where "off + vector_width v \<le> k" "k \<le> n"
        "copy_vectors v (copied s d (off + vector_width v)) s n (off + vector_width v) = Inr (copied s d k, k)"
      using less.hyps True less.prems by blast
    then show ?thesis using c True by (intro exI [of _ k]) (simp add: copy_vectors.simps [of v _ s n off])
  next
    case False
    then show ?thesis using less.prems by (intro exI [of _ off]) (simp add: copy_vectors.simps [of v _ s n off])
  qed
qed

lemma memcpy_aligned_correct:
  assumes "n \<le> length s" "n \<le> length d"
  shows "memcpy_aligned v d s n = Inr (take n s @ drop n d)"
proof -
  obtain k where k: "k \<le> n" "copy_vectors v d s n 0 = Inr (copied s d k, k)"
    using copy_vectors_copied [of 0 n s d v] assms by auto
  have "k < n \<Longrightarrow> copy_at (copied s d k) s k (n - k) = Inr (copied s d n)"
    using copy_at_copied [of k "n - k" s d] assms by simp
  moreover have "copy_at d s 0 n = Inr (copied s d n)" using copy_at_copied [of 0 n s d] assms by simp
  ultimately show ?thesis using k by (auto simp: memcpy_aligned_def copied_def)
qed

lemma fill_step:
  assumes "off + w \<le> length d"
  shows "mem_put (copied (replicate (length d) c) d off) off (replicate w c) = Inr (copied (replicate (length d) c) d (off + w))"
  using assms by (simp add: mem_put_def copied_def min_absorb2 replicate_add add.commute)

lemma fill_bytes_copied:
  "\<lbrakk>i \<le> n; n \<le> length d\<rbrakk> \<Longrightarrow> fill_bytes c n (copied (replicate (length d) c) d i) i = Inr (copied (replicate (length d) c) d n)"
proof (induction "n - i" arbitrary: i)
  case 0
  then show ?case by (simp add: fill_bytes.simps)
next
  case (Suc k)
  then show ?case using fill_step [of i 1 d c] by (simp add: fill_bytes.simps [of c n _ i])
qed

lemma fill_vectors_copied:
  "\<lbrakk>off \<le> n; n \<le> length d; v \<in> {AVX2, SSE2} \<longrightarrow> vector_width v dvd address + off\<rbrakk> \<Longrightarrow>
   \<exists>k. off \<le> k \<and> k \<le> n \<and> fill_vectors v address c n (copied (replicate (length d) c) d off) off = Inr (copied (replicate (length d) c) d k, k)"
proof (induction "n - off" arbitrary: off rule: less_induct)
  case less
  let ?w = "vector_width v" and ?m = "copied (replicate (length d) c) d"
  show ?case
  proof (cases "off + ?w \<le> n")
    case True
    have c: "store_vector v address c (?m off) off = Inr (?m (off + ?w))"
      using fill_step [of off ?w d c] True less.prems by (auto simp: store_vector_def)
    have a: "v \<in> {AVX2, SSE2} \<longrightarrow> ?w dvd address + (off + ?w)"
      using less.prems(3) by (simp add: add.assoc [symmetric])
    have "n - (off + ?w) < n - off" using True by (rule vector_step)
    then obtain k where "off + ?w \<le> k" "k \<le> n" "fill_vectors v address c n (?m (off + ?w)) (off + ?w) = Inr (?m k, k)"
      using less.hyps [OF _ True less.prems(2) a] by blast
    then show ?thesis using c True by (intro exI [of _ k]) (simp add: fill_vectors.simps [of v address c n _ off])
  next
    case False
    then show ?thesis using less.prems by (intro exI [of _ off]) (simp add: fill_vectors.simps [of v address c n _ off])
  qed
qed

lemma memset_aligned_correct:
  assumes n: "n \<le> length d"
  shows "memset_aligned v address d c n =
    (if too_small v n \<or> v \<notin> {AVX2, SSE2} \<or> vector_width v dvd address then Inr (replicate n c @ drop n d) else Inl Undefined)"
proof (cases "too_small v n")
  case True
  then show ?thesis using fill_bytes_copied [of 0 n d c] n by (simp add: memset_aligned_def copied_def min_def)
next
  case big: False
  show ?thesis
  proof (cases "v \<in> {AVX2, SSE2} \<longrightarrow> vector_width v dvd address")
    case True
    then obtain k where k: "k \<le> n" "fill_vectors v address c n d 0 = Inr (copied (replicate (length d) c) d k, k)"
      using fill_vectors_copied [of 0 n d v address c] n by auto
    show ?thesis
      using big True k fill_bytes_copied [of k n d c] n by (auto simp: memset_aligned_def copied_def min_def)
  next
    case False
    then have "fill_vectors v address c n d 0 = Inl Undefined"
      using big by (auto simp: fill_vectors.simps [of v address c n d 0] store_vector_def too_small_def)
    then show ?thesis using big False by (auto simp: memset_aligned_def)
  qed
qed

end
