(* ===== verification/Reading.thy ===== *)
theory Reading
  imports Multi Resp_Parse
begin

text \<open>
  \<open>read_command\<close> of \<open>src/server/read_command.c\<close>: the loop that reads what a client sent into its query buffer, parses one
  command after the other and hands them over. The buffer belongs to the client and to the transactions that wait with
  pointers into it; \<open>rv_shared\<close> says, at each point where the code asks, whether such a transaction is left, in which
  case the client gets a new buffer. The arguments of a command are the memory of the buffer at the time it is handed over.
\<close>

record read_env =
  rv_ssl :: bool
  rv_realloc :: allocator
  rv_args :: "nat \<Rightarrow> bool"
  rv_shared :: "nat \<Rightarrow> bool"
  rv_new :: "nat \<Rightarrow> bytes option"     \<comment> \<open>what a new buffer holds\<close>
  rv_ok1 :: "nat \<Rightarrow> bool"
  rv_ok2 :: "nat \<Rightarrow> bool"

definition RESP_BUF_SIZE :: nat where
  "RESP_BUF_SIZE = 4096"

definition own_buffer :: "read_env \<Rightarrow> nat \<Rightarrow> reader \<Rightarrow> reader res" where
  "own_buffer e n rd =
     (if \<not> rv_shared e n then Inr rd
      else case rv_new e n of None \<Rightarrow> Inl NullDeref
      | Some d \<Rightarrow> Inr (rd\<lparr>rd_data := d, rd_size := word_of_nat RESP_BUF_SIZE\<rparr>))"

text \<open>\<open>size = read_from_socket(client, data, size); at = 0\<close>; \<open>size\<close> is -1 after an error.\<close>

definition fill_buffer :: "read_env \<Rightarrow> reader \<Rightarrow> reader res" where
  "fill_buffer e rd =
     bind_res (read_from_socket (rv_ssl e) (rd_sock rd) (unat (rd_size rd))) (\<lambda>(bs, ev, failed).
     bind_res (mem_put (rd_data rd) 0 bs) (\<lambda>d.
       Inr (rd\<lparr>rd_data := d, rd_sock := ev, rd_at := 0, rd_used := (if failed then - 1 else word_of_nat (length bs))\<rparr>)))"

text \<open>
  Behind a command: at the end of the data the loop ends, unless the buffer is full; then it is read again before the command
  is handed over. The second reader is the memory the command points into: the old buffer when the client got a new one, else
  the buffer with the new data in it.
\<close>

definition after_command :: "read_env \<Rightarrow> nat \<Rightarrow> reader \<Rightarrow> (reader \<times> reader) res" where
  "after_command e n rd =
     (if rd_used rd \<noteq> rd_at rd then Inr (rd, rd)
      else if rd_used rd \<noteq> rd_size rd then Inr (rd\<lparr>rd_used := - 1\<rparr>, rd)
      else bind_res (own_buffer e n rd) (\<lambda>rd1.
           bind_res (fill_buffer e rd1) (\<lambda>rd2. Inr (rd2, if rv_shared e n then rd else rd2))))"

partial_function (option) read_loop ::
  "read_env \<Rightarrow> ('z, 'f) handler list \<Rightarrow> nat \<Rightarrow> nat \<Rightarrow> reader \<Rightarrow> ('z, 'f) world \<Rightarrow> (reader \<times> ('z, 'f) world) res option" where
  "read_loop e commands i n rd w =
     (if rd_used rd = - 1 then Some (Inr (rd, w))
      else case get_command_data (rv_ssl e) (rv_realloc e) (rv_args e) rd of
        Inl f \<Rightarrow> Some (Inl f)
      | Inr r \<Rightarrow> (case snd r of
          None \<Rightarrow> read_loop e commands i n (fst r) w
        | Some cd \<Rightarrow> (case after_command e n (fst r) of
            Inl f \<Rightarrow> Some (Inl f)
          | Inr a \<Rightarrow> (case hand_over_command (rv_ok1 e n) (rv_ok2 e n) commands i (str_bytes (resolve (snd a) (cd_name cd)))
                  (map (resolve (snd a)) (cd_args cd)) w of
              Inl f \<Rightarrow> Some (Inl f)
            | Inr h \<Rightarrow> if snd h then read_loop e commands i (Suc n) (fst a) (fst h) else Some (Inr (fst a, fst h))))))"

text \<open>A loop of which every turn may fail.\<close>

definition run_loop :: "'a res option \<Rightarrow> 'a res" where
  "run_loop x = (case x of None \<Rightarrow> Inl Endless | Some r \<Rightarrow> r)"

text \<open>The last result: whether the connection is to be terminated, because nothing at all could be read.\<close>

definition read_command ::
  "read_env \<Rightarrow> ('z, 'f) handler list \<Rightarrow> nat \<Rightarrow> reader \<Rightarrow> ('z, 'f) world \<Rightarrow> (reader \<times> ('z, 'f) world \<times> bool) res" where
  "read_command e commands i rd w =
     bind_res (own_buffer e 0 rd) (\<lambda>rd.
     bind_res (fill_buffer e rd) (\<lambda>rd.
       if rd_used rd = 0 then Inr (rd, w, True)
       else bind_res (run_loop (read_loop e commands i 1 rd w)) (\<lambda>(rd, w). Inr (rd, w, False))))"

section \<open>Pipelined commands\<close>

text \<open>A plain environment: no TLS, allocations succeed, no transaction holds the buffer.\<close>

definition calm_read :: "read_env \<Rightarrow> bool" where
  "calm_read e \<longleftrightarrow> \<not> rv_ssl e \<and> (\<forall>n. rv_args e n \<and> \<not> rv_shared e n \<and> rv_ok1 e n \<and> rv_ok2 e n)"

text \<open>A command as it was parsed is the one that was sent: its name, and strings with the bytes of its arguments, which line ends follow in memory.\<close>

definition as_sent :: "bytes \<times> string_t list \<Rightarrow> bytes \<times> bytes list \<Rightarrow> bool" where
  "as_sent c s \<longleftrightarrow> fst c = fst s \<and> list_all2 (\<lambda>a b. \<exists>rest. a = arg b (CRLF @ rest)) (snd c) (snd s)"

definition encode_all :: "(bytes \<times> bytes list) list \<Rightarrow> bytes" where
  "encode_all cs = concat (map (\<lambda>c. encode_command (fst c) (snd c)) cs)"

lemma encode_command_length: "0 < length (encode_command name args)"
  by (simp add: encode_command_def)

lemma advance_at:
  assumes "ready rd (s @ t)"
  shows "unat (rd_at (advance rd (length s))) = unat (rd_at rd) + length s"
  using assms by (simp add: advance_def ready_def unat_add_small)

lemma small_not_error:
  assumes "unat (a :: 32 word) < 2 ^ 31" shows "a \<noteq> - 1"
proof
  assume "a = - 1"
  then have "unat a = 2 ^ 32 - 1" by (simp add: unsigned_minus_1_eq_mask mask_eq_exp_minus_1)
  then show False using assms by simp
qed

lemma read_loop_pipeline:
  assumes e: "calm_read e" and sz: "unat (rd_used rd) < unat (rd_size rd)"
  shows "\<lbrakk>ready rd (encode_all cs); cs \<noteq> []; unat (rd_used rd) = unat (rd_at rd) + length (encode_all cs)\<rbrakk> \<Longrightarrow>
    \<exists>cs' rd'. list_all2 as_sent cs' cs \<and> rd_sock rd' = rd_sock rd \<and> rd_size rd' = rd_size rd \<and> rd_data rd' = rd_data rd \<and>
      (\<forall>w. run_loop (read_loop e commands i n rd w) = bind_res (hand_over_all commands i cs' w) (\<lambda>w. Inr (rd', w)))"
  using sz
proof (induction cs arbitrary: rd n)
  case (Cons c cs)
  let ?k = "length (encode_command (fst c) (snd c))"
  let ?rd = "advance rd ?k"
  have r: "ready rd (encode_command (fst c) (snd c) @ encode_all cs)" using Cons.prems(1) by (simp add: encode_all_def)
  have args_ok: "rv_args e m" for m using e by (simp add: calm_read_def)
  obtain cd where cd: "get_command_data (rv_ssl e) (rv_realloc e) (rv_args e) rd = accept ?rd cd"
      "is_slice rd (cd_name cd) (fst c)" "list_all2 (is_slice rd) (cd_args cd) (snd c)"
    using get_command_data_ready [where args_ok = "rv_args e", OF r args_ok] by blast
  let ?c = "(fst c, map (resolve ?rd) (cd_args cd))"
  have name: "str_bytes (resolve ?rd (cd_name cd)) = fst c" using cd(2) by (auto simp: is_slice_def resolve_def)
  have sent: "as_sent ?c c"
    using cd(3) by (auto simp: as_sent_def is_slice_def resolve_def list_all2_conv_all_nth)
  have small: "unat (rd_used rd) < 2 ^ 31" using Cons.prems(1) by (simp add: ready_def)
  have used: "rd_used rd \<noteq> - 1" using small by (rule small_not_error)
  have at: "unat (rd_at ?rd) = unat (rd_at rd) + ?k" by (rule advance_at [OF r])
  have total: "unat (rd_used rd) = unat (rd_at ?rd) + length (encode_all cs)" using Cons.prems(3) at by (simp add: encode_all_def)
  have ok: "rv_ok1 e n" "rv_ok2 e n" "\<not> rv_shared e n" using e by (simp_all add: calm_read_def)
  have step: "run_loop (read_loop e commands i n rd w) =
      bind_res (hand_over True True commands i (fst c) (map (resolve ?rd) (cd_args cd)) w) (\<lambda>w. run_loop (read_loop e commands i (Suc n) rd1 w))"
    if "after_command e n ?rd = Inr (rd1, ?rd)" for rd1 w
    using used cd(1) that ok name hand_over_goes_on [of commands i "fst c" "map (resolve ?rd) (cd_args cd)" w]
    by (subst read_loop.simps) (auto simp: accept_def bind_res_def run_loop_def split: sum.splits)
  show ?case
  proof (cases "cs = []")
    case True
    have eq: "rd_used ?rd = rd_at ?rd" using total True by (simp add: encode_all_def word_unat_eq_iff)
    have ne: "rd_used rd \<noteq> rd_size rd" using Cons.prems(4) by auto
    let ?rd1 = "?rd\<lparr>rd_used := - 1\<rparr>"
    have a: "after_command e n ?rd = Inr (?rd1, ?rd)" using eq ne by (simp add: after_command_def)
    have l: "run_loop (read_loop e commands i m ?rd1 w) = Inr (?rd1, w)" for m w by (subst read_loop.simps) (simp add: run_loop_def)
    have "run_loop (read_loop e commands i n rd w) = bind_res (hand_over_all commands i [?c] w) (\<lambda>w. Inr (?rd1, w))" for w
      using step [OF a, of w] by (simp add: l bind_res_assoc)
    moreover have "list_all2 as_sent [?c] (c # cs)" using sent True by simp
    moreover have "rd_sock ?rd1 = rd_sock rd" "rd_size ?rd1 = rd_size rd" "rd_data ?rd1 = rd_data rd" by simp_all
    ultimately show ?thesis by blast
  next
    case False
    have pos: "0 < length (encode_all cs)" using False encode_command_length by (cases cs) (auto simp: encode_all_def)
    have ne: "rd_used ?rd \<noteq> rd_at ?rd" using total pos by auto
    have a: "after_command e n ?rd = Inr (?rd, ?rd)" using ne by (simp add: after_command_def)
    have r1: "ready ?rd (encode_all cs)" by (rule ready_advance [OF r])
    have u1: "unat (rd_used ?rd) = unat (rd_at ?rd) + length (encode_all cs)" "unat (rd_used ?rd) < unat (rd_size ?rd)"
      using total Cons.prems(4) by simp_all
    obtain cs' rd' where h: "list_all2 as_sent cs' cs"
        "\<And>w. run_loop (read_loop e commands i (Suc n) ?rd w) = bind_res (hand_over_all commands i cs' w) (\<lambda>w. Inr (rd', w))"
        "rd_sock rd' = rd_sock ?rd" "rd_size rd' = rd_size ?rd" "rd_data rd' = rd_data ?rd"
      using Cons.IH [OF r1 False u1] by blast
    have "run_loop (read_loop e commands i n rd w) = bind_res (hand_over_all commands i (?c # cs') w) (\<lambda>w. Inr (rd', w))" for w
      using step [OF a, of w] by (simp add: h(2) bind_res_assoc)
    then show ?thesis using sent h(1,3,4,5) by (intro exI [of _ "?c # cs'"] exI [of _ rd']) auto
  qed
qed simp

text \<open>
  Everything that arrives in one piece, and does not fill the buffer, is handed over: the commands, in the order in which they were
  sent, and nothing else.
\<close>

lemma read_command_pipeline:
  assumes e: "calm_read e" and cs: "cs \<noteq> []" and sock: "rd_sock rd = Recv (encode_all cs) # Again # ev"
    and fits: "length (encode_all cs) < unat (rd_size rd)" "unat (rd_size rd) \<le> length (rd_data rd)" "unat (rd_size rd) < 2 ^ 31"
  shows "\<exists>cs' rd'. list_all2 as_sent cs' cs \<and> rd_sock rd' = ev \<and> rd_size rd' = rd_size rd \<and> length (rd_data rd') = length (rd_data rd) \<and>
    (\<forall>w. read_command e commands i rd w = bind_res (hand_over_all commands i cs' w) (\<lambda>w. Inr (rd', w, False)))"
proof -
  let ?n = "length (encode_all cs)"
  have pos: "0 < ?n" using cs encode_command_length by (cases cs) (auto simp: encode_all_def)
  have own: "own_buffer e 0 rd = Inr rd" using e by (simp add: own_buffer_def calm_read_def)
  have r: "read_from_socket False (rd_sock rd) (unat (rd_size rd)) = Inr (encode_all cs, ev, False)"
    using sock fits(1) pos by (simp add: read_from_socket.simps)
  let ?rd = "rd\<lparr>rd_data := encode_all cs @ drop ?n (rd_data rd), rd_sock := ev, rd_at := 0, rd_used := word_of_nat ?n\<rparr>"
  have f: "fill_buffer e rd = Inr ?rd" using r e fits by (simp add: fill_buffer_def calm_read_def mem_put_def)
  have u: "unat (word_of_nat ?n :: 32 word) = ?n" using fits by (simp add: unat_of_nat)
  have nz: "(word_of_nat ?n :: 32 word) \<noteq> 0" using u pos by auto
  have rdy: "ready ?rd (encode_all cs)" using fits u by (simp add: ready_def)
  have less: "unat (rd_used ?rd) < unat (rd_size ?rd)" and total: "unat (rd_used ?rd) = unat (rd_at ?rd) + length (encode_all cs)"
    using u fits by simp_all
  obtain cs' rd' where h: "list_all2 as_sent cs' cs"
      "\<And>w. run_loop (read_loop e commands i 1 ?rd w) = bind_res (hand_over_all commands i cs' w) (\<lambda>w. Inr (rd', w))"
      "rd_sock rd' = rd_sock ?rd" "rd_size rd' = rd_size ?rd" "rd_data rd' = rd_data ?rd"
    using read_loop_pipeline [OF e less rdy cs total] by blast
  have "read_command e commands i rd w = bind_res (hand_over_all commands i cs' w) (\<lambda>w. Inr (rd', w, False))" for w
    using own f nz h(2) [of w] by (simp add: read_command_def bind_res_assoc)
  moreover have "rd_sock rd' = ev" "rd_size rd' = rd_size rd" "length (rd_data rd') = length (rd_data rd)" using h(3-5) fits by simp_all
  ultimately show ?thesis using h(1) by blast
qed

text \<open>
  A second notice about data that is gone already: the read answers that there is nothing at the moment, and
  the code takes the answer for the end of the connection.
\<close>

lemma read_command_drained:
  assumes "calm_read e" "rd_sock rd = Again # ev" "rd_size rd \<noteq> 0"
  shows "read_command e commands i rd w = Inr (rd\<lparr>rd_sock := ev, rd_at := 0, rd_used := 0\<rparr>, w, True)"
  using assms by (simp add: read_command_def own_buffer_def fill_buffer_def calm_read_def read_from_socket.simps mem_put_def unat_eq_0)

section \<open>From the socket to the transaction thread\<close>

definition known :: "('z, 'f) handler list \<Rightarrow> bytes \<Rightarrow> bool" where
  "known commands name \<longleftrightarrow> get_command_index commands name 0 \<noteq> None"

text \<open>The block of one command outside of \<open>MULTI\<close>.\<close>

definition direct_block :: "('z, 'f) handler list \<Rightarrow> nat \<Rightarrow> client \<Rightarrow> bytes \<times> string_t list \<Rightarrow> block" where
  "direct_block commands i c s = \<lparr>bk_type = TX_DIRECT, bk_client = i, bk_password = cl_password c,
     bk_transactions = [\<lparr>tx_args = snd s, tx_command = the (get_command_index commands (fst s) 0), tx_database = cl_database c\<rparr>]\<rparr>"

lemma direct_block_in_block [simp]: "direct_block commands i (in_block c cmd sub bk) = direct_block commands i c"
  by (simp add: direct_block_def fun_eq_iff)

lemma hand_over_free:
  assumes i: "connected w i" and l: "\<not> cl_locked (client_at w i)" "cl_waiting_block (client_at w i) = None"
    and k: "known commands (fst s)" and q: "holds_list n A (w_queue w) bks" "length bks < 2 ^ n"
  shows "\<exists>cmd sub q'. hand_over True True commands i (fst s) (snd s) w =
      Inr ((set_client w i (in_block (client_at w i) cmd sub None))\<lparr>w_queue := q'\<rparr>) \<and>
    holds_list n A q' (bks @ [direct_block commands i (client_at w i) s])"
proof -
  obtain j where j: "get_command_index commands (fst s) 0 = Some j" using k by (auto simp: known_def)
  obtain cmd sub where u: "get_used_command (commands ! j) (snd s) (client_at w i) = in_block (client_at w i) cmd sub None"
    using get_used_command_block l(2) by metis
  obtain q' c where "push_tqueue (w_queue w) (direct_block commands i (client_at w i) s) = Inr (q', Some c)"
      "holds_list n A q' (bks @ [direct_block commands i (client_at w i) s])"
    using push_holds(1) [OF q] by blast
  then show ?thesis
    by (intro exI [of _ cmd] exI [of _ sub] exI [of _ q'])
      (use i l j u in \<open>simp add: hand_over_def hand_over_command_def add_transaction_def prepare_transaction_def connected_def direct_block_def Let_def\<close>)
qed

lemma hand_over_all_free:
  "\<lbrakk>connected w i; \<not> cl_locked (client_at w i); cl_waiting_block (client_at w i) = None; \<forall>s \<in> set cs. known commands (fst s);
    holds_list n A (w_queue w) bks; length bks + length cs \<le> 2 ^ n\<rbrakk> \<Longrightarrow>
   \<exists>cmd sub q'. hand_over_all commands i cs w = Inr ((set_client w i (in_block (client_at w i) cmd sub None))\<lparr>w_queue := q'\<rparr>) \<and>
     holds_list n A q' (bks @ map (direct_block commands i (client_at w i)) cs)"
proof (induction cs arbitrary: w bks)
  case Nil
  have "set_client w i (in_block (client_at w i) (cl_command (client_at w i)) (cl_subcommand (client_at w i)) None) = w"
    using Nil.prems(1,3) by (simp add: in_block_def set_client_def client_at_def list_update_same_conv connected_def)
  then show ?case using Nil.prems(5)
    by (intro exI [of _ "cl_command (client_at w i)"] exI [of _ "cl_subcommand (client_at w i)"] exI [of _ "w_queue w"]) simp
next
  case (Cons s cs)
  let ?c = "client_at w i"
  obtain cmd sub q1 where h: "hand_over True True commands i (fst s) (snd s) w = Inr ((set_client w i (in_block ?c cmd sub None))\<lparr>w_queue := q1\<rparr>)"
      "holds_list n A q1 (bks @ [direct_block commands i ?c s])"
    using hand_over_free [OF Cons.prems(1-3) _ Cons.prems(5), of commands s] Cons.prems(4,6) by auto
  let ?w = "(set_client w i (in_block ?c cmd sub None))\<lparr>w_queue := q1\<rparr>"
  have i: "i < length (cs_slots (w_clients w))" using Cons.prems(1) by (simp add: connected_def)
  have cw: "client_at ?w i = in_block ?c cmd sub None" using i by simp
  have cn: "connected ?w i" using Cons.prems(1) i by (simp add: connected_def)
  obtain cmd' sub' q' where t: "hand_over_all commands i cs ?w = Inr ((set_client ?w i (in_block (client_at ?w i) cmd' sub' None))\<lparr>w_queue := q'\<rparr>)"
      "holds_list n A q' ((bks @ [direct_block commands i ?c s]) @ map (direct_block commands i (client_at ?w i)) cs)"
    using Cons.IH [of ?w "bks @ [direct_block commands i ?c s]"] Cons.prems cn cw h(2) by auto
  show ?case using h(1) t i unfolding cw
    by (intro exI [of _ cmd'] exI [of _ sub'] exI [of _ q']) (simp add: bind_res_def)
qed

lemma commands_reach_queue:
  assumes e: "calm_read e" and cs: "cs \<noteq> []" and sock: "rd_sock rd = Recv (encode_all cs) # Again # ev"
    and fits: "length (encode_all cs) < unat (rd_size rd)" "unat (rd_size rd) \<le> length (rd_data rd)" "unat (rd_size rd) < 2 ^ 31"
    and i: "connected w i" "\<not> cl_locked (client_at w i)" "cl_waiting_block (client_at w i) = None"
    and k: "\<forall>s \<in> set cs. known commands (fst s)" and q: "holds_list n A (w_queue w) bks" "length bks + length cs \<le> 2 ^ n"
  shows "\<exists>cs' rd' cmd sub q'. list_all2 as_sent cs' cs \<and> rd_sock rd' = ev \<and> rd_size rd' = rd_size rd \<and> length (rd_data rd') = length (rd_data rd) \<and>
    read_command e commands i rd w = Inr (rd', (set_client w i (in_block (client_at w i) cmd sub None))\<lparr>w_queue := q'\<rparr>, False) \<and>
    holds_list n A q' (bks @ map (direct_block commands i (client_at w i)) cs')"
proof -
  obtain cs' rd' where r: "list_all2 as_sent cs' cs" "rd_sock rd' = ev" "rd_size rd' = rd_size rd" "length (rd_data rd') = length (rd_data rd)"
      and run: "\<And>w. read_command e commands i rd w = bind_res (hand_over_all commands i cs' w) (\<lambda>w. Inr (rd', w, False))"
    using read_command_pipeline [OF e cs sock fits] by blast
  have "map fst cs' = map fst cs" using r(1) by (induction rule: list_all2_induct) (simp_all add: as_sent_def)
  then have "fst ` set cs' = fst ` set cs" by (metis list.set_map)
  then have "\<forall>s \<in> set cs'. known commands (fst s)" using k by (metis (no_types, lifting) imageE imageI)
  moreover have "length bks + length cs' \<le> 2 ^ n" using q(2) list_all2_lengthD [OF r(1)] by simp
  ultimately obtain cmd sub q' where "hand_over_all commands i cs' w = Inr ((set_client w i (in_block (client_at w i) cmd sub None))\<lparr>w_queue := q'\<rparr>)"
      "holds_list n A q' (bks @ map (direct_block commands i (client_at w i)) cs')"
    using hand_over_all_free [OF i _ q(1)] by blast
  then show ?thesis using r run [of w] by auto
qed

end
