(* ===== verification/IO_Threads.thy ===== *)
theory IO_Threads
  imports Reading
begin

text \<open>
  The I/O threads: \<open>src/io\<close>, \<open>src/utils/notifier.c\<close> (its Linux part), \<open>write_to_socket\<close> of \<open>src/server/utils.c\<close>, and
  \<open>src/server/events.c\<close>, which accepts connections and turns what \<open>epoll\<close> reports into requests. A request waits in the queue of the thread
  that the id of the client selects; a notifier counts the requests.
\<close>

section \<open>Notifiers\<close>

text \<open>
  An \<open>eventfd\<close> that does not block: a write of the largest number is invalid, and one that would reach it fails; a read of a zero counter
  fails. \<open>ASSERT\<close> wants both to work.
\<close>

definition signal_notifier :: "nat \<Rightarrow> 64 word \<Rightarrow> nat res" where
  "signal_notifier counter n =
     bind_res (assert_that (n \<noteq> - 1 \<and> counter + unat n < 2 ^ 64 - 1)) (\<lambda>_. Inr (counter + unat n))"

definition consume_notifier :: "nat \<Rightarrow> (nat \<times> nat) res" where
  "consume_notifier counter = bind_res (assert_that (counter \<noteq> 0)) (\<lambda>_. Inr (0, counter))"

section \<open>Threads and requests\<close>

datatype io_op = IOOP_READ nat | IOOP_WRITE nat bytes | IOOP_TERMINATE nat

fun op_client :: "io_op \<Rightarrow> nat" where
  "op_client (IOOP_READ i) = i"
| "op_client (IOOP_WRITE i bs) = i"
| "op_client (IOOP_TERMINATE i) = i"

datatype io_status = IO_THREAD_ACTIVE | IO_THREAD_PENDING_DESTROY | IO_THREAD_DESTROYED

record io_thread =
  it_queue :: "io_op tqueue"
  it_signals :: nat
  it_status :: io_status

text \<open>What starting one thread meets: its notifier, its queue, its arena, and whether \<open>pthread_create\<close> answers \<open>EAGAIN\<close>.\<close>

record start_env =
  se_notifier :: bool
  se_queue :: "io_op tqueue option"
  se_arena :: bool
  se_again :: bool

definition initialize_thread :: "start_env \<Rightarrow> io_thread option" where
  "initialize_thread e = (if \<not> se_notifier e \<or> se_queue e = None \<or> \<not> se_arena e then None
     else Some \<lparr>it_queue = the (se_queue e), it_signals = 0, it_status = IO_THREAD_ACTIVE\<rparr>)"

fun start_threads :: "(nat \<Rightarrow> start_env) \<Rightarrow> nat \<Rightarrow> io_thread list" where
  "start_threads e 0 = []"
| "start_threads e (Suc n) = (case initialize_thread (e 0) of None \<Rightarrow> []
     | Some th \<Rightarrow> if se_again (e 0) then [] else th # start_threads (\<lambda>i. e (i + 1)) n)"

text \<open>
  The array has a place for every processor but one, two at least, and its length is what the server keeps, however many threads
  could be started: the places behind them (\<open>None\<close>) were never written.
\<close>

definition create_io_threads :: "bool \<Rightarrow> nat \<Rightarrow> (nat \<Rightarrow> start_env) \<Rightarrow> io_thread option list option" where
  "create_io_threads ok processors e =
     (if \<not> ok then None
      else let count = max (processors - 1) 2; started = start_threads e count in
        Some (map Some started @ replicate (count - length started) None))"

text \<open>The server with its I/O threads. \<open>iw_readers\<close> is the query buffer and the socket of every client.\<close>

record ('z, 'f) io_world =
  iw_world :: "('z, 'f) world"
  iw_threads :: "io_thread option list"
  iw_readers :: "nat \<Rightarrow> reader"

definition thread_at :: "('z, 'f) io_world \<Rightarrow> nat \<Rightarrow> io_thread res" where
  "thread_at iw k = (case iw_threads iw ! k of None \<Rightarrow> Inl Undefined | Some th \<Rightarrow> Inr th)"

definition set_thread :: "('z, 'f) io_world \<Rightarrow> nat \<Rightarrow> io_thread \<Rightarrow> ('z, 'f) io_world" where
  "set_thread iw k th = iw\<lparr>iw_threads := (iw_threads iw)[k := Some th]\<rparr>"

text \<open>The remainder of the id, as the unsigned number it becomes beside the count.\<close>

definition thread_index :: "('z, 'f) io_world \<Rightarrow> nat \<Rightarrow> nat" where
  "thread_index iw i = unat (word_of_int (cl_id (client_at (iw_world iw) i)) :: 32 word) mod length (iw_threads iw)"

text \<open>\<open>add_io_request\<close>. The answer of \<open>push_tqueue\<close> is not looked at: a request that finds the queue full is lost, but is signalled.\<close>

definition add_io_op :: "io_op \<Rightarrow> ('z, 'f) io_world \<Rightarrow> ('z, 'f) io_world res" where
  "add_io_op op iw =
     (if \<not> live (client_at (iw_world iw) (op_client op)) then Inr iw
      else if iw_threads iw = [] then Inl DivByZero
      else let k = thread_index iw (op_client op) in
        bind_res (thread_at iw k) (\<lambda>th.
        bind_res (push_tqueue (it_queue th) op) (\<lambda>(q, slot).
        bind_res (signal_notifier (it_signals th) 1) (\<lambda>n.
          Inr (set_thread iw k (th\<lparr>it_queue := q, it_signals := n\<rparr>))))))"

text \<open>The requests that a function of the world made, as its record of what leaves the server has them.\<close>

fun forward :: "event list \<Rightarrow> ('z, 'f) io_world \<Rightarrow> ('z, 'f) io_world res" where
  "forward [] iw = Inr iw"
| "forward (Requested i bs # evs) iw = bind_res (add_io_op (IOOP_WRITE i bs) iw) (forward evs)"
| "forward (Sent i bs # evs) iw = forward evs iw"

section \<open>Writing\<close>

text \<open>
  The answers of \<open>write\<close> or \<open>SSL_write\<close>: so many bytes, an interruption after which the loop goes on (\<open>EINTR\<close>, or the two \<open>WANT\<close>
  errors of TLS), or an error, of which \<open>EAGAIN\<close> of a full socket is one. When the list is over, the socket takes
  everything. The result is what was sent, and whether all of it was.
\<close>

datatype write_event = Wrote nat | WriteAgain | WriteFail

fun write_loop :: "write_event list \<Rightarrow> bytes \<Rightarrow> bytes \<times> bool" where
  "write_loop ev [] = ([], True)"
| "write_loop [] bs = (bs, True)"
| "write_loop (WriteFail # ev) bs = ([], False)"
| "write_loop (WriteAgain # ev) bs = write_loop ev bs"
| "write_loop (Wrote n # ev) bs =
     (if n = 0 then ([], False) else (case write_loop ev (drop n bs) of (s, ok) \<Rightarrow> (take n bs @ s, ok)))"

section \<open>The loop of a thread\<close>

record io_env =
  ie_read :: read_env
  ie_write :: "write_event list"
  ie_removed :: bool       \<comment> \<open>\<open>REMOVE_EVENT\<close> works\<close>

definition disconnect :: "bool \<Rightarrow> nat \<Rightarrow> ('z, 'f) world \<Rightarrow> ('z, 'f) world res" where
  "disconnect removed i w =
     bind_res (terminate_connection removed (w_clients w) i) (\<lambda>cs.
       let w' = w\<lparr>w_clients := cs\<rparr> in Inr (if removed then free_client (client_at w i) w' else w'))"

text \<open>A function of the world, and what it requests.\<close>

definition in_world :: "('z, 'f) world \<Rightarrow> ('z, 'f) io_world \<Rightarrow> ('z, 'f) io_world res" where
  "in_world w iw = forward (drop (length (w_out (iw_world iw))) (w_out w)) (iw\<lparr>iw_world := w\<rparr>)"

definition perform :: "io_env \<Rightarrow> ('z, 'f) handler list \<Rightarrow> io_op \<Rightarrow> ('z, 'f) io_world \<Rightarrow> ('z, 'f) io_world res" where
  "perform e commands op iw = (case op of
       IOOP_TERMINATE i \<Rightarrow> bind_res (disconnect (ie_removed e) i (iw_world iw)) (\<lambda>w. Inr (iw\<lparr>iw_world := w\<rparr>))
     | IOOP_READ i \<Rightarrow>
         bind_res (read_command (ie_read e) commands i (iw_readers iw i) (iw_world iw)) (\<lambda>(rd, w, terminate).
         bind_res (in_world w (iw\<lparr>iw_readers := (iw_readers iw)(i := rd)\<rparr>)) (\<lambda>iw.
           if terminate then add_io_op (IOOP_TERMINATE i) iw else Inr iw))
     | IOOP_WRITE i bs \<Rightarrow> Inr (iw\<lparr>iw_world := emit (Sent i (fst (write_loop (ie_write e) bs))) (iw_world iw)\<rparr>))"

text \<open>The second result is false when there was nothing in the queue.\<close>

definition catch_op_and_execute :: "io_env \<Rightarrow> ('z, 'f) handler list \<Rightarrow> nat \<Rightarrow> ('z, 'f) io_world \<Rightarrow> (('z, 'f) io_world \<times> bool) res" where
  "catch_op_and_execute e commands k iw =
     bind_res (thread_at iw k) (\<lambda>th.
     bind_res (pop_tqueue (it_queue th)) (\<lambda>(q, op).
       let iw = set_thread iw k (th\<lparr>it_queue := q\<rparr>) in
       case op of None \<Rightarrow> Inr (iw, False)
       | Some op \<Rightarrow>
           if \<not> live (client_at (iw_world iw) (op_client op)) then Inr (iw, True)
           else bind_res (perform e commands op iw) (\<lambda>iw. Inr (iw, True))))"

fun io_loop :: "(nat \<Rightarrow> io_env) \<Rightarrow> ('z, 'f) handler list \<Rightarrow> nat \<Rightarrow> nat \<Rightarrow> ('z, 'f) io_world \<Rightarrow> ('z, 'f) io_world res" where
  "io_loop e commands k 0 iw = Inr iw"
| "io_loop e commands k (Suc n) iw =
     bind_res (catch_op_and_execute (e 0) commands k iw) (\<lambda>(iw, found).
       if found then io_loop (\<lambda>i. e (i + 1)) commands k n iw else Inr iw)"

text \<open>One turn of \<open>io_thread_procedure\<close>, after its notifier has woken it up.\<close>

definition io_turn :: "(nat \<Rightarrow> io_env) \<Rightarrow> ('z, 'f) handler list \<Rightarrow> nat \<Rightarrow> ('z, 'f) io_world \<Rightarrow> ('z, 'f) io_world res" where
  "io_turn e commands k iw =
     bind_res (thread_at iw k) (\<lambda>th.
       if it_status th = IO_THREAD_PENDING_DESTROY then Inr (set_thread iw k (th\<lparr>it_status := IO_THREAD_DESTROYED\<rparr>))
       else bind_res (consume_notifier (it_signals th)) (\<lambda>(signals, count).
         io_loop e commands k count (set_thread iw k (th\<lparr>it_signals := signals\<rparr>))))"

text \<open>The first half of \<open>send_destroy_signal_to_io_threads\<close>; the second waits for the threads.\<close>

fun signal_destroy :: "io_thread option list \<Rightarrow> io_thread option list res" where
  "signal_destroy [] = Inr []"
| "signal_destroy (None # ths) = Inl Undefined"
| "signal_destroy (Some th # ths) =
     bind_res (signal_notifier (it_signals th) 1) (\<lambda>n.
     bind_res (signal_destroy ths) (\<lambda>ths. Inr (Some (th\<lparr>it_status := IO_THREAD_PENDING_DESTROY, it_signals := n\<rparr>) # ths)))"

section \<open>Events\<close>

record accept_env =
  ae_accepted :: "int option"       \<comment> \<open>\<open>connfd\<close>\<close>
  ae_nodelay :: bool
  ae_refused :: bool                \<comment> \<open>\<open>write\<close> of the refusal takes all of its 14 bytes\<close>
  ae_ok1 :: bool
  ae_ok2 :: bool
  ae_ok3 :: bool
  ae_now :: "int option"
  ae_reader :: reader               \<comment> \<open>the new buffer and the socket\<close>
  ae_added :: bool
  ae_tls :: "bool option"           \<comment> \<open>with TLS, whether \<open>SSL_accept\<close> works\<close>
  ae_removed :: bool

text \<open>The result is the slot of the new client, if there is one.\<close>

definition accept_client :: "accept_env \<Rightarrow> ('z, 'f) io_world \<Rightarrow> (('z, 'f) io_world \<times> nat option) res" where
  "accept_client e iw =
     (let w = iw_world iw in
      case ae_accepted e of None \<Rightarrow> Inr (iw, None)
      | Some connfd \<Rightarrow>
          if \<not> ae_nodelay e then Inr (iw, None)
          else if unat (cs_count (w_clients w)) = length (cs_slots (w_clients w)) then
            bind_res (assert_that (ae_refused e)) (\<lambda>_. Inr (iw, None))
          else bind_res (add_client (ae_ok1 e) (ae_ok2 e) (ae_ok3 e) (ae_now e) (w_initial w) (passwords (w_auth w) = [])
                (au_default (w_auth w)) (au_empty (w_auth w)) (w_clients w) connfd) (\<lambda>(cs, slot).
            let w = w\<lparr>w_clients := cs\<rparr>; iw = iw\<lparr>iw_world := w\<rparr> in
            case slot of None \<Rightarrow> Inr (iw, None)
            | Some i \<Rightarrow>
                let iw = iw\<lparr>iw_readers := (iw_readers iw)(i := ae_reader e)\<rparr> in
                if \<not> ae_added e \<or> ae_tls e = Some False then
                  bind_res (disconnect (ae_removed e) i w) (\<lambda>w. Inr (iw\<lparr>iw_world := w\<rparr>, None))
                else Inr (iw, Some i)))"

fun accept_loop :: "accept_env list \<Rightarrow> ('z, 'f) io_world \<Rightarrow> ('z, 'f) io_world res" where
  "accept_loop [] iw = Inr iw"
| "accept_loop (e # es) iw = bind_res (accept_client e iw) (\<lambda>(iw, slot). if slot = None then Inr iw else accept_loop es iw)"

text \<open>
  What \<open>WAIT_EVENTS\<close> reports: connections to accept, one environment for each call of \<open>accept_client\<close>, or news of a client, and whether the connection was closed.
\<close>

datatype net_event = Listening "accept_env list" | News nat bool

definition handle_event :: "net_event \<Rightarrow> ('z, 'f) io_world \<Rightarrow> ('z, 'f) io_world res" where
  "handle_event ev iw = (case ev of
       Listening es \<Rightarrow> if cs_next_id (w_clients (iw_world iw)) = - 1 then Inr iw else accept_loop es iw
     | News i gone \<Rightarrow>
         bind_res (add_io_op (IOOP_READ i) iw) (\<lambda>iw. if gone then add_io_op (IOOP_TERMINATE i) iw else Inr iw))"

fun handle_events :: "net_event list \<Rightarrow> ('z, 'f) io_world \<Rightarrow> ('z, 'f) io_world res" where
  "handle_events [] iw = Inr iw"
| "handle_events (ev # evs) iw = bind_res (handle_event ev iw) (handle_events evs)"

section \<open>Requests are served in order\<close>

text \<open>\<open>waiting n k xs s iw\<close>: the requests \<open>xs\<close> wait in the queue of thread \<open>k\<close>, which was signalled \<open>s\<close> times.\<close>

definition waiting :: "nat \<Rightarrow> nat \<Rightarrow> io_op list \<Rightarrow> nat \<Rightarrow> ('z, 'f) io_world \<Rightarrow> bool" where
  "waiting n k xs s iw \<longleftrightarrow> k < length (iw_threads iw) \<and> (\<exists>A th. iw_threads iw ! k = Some th \<and> holds_list n A (it_queue th) xs \<and>
     it_signals th = s \<and> it_status th = IO_THREAD_ACTIVE)"

text \<open>The requests of client \<open>i\<close> go to thread \<open>k\<close>.\<close>

definition served_by :: "('z, 'f) io_world \<Rightarrow> nat \<Rightarrow> nat \<Rightarrow> bool" where
  "served_by iw i k \<longleftrightarrow> live (client_at (iw_world iw) i) \<and> thread_index iw i = k"

text \<open>Two states of the server that differ in nothing but the threads.\<close>

definition same_but_threads :: "('z, 'f) io_world \<Rightarrow> ('z, 'f) io_world \<Rightarrow> bool" where
  "same_but_threads iw iw' \<longleftrightarrow> iw_world iw' = iw_world iw \<and> iw_readers iw' = iw_readers iw \<and> length (iw_threads iw') = length (iw_threads iw)"

lemma same_served: "same_but_threads iw iw' \<Longrightarrow> served_by iw' = served_by iw"
  by (simp add: same_but_threads_def served_by_def thread_index_def fun_eq_iff)

lemma set_thread_same: "same_but_threads iw (set_thread iw k th)"
  by (simp add: same_but_threads_def set_thread_def)

lemma same_trans: "same_but_threads a b \<Longrightarrow> same_but_threads b c \<Longrightarrow> same_but_threads a c"
  by (simp add: same_but_threads_def)

lemma add_io_op_waits:
  assumes w: "waiting n k xs s iw" and v: "served_by iw (op_client op) k" and r: "length xs < 2 ^ n" "Suc s < 2 ^ 64 - 1"
  shows "\<exists>iw'. add_io_op op iw = Inr iw' \<and> waiting n k (xs @ [op]) (Suc s) iw' \<and> same_but_threads iw iw'"
proof -
  obtain A th where th: "k < length (iw_threads iw)" "iw_threads iw ! k = Some th" "holds_list n A (it_queue th) xs"
      "it_signals th = s" "it_status th = IO_THREAD_ACTIVE"
    using w by (auto simp: waiting_def)
  obtain q c where q: "push_tqueue (it_queue th) op = Inr (q, Some c)" "holds_list n A q (xs @ [op])" using push_holds(1) [OF th(3) r(1)] by blast
  have sg: "signal_notifier s 1 = Inr (Suc s)" using r(2) by (simp add: signal_notifier_def)
  let ?iw = "set_thread iw k (th\<lparr>it_queue := q, it_signals := Suc s\<rparr>)"
  have "add_io_op op iw = Inr ?iw"
    using th q(1) sg v by (auto simp: add_io_op_def served_by_def thread_at_def Let_def)
  moreover have "waiting n k (xs @ [op]) (Suc s) ?iw" using th q(2) by (auto simp: waiting_def set_thread_def)
  ultimately show ?thesis using set_thread_same by blast
qed

fun add_io_ops :: "io_op list \<Rightarrow> ('z, 'f) io_world \<Rightarrow> ('z, 'f) io_world res" where
  "add_io_ops [] iw = Inr iw"
| "add_io_ops (op # ops) iw = bind_res (add_io_op op iw) (add_io_ops ops)"

lemma add_io_ops_wait:
  "\<lbrakk>waiting n k xs s iw; \<forall>op \<in> set ops. served_by iw (op_client op) k; length xs + length ops \<le> 2 ^ n; s + length ops < 2 ^ 64 - 1\<rbrakk> \<Longrightarrow>
   \<exists>iw'. add_io_ops ops iw = Inr iw' \<and> waiting n k (xs @ ops) (s + length ops) iw' \<and> same_but_threads iw iw'"
proof (induction ops arbitrary: xs s iw)
  case Nil
  then show ?case by (simp add: same_but_threads_def)
next
  case (Cons op ops)
  obtain iw1 where a: "add_io_op op iw = Inr iw1" "waiting n k (xs @ [op]) (Suc s) iw1" "same_but_threads iw iw1"
    using add_io_op_waits [OF Cons.prems(1), of op] Cons.prems(2-4) by auto
  obtain iw' where "add_io_ops ops iw1 = Inr iw'" "waiting n k ((xs @ [op]) @ ops) (Suc s + length ops) iw'" "same_but_threads iw1 iw'"
    using Cons.IH [OF a(2)] Cons.prems(2-4) same_served [OF a(3)] by auto
  then show ?case using a(1,3) same_trans by auto
qed

lemma catch_waiting:
  assumes w: "waiting n k (op # xs) s iw" and l: "live (client_at (iw_world iw) (op_client op))"
  shows "\<exists>iw1. catch_op_and_execute e commands k iw = bind_res (perform e commands op iw1) (\<lambda>iw. Inr (iw, True)) \<and>
    waiting n k xs s iw1 \<and> same_but_threads iw iw1"
proof -
  obtain A th where th: "k < length (iw_threads iw)" "iw_threads iw ! k = Some th" "holds_list n A (it_queue th) (op # xs)"
      "it_signals th = s" "it_status th = IO_THREAD_ACTIVE"
    using w by (auto simp: waiting_def)
  obtain q where q: "pop_tqueue (it_queue th) = Inr (q, Some op)" "holds_list n (A + 1) q xs" using pop_holds(1) [OF th(3) refl] by blast
  let ?iw = "set_thread iw k (th\<lparr>it_queue := q\<rparr>)"
  have same: "same_but_threads iw ?iw" by (rule set_thread_same)
  then have "live (client_at (iw_world ?iw) (op_client op))" using l by (simp add: same_but_threads_def)
  then have "catch_op_and_execute e commands k iw = bind_res (perform e commands op ?iw) (\<lambda>iw. Inr (iw, True))"
    using th q(1) by (simp add: catch_op_and_execute_def thread_at_def Let_def)
  moreover have "waiting n k xs s ?iw" using th q(2) by (auto simp: waiting_def set_thread_def)
  ultimately show ?thesis using same by blast
qed

lemma io_turn_waiting:
  assumes w: "waiting n k xs s iw" and s: "s \<noteq> 0"
  shows "\<exists>iw1. io_turn e commands k iw = io_loop e commands k s iw1 \<and> waiting n k xs 0 iw1 \<and> same_but_threads iw iw1"
proof -
  obtain A th where th: "k < length (iw_threads iw)" "iw_threads iw ! k = Some th" "holds_list n A (it_queue th) xs"
      "it_signals th = s" "it_status th = IO_THREAD_ACTIVE"
    using w by (auto simp: waiting_def)
  let ?iw = "set_thread iw k (th\<lparr>it_signals := 0\<rparr>)"
  have "io_turn e commands k iw = io_loop e commands k s ?iw"
    using th s by (simp add: io_turn_def thread_at_def consume_notifier_def)
  moreover have "waiting n k xs 0 ?iw" using th by (auto simp: waiting_def set_thread_def)
  ultimately show ?thesis using set_thread_same by blast
qed

definition sent_all :: "(nat \<times> bytes) list \<Rightarrow> event list" where
  "sent_all rs = map (\<lambda>r. Sent (fst r) (snd r)) rs"

definition write_ops :: "(nat \<times> bytes) list \<Rightarrow> io_op list" where
  "write_ops rs = map (\<lambda>r. IOOP_WRITE (fst r) (snd r)) rs"

lemma write_loop_all [simp]: "write_loop [] bs = (bs, True)"
  by (cases bs) simp_all

lemma io_loop_writes:
  "\<lbrakk>waiting n k (write_ops rs) s iw; \<forall>r \<in> set rs. live (client_at (iw_world iw) (fst r)); \<And>i. ie_write (e i) = []\<rbrakk> \<Longrightarrow>
   \<exists>iw'. io_loop e commands k (length rs) iw = Inr iw' \<and> waiting n k [] s iw' \<and> same_but_threads (iw\<lparr>iw_world := (iw_world iw)
     \<lparr>w_out := w_out (iw_world iw) @ sent_all rs\<rparr>\<rparr>) iw'"
proof (induction rs arbitrary: iw e)
  case Nil
  then show ?case by (simp add: sent_all_def write_ops_def same_but_threads_def)
next
  case (Cons r rs)
  obtain iw1 where c: "catch_op_and_execute (e 0) commands k iw = bind_res (perform (e 0) commands (IOOP_WRITE (fst r) (snd r)) iw1) (\<lambda>iw. Inr (iw, True))"
      "waiting n k (write_ops rs) s iw1" "same_but_threads iw iw1"
    using catch_waiting [of n k "IOOP_WRITE (fst r) (snd r)" "write_ops rs" s iw "e 0" commands] Cons.prems(1,2) by (auto simp: write_ops_def)
  let ?iw = "iw1\<lparr>iw_world := emit (Sent (fst r) (snd r)) (iw_world iw)\<rparr>"
  have p: "perform (e 0) commands (IOOP_WRITE (fst r) (snd r)) iw1 = Inr ?iw"
    using c(3) Cons.prems(3) by (simp add: perform_def same_but_threads_def)
  have w: "waiting n k (write_ops rs) s ?iw" using c(2) by (simp add: waiting_def)
  have l: "\<forall>x \<in> set rs. live (client_at (iw_world ?iw) (fst x))" using Cons.prems(2) by (simp add: emit_def)
  obtain iw' where "io_loop (\<lambda>i. e (i + 1)) commands k (length rs) ?iw = Inr iw'" "waiting n k [] s iw'"
      "same_but_threads (?iw\<lparr>iw_world := (iw_world ?iw)\<lparr>w_out := w_out (iw_world ?iw) @ sent_all rs\<rparr>\<rparr>) iw'"
    using Cons.IH [where e = "\<lambda>i. e (i + 1)", OF w l] Cons.prems(3) by blast
  then show ?case using c(1,3) p by (intro exI [of _ iw']) (simp add: sent_all_def emit_def same_but_threads_def)
qed

text \<open>Responses that wait for clients of one thread leave the server in the order of their requests, each one whole.\<close>

lemma writes_all:
  assumes w: "waiting n k [] 0 iw" and v: "\<forall>r \<in> set rs. served_by iw (fst r) k" and rs: "rs \<noteq> []" "length rs \<le> 2 ^ n" "length rs < 2 ^ 64 - 1"
    and e: "\<And>i. ie_write (e i) = []"
  shows "\<exists>iw'. bind_res (add_io_ops (write_ops rs) iw) (io_turn e commands k) = Inr iw' \<and> waiting n k [] 0 iw' \<and>
    same_but_threads (iw\<lparr>iw_world := (iw_world iw)\<lparr>w_out := w_out (iw_world iw) @ sent_all rs\<rparr>\<rparr>) iw'"
proof -
  obtain iw1 where a: "add_io_ops (write_ops rs) iw = Inr iw1" "waiting n k (write_ops rs) (length rs) iw1" "same_but_threads iw iw1"
    using add_io_ops_wait [OF w, of "write_ops rs"] v rs(2,3) by (auto simp: write_ops_def)
  obtain iw2 where t: "io_turn e commands k iw1 = io_loop e commands k (length rs) iw2" "waiting n k (write_ops rs) 0 iw2" "same_but_threads iw1 iw2"
    using io_turn_waiting [OF a(2)] rs(1) by fastforce
  have same: "same_but_threads iw iw2" by (rule same_trans [OF a(3) t(3)])
  have l: "\<forall>r \<in> set rs. live (client_at (iw_world iw2) (fst r))" using v same by (simp add: served_by_def same_but_threads_def)
  obtain iw' where "io_loop e commands k (length rs) iw2 = Inr iw'" "waiting n k [] 0 iw'"
      "same_but_threads (iw2\<lparr>iw_world := (iw_world iw2)\<lparr>w_out := w_out (iw_world iw2) @ sent_all rs\<rparr>\<rparr>) iw'"
    using io_loop_writes [where e = e, OF t(2) l e] by blast
  then show ?thesis using a(1) t(1) same by (simp add: same_but_threads_def)
qed

lemma writes_in_order:
  assumes "waiting n k [] 0 iw" "\<forall>r \<in> set rs. served_by iw (fst r) k" "rs \<noteq> []" "length rs \<le> 2 ^ n" "length rs < 2 ^ 64 - 1" "\<And>i. ie_write (e i) = []"
  shows "\<exists>iw'. bind_res (add_io_ops (write_ops rs) iw) (io_turn e commands k) = Inr iw' \<and> waiting n k [] 0 iw' \<and>
    iw_world iw' = (iw_world iw)\<lparr>w_out := w_out (iw_world iw) @ sent_all rs\<rparr>"
  using writes_all [where e = e, OF assms] by (auto simp: same_but_threads_def)

text \<open>A full queue loses the request, and the notifier counts it all the same.\<close>

lemma full_queue_loses:
  assumes w: "waiting n k xs s iw" and v: "served_by iw (op_client op) k" and r: "length xs = 2 ^ n" "Suc s < 2 ^ 64 - 1"
  shows "\<exists>iw'. add_io_op op iw = Inr iw' \<and> waiting n k xs (Suc s) iw' \<and> same_but_threads iw iw'"
proof -
  obtain A th where th: "k < length (iw_threads iw)" "iw_threads iw ! k = Some th" "holds_list n A (it_queue th) xs"
      "it_signals th = s" "it_status th = IO_THREAD_ACTIVE"
    using w by (auto simp: waiting_def)
  have q: "push_tqueue (it_queue th) op = Inr (it_queue th, None)" by (rule push_holds(2) [OF th(3) r(1)])
  have sg: "signal_notifier s 1 = Inr (Suc s)" using r(2) by (simp add: signal_notifier_def)
  let ?iw = "set_thread iw k (th\<lparr>it_signals := Suc s\<rparr>)"
  have "add_io_op op iw = Inr ?iw"
    using th q sg v by (auto simp: add_io_op_def served_by_def thread_at_def Let_def)
  moreover have "waiting n k xs (Suc s) ?iw" using th by (auto simp: waiting_def set_thread_def)
  ultimately show ?thesis using set_thread_same by blast
qed

section \<open>A notice too many\<close>

text \<open>
  Two notices of one client reach its thread before it has read anything: the first read takes all that has come, the
  second finds nothing, and the connection of a client that has done nothing wrong is closed.
\<close>

definition calm_io :: "io_env \<Rightarrow> bool" where
  "calm_io e \<longleftrightarrow> calm_read (ie_read e) \<and> ie_removed e"

definition findable :: "clients \<Rightarrow> nat \<Rightarrow> bool" where
  "findable cs i \<longleftrightarrow> wf_clients cs \<and> i < length (cs_slots cs) \<and> live (cs_slots cs ! i) \<and>
     ((\<exists>c \<in> set (cs_slots cs). \<not> live c) \<or> nat (cl_id (cs_slots cs ! i)) mod length (cs_slots cs) \<noteq> 0)"

lemma findable_found:
  assumes "findable cs i" shows "get_client cs (cl_id (cs_slots cs ! i)) = Inr (Some i)"
proof -
  let ?k = "cl_id (cs_slots cs ! i)"
  have f: "wf_clients cs" "i < length (cs_slots cs)" "live (cs_slots cs ! i)" using assms by (simp_all add: findable_def)
  then have b: "0 < ?k" "?k < int (unat (cs_next_id cs))" and "unat (cs_next_id cs) < 2 ^ 31" by (simp_all add: wf_clients_def)
  then have "int (unat (cs_next_id cs)) < int (2 ^ 31)" by (simp only: of_nat_less_iff)
  then have k: "0 \<le> ?k" "?k < 2 ^ 31" using b by simp_all
  obtain r where r: "get_client cs ?k = Inr r" "case r of None \<Rightarrow> \<forall>c \<in> set (cs_slots cs). live c \<longrightarrow> cl_id c \<noteq> ?k
     | Some j \<Rightarrow> j < length (cs_slots cs) \<and> live (cs_slots cs ! j) \<and> cl_id (cs_slots cs ! j) = ?k"
    using get_client_finds [OF f(1) k] assms unfolding findable_def by blast
  then obtain j where j: "r = Some j" "j < length (cs_slots cs)" "live (cs_slots cs ! j)" "cl_id (cs_slots cs ! j) = ?k"
    using f(2,3) by (cases r) (auto dest: nth_mem)
  have "uniq (id_slots cs)" using f(1) by (simp add: wf_clients_def)
  moreover have "in_slots (id_slots cs) i ?k ()" "in_slots (id_slots cs) j ?k ()"
    using f j by (simp_all add: in_id_slots)
  ultimately have "i = j" using uniqD by metis
  then show ?thesis using r(1) j(1) by simp
qed

lemma findable_in_block:
  assumes "findable cs i"
  shows "findable (cs\<lparr>cs_slots := (cs_slots cs)[i := in_block (cs_slots cs ! i) cmd sub bk]\<rparr>) i"
proof -
  let ?c = "in_block (cs_slots cs ! i) cmd sub bk"
  let ?cs = "cs\<lparr>cs_slots := (cs_slots cs)[i := ?c]\<rparr>"
  have i: "i < length (cs_slots cs)" using assms by (simp add: findable_def)
  have same: "cl_id ?c = cl_id (cs_slots cs ! i)" "live ?c = live (cs_slots cs ! i)" by (simp_all add: in_block_def live_def)
  have "id_entry ?c = id_slots cs ! i" using i same by (simp add: id_entry_def id_slots_def)
  then have "id_slots ?cs = (id_slots cs)[i := id_slots cs ! i]" by (simp add: id_slots_def map_update)
  then have ids: "id_slots ?cs = id_slots cs" by simp
  have c: "cs_slots cs ! i \<in> set (cs_slots cs)" using i by simp
  have "\<forall>x \<in> set (cs_slots ?cs). live x \<longrightarrow> 0 < cl_id x \<and> cl_id x < int (unat (cs_next_id cs))"
    using assms same c unfolding findable_def wf_clients_def by (auto dest!: set_mp [OF set_update_subset_insert])
  then have wf: "wf_clients ?cs" using assms ids by (simp add: findable_def wf_clients_def)
  have free: "\<exists>x \<in> set (cs_slots ?cs). \<not> live x" if f: "\<exists>x \<in> set (cs_slots cs). \<not> live x"
  proof -
    obtain j where j: "j < length (cs_slots cs)" "\<not> live (cs_slots cs ! j)" using f by (auto simp: in_set_conv_nth)
    then have "j \<noteq> i" using assms by (auto simp: findable_def)
    then have "(cs_slots cs)[i := ?c] ! j = cs_slots cs ! j" by simp
    moreover have "(cs_slots cs)[i := ?c] ! j \<in> set ((cs_slots cs)[i := ?c])" using j(1) by (intro nth_mem) simp
    ultimately show ?thesis using j(2) by auto
  qed
  show ?thesis using wf free assms i same by (auto simp: findable_def)
qed

lemma disconnect_frees:
  assumes "findable (w_clients w) i"
  shows "\<exists>w'. disconnect True i w = Inr w' \<and> \<not> live (client_at w' i)"
proof -
  have i: "i < length (cs_slots (w_clients w))" using assms by (simp add: findable_def)
  have "remove_client (w_clients w) (cl_id (cs_slots (w_clients w) ! i)) = Inr ((w_clients w)\<lparr>cs_slots := (cs_slots (w_clients w))
      [i := free_slot_client (cs_slots (w_clients w) ! i)], cs_count := cs_count (w_clients w) - 1\<rparr>, True)"
    by (rule remove_client_slot [OF findable_found [OF assms]])
  then show ?thesis using i
    by (auto simp: disconnect_def terminate_connection_def Let_def free_client_def remove_transaction_block_def client_at_def free_slot_client_def live_def
        split: option.splits block_type.splits)
qed

lemma two_notices: "handle_events [News i False, News i False] iw = add_io_ops [IOOP_READ i, IOOP_READ i] iw"
  by (simp add: handle_event_def bind_res_def split: sum.splits)

lemma forward_nothing [simp]: "w_out w = w_out (iw_world iw) \<Longrightarrow> in_world w iw = Inr (iw\<lparr>iw_world := w\<rparr>)"
  by (simp add: in_world_def)

text \<open>A thread that reads for a client whose commands have all arrived: they are handed over, and the thread goes on to its next request.\<close>

lemma catch_read:
  assumes w: "waiting n k (IOOP_READ i # xs) s iw" and v: "served_by iw i k" and e: "calm_io e"
    and cs: "cs \<noteq> []" and sock: "rd_sock (iw_readers iw i) = Recv (encode_all cs) # Again # ev"
    and fits: "length (encode_all cs) < unat (rd_size (iw_readers iw i))" "unat (rd_size (iw_readers iw i)) \<le> length (rd_data (iw_readers iw i))"
      "unat (rd_size (iw_readers iw i)) < 2 ^ 31"
    and i: "connected (iw_world iw) i" "\<not> cl_locked (client_at (iw_world iw) i)" "cl_waiting_block (client_at (iw_world iw) i) = None"
    and known: "\<forall>s \<in> set cs. known commands (fst s)" and q: "holds_list m A (w_queue (iw_world iw)) bks" "length bks + length cs \<le> 2 ^ m"
  shows "\<exists>iw' cs' rd' cmd sub q'. catch_op_and_execute e commands k iw = Inr (iw', True) \<and> waiting n k xs s iw' \<and> served_by iw' i k \<and>
    iw_world iw' = (set_client (iw_world iw) i (in_block (client_at (iw_world iw) i) cmd sub None))\<lparr>w_queue := q'\<rparr> \<and>
    iw_readers iw' = (iw_readers iw)(i := rd') \<and> rd_sock rd' = ev \<and> rd_size rd' = rd_size (iw_readers iw i) \<and> length (rd_data rd') = length (rd_data (iw_readers iw i)) \<and>
    list_all2 as_sent cs' cs \<and> holds_list m A q' (bks @ map (direct_block commands i (client_at (iw_world iw) i)) cs')"
proof -
  let ?w = "iw_world iw"
  obtain iw1 where c: "catch_op_and_execute e commands k iw = bind_res (perform e commands (IOOP_READ i) iw1) (\<lambda>iw. Inr (iw, True))"
      "waiting n k xs s iw1" "same_but_threads iw iw1"
    using catch_waiting [OF w, of e commands] v by (auto simp: served_by_def)
  have same: "iw_world iw1 = ?w" "iw_readers iw1 = iw_readers iw" "length (iw_threads iw1) = length (iw_threads iw)"
    using c(3) by (simp_all add: same_but_threads_def)
  have ce: "calm_read (ie_read e)" using e by (simp add: calm_io_def)
  obtain cs' rd' cmd sub q' where r: "list_all2 as_sent cs' cs" "rd_sock rd' = ev" "rd_size rd' = rd_size (iw_readers iw i)"
      "length (rd_data rd') = length (rd_data (iw_readers iw i))"
      "read_command (ie_read e) commands i (iw_readers iw i) ?w = Inr (rd', (set_client ?w i (in_block (client_at ?w i) cmd sub None))\<lparr>w_queue := q'\<rparr>, False)"
      "holds_list m A q' (bks @ map (direct_block commands i (client_at ?w i)) cs')"
    using commands_reach_queue [OF ce cs sock fits i known q] by blast
  let ?w1 = "(set_client ?w i (in_block (client_at ?w i) cmd sub None))\<lparr>w_queue := q'\<rparr>"
  let ?iw = "iw1\<lparr>iw_readers := (iw_readers iw)(i := rd'), iw_world := ?w1\<rparr>"
  have p: "perform e commands (IOOP_READ i) iw1 = Inr ?iw" using r(5) same by (simp add: perform_def)
  have "i < length (cs_slots (w_clients ?w))" using i(1) by (simp add: connected_def)
  then have "cl_id (client_at ?w1 i) = cl_id (client_at ?w i)" by (simp add: in_block_def)
  then have "served_by ?iw i k" using v same(3) by (simp add: served_by_def thread_index_def live_def)
  moreover have "waiting n k xs s ?iw" using c(2) by (simp add: waiting_def)
  ultimately show ?thesis using c(1) p r(1-4,6)
    by (intro exI [of _ ?iw] exI [of _ cs'] exI [of _ rd'] exI [of _ cmd] exI [of _ sub] exI [of _ q']) simp
qed

lemma notice_too_many:
  fixes iw :: "('z, 'f) io_world"
  assumes w: "waiting n k [] 0 iw" "1 \<le> n" and v: "served_by iw i k" and e: "\<And>m. calm_io (e m)" "\<And>m. calm_io (e' m)"
    and cs: "cs \<noteq> []" and sock: "rd_sock (iw_readers iw i) = Recv (encode_all cs) # Again # Again # ev"
    and fits: "length (encode_all cs) < unat (rd_size (iw_readers iw i))" "unat (rd_size (iw_readers iw i)) \<le> length (rd_data (iw_readers iw i))"
      "unat (rd_size (iw_readers iw i)) < 2 ^ 31"
    and i: "findable (w_clients (iw_world iw)) i" "\<not> cl_locked (client_at (iw_world iw) i)" "cl_waiting_block (client_at (iw_world iw) i) = None"
    and known: "\<forall>s \<in> set cs. known commands (fst s)" and q: "holds_list m A (w_queue (iw_world iw)) bks" "length bks + length cs \<le> 2 ^ m"
  shows "\<exists>iw'. bind_res (handle_events [News i False, News i False] iw) (\<lambda>iw.
      bind_res (io_turn e commands k iw) (io_turn e' commands k)) = Inr iw' \<and> \<not> live (client_at (iw_world iw') i)"
proof -
  let ?w = "iw_world iw" and ?rd = "iw_readers iw i"
  have room: "2 \<le> (2 :: nat) ^ n" using power_increasing [OF w(2), of "2 :: nat"] by simp
  have "\<exists>iw1. add_io_ops [IOOP_READ i, IOOP_READ i] iw = Inr iw1 \<and> waiting n k ([] @ [IOOP_READ i, IOOP_READ i]) (0 + length [IOOP_READ i, IOOP_READ i]) iw1 \<and>
      same_but_threads iw iw1"
    by (rule add_io_ops_wait [OF w(1)]) (use v room in simp_all)
  then obtain iw1 where a: "handle_events [News i False, News i False] iw = Inr iw1" "waiting n k [IOOP_READ i, IOOP_READ i] 2 iw1" "same_but_threads iw iw1"
    unfolding two_notices by (auto simp: numeral_2_eq_2)
  obtain iw2 where b: "io_turn e commands k iw1 = io_loop e commands k 2 iw2" "waiting n k [IOOP_READ i, IOOP_READ i] 0 iw2" "same_but_threads iw1 iw2"
    using io_turn_waiting [OF a(2)] by auto
  have same: "iw_world iw2 = ?w" "iw_readers iw2 = iw_readers iw" "served_by iw2 = served_by iw"
    using same_trans [OF a(3) b(3)] same_served by (simp_all add: same_but_threads_def)
  have cn: "connected ?w i" using i(1) v by (simp add: connected_def findable_def served_by_def)
  have "\<exists>iw' cs' rd' cmd sub q'. catch_op_and_execute (e 0) commands k iw2 = Inr (iw', True) \<and> waiting n k [IOOP_READ i] 0 iw' \<and> served_by iw' i k \<and>
      iw_world iw' = (set_client (iw_world iw2) i (in_block (client_at (iw_world iw2) i) cmd sub None))\<lparr>w_queue := q'\<rparr> \<and>
      iw_readers iw' = (iw_readers iw2)(i := rd') \<and> rd_sock rd' = Again # ev \<and> rd_size rd' = rd_size (iw_readers iw2 i) \<and> length (rd_data rd') = length (rd_data (iw_readers iw2 i)) \<and>
      list_all2 as_sent cs' cs \<and> holds_list m A q' (bks @ map (direct_block commands i (client_at (iw_world iw2) i)) cs')"
    by (rule catch_read [OF b(2) _ e(1) cs]) (use v sock fits cn i(2,3) known q same in simp_all)
  then obtain iw4 rd' cmd sub q' where c: "catch_op_and_execute (e 0) commands k iw2 = Inr (iw4, True)" "waiting n k [IOOP_READ i] 0 iw4" "served_by iw4 i k"
      "iw_world iw4 = (set_client ?w i (in_block (client_at ?w i) cmd sub None))\<lparr>w_queue := q'\<rparr>" "iw_readers iw4 i = rd'"
      "rd_sock rd' = Again # ev" "rd_size rd' = rd_size ?rd"
    unfolding same by auto
  have find1: "findable (w_clients (iw_world iw4)) i" using findable_in_block [OF i(1)] c(4) by (simp add: set_client_def client_at_def)
  obtain iw5 where d: "catch_op_and_execute (e 1) commands k iw4 = bind_res (perform (e 1) commands (IOOP_READ i) iw5) (\<lambda>iw. Inr (iw, True))"
      "waiting n k [] 0 iw5" "same_but_threads iw4 iw5"
    using catch_waiting [OF c(2), of "e 1" commands] c(3) by (auto simp: served_by_def)
  have s5: "iw_world iw5 = iw_world iw4" "iw_readers iw5 i = rd'" using d(3) c(5) by (simp_all add: same_but_threads_def)
  have sz: "rd_size rd' \<noteq> 0" using fits(1) c(7) by auto
  obtain rd2 where r2: "read_command (ie_read (e 1)) commands i rd' (iw_world iw4) = Inr (rd2, iw_world iw4, True)"
    using read_command_drained [OF _ c(6) sz, of "ie_read (e 1)"] e(1) [of 1] unfolding calm_io_def by blast
  let ?iw6 = "iw5\<lparr>iw_readers := (iw_readers iw5)(i := rd2)\<rparr>"
  have v6: "served_by ?iw6 i k" using c(3) d(3) s5(1) by (simp add: served_by_def thread_index_def same_but_threads_def)
  have w6: "waiting n k [] 0 ?iw6" using d(2) by (simp add: waiting_def)
  obtain iw7 where t: "add_io_op (IOOP_TERMINATE i) ?iw6 = Inr iw7" "waiting n k [IOOP_TERMINATE i] 1 iw7" "same_but_threads ?iw6 iw7"
    using add_io_op_waits [OF w6, of "IOOP_TERMINATE i"] v6 room by auto
  have eq: "iw5\<lparr>iw_readers := (iw_readers iw5)(i := rd2), iw_world := iw_world iw4\<rparr> = ?iw6" using s5(1) by (cases iw5) simp
  have "perform (e 1) commands (IOOP_READ i) iw5 = add_io_op (IOOP_TERMINATE i) ?iw6" using r2 s5 by (simp add: perform_def) (simp only: eq)
  then have l2: "io_loop e commands k 2 iw2 = Inr iw7" using c(1) d(1) t(1) by (simp add: numeral_2_eq_2)
  obtain iw8 where u: "io_turn e' commands k iw7 = io_loop e' commands k 1 iw8" "waiting n k [IOOP_TERMINATE i] 0 iw8" "same_but_threads iw7 iw8"
    using io_turn_waiting [OF t(2)] by auto
  have s8: "iw_world iw8 = iw_world iw4" using t(3) u(3) s5(1) by (simp add: same_but_threads_def)
  then have "live (client_at (iw_world iw8) i)" using c(3) by (simp add: served_by_def)
  then obtain iw9 where x: "catch_op_and_execute (e' 0) commands k iw8 = bind_res (perform (e' 0) commands (IOOP_TERMINATE i) iw9) (\<lambda>iw. Inr (iw, True))"
      "same_but_threads iw8 iw9"
    using catch_waiting [OF u(2), of "e' 0" commands] by auto
  obtain w2 where y: "disconnect True i (iw_world iw4) = Inr w2" "\<not> live (client_at w2 i)" using disconnect_frees [OF find1] by blast
  have "perform (e' 0) commands (IOOP_TERMINATE i) iw9 = Inr (iw9\<lparr>iw_world := w2\<rparr>)"
    using y(1) x(2) s8 e(2) [of 0] by (simp add: perform_def calm_io_def same_but_threads_def)
  then show ?thesis using a(1) b(1) l2 u(1) x(1) y(2) by simp
qed

end
