(* ===== verification/Logs.thy ===== *)
theory Logs
  imports Config Cmd_Generic
begin

text \<open>
  \<open>src/utils/logging.c\<close>: the log. With a limit on the number of lines, the lines wait in a shared queue until the
  server ends, and the file is then rewritten as a whole; without one (\<open>max_log_lines = -1\<close>) every message is appended to the file.
  The file is mapped into memory by pages; what lies behind the last page of the file cannot be accessed.
\<close>

unbundle bit_operations_syntax

datatype mapping = Mapped | MapRefused | MapFailed
  \<comment> \<open>\<open>mmap\<close> works, fails with one of the errors that are handled, or with another one\<close>

record log_env =
  le_time :: "int option"
  le_localtime :: "int \<Rightarrow> tm"
  le_alloc :: bool
  le_written :: bool

record logs =
  lg_open :: bool                     \<comment> \<open>\<open>fd != -1\<close>\<close>
  lg_size :: int                      \<comment> \<open>\<open>new_size\<close>\<close>
  lg_lines :: "bytes tqueue option"
  lg_file :: bytes
  lg_printed :: bytes                 \<comment> \<open>what went to \<open>stdout\<close> and \<open>stderr\<close>\<close>
  lg_error_at :: "int option"         \<comment> \<open>\<open>last_error_at\<close>, with \<open>SERVER_STATUS_ERROR\<close>\<close>

definition no_logs :: "bytes \<Rightarrow> logs" where
  "no_logs content = \<lparr>lg_open = False, lg_size = 0, lg_lines = None, lg_file = content, lg_printed = [], lg_error_at = None\<rparr>"

definition LOG_LENGTH :: nat where
  "LOG_LENGTH = 4096"

definition level_tag :: "nat \<Rightarrow> bytes option" where
  "level_tag check =
     (if check = LOG_INFO then Some '' / INFO] | '' else if check = LOG_WARN then Some '' / WARN] | ''
      else if check = LOG_ERR then Some '' / ERR]  | '' else if check = LOG_DBG then Some '' / DBG]  | '' else None)"

text \<open>\<open>text\<close> is what the format and its arguments give; the buffer has room for 4096 characters of it.\<close>

definition log_message :: "bytes \<Rightarrow> bytes \<Rightarrow> bytes \<Rightarrow> bytes" where
  "log_message time_text tag text = ''['' @ time_text @ tag @ take LOG_LENGTH (c_string text) @ [LF]"

text \<open>The end of \<open>write_log\<close>, when lines are kept: the oldest line makes room.\<close>

definition keep_line :: "log_env \<Rightarrow> int \<Rightarrow> bytes \<Rightarrow> logs \<Rightarrow> logs res" where
  "keep_line e max_lines message lg =
     (case lg_lines lg of None \<Rightarrow> Inl NullDeref
      | Some q \<Rightarrow>
          bind_res (if nat max_lines \<le> unat (estimate_tqueue_size q)
                    then bind_res (pop_tqueue q) (\<lambda>(q, line). case line of
                        None \<Rightarrow> Inl AssertFailed
                      | Some line \<Rightarrow> Inr (lg\<lparr>lg_lines := Some q, lg_size := lg_size lg - int (length (c_string line))\<rparr>, q))
                    else Inr (lg, q)) (\<lambda>(lg, q).
            if \<not> le_alloc e then Inr lg
            else bind_res (push_tqueue q message) (\<lambda>(q, slot).
              bind_res (assert_that (slot \<noteq> None)) (\<lambda>_.
                Inr (lg\<lparr>lg_lines := Some q, lg_size := lg_size lg + int (length message)\<rparr>)))))"

text \<open>
  \<open>conf\<close> is \<open>None\<close> when there is no server yet; the code then follows the NULL pointer. \<open>Some None\<close> is a server without
  a configuration.
\<close>

definition write_log :: "log_env \<Rightarrow> config option option \<Rightarrow> nat \<Rightarrow> bytes \<Rightarrow> logs \<Rightarrow> logs res" where
  "write_log e conf level text lg =
     (case conf of None \<Rightarrow> Inl NullDeref
      | Some conf \<Rightarrow>
          let conf = (case conf of None \<Rightarrow> default_conf | Some c \<Rightarrow> c); check = cf_log_levels conf AND level in
          case le_time e of None \<Rightarrow> Inl AssertFailed
          | Some at \<Rightarrow>
              bind_res (generate_date_string (replicate 21 NUL) (le_localtime e at)) (\<lambda>time_text.
                case level_tag check of None \<Rightarrow> Inr lg
                | Some tag \<Rightarrow>
                    let message = log_message time_text tag text;
                        lg = (if check = LOG_ERR then lg\<lparr>lg_error_at := Some at\<rparr> else lg) in
                    bind_res (assert_that (34 \<le> length message)) (\<lambda>_.
                      let lg = lg\<lparr>lg_printed := lg_printed lg @ message\<rparr> in
                      if \<not> lg_open lg then Inr lg
                      else if cf_max_log_lines conf = - 1 then
                        bind_res (assert_that (le_written e)) (\<lambda>_. Inr (lg\<lparr>lg_file := lg_file lg @ message\<rparr>))
                      else keep_line e (cf_max_log_lines conf) message lg)))"

section \<open>Opening and closing\<close>

text \<open>
  The loop over the mapped file: \<open>line\<close> is what was read since the last line feed. A line that does not fit into
  the queue is dropped, as is the end of a file without a line feed. The loop ends at a NUL.
\<close>

fun read_lines :: "(nat \<Rightarrow> bool) \<Rightarrow> bytes \<Rightarrow> bytes \<Rightarrow> bytes tqueue \<Rightarrow> bytes tqueue res" where
  "read_lines ok line [] q = Inl OutOfBounds"
| "read_lines ok line (c # data) q =
     (if c = NUL then Inr q
      else if c \<noteq> LF then read_lines ok (line @ [c]) data q
      else if \<not> ok 0 then Inl NullDeref
      else bind_res (push_tqueue q (line @ [LF])) (\<lambda>(q, slot). read_lines (\<lambda>i. ok (i + 1)) [] data q))"

text \<open>The pages of a mapped file: zeroes follow its last byte.\<close>

definition pages :: "nat \<Rightarrow> bytes \<Rightarrow> bytes" where
  "pages page m = m @ replicate ((page - length m mod page) mod page) NUL"

record open_env =
  oe_opened :: bool
  oe_queue :: "bytes tqueue option"      \<comment> \<open>what \<open>create_tqueue\<close> answers\<close>
  oe_mapping :: mapping
  oe_page :: nat
  oe_line :: "nat \<Rightarrow> bool"                \<comment> \<open>\<open>malloc\<close> of a line\<close>

definition initialize_logs :: "open_env \<Rightarrow> log_env \<Rightarrow> config \<Rightarrow> bytes \<Rightarrow> (logs \<times> bool) res" where
  "initialize_logs oe e conf content =
     (let lg = no_logs content in
      if c_string (cf_log_file conf) = [] then Inr (lg, True)
      else if cf_max_log_lines conf < 0 \<and> cf_max_log_lines conf \<noteq> - 1 then Inr (lg, False)
      else if \<not> oe_opened oe then Inr (lg, False)
      else if cf_max_log_lines conf = - 1 then Inr (lg\<lparr>lg_open := True\<rparr>, True)
      else let lg = lg\<lparr>lg_open := True, lg_size := int (length content)\<rparr> in
        case oe_queue oe of
          None \<Rightarrow> bind_res (write_log e (Some (Some conf)) LOG_ERR ''Cannot initialized logs, out of memory.'' lg) (\<lambda>lg. Inr (lg, False))
        | Some q \<Rightarrow>
            if content = [] then Inr (lg\<lparr>lg_lines := Some q\<rparr>, True)
            else case oe_mapping oe of
                MapRefused \<Rightarrow> Inr (lg\<lparr>lg_lines := Some q\<rparr>, False)
              | MapFailed \<Rightarrow> Inl OutOfBounds
              | Mapped \<Rightarrow> bind_res (read_lines (oe_line oe) [] (pages (oe_page oe) content) q) (\<lambda>q.
                  Inr (lg\<lparr>lg_lines := Some q\<rparr>, True)))"

text \<open>The loop that empties the queue into the mapped file.\<close>

partial_function (option) write_lines :: "bytes tqueue \<Rightarrow> bytes \<Rightarrow> nat \<Rightarrow> (bytes tqueue \<times> bytes) res option" where
  "write_lines q m written =
     (if estimate_tqueue_size q = 0 then Some (Inr (q, m))
      else case pop_tqueue q of
        Inl f \<Rightarrow> Some (Inl f)
      | Inr (q, None) \<Rightarrow> Some (Inr (q, m))
      | Inr (q, Some line) \<Rightarrow> (case mem_put m written (c_string line) of
            Inl f \<Rightarrow> Some (Inl f)
          | Inr m \<Rightarrow> write_lines q m (written + length (c_string line))))"

text \<open>
  The result is the file. Without a limit, or without a file, the queue is NULL and \<open>free_tqueue\<close>
  follows the pointer; and with a file of whole pages, of no bytes too, the final NUL is written behind the mapping.
\<close>

definition save_and_close_logs :: "bool \<Rightarrow> mapping \<Rightarrow> nat \<Rightarrow> config \<Rightarrow> logs \<Rightarrow> bytes res" where
  "save_and_close_logs truncated mapping page conf lg =
     (if \<not> lg_open lg \<or> cf_max_log_lines conf = - 1 then
        (case lg_lines lg of None \<Rightarrow> Inl NullDeref
         | Some q \<Rightarrow> if lg_open lg then Inr (lg_file lg) else Inl AssertFailed)
      else case lg_lines lg of None \<Rightarrow> Inl NullDeref
      | Some q \<Rightarrow>
        if \<not> truncated \<or> lg_size lg < 0 then Inr (lg_file lg)
        else let size = nat (lg_size lg); file = take size (lg_file lg) @ replicate (size - length (lg_file lg)) NUL in
          case mapping of
            MapRefused \<Rightarrow> Inl AssertFailed
          | MapFailed \<Rightarrow> Inl OutOfBounds
          | Mapped \<Rightarrow>
              bind_res (of_loop (write_lines q (pages page file) 0)) (\<lambda>r.
              bind_res r (\<lambda>(q, m).
              bind_res (mem_put m size [NUL]) (\<lambda>m.
              bind_res (assert_that (estimate_tqueue_size q = 0)) (\<lambda>_. Inr (take size m))))))"

section \<open>What the file holds in the end\<close>

definition keep_last :: "nat \<Rightarrow> 'a list \<Rightarrow> 'a list" where
  "keep_last n xs = drop (length xs - n) xs"

lemma keep_last_short [simp]: "length xs \<le> n \<Longrightarrow> keep_last n xs = xs"
  by (simp add: keep_last_def)

lemma keep_last_length [simp]: "length (keep_last n xs) = min n (length xs)"
  by (auto simp: keep_last_def)

lemma keep_last_snoc:
  assumes "0 < n"
  shows "keep_last n (xs @ [x]) = (if length xs < n then keep_last n xs else tl (keep_last n xs)) @ [x]"
  using assms by (auto simp: keep_last_def drop_Suc tl_drop Suc_diff_le)

lemma set_keep_last: "set (keep_last n xs) \<subseteq> set xs"
  by (simp add: keep_last_def set_drop_subset)

text \<open>A line as it is kept: no NUL in it, so that \<open>strlen\<close> sees all of it.\<close>

definition holding_lines :: "nat \<Rightarrow> bytes list \<Rightarrow> logs \<Rightarrow> bool" where
  "holding_lines k xs lg \<longleftrightarrow> lg_open lg \<and> lg_size lg = int (length (concat xs)) \<and> (\<forall>x \<in> set xs. NUL \<notin> set x) \<and>
     (\<exists>A q. lg_lines lg = Some q \<and> holds_list k A q xs)"

lemma c_string_id: "NUL \<notin> set x \<Longrightarrow> c_string x = x"
  by (simp add: c_string_def takeWhile_eq_all_conv) metis

lemma c_string_no_nul: "NUL \<notin> set (c_string x)"
  by (auto simp: c_string_def dest: set_takeWhileD)

lemma estimate_holds:
  assumes h: "holds_list k A q xs"
  shows "unat (estimate_tqueue_size q) = length xs"
proof -
  have "shape k q" "length xs \<le> 2 ^ k" using h by (simp_all add: holds_list_def)
  then have "length xs < 2 ^ 64" using round_small [of k q] by simp
  moreover have "estimate_tqueue_size q = wd (length xs)" using h by (simp add: estimate_tqueue_size_def holds_list_def)
  ultimately show ?thesis by (simp add: unat_of_nat)
qed

lemma keep_line_correct:
  assumes h: "holding_lines k (keep_last (2 ^ k) xs) lg" and m: "NUL \<notin> set message" and e: "le_alloc e"
  shows "\<exists>q size. keep_line e (2 ^ k) message lg = Inr (lg\<lparr>lg_lines := Some q, lg_size := size\<rparr>) \<and>
    holding_lines k (keep_last (2 ^ k) (xs @ [message])) (lg\<lparr>lg_lines := Some q, lg_size := size\<rparr>)"
proof -
  let ?ys = "keep_last (2 ^ k) xs"
  obtain A q where q: "lg_lines lg = Some q" "holds_list k A q ?ys" and o: "lg_open lg"
      and s: "lg_size lg = int (length (concat ?ys))" and nn: "\<forall>x \<in> set ?ys. NUL \<notin> set x"
    using h by (auto simp: holding_lines_def)
  have est: "unat (estimate_tqueue_size q) = length ?ys" by (rule estimate_holds [OF q(2)])
  show ?thesis
  proof (cases "length xs < 2 ^ k")
    case True
    then obtain q' c where p: "push_tqueue q message = Inr (q', Some c)" "holds_list k A q' (?ys @ [message])"
      using push_holds(1) [OF q(2), of message] by auto
    have "keep_last (2 ^ k) (xs @ [message]) = ?ys @ [message]" using True keep_last_snoc [of "2 ^ k" xs message] by simp
    then show ?thesis
      by (intro exI [of _ q'] exI [of _ "lg_size lg + int (length message)"])
        (use True p q(1) o s nn m e est in \<open>auto simp: nat_power_eq keep_line_def holding_lines_def\<close>)
  next
    case False
    then obtain y ys where ys: "?ys = y # ys" using keep_last_length [of "2 ^ k" xs] by (cases ?ys) auto
    obtain q1 where p1: "pop_tqueue q = Inr (q1, Some y)" "holds_list k (A + 1) q1 ys"
      using pop_holds(1) [OF q(2) ys] by blast
    have "length ys < 2 ^ k" using keep_last_length [of "2 ^ k" xs] False ys by simp
    then obtain q' c where p: "push_tqueue q1 message = Inr (q', Some c)" "holds_list k (A + 1) q' (ys @ [message])"
      using push_holds(1) [OF p1(2), of message] by blast
    have l: "keep_last (2 ^ k) (xs @ [message]) = ys @ [message]"
      using False ys keep_last_snoc [of "2 ^ k" xs message] by simp
    have "2 ^ k \<le> unat (estimate_tqueue_size q)" using est False keep_last_length [of "2 ^ k" xs] by simp
    moreover have "c_string y = y" using nn ys by (simp add: c_string_id)
    ultimately show ?thesis unfolding l
      by (intro exI [of _ q'] exI [of _ "lg_size lg - int (length y) + int (length message)"])
        (use p p1 q(1) o s nn m e ys in \<open>auto simp: nat_power_eq keep_line_def holding_lines_def\<close>)
  qed
qed

text \<open>A message that is written: its environment, its level and its text; and the line that it becomes.\<close>

type_synonym log_call = "log_env \<times> nat \<times> bytes"

definition call_line :: "log_call \<Rightarrow> bytes" where
  "call_line c = (case c of (e, level, msg) \<Rightarrow>
     (case generate_date_string (replicate 21 NUL) (le_localtime e (the (le_time e))) of
        Inl f \<Rightarrow> [] | Inr date \<Rightarrow> log_message date (the (level_tag level)) msg))"

definition good_call :: "config \<Rightarrow> log_call \<Rightarrow> bool" where
  "good_call conf c \<longleftrightarrow> (case c of (e, level, msg) \<Rightarrow>
     le_alloc e \<and> le_time e \<noteq> None \<and> cf_log_levels conf AND level = level \<and> level_tag level \<noteq> None \<and> c_string msg \<noteq> [] \<and>
     (\<exists>date. generate_date_string (replicate 21 NUL) (le_localtime e (the (le_time e))) = Inr date \<and> NUL \<notin> set date \<and> length date = 20))"

fun write_logs :: "config \<Rightarrow> log_call list \<Rightarrow> logs \<Rightarrow> logs res" where
  "write_logs conf [] lg = Inr lg"
| "write_logs conf ((e, level, msg) # cs) lg = bind_res (write_log e (Some (Some conf)) level msg lg) (write_logs conf cs)"

lemma level_tagE:
  assumes "level_tag l = Some tag" shows "length tag = 11" "NUL \<notin> set tag"
  using assms by (auto simp: level_tag_def split: if_splits)

lemma holding_update:
  "holding_lines k xs (lg\<lparr>lg_printed := p\<rparr>) = holding_lines k xs lg" "holding_lines k xs (lg\<lparr>lg_error_at := a\<rparr>) = holding_lines k xs lg"
  by (simp_all add: holding_lines_def)

lemma write_log_correct:
  assumes h: "holding_lines k (keep_last (2 ^ k) xs) lg" and c: "good_call conf (e, level, msg)" and m: "cf_max_log_lines conf = 2 ^ k"
  shows "\<exists>lg'. write_log e (Some (Some conf)) level msg lg = Inr lg' \<and> lg_file lg' = lg_file lg \<and>
    holding_lines k (keep_last (2 ^ k) (xs @ [call_line (e, level, msg)])) lg'"
proof -
  obtain at date tag where e: "le_alloc e" "le_time e = Some at" "cf_log_levels conf AND level = level" "level_tag level = Some tag"
      "generate_date_string (replicate 21 NUL) (le_localtime e at) = Inr date" "NUL \<notin> set date" "length date = 20" "c_string msg \<noteq> []"
    using c by (auto simp: good_call_def)
  let ?m = "log_message date tag msg"
  have line: "call_line (e, level, msg) = ?m" using e by (simp add: call_line_def)
  have nn: "NUL \<notin> set ?m"
    using e(6) level_tagE(2) [OF e(4)] c_string_no_nul [of msg] by (auto simp: log_message_def dest: in_set_takeD)
  have len: "34 \<le> length ?m"
    using e(7,8) level_tagE(1) [OF e(4)] by (cases "c_string msg") (simp_all add: log_message_def LOG_LENGTH_def)
  obtain lg1 where lg1_def: "lg1 = (if level = LOG_ERR then lg\<lparr>lg_error_at := Some at\<rparr> else lg)\<lparr>lg_printed := lg_printed lg @ ?m\<rparr>"
    by blast
  have h1: "holding_lines k (keep_last (2 ^ k) xs) lg1" using h by (simp add: lg1_def holding_update)
  then obtain q s where k: "keep_line e (2 ^ k) ?m lg1 = Inr (lg1\<lparr>lg_lines := Some q, lg_size := s\<rparr>)"
      "holding_lines k (keep_last (2 ^ k) (xs @ [?m])) (lg1\<lparr>lg_lines := Some q, lg_size := s\<rparr>)"
    using keep_line_correct [OF _ nn e(1)] by blast
  have o: "lg_open lg1" using h1 by (simp add: holding_lines_def)
  have p: "(2 :: int) ^ k \<noteq> - 1" using zero_less_power [of "2 :: int" k] by linarith
  have "write_log e (Some (Some conf)) level msg lg = keep_line e (2 ^ k) ?m lg1"
    using e len m o p by (simp add: write_log_def Let_def lg1_def)
  then show ?thesis using k line by (intro exI [of _ "lg1\<lparr>lg_lines := Some q, lg_size := s\<rparr>"]) (simp add: lg1_def)
qed

lemma write_logs_correct:
  "\<lbrakk>holding_lines k (keep_last (2 ^ k) xs) lg; list_all (good_call conf) cs; cf_max_log_lines conf = 2 ^ k\<rbrakk> \<Longrightarrow>
   \<exists>lg'. write_logs conf cs lg = Inr lg' \<and> lg_file lg' = lg_file lg \<and> holding_lines k (keep_last (2 ^ k) (xs @ map call_line cs)) lg'"
proof (induction cs arbitrary: xs lg)
  case (Cons c cs)
  obtain e level msg where c: "c = (e, level, msg)" by (cases c)
  obtain lg1 where w: "write_log e (Some (Some conf)) level msg lg = Inr lg1" "lg_file lg1 = lg_file lg"
      "holding_lines k (keep_last (2 ^ k) (xs @ [call_line c])) lg1"
    using write_log_correct [OF Cons.prems(1)] Cons.prems(2,3) c by force
  then show ?case using Cons.IH [OF w(3)] Cons.prems(2,3) c by auto
qed simp

definition line_of :: "bytes \<Rightarrow> bytes" where
  "line_of l = l @ [LF]"

lemma read_line:
  "\<lbrakk>NUL \<notin> set l; LF \<notin> set l; ok 0\<rbrakk> \<Longrightarrow> read_lines ok line (l @ LF # data) q =
   bind_res (push_tqueue q (line @ l @ [LF])) (\<lambda>(q, slot). read_lines (\<lambda>i. ok (i + 1)) [] data q)"
  by (induction l arbitrary: line) auto

lemma read_lines_correct:
  "\<lbrakk>\<forall>l \<in> set ls. NUL \<notin> set l \<and> LF \<notin> set l; \<And>i. ok i; holds_list k A q xs; length xs + length ls \<le> 2 ^ k\<rbrakk> \<Longrightarrow>
   \<exists>q'. read_lines ok [] (concat (map line_of ls) @ NUL # rest) q = Inr q' \<and> holds_list k A q' (xs @ map line_of ls)"
proof (induction ls arbitrary: ok q xs)
  case (Cons l ls)
  obtain q1 c where p: "push_tqueue q (line_of l) = Inr (q1, Some c)" "holds_list k A q1 (xs @ [line_of l])"
    using push_holds(1) [OF Cons.prems(3)] Cons.prems(4) by fastforce
  have "read_lines ok [] (concat (map line_of (l # ls)) @ NUL # rest) q =
      read_lines (\<lambda>i. ok (i + 1)) [] (concat (map line_of ls) @ NUL # rest) q1"
    using read_line [of l ok "[]" "concat (map line_of ls) @ NUL # rest" q] Cons.prems(1,2) p(1) by (simp add: line_of_def)
  moreover obtain q' where "read_lines (\<lambda>i. ok (i + 1)) [] (concat (map line_of ls) @ NUL # rest) q1 = Inr q'"
      "holds_list k A q' ((xs @ [line_of l]) @ map line_of ls)"
    using Cons.IH [of "\<lambda>i. ok (i + 1)" q1 "xs @ [line_of l]"] Cons.prems p(2) by auto
  ultimately show ?case by auto
qed auto

lemma write_lines_correct:
  "\<lbrakk>holds_list k A q xs; \<forall>x \<in> set xs. NUL \<notin> set x; written + length (concat xs) \<le> length m\<rbrakk> \<Longrightarrow>
   \<exists>q'. write_lines q m written = Some (Inr (q', take written m @ concat xs @ drop (written + length (concat xs)) m)) \<and>
     estimate_tqueue_size q' = 0"
proof (induction xs arbitrary: q A m written)
  case Nil
  have "estimate_tqueue_size q = 0" using estimate_holds [OF Nil.prems(1)] by (simp add: unat_eq_0)
  then show ?case using Nil.prems(3) by (simp add: write_lines.simps)
next
  case (Cons x xs)
  obtain q1 where p: "pop_tqueue q = Inr (q1, Some x)" "holds_list k (A + 1) q1 xs"
    using pop_holds(1) [OF Cons.prems(1) refl] by blast
  have e: "estimate_tqueue_size q \<noteq> 0" using estimate_holds [OF Cons.prems(1)] by auto
  let ?m = "take written m @ x @ drop (written + length x) m"
  have m: "mem_put m written (c_string x) = Inr ?m" "c_string x = x"
    using Cons.prems(2,3) by (simp_all add: mem_put_def c_string_id)
  have len: "written + length x + length (concat xs) \<le> length ?m" using Cons.prems(3) by simp
  obtain q' where q': "write_lines q1 ?m (written + length x) =
      Some (Inr (q', take (written + length x) ?m @ concat xs @ drop (written + length x + length (concat xs)) ?m))"
      "estimate_tqueue_size q' = 0"
    using Cons.IH [OF p(2) _ len] Cons.prems(2) by auto
  have "take (written + length x) ?m = take written m @ x" using Cons.prems(3) by simp
  moreover have "drop (written + length x + length (concat xs)) ?m = drop (written + length (concat (x # xs))) m"
    using Cons.prems(3) by (simp add: add.commute add.left_commute)
  ultimately show ?case
    using q' e p(1) m by (intro exI [of _ q']) (simp add: write_lines.simps [of q])
qed

lemma pages_cut:
  assumes "0 < page" "length m mod page \<noteq> 0"
  shows "\<exists>n. pages page m = m @ NUL # replicate n NUL"
proof -
  have "length m mod page < page" using assms(1) by simp
  then have "(page - length m mod page) mod page = page - length m mod page" "0 < page - length m mod page" using assms(2) by simp_all
  then show ?thesis by (intro exI [of _ "page - length m mod page - 1"]) (simp add: pages_def flip: replicate_Suc)
qed

definition calm_open :: "nat \<Rightarrow> open_env \<Rightarrow> bool" where
  "calm_open k oe \<longleftrightarrow> oe_opened oe \<and> oe_mapping oe = Mapped \<and> 0 < oe_page oe \<and> (\<forall>i. oe_line oe i) \<and>
     (\<exists>q. oe_queue oe = Some q \<and> fresh_tqueue k q)"

lemma initialize_logs_correct:
  assumes o: "calm_open k oe" and c: "c_string (cf_log_file conf) \<noteq> []" "cf_max_log_lines conf = 2 ^ k"
    and ls: "\<forall>l \<in> set ls. NUL \<notin> set l \<and> LF \<notin> set l" "length ls \<le> 2 ^ k"
    and p: "ls = [] \<or> length (concat (map line_of ls)) mod oe_page oe \<noteq> 0"
  shows "\<exists>lg. initialize_logs oe e conf (concat (map line_of ls)) = Inr (lg, True) \<and>
    lg_file lg = concat (map line_of ls) \<and> holding_lines k (map line_of ls) lg"
proof -
  obtain q where q: "oe_queue oe = Some q" "holds_list k 0 q []" using o fresh_holds by (auto simp: calm_open_def)
  have pos: "(0 :: int) < 2 ^ k" by simp
  have m: "\<not> cf_max_log_lines conf < 0" "cf_max_log_lines conf \<noteq> - 1" unfolding c(2) using pos by linarith+
  have nn: "\<forall>x \<in> set (map line_of ls). NUL \<notin> set x" using ls(1) by (auto simp: line_of_def)
  show ?thesis
  proof (cases "ls = []")
    case True
    then show ?thesis using o c(1) m q by (auto simp: initialize_logs_def holding_lines_def no_logs_def calm_open_def Let_def)
  next
    case False
    have "0 < oe_page oe" "length (concat (map line_of ls)) mod oe_page oe \<noteq> 0" using p o False by (simp_all add: calm_open_def del: length_concat)
    then obtain n where n: "pages (oe_page oe) (concat (map line_of ls)) = concat (map line_of ls) @ NUL # replicate n NUL"
      using pages_cut by blast
    have ok: "oe_line oe i" for i using o by (simp add: calm_open_def)
    obtain q' where r: "read_lines (oe_line oe) [] (concat (map line_of ls) @ NUL # replicate n NUL) q = Inr q'"
        "holds_list k 0 q' (map line_of ls)"
      using read_lines_correct [where ok = "oe_line oe", OF ls(1) ok q(2), of "replicate n NUL"] ls(2) by auto
    have "concat (map line_of ls) \<noteq> []" using False by (cases ls) (simp_all add: line_of_def)
    then show ?thesis
      using o c(1) m q(1) n r nn by (auto simp: initialize_logs_def holding_lines_def no_logs_def calm_open_def Let_def)
  qed
qed

lemma save_logs_correct:
  assumes h: "holding_lines k xs lg" and c: "cf_max_log_lines conf \<noteq> - 1" and p: "0 < page" "length (concat xs) mod page \<noteq> 0"
  shows "save_and_close_logs True Mapped page conf lg = Inr (concat xs)"
proof -
  obtain A q where q: "lg_lines lg = Some q" "holds_list k A q xs" using h by (auto simp: holding_lines_def)
  let ?n = "length (concat xs)" and ?file = "take (length (concat xs)) (lg_file lg) @ replicate (length (concat xs) - length (lg_file lg)) NUL"
  have len: "length ?file = ?n" by simp
  obtain z where z: "pages page ?file = ?file @ NUL # replicate z NUL" using pages_cut [of page ?file] p len by auto
  have ll: "?n < length (pages page ?file)" unfolding z using len by simp
  obtain q' where w: "write_lines q (pages page ?file) 0 = Some (Inr (q', concat xs @ drop ?n (pages page ?file)))" "estimate_tqueue_size q' = 0"
    using write_lines_correct [OF q(2), of 0 "pages page ?file"] h ll by (auto simp: holding_lines_def)
  have put: "mem_put (concat xs @ drop ?n (pages page ?file)) ?n [NUL] = Inr (concat xs @ NUL # drop (Suc ?n) (pages page ?file))"
    using ll by (simp add: mem_put_def)
  have "nat (lg_size lg) = ?n" "\<not> lg_size lg < 0" "lg_open lg" using h by (simp_all add: holding_lines_def del: length_concat)
  then show ?thesis using c q(1) w put by (simp add: save_and_close_logs_def Let_def del: length_concat)
qed

text \<open>The whole life of a log: opening a file of whole lines, writing, and saving the latest lines.\<close>

lemma log_life:
  assumes o: "calm_open k oe" and c: "c_string (cf_log_file conf) \<noteq> []" "cf_max_log_lines conf = 2 ^ k"
    and ls: "\<forall>l \<in> set ls. NUL \<notin> set l \<and> LF \<notin> set l" "length ls \<le> 2 ^ k"
    and p: "ls = [] \<or> length (concat (map line_of ls)) mod oe_page oe \<noteq> 0"
    and cs: "list_all (good_call conf) cs" and kept: "kept = concat (keep_last (2 ^ k) (map line_of ls @ map call_line cs))"
    and page: "0 < page" "length kept mod page \<noteq> 0"
  shows "bind_res (initialize_logs oe e conf (concat (map line_of ls))) (\<lambda>(lg, ok).
    bind_res (write_logs conf cs lg) (save_and_close_logs True Mapped page conf)) = Inr kept"
proof -
  obtain lg where i: "initialize_logs oe e conf (concat (map line_of ls)) = Inr (lg, True)" "holding_lines k (map line_of ls) lg"
    using initialize_logs_correct [OF o c ls p] by blast
  have "holding_lines k (keep_last (2 ^ k) (map line_of ls)) lg" using i(2) ls(2) by simp
  then obtain lg' where w: "write_logs conf cs lg = Inr lg'"
      "holding_lines k (keep_last (2 ^ k) (map line_of ls @ map call_line cs)) lg'"
    using write_logs_correct [OF _ cs c(2)] by blast
  have "(0 :: int) < 2 ^ k" by simp
  then have "cf_max_log_lines conf \<noteq> - 1" unfolding c(2) by linarith
  then show ?thesis using i(1) w(1) save_logs_correct [OF w(2) _ page(1)] page(2) kept by simp
qed

text \<open>Without a limit, or without a log file, closing follows a NULL pointer.\<close>

lemma save_without_lines:
  assumes "lg_lines lg = None"
  shows "save_and_close_logs truncated mapping page conf lg = Inl NullDeref"
  using assms by (simp add: save_and_close_logs_def)

end
