(* ===== verification/Server.thy ===== *)
theory Server
  imports IO_Threads Logs
begin

text \<open>
  The life of the process: \<open>start_server\<close>, \<open>cleanup\<close> and \<open>close_server\<close> of \<open>src/server/server.c\<close>, the transaction thread of
  \<open>src/transactions/thread.c\<close>, \<open>initialize_kdf\<close> of \<open>src/server/auth.c\<close> and \<open>main\<close> of \<open>src/telly.c\<close>. What the process
  owns is kept as the state of the pointer to it: NULL, alive, or freed but still there. The contents of these objects are
  the subject of the other theories; here only their creation and their end matter, and the blocks that are left in the queue. Messages to the log are left out, but for those
  of a process without a server.
\<close>

section \<open>The transaction thread\<close>

text \<open>
  The inner loop of \<open>transaction_thread\<close> after a notice of \<open>count\<close> blocks. \<open>kill i\<close> is what \<open>kill_pending\<close> is before the \<open>i\<close>-th turn. A
  thread that is not to end waits for a block that has been announced.
\<close>

fun thread_loop ::
  "('z, 'f) gmp \<Rightarrow> ('z, 'f) handler list \<Rightarrow> (nat \<Rightarrow> nat \<Rightarrow> ('z, 'f) genv) \<Rightarrow> (nat \<Rightarrow> bool) \<Rightarrow> nat \<Rightarrow> ('z, 'f) world \<Rightarrow> ('z, 'f) world res" where
  "thread_loop g commands e kill 0 w = Inr w"
| "thread_loop g commands e kill (Suc count) w =
     bind_res (pop_tqueue (w_queue w)) (\<lambda>(q, popped). case popped of
         None \<Rightarrow> if kill 0 then thread_loop g commands (\<lambda>i. e (i + 1)) (\<lambda>i. kill (i + 1)) count (w\<lparr>w_queue := q\<rparr>) else Inl Endless
       | Some bk \<Rightarrow> bind_res (execute_transaction_block g commands (e 0) bk (w\<lparr>w_queue := q\<rparr>)) (\<lambda>w.
           thread_loop g commands (\<lambda>i. e (i + 1)) (\<lambda>i. kill (i + 1)) count (remove_transaction_block bk w)))"

lemma thread_loop_turn:
  assumes "holds_list n A (w_queue w) (bk # bks)"
  shows "thread_loop g commands e kill (Suc count) w =
    bind_res (transaction_turn g commands (e 0) w) (thread_loop g commands (\<lambda>i. e (i + 1)) (\<lambda>i. kill (i + 1)) count)"
  using pop_holds(1) [OF assms refl] by (auto simp: transaction_turn_def bind_res_assoc)

text \<open>A thread that is to end does not wait for blocks that do not come.\<close>

lemma thread_loop_ends:
  "\<lbrakk>holds_list n A (w_queue w) []; \<And>i. kill i\<rbrakk> \<Longrightarrow> thread_loop g commands e kill count w = Inr w"
proof (induction count arbitrary: e kill)
  case (Suc count)
  have "thread_loop g commands e' (\<lambda>i. kill (i + 1)) count w = Inr w" for e'
    using Suc.IH [where e = e' and kill = "\<lambda>i. kill (i + 1)"] Suc.prems by blast
  then show ?case using pop_holds(2) [OF Suc.prems(1) refl] Suc.prems(2) by simp
qed simp

section \<open>What the process owns\<close>

datatype owned = Never | Alive | Freed

text \<open>\<open>if (p) free(p);\<close>\<close>

definition free_if :: "owned \<Rightarrow> owned res" where
  "free_if p = (case p of Never \<Rightarrow> Inr Never | Alive \<Rightarrow> Inr Freed | Freed \<Rightarrow> Inl UseAfterFree)"

text \<open>An object that is used, or freed together with what it points to.\<close>

definition use :: "owned \<Rightarrow> unit res" where
  "use p = (case p of Never \<Rightarrow> Inl NullDeref | Alive \<Rightarrow> Inr () | Freed \<Rightarrow> Inl UseAfterFree)"

record server =
  sv_logs :: logs
  sv_ctx :: owned
  sv_commands :: owned
  sv_tx_notifier :: owned
  sv_tx_queue :: owned
  sv_thread_sem :: owned
  sv_kill_sem :: owned
  sv_thread :: bool                   \<comment> \<open>the transaction thread runs\<close>
  sv_sockfd :: owned
  sv_constants :: "owned list"        \<comment> \<open>the default, the empty and the full password\<close>
  sv_libctx :: owned
  sv_prov :: owned
  sv_kdf :: owned
  sv_database_fd :: owned
  sv_databases :: owned
  sv_keyspace :: owned
  sv_eventfd :: owned
  sv_write_arena :: owned
  sv_clients :: owned
  sv_io_threads :: "io_thread option list"

definition new_server :: "logs \<Rightarrow> server" where
  "new_server lg = \<lparr>sv_logs = lg, sv_ctx = Never, sv_commands = Never, sv_tx_notifier = Never, sv_tx_queue = Never,
     sv_thread_sem = Never, sv_kill_sem = Never, sv_thread = False, sv_sockfd = Never, sv_constants = [Never, Never, Never],
     sv_libctx = Never, sv_prov = Never, sv_kdf = Never, sv_database_fd = Never, sv_databases = Never, sv_keyspace = Never,
     sv_eventfd = Never, sv_write_arena = Never, sv_clients = Never, sv_io_threads = []\<rparr>"

text \<open>What can fail while the server starts, in the order in which the code tries it.\<close>

datatype step =
    ServerMemory | ConfigMemory | SslContext | Certificate | PrivateKey | CommandTable
  | TxEpoll | TxNotifier | TxEvent | TxQueue | ThreadSem | KillSem | TxThread
  | SocketOpened | SocketSet | SocketBound
  | DefaultPassword | EmptyPassword | FullPassword | KdfLibrary | KdfProvider | KdfFetched | KdfContext
  | DatabaseOpened | DatabaseStarted | DatabaseRead | KeyspaceMade | EpollMade | EpollAdded | WriteArena | ClientTable | IoThreads

text \<open>The steps in their order.\<close>

definition steps :: "step list" where
  "steps = [ServerMemory, ConfigMemory, SslContext, Certificate, PrivateKey, CommandTable,
     TxEpoll, TxNotifier, TxEvent, TxQueue, ThreadSem, KillSem, TxThread, SocketOpened, SocketSet, SocketBound,
     DefaultPassword, EmptyPassword, FullPassword, KdfLibrary, KdfProvider, KdfFetched, KdfContext,
     DatabaseOpened, DatabaseStarted, DatabaseRead, KeyspaceMade, EpollMade, EpollAdded, WriteArena, ClientTable, IoThreads]"

definition step_number :: "step \<Rightarrow> nat" where
  "step_number st = length (takeWhile (\<lambda>st'. st' \<noteq> st) steps)"

lemma step_number_simps [simp]:
  "step_number ServerMemory = 0" "step_number ConfigMemory = 1" "step_number SslContext = 2" "step_number Certificate = 3"
  "step_number PrivateKey = 4" "step_number CommandTable = 5" "step_number TxEpoll = 6" "step_number TxNotifier = 7"
  "step_number TxEvent = 8" "step_number TxQueue = 9" "step_number ThreadSem = 10" "step_number KillSem = 11" "step_number TxThread = 12"
  "step_number SocketOpened = 13" "step_number SocketSet = 14" "step_number SocketBound = 15" "step_number DefaultPassword = 16"
  "step_number EmptyPassword = 17" "step_number FullPassword = 18" "step_number KdfLibrary = 19" "step_number KdfProvider = 20"
  "step_number KdfFetched = 21" "step_number KdfContext = 22" "step_number DatabaseOpened = 23" "step_number DatabaseStarted = 24"
  "step_number DatabaseRead = 25" "step_number KeyspaceMade = 26" "step_number EpollMade = 27" "step_number EpollAdded = 28"
  "step_number WriteArena = 29" "step_number ClientTable = 30" "step_number IoThreads = 31"
  by (simp_all add: step_number_def steps_def)

lemma step_number_nth: "steps ! step_number st = st"
  by (cases st) (simp_all add: steps_def)

lemma step_number_inject: "step_number st = step_number st' \<Longrightarrow> st = st'"
  by (metis step_number_nth)

instantiation step :: linorder
begin

definition less_eq_step :: "step \<Rightarrow> step \<Rightarrow> bool" where
  "less_eq_step st st' \<longleftrightarrow> step_number st \<le> step_number st'"

definition less_step :: "step \<Rightarrow> step \<Rightarrow> bool" where
  "less_step st st' \<longleftrightarrow> step_number st < step_number st'"

instance
  by standard (auto simp: less_eq_step_def less_step_def intro: step_number_inject)

end

record life_env =
  lv_fails :: "step \<Rightarrow> bool"
  lv_tls :: bool
  lv_conf :: config
  lv_open :: open_env
  lv_log :: log_env
  lv_content :: bytes
  lv_threads :: "io_thread option list"     \<comment> \<open>what \<open>create_io_threads\<close> made\<close>
  lv_truncated :: bool
  lv_mapping :: mapping
  lv_page :: nat

section \<open>Starting\<close>

text \<open>Every part of the start answers the server and whether it worked.\<close>

definition initialize_server_ssl :: "life_env \<Rightarrow> server \<Rightarrow> server \<times> bool" where
  "initialize_server_ssl e s =
     (if lv_fails e SslContext then (s, False)
      else (s\<lparr>sv_ctx := Alive\<rparr>, \<not> lv_fails e Certificate \<and> \<not> lv_fails e PrivateKey))"

text \<open>The error paths free what was made, but leave the pointers to it as they are.\<close>

definition initialize_thread_variables :: "life_env \<Rightarrow> server \<Rightarrow> server \<times> bool" where
  "initialize_thread_variables e s =
     (if lv_fails e TxEpoll then (s, False)
      else if lv_fails e TxNotifier then (s, False)
      else let s = s\<lparr>sv_tx_notifier := Alive\<rparr> in
        if lv_fails e TxEvent then (s, False)
        else if lv_fails e TxQueue then (s\<lparr>sv_tx_notifier := Freed\<rparr>, False)
        else let s = s\<lparr>sv_tx_queue := Alive\<rparr> in
          if lv_fails e ThreadSem then (s\<lparr>sv_tx_notifier := Freed, sv_tx_queue := Freed\<rparr>, False)
          else let s = s\<lparr>sv_thread_sem := Alive\<rparr> in
            if lv_fails e KillSem then (s\<lparr>sv_tx_notifier := Freed, sv_tx_queue := Freed, sv_thread_sem := Freed\<rparr>, False)
            else (s\<lparr>sv_kill_sem := Alive\<rparr>, True))"

definition create_transaction_thread :: "life_env \<Rightarrow> server \<Rightarrow> server \<times> bool" where
  "create_transaction_thread e s =
     (case initialize_thread_variables e s of (s, ok) \<Rightarrow>
        if \<not> ok then (s, False)
        else if lv_fails e TxThread then (s, False)
        else (s\<lparr>sv_thread := True, sv_thread_sem := Freed\<rparr>, True))"

definition initialize_socket :: "life_env \<Rightarrow> server \<Rightarrow> server \<times> bool" where
  "initialize_socket e s =
     (if lv_fails e SocketOpened then (s, False)
      else (s\<lparr>sv_sockfd := Alive\<rparr>, \<not> lv_fails e SocketSet \<and> \<not> lv_fails e SocketBound))"

definition create_constants :: "life_env \<Rightarrow> server \<Rightarrow> server \<times> bool" where
  "create_constants e s =
     (if lv_fails e DefaultPassword then (s, False)
      else if lv_fails e EmptyPassword then (s\<lparr>sv_constants := [Alive, Never, Never]\<rparr>, False)
      else if lv_fails e FullPassword then (s\<lparr>sv_constants := [Alive, Alive, Never]\<rparr>, False)
      else (s\<lparr>sv_constants := [Alive, Alive, Alive]\<rparr>, True))"

definition initialize_kdf :: "life_env \<Rightarrow> server \<Rightarrow> server \<times> bool" where
  "initialize_kdf e s =
     (if lv_fails e KdfLibrary then (s, False)
      else if lv_fails e KdfProvider then (s\<lparr>sv_libctx := Freed\<rparr>, False)
      else if lv_fails e KdfFetched \<or> lv_fails e KdfContext then (s\<lparr>sv_libctx := Freed, sv_prov := Freed\<rparr>, False)
      else (s\<lparr>sv_libctx := Alive, sv_prov := Alive, sv_kdf := Alive\<rparr>, True))"

definition initialize_authorization :: "life_env \<Rightarrow> server \<Rightarrow> server \<times> bool" where
  "initialize_authorization e s = (case create_constants e s of (s, ok) \<Rightarrow> if \<not> ok then (s, False) else initialize_kdf e s)"

text \<open>
  Without a list of databases, the file could not be opened, or its header is wrong or there is no memory for the first database. When memory
  ends while it is read, the databases read so far are there.
\<close>

definition open_database_part :: "life_env \<Rightarrow> server \<Rightarrow> server \<times> bool" where
  "open_database_part e s =
     (if lv_fails e DatabaseOpened then (s, False)
      else if lv_fails e DatabaseStarted then (s\<lparr>sv_database_fd := Freed\<rparr>, False)
      else (s\<lparr>sv_database_fd := Alive, sv_databases := Alive\<rparr>, \<not> lv_fails e DatabaseRead))"

definition initialize_client_table :: "life_env \<Rightarrow> server \<Rightarrow> server \<times> bool" where
  "initialize_client_table e s =
     (if lv_fails e WriteArena then (s, False)
      else let s = s\<lparr>sv_write_arena := Alive\<rparr> in if lv_fails e ClientTable then (s, False) else (s\<lparr>sv_clients := Alive\<rparr>, True))"

definition make_keyspace :: "life_env \<Rightarrow> server \<Rightarrow> server \<times> bool" where
  "make_keyspace e s = (if lv_fails e KeyspaceMade then (s, False) else (s\<lparr>sv_keyspace := Alive\<rparr>, True))"

definition make_eventfd :: "life_env \<Rightarrow> server \<Rightarrow> server \<times> bool" where
  "make_eventfd e s = (if lv_fails e EpollMade then (s, False) else (s\<lparr>sv_eventfd := Alive\<rparr>, \<not> lv_fails e EpollAdded))"

definition make_io_threads :: "life_env \<Rightarrow> server \<Rightarrow> server \<times> bool" where
  "make_io_threads e s = (if lv_fails e IoThreads then (s, False) else (s\<lparr>sv_io_threads := lv_threads e\<rparr>, True))"

section \<open>Ending\<close>

text \<open>
  \<open>destroy_transaction_thread\<close>: the notifier may be NULL, the semaphore may not; and without a thread nobody posts it. The thread
  destroys the notifier at its end, but not the pointer to it.
\<close>

definition destroy_transaction_thread :: "server \<Rightarrow> server res" where
  "destroy_transaction_thread s =
     (if sv_tx_notifier s = Freed then Inl UseAfterFree
      else bind_res (use (sv_kill_sem s)) (\<lambda>_.
        if \<not> sv_thread s then Inl Endless
        else Inr (s\<lparr>sv_thread := False, sv_tx_notifier := Freed, sv_kill_sem := Freed\<rparr>)))"

fun free_all_if :: "owned list \<Rightarrow> owned list res" where
  "free_all_if [] = Inr []"
| "free_all_if (p # ps) = bind_res (free_if p) (\<lambda>p. bind_res (free_all_if ps) (\<lambda>ps. Inr (p # ps)))"

definition free_kdf :: "server \<Rightarrow> server res" where
  "free_kdf s =
     bind_res (free_if (sv_kdf s)) (\<lambda>kdf. bind_res (free_if (sv_prov s)) (\<lambda>prov. bind_res (free_if (sv_libctx s)) (\<lambda>libctx.
       Inr (s\<lparr>sv_kdf := kdf, sv_prov := prov, sv_libctx := libctx\<rparr>))))"

text \<open>
  \<open>free_transaction_blocks\<close>: the blocks that were never run are removed from the queue and counted as processed.
\<close>

partial_function (option) free_blocks :: "('z, 'f) world \<Rightarrow> ('z, 'f) world res option" where
  "free_blocks w =
     (if estimate_tqueue_size (w_queue w) = 0 then Some (Inr w)
      else case pop_tqueue (w_queue w) of
        Inl f \<Rightarrow> Some (Inl f)
      | Inr (q, None) \<Rightarrow> Some (Inl Undefined)
      | Inr (q, Some bk) \<Rightarrow> free_blocks (remove_transaction_block bk (w\<lparr>w_queue := q\<rparr>)))"

lemma free_blocks_empties:
  "holds_list n A (w_queue w) bks \<Longrightarrow> \<exists>q. free_blocks w = Some (Inr (fold remove_transaction_block bks (w\<lparr>w_queue := q\<rparr>))) \<and> estimate_tqueue_size q = 0"
proof (induction bks arbitrary: w A)
  case Nil
  have "estimate_tqueue_size (w_queue w) = 0" using estimate_holds [OF Nil] by (simp add: unat_eq_0)
  then show ?case by (intro exI [of _ "w_queue w"]) (simp add: free_blocks.simps)
next
  case (Cons bk bks)
  obtain q1 where p: "pop_tqueue (w_queue w) = Inr (q1, Some bk)" "holds_list n (A + 1) q1 bks"
    using pop_holds(1) [OF Cons.prems refl] by blast
  have e: "estimate_tqueue_size (w_queue w) \<noteq> 0" using estimate_holds [OF Cons.prems] by auto
  have swap: "remove_transaction_block bk (v\<lparr>w_queue := q\<rparr>) = (remove_transaction_block bk v)\<lparr>w_queue := q\<rparr>" for v q
    by (simp add: remove_transaction_block_def split: block_type.split)
  have "holds_list n (A + 1) (w_queue (remove_transaction_block bk (w\<lparr>w_queue := q1\<rparr>))) bks" using p(2) by (simp add: swap)
  from Cons.IH [OF this] show ?case using p(1) e by (auto simp: free_blocks.simps [of w] swap)
qed

text \<open>\<open>free_transaction_blocks\<close> and \<open>free_databases\<close> do not ask whether there is anything to free.\<close>

definition cleanup :: "life_env \<Rightarrow> server \<Rightarrow> (server \<times> bytes) res" where
  "cleanup e s =
     bind_res (destroy_transaction_thread s) (\<lambda>s.
     bind_res (signal_destroy (sv_io_threads s)) (\<lambda>_.
     bind_res (use (sv_tx_queue s)) (\<lambda>_.
     bind_res (free_if (sv_commands s)) (\<lambda>commands.
     bind_res (free_if (sv_clients s)) (\<lambda>clients.
     bind_res (free_if (sv_write_arena s)) (\<lambda>arena.
     bind_res (free_if (sv_keyspace s)) (\<lambda>keyspace.
     bind_res (free_if (sv_ctx s)) (\<lambda>ctx.
     bind_res (free_if (sv_sockfd s)) (\<lambda>sockfd.
     bind_res (free_if (sv_eventfd s)) (\<lambda>eventfd.
     bind_res (free_all_if (sv_constants s)) (\<lambda>constants.
     bind_res (free_kdf s) (\<lambda>s.
     bind_res (use (sv_databases s)) (\<lambda>_.
     bind_res (save_and_close_logs (lv_truncated e) (lv_mapping e) (lv_page e) (lv_conf e) (sv_logs s)) (\<lambda>log_file.
       Inr (s\<lparr>sv_io_threads := [], sv_tx_queue := Freed, sv_commands := commands, sv_clients := clients, sv_write_arena := arena,
         sv_keyspace := keyspace, sv_ctx := ctx, sv_sockfd := sockfd, sv_eventfd := eventfd, sv_constants := constants,
         sv_databases := Freed\<rparr>, log_file)))))))))))))))"

text \<open>\<open>close_server\<close>: saving may fail, with a message; the database file is closed.\<close>

definition close_server :: "life_env \<Rightarrow> server \<Rightarrow> (server \<times> bytes) res" where
  "close_server e s = cleanup e (s\<lparr>sv_database_fd := Freed\<rparr>)"

section \<open>The whole life\<close>

datatype life = Returned | Exited server bytes

text \<open>A part of the start, and \<open>CLEANUP_RETURN_IF\<close>.\<close>

definition part :: "life_env \<Rightarrow> server \<times> bool \<Rightarrow> (server \<Rightarrow> life res) \<Rightarrow> life res" where
  "part e r k = (case r of (s, ok) \<Rightarrow> if ok then k s else bind_res (cleanup e s) (\<lambda>(s, log_file). Inr (Exited s log_file)))"

definition start_server :: "life_env \<Rightarrow> life res" where
  "start_server e =
     (if lv_fails e ServerMemory then
        bind_res (write_log (lv_log e) None LOG_ERR ''Cannot initialize server, out of memory.'' (no_logs (lv_content e))) (\<lambda>_. Inr Returned)
      else if lv_fails e ConfigMemory then Inl NullDeref
      else
        bind_res (initialize_logs (lv_open e) (lv_log e) (lv_conf e) (lv_content e)) (\<lambda>(lg, _).
        part e (if lv_tls e then initialize_server_ssl e (new_server lg) else (new_server lg, True)) (\<lambda>s.
        if lv_fails e CommandTable then Inr Returned
        else
          part e (create_transaction_thread e (s\<lparr>sv_commands := Alive\<rparr>)) (\<lambda>s.
          part e (initialize_socket e s) (\<lambda>s.
          part e (initialize_authorization e s) (\<lambda>s.
          part e (open_database_part e s) (\<lambda>s.
          part e (make_keyspace e s) (\<lambda>s.
          part e (make_eventfd e s) (\<lambda>s.
          part e (initialize_client_table e s) (\<lambda>s.
          part e (make_io_threads e s) (\<lambda>s.
          bind_res (close_server e s) (\<lambda>(s, log_file). Inr (Exited s log_file)))))))))))))"

section \<open>How the life ends\<close>

text \<open>
  What becomes of a start by the first thing that fails: up to the list of databases, \<open>cleanup\<close> itself runs into something that
  is not there, is freed a second time, or waits for a thread that was never started.
\<close>

definition start_fault :: "step \<Rightarrow> fault option" where
  "start_fault st =
     (if st \<in> {ServerMemory, ConfigMemory, SslContext, Certificate, PrivateKey, TxEpoll, TxNotifier, TxEvent, SocketOpened, SocketSet, SocketBound,
        DefaultPassword, EmptyPassword, FullPassword, KdfLibrary, DatabaseOpened, DatabaseStarted} then Some NullDeref
      else if st \<in> {TxQueue, ThreadSem, KillSem, KdfProvider, KdfFetched, KdfContext} then Some UseAfterFree
      else if st = TxThread then Some Endless
      else None)"

lemmas start_simps = start_server_def part_def initialize_server_ssl_def initialize_thread_variables_def create_transaction_thread_def
  initialize_socket_def create_constants_def initialize_kdf_def initialize_authorization_def open_database_part_def initialize_client_table_def
  make_keyspace_def make_eventfd_def make_io_threads_def new_server_def

lemmas end_simps = close_server_def cleanup_def destroy_transaction_thread_def use_def free_if_def free_kdf_def

text \<open>The first thing that fails; what comes after it is not tried.\<close>

definition first_failure :: "life_env \<Rightarrow> step \<Rightarrow> bool" where
  "first_failure e st \<longleftrightarrow> lv_fails e st \<and> (\<forall>st' < st. \<not> lv_fails e st')"

lemma start_faults:
  assumes f: "first_failure e st" and st: "start_fault st = Some f" and tls: "st \<in> {SslContext, Certificate, PrivateKey} \<Longrightarrow> lv_tls e"
    and lg: "initialize_logs (lv_open e) (lv_log e) (lv_conf e) (lv_content e) = Inr (lg, ok)"
  shows "start_server e = Inl f"
proof -
  have before: "lv_fails e st' = False" if "st' < st" for st' using f that by (simp add: first_failure_def)
  have "lv_fails e st" using f by (simp add: first_failure_def)
  then show ?thesis using st tls lg before
    by (cases st) (simp_all add: less_step_def start_fault_def start_simps end_simps Let_def write_log_def)
qed

text \<open>Nothing is owned any more; a database file may be left open.\<close>

definition released :: "server \<Rightarrow> bool" where
  "released s \<longleftrightarrow> \<not> sv_thread s \<and> sv_io_threads s = [] \<and> Alive \<notin> set (sv_constants s) \<and>
     Alive \<notin> {sv_ctx s, sv_commands s, sv_tx_notifier s, sv_tx_queue s, sv_thread_sem s, sv_kill_sem s, sv_sockfd s, sv_libctx s, sv_prov s, sv_kdf s,
       sv_databases s, sv_keyspace s, sv_eventfd s, sv_write_arena s, sv_clients s}"

definition destroyable :: "io_thread option list \<Rightarrow> bool" where
  "destroyable ths \<longleftrightarrow> (\<forall>x \<in> set ths. \<exists>th. x = Some th \<and> it_signals th < 2 ^ 64 - 2)"

lemma signal_destroy_all: "destroyable ths \<Longrightarrow> \<exists>ths'. signal_destroy ths = Inr ths'"
proof (induction ths)
  case (Cons x ths)
  then obtain th where "x = Some th" "it_signals th < 2 ^ 64 - 2" "destroyable ths" by (auto simp: destroyable_def)
  then show ?case using Cons.IH by (auto simp: signal_notifier_def)
qed simp

text \<open>
  A start in which nothing fails, and one that fails behind the databases, end with everything released, the log saved and the process ended as
  it should; the file of the databases stays open in the second case.
\<close>

lemma life_without_failure:
  assumes f: "\<And>st. \<not> lv_fails e st" and lg: "initialize_logs (lv_open e) (lv_log e) (lv_conf e) (lv_content e) = Inr (lg, ok)"
    and save: "save_and_close_logs (lv_truncated e) (lv_mapping e) (lv_page e) (lv_conf e) lg = Inr log_file" and th: "destroyable (lv_threads e)"
  shows "\<exists>s. start_server e = Inr (Exited s log_file) \<and> released s \<and> sv_database_fd s = Freed"
proof -
  obtain ths where "signal_destroy (lv_threads e) = Inr ths" using signal_destroy_all [OF th] by blast
  then show ?thesis using f lg save by (cases "lv_tls e") (simp_all add: start_simps end_simps Let_def released_def)
qed

lemma life_with_late_failure:
  assumes f: "first_failure e st" and st: "st \<in> {DatabaseRead, KeyspaceMade, EpollMade, EpollAdded, WriteArena, ClientTable, IoThreads}"
    and lg: "initialize_logs (lv_open e) (lv_log e) (lv_conf e) (lv_content e) = Inr (lg, ok)"
    and save: "save_and_close_logs (lv_truncated e) (lv_mapping e) (lv_page e) (lv_conf e) lg = Inr log_file"
  shows "\<exists>s. start_server e = Inr (Exited s log_file) \<and> released s \<and> sv_database_fd s = Alive"
proof -
  have before: "lv_fails e st' = False" if "st' < st" for st' using f that by (simp add: first_failure_def)
  have "lv_fails e st" using f by (simp add: first_failure_def)
  then show ?thesis using st lg save before
    by (cases st; cases "lv_tls e") (simp_all add: less_step_def start_simps end_simps Let_def released_def)
qed

text \<open>Without a log that keeps lines, even the life in which nothing fails ends in a crash.\<close>

lemma life_without_log:
  assumes f: "\<And>st. \<not> lv_fails e st" and lg: "initialize_logs (lv_open e) (lv_log e) (lv_conf e) (lv_content e) = Inr (lg, ok)"
    and none: "lg_lines lg = None" and th: "destroyable (lv_threads e)"
  shows "start_server e = Inl NullDeref"
proof -
  obtain ths where "signal_destroy (lv_threads e) = Inr ths" using signal_destroy_all [OF th] by blast
  then show ?thesis using f lg save_without_lines [OF none] by (cases "lv_tls e") (simp_all add: start_simps end_simps Let_def)
qed

section \<open>\<open>main\<close>\<close>

text \<open>
  What the program does with its arguments (without its own name). \<open>Printed\<close> and \<open>Complained\<close> are texts for \<open>stdout\<close> and \<open>stderr\<close>; \<open>WroteConfig\<close> is
  the text of the file \<open>.tellyconf\<close>. The printed configuration goes through a buffer of 1024 bytes, the one for the file
  through one of 4096.
\<close>

datatype action = StartDefault | StartConfigured bytes | Printed bytes | WroteConfig bytes | Complained bytes

definition buffered :: "nat \<Rightarrow> bytes \<Rightarrow> bytes res" where
  "buffered n text = (if length text < n then Inr text else Inl OutOfBounds)"

definition version_text :: "bytes \<Rightarrow> bytes" where
  "version_text version = ''tellydb version '' @ version @ [LF] @ ''open source at https://github.com/aloima/tellydb'' @ [LF] @
     ''licensed under BSD-3 Clause Clear License''"

definition help_text :: bytes where
  "help_text =
     ''telly [<ARGUMENT>]'' @ [LF, LF] @ ''Arguments:'' @ [LF] @
     '' version        - Prints version'' @ [LF] @
     '' help           - Prints this page'' @ [LF] @
     '' config [FILE]  - Runs the server using configuration file. If file is not exist, use .tellyconf'' @ [LF] @
     '' create-config  - Creates a .tellyconf file using default values. If it is exists, it will be discarded'' @ [LF] @
     '' default-config - Prints default configuration values'' @ [LF, LF] @
     ''Without an argument, starts the server using .tellyconf file in working directory.'' @ [LF] @
     ''If .tellyconf is not exists, starts the server using default values.''"

definition main :: "bytes \<Rightarrow> bool \<Rightarrow> bytes list \<Rightarrow> action res" where
  "main version opened args = (case args of
       [] \<Rightarrow> Inr StartDefault
     | [a] \<Rightarrow>
         if a = ''version'' then Inr (Printed (version_text version))
         else if a = ''help'' then Inr (Printed help_text)
         else if a = ''status'' then Inl Undefined
         else if a = ''default-config'' then bind_res (buffered 1024 (get_config_string default_conf)) (\<lambda>text. Inr (Printed text))
         else if a = ''create-config'' then
           (if \<not> opened then Inr (Complained ''Error: Cannot create .tellyconf file'')
            else bind_res (buffered 4096 (get_config_string default_conf)) (\<lambda>text. Inr (WroteConfig text)))
         else Inr (Complained ''Invalid argument, use help command'')
     | [a, file] \<Rightarrow>
         if a = ''config'' then Inr (StartConfigured file) else Inr (Complained ''Invalid argument usage, use help command'')
     | _ \<Rightarrow> Inr (Complained ''Invalid argument count, use help command''))"

text \<open>The default configuration is longer than the buffer it is printed through, but not than the one for the file.\<close>

lemma default_config_length:
  "1024 \<le> length (get_config_string default_conf) \<and> length (get_config_string default_conf) < 4096"
  by (simp add: get_config_string_def default_conf_def comment_def config_line_def decimal.simps int_text_def get_allowed_log_levels_def
      log_levels_map_def LOG_INFO_def LOG_WARN_def LOG_ERR_def LOG_DBG_def)

lemma default_config_overflows: "main version opened [''default-config''] = Inl OutOfBounds"
  using default_config_length by (simp add: main_def buffered_def)

lemma create_config_writes: "main version True [''create-config''] = Inr (WroteConfig (get_config_string default_conf))"
  using default_config_length by (simp add: main_def buffered_def)

end
