(* ===== verification/Round_Trip.thy ===== *)
theory Round_Trip
  imports IO_Threads Expiry Cmd_Server
begin

text \<open>
  The way of a command through the server: a client sends it, the event of its socket wakes up its I/O thread, which hands it to the transaction
  thread, which runs it and requests the response, which the I/O thread writes. No other client interferes here; how the queues
  behave when several threads use them is in \<open>TQueue\<close>, and several commands at once are in \<open>Reading\<close> and \<open>IO_Threads\<close>.
\<close>

text \<open>The transaction thread among the I/O threads: one turn, and the requests it makes.\<close>

definition tx_turn :: "('z, 'f) gmp \<Rightarrow> ('z, 'f) handler list \<Rightarrow> (nat \<Rightarrow> ('z, 'f) genv) \<Rightarrow> ('z, 'f) io_world \<Rightarrow> ('z, 'f) io_world res" where
  "tx_turn g commands e iw = bind_res (transaction_turn g commands e (iw_world iw)) (\<lambda>w. in_world w iw)"

text \<open>The way of a request: the event of the client, its I/O thread, the transaction thread, and the I/O thread again.\<close>

definition round_trip ::
  "('z, 'f) gmp \<Rightarrow> ('z, 'f) handler list \<Rightarrow> (nat \<Rightarrow> io_env) \<Rightarrow> (nat \<Rightarrow> ('z, 'f) genv) \<Rightarrow> (nat \<Rightarrow> io_env) \<Rightarrow> nat \<Rightarrow> nat \<Rightarrow> ('z, 'f) io_world \<Rightarrow>
   ('z, 'f) io_world res" where
  "round_trip g commands e te e' i k iw =
     bind_res (handle_event (News i False) iw) (\<lambda>iw.
     bind_res (io_turn e commands k iw) (\<lambda>iw.
     bind_res (tx_turn g commands te iw) (io_turn e' commands k)))"

section \<open>There\<close>

text \<open>
  A server that has nothing to do for a client: no request waits in the queue of its thread \<open>k\<close> nor in that of the transaction thread, the client
  may send commands, and its query buffer is sound. And a client that has sent \<open>msg\<close>, which fits into the buffer, and nothing more for now.
\<close>

definition idle :: "nat \<Rightarrow> nat \<Rightarrow> nat \<Rightarrow> ('z, 'f) io_world \<Rightarrow> bool" where
  "idle n k i iw \<longleftrightarrow> waiting n k [] 0 iw \<and> 1 \<le> n \<and> served_by iw i k \<and> connected (iw_world iw) i \<and> \<not> cl_locked (client_at (iw_world iw) i) \<and>
     cl_waiting_block (client_at (iw_world iw) i) = None \<and> (\<exists>m A. holds_list m A (w_queue (iw_world iw)) []) \<and>
     wf_vector (w_keyspace (iw_world iw)) \<and> vec_list (w_keyspace (iw_world iw)) = [] \<and>
     unat (rd_size (iw_readers iw i)) \<le> length (rd_data (iw_readers iw i)) \<and> unat (rd_size (iw_readers iw i)) < 2 ^ 31"

definition sends :: "nat \<Rightarrow> bytes \<Rightarrow> sock_event list \<Rightarrow> ('z, 'f) io_world \<Rightarrow> bool" where
  "sends i msg ev iw \<longleftrightarrow> rd_sock (iw_readers iw i) = Recv msg # Again # ev \<and> length msg < unat (rd_size (iw_readers iw i))"

definition same_login :: "nat \<Rightarrow> ('z, 'f) io_world \<Rightarrow> ('z, 'f) io_world \<Rightarrow> bool" where
  "same_login i iw iw' \<longleftrightarrow> w_auth (iw_world iw') = w_auth (iw_world iw) \<and> rd_size (iw_readers iw' i) = rd_size (iw_readers iw i) \<and>
     cl_password (client_at (iw_world iw') i) = cl_password (client_at (iw_world iw) i) \<and>
     cl_database (client_at (iw_world iw') i) = cl_database (client_at (iw_world iw) i) \<and>
     cl_protover (client_at (iw_world iw') i) = cl_protover (client_at (iw_world iw) i)"

lemma request_arrives:
  assumes idle: "idle n k i iw" and e: "calm_io (e 0)" and s: "sends i (encode_command name args) ev iw" and known: "known commands name"
  shows "\<exists>iw' s cmd sub q' rd' m A. bind_res (handle_event (News i False) iw) (io_turn e commands k) = Inr iw' \<and> waiting n k [] 0 iw' \<and> served_by iw' i k \<and>
    iw_world iw' = (set_client (iw_world iw) i (in_block (client_at (iw_world iw) i) cmd sub None))\<lparr>w_queue := q'\<rparr> \<and>
    iw_readers iw' = (iw_readers iw)(i := rd') \<and> rd_sock rd' = ev \<and> rd_size rd' = rd_size (iw_readers iw i) \<and> length (rd_data rd') = length (rd_data (iw_readers iw i)) \<and>
    as_sent s (name, args) \<and> holds_list m A q' [direct_block commands i (client_at (iw_world iw) i) s]"
proof -
  have v: "served_by iw i k" and w: "waiting n k [] 0 iw" using idle by (simp_all add: idle_def)
  obtain m A where q: "holds_list m A (w_queue (iw_world iw)) []" using idle by (auto simp: idle_def)
  have all: "encode_all [(name, args)] = encode_command name args" by (simp add: encode_all_def)
  obtain iw1 where a: "add_io_op (IOOP_READ i) iw = Inr iw1" "waiting n k [IOOP_READ i] 1 iw1" "same_but_threads iw iw1"
    using add_io_op_waits [OF w, of "IOOP_READ i"] v by auto
  obtain iw2 where b: "io_turn e commands k iw1 = io_loop e commands k 1 iw2" "waiting n k [IOOP_READ i] 0 iw2" "same_but_threads iw1 iw2"
    using io_turn_waiting [OF a(2)] by auto
  have same: "iw_world iw2 = iw_world iw" "iw_readers iw2 = iw_readers iw" "served_by iw2 = served_by iw"
    using same_trans [OF a(3) b(3)] same_served by (simp_all add: same_but_threads_def)
  have "\<exists>iw' cs' rd' cmd sub q'. catch_op_and_execute (e 0) commands k iw2 = Inr (iw', True) \<and> waiting n k [] 0 iw' \<and> served_by iw' i k \<and>
      iw_world iw' = (set_client (iw_world iw2) i (in_block (client_at (iw_world iw2) i) cmd sub None))\<lparr>w_queue := q'\<rparr> \<and>
      iw_readers iw' = (iw_readers iw2)(i := rd') \<and> rd_sock rd' = ev \<and> rd_size rd' = rd_size (iw_readers iw2 i) \<and> length (rd_data rd') = length (rd_data (iw_readers iw2 i)) \<and>
      list_all2 as_sent cs' [(name, args)] \<and> holds_list m A q' ([] @ map (direct_block commands i (client_at (iw_world iw2) i)) cs')"
    by (rule catch_read [where cs = "[(name, args)]", OF b(2) _ e]) (use idle s known q same in \<open>simp_all add: idle_def sends_def all\<close>)
  then obtain iw' s cmd sub q' rd' where c: "catch_op_and_execute (e 0) commands k iw2 = Inr (iw', True)" "waiting n k [] 0 iw'" "served_by iw' i k"
      "iw_world iw' = (set_client (iw_world iw) i (in_block (client_at (iw_world iw) i) cmd sub None))\<lparr>w_queue := q'\<rparr>"
      "iw_readers iw' = (iw_readers iw)(i := rd')" "rd_sock rd' = ev" "rd_size rd' = rd_size (iw_readers iw i)" "length (rd_data rd') = length (rd_data (iw_readers iw i))"
      "as_sent s (name, args)" "holds_list m A q' [direct_block commands i (client_at (iw_world iw) i) s]"
    unfolding same by (auto simp: list_all2_Cons2)
  moreover have "bind_res (handle_event (News i False) iw) (io_turn e commands k) = Inr iw'"
    using a(1) b(1) c(1) by (simp add: handle_event_def)
  ultimately show ?thesis by blast
qed

section \<open>And back\<close>

text \<open>A command after which nothing is saved: it changes no data, or the time for saving has not come.\<close>

definition quiet :: "int option \<Rightarrow> ('z, 'f) handler \<Rightarrow> ('z, 'f) world \<Rightarrow> bool" where
  "quiet time h w \<longleftrightarrow> (h_affect h \<longrightarrow> (\<exists>t. time = Some t \<and> (w_count w \<le> w_operations w + 1 \<longrightarrow> w_saved_at w + uint (w_seconds w) \<le> t)))"

lemma check_autosave_quiet:
  assumes "quiet time h w"
  shows "\<exists>n t. check_autosave time h w = Inr (w\<lparr>w_operations := n, w_saved_at := t\<rparr>)"
proof (cases "h_affect h")
  case False
  then show ?thesis by (intro exI [of _ "w_operations w"] exI [of _ "w_saved_at w"]) (simp add: check_autosave_def)
next
  case True
  then obtain t where t: "time = Some t" "w_count w \<le> w_operations w + 1 \<longrightarrow> w_saved_at w + uint (w_seconds w) \<le> t"
    using assms by (auto simp: quiet_def)
  show ?thesis
  proof (cases "w_saved_at w + uint (w_seconds w) \<le> t")
    case True
    then show ?thesis using t(1) \<open>h_affect h\<close> by (intro exI [of _ 1] exI [of _ t]) (simp add: check_autosave_def Let_def)
  next
    case False
    then show ?thesis using t \<open>h_affect h\<close>
      by (intro exI [of _ "w_operations w + 1"] exI [of _ "w_saved_at w"]) (simp add: check_autosave_def Let_def)
  qed
qed

text \<open>
  The turn of the transaction thread for a command on data: the response is requested, and the database is what the
  command made of it. \<open>ok\<close> is what the command promises about its database.
\<close>

lemma data_command_runs:
  assumes q: "holds_list m A (w_queue w) (bk # bks)" and bk: "bk_type bk = TX_DIRECT" "bk_client bk = i" "bk_transactions bk = [tx]" "live (client_at w i)"
    and c: "c_access c" and tx: "commands ! tx_command tx = on_data c" and pw: "au_heap (w_auth w) (bk_password bk) = Some pw"
    and may: "pw_permissions pw AND c_permissions c = c_permissions c"
    and db: "database_at w (tx_database tx) = Inr db" "wf_db db"
    and ks: "wf_vector (w_keyspace w)" "vec_list (w_keyspace w) = []" and mem: "roomy (g_keys (te 0))" and now: "g_clock (te 0) 31 = Some now"
    and quiet: "quiet (g_time (te 0)) (on_data c) w"
    and en: "en = \<lparr>en_client = Some (cl_protover (client_at w i)), en_args = tx_args tx, en_permissions = pw_permissions pw\<rparr>"
    and run: "\<And>db'. \<lbrakk>wf_db db'; db_map db' = purge now (str_bytes ` set (c_get_keys c en)) (db_map db)\<rbrakk> \<Longrightarrow>
      \<exists>db''. c_run c g (g_env (te 0)) en db' = Inr (db'', response) \<and> ok db''"
    and r: "response \<noteq> []"
  shows "\<exists>w'. transaction_turn g commands te w = Inr w' \<and> w_out w' = w_out w @ [Requested i response] \<and> w_clients w' = w_clients w \<and> w_auth w' = w_auth w \<and>
    holds_list m (A + 1) (w_queue w') bks \<and> wf_vector (w_keyspace w') \<and> vec_list (w_keyspace w') = [] \<and> (\<exists>db''. database_at w' (tx_database tx) = Inr db'' \<and> ok db'')"
proof -
  obtain q' where p: "pop_tqueue (w_queue w) = Inr (q', Some bk)" "holds_list m (A + 1) q' bks" using pop_holds(1) [OF q refl] by blast
  let ?w = "w\<lparr>w_queue := q'\<rparr>"
  have me: "client_at ?w j = client_at w j" for j by (simp add: client_at_def)
  have d: "database_at ?w (tx_database tx) = Inr db" using db(1) by (simp add: database_at_def)
  have en': "en = \<lparr>en_client = map_option (\<lambda>i. cl_protover (client_at ?w i)) (Some i), en_args = tx_args tx, en_permissions = pw_permissions pw\<rparr>"
    using en by (simp add: me)
  obtain db' vec where x: "wf_db db'" "db_map db' = purge now (str_bytes ` set (c_get_keys c en)) (db_map db)" "wf_vector vec" "vec_list vec = []"
      "execute_transaction g commands (te 0) (Some i) (bk_password bk) tx ?w =
       bind_res (c_run c g (g_env (te 0)) en db') (\<lambda>(db'', bs). Inr ((put_database ?w (tx_database tx) db'')\<lparr>w_keyspace := vec\<rparr>, bs))"
    using execute_on_data [OF c tx _ may d db(2) _ _ mem now en', of "bk_password bk" g] pw ks by auto
  obtain db'' where y: "c_run c g (g_env (te 0)) en db' = Inr (db'', response)" "ok db''" using run [OF x(1,2)] by blast
  let ?w1 = "(put_database ?w (tx_database tx) db'')\<lparr>w_keyspace := vec\<rparr>"
  have "quiet (g_time (te 0)) (on_data c) ?w1" using quiet by (simp add: quiet_def put_database_def)
  then obtain n t where a: "check_autosave (g_time (te 0)) (on_data c) ?w1 = Inr (?w1\<lparr>w_operations := n, w_saved_at := t\<rparr>)"
    using check_autosave_quiet by blast
  let ?w2 = "?w1\<lparr>w_operations := n, w_saved_at := t\<rparr>"
  have l: "live (client_at ?w2 i)" using bk(4) by (simp add: put_database_def client_at_def)
  have dd: "database_at ?w2 (tx_database tx) = Inr db''"
    using database_put_same [OF d, of db''] by (simp add: database_at_def)
  have "execute_transaction_block g commands te bk ?w = Inr (emit (Requested i response) ?w2)"
    using bk x(5) y(1) tx a r l by (simp add: execute_transaction_block_def Let_def me add_io_request_def)
  then have "transaction_turn g commands te w = Inr (remove_transaction_block bk (emit (Requested i response) ?w2))"
    using p(1) by (simp add: transaction_turn_def)
  moreover have "w_out (remove_transaction_block bk (emit (Requested i response) ?w2)) = w_out w @ [Requested i response]"
    "w_clients (remove_transaction_block bk (emit (Requested i response) ?w2)) = w_clients w" "w_auth (remove_transaction_block bk (emit (Requested i response) ?w2)) = w_auth w"
    "w_keyspace (remove_transaction_block bk (emit (Requested i response) ?w2)) = vec"
    "w_queue (remove_transaction_block bk (emit (Requested i response) ?w2)) = q'"
    "database_at (remove_transaction_block bk (emit (Requested i response) ?w2)) (tx_database tx) = Inr db''"
    using dd bk(1) by (simp_all add: remove_transaction_block_def emit_def put_database_def database_at_def)
  ultimately show ?thesis using p(2) x(3,4) y(2) by (intro exI) auto
qed

text \<open>A response that the transaction thread requests is what the I/O thread sends in its next turn.\<close>

lemma response_leaves:
  assumes w: "waiting n k [] 0 iw" and v: "served_by iw i k" and t: "transaction_turn g commands te (iw_world iw) = Inr w'"
    and out: "w_out w' = w_out (iw_world iw) @ [Requested i response]" "w_clients w' = w_clients (iw_world iw)" and e: "\<And>m. ie_write (e m) = []"
  shows "\<exists>iw'. bind_res (tx_turn g commands te iw) (io_turn e commands k) = Inr iw' \<and> waiting n k [] 0 iw' \<and> served_by iw' i k \<and>
    iw_world iw' = emit (Sent i response) w' \<and> iw_readers iw' = iw_readers iw"
proof -
  let ?iw = "iw\<lparr>iw_world := w'\<rparr>"
  have "waiting n k [] 0 ?iw" using w by (simp add: waiting_def)
  moreover have v': "\<forall>r \<in> set [(i, response)]. served_by ?iw (fst r) k" using v out(2) by (simp add: served_by_def thread_index_def client_at_def)
  ultimately have "\<exists>iw'. bind_res (add_io_ops (write_ops [(i, response)]) ?iw) (io_turn e commands k) = Inr iw' \<and> waiting n k [] 0 iw' \<and>
      same_but_threads (?iw\<lparr>iw_world := (iw_world ?iw)\<lparr>w_out := w_out (iw_world ?iw) @ sent_all [(i, response)]\<rparr>\<rparr>) iw'"
    by (rule writes_all) (use e in simp_all)
  then obtain iw' where x: "bind_res (add_io_op (IOOP_WRITE i response) ?iw) (io_turn e commands k) = Inr iw'" "waiting n k [] 0 iw'"
      "iw_world iw' = emit (Sent i response) w'" "iw_readers iw' = iw_readers iw" "length (iw_threads iw') = length (iw_threads iw)"
    by (auto simp: write_ops_def sent_all_def emit_def bind_res_def same_but_threads_def split: sum.splits)
  moreover have "tx_turn g commands te iw = add_io_op (IOOP_WRITE i response) ?iw"
    using t out(1) by (simp add: tx_turn_def in_world_def bind_res_def split: sum.splits)
  moreover have "served_by iw' i k" using v' x(3,5) by (simp add: served_by_def thread_index_def emit_def client_at_def)
  ultimately show ?thesis by simp
qed

section \<open>The whole way\<close>

text \<open>
  A command on data, sent by a client that may run it, is answered with what the command answers on the database without its expired keys; the server
  is then idle again, and the database is the one the command left.
\<close>

lemma request_answered:
  fixes iw :: "('z, 'f) io_world"
  assumes idle: "idle n k i iw" and e: "calm_io (e 0)" "\<And>m. ie_write (e' m) = []" and s: "sends i (encode_command name args) ev iw"
    and c: "get_command_index commands name 0 = Some j" "commands ! j = on_data c" "c_access c"
    and pw: "au_heap (w_auth (iw_world iw)) (cl_password (client_at (iw_world iw) i)) = Some pw" "pw_permissions pw AND c_permissions c = c_permissions c"
    and db: "database_at (iw_world iw) (cl_database (client_at (iw_world iw) i)) = Inr db" "wf_db db"
    and te: "roomy (g_keys (te 0))" "g_clock (te 0) 31 = Some now" "quiet (g_time (te 0)) (on_data c) (iw_world iw)"
    and run: "\<And>args' en db'. \<lbrakk>list_all2 (\<lambda>a b. \<exists>rest. a = arg b (CRLF @ rest)) args' args;
        en = \<lparr>en_client = Some (cl_protover (client_at (iw_world iw) i)), en_args = args', en_permissions = pw_permissions pw\<rparr>;
        wf_db db'; db_map db' = purge now (str_bytes ` set (c_get_keys c en)) (db_map db)\<rbrakk> \<Longrightarrow>
      \<exists>db''. c_run c g (g_env (te 0)) en db' = Inr (db'', response) \<and> ok db''"
    and r: "response \<noteq> []"
  shows "\<exists>iw' db''. round_trip g commands e te e' i k iw = Inr iw' \<and> idle n k i iw' \<and> same_login i iw iw' \<and> rd_sock (iw_readers iw' i) = ev \<and>
    w_out (iw_world iw') = w_out (iw_world iw) @ [Requested i response, Sent i response] \<and>
    database_at (iw_world iw') (cl_database (client_at (iw_world iw) i)) = Inr db'' \<and> ok db''"
proof -
  let ?w = "iw_world iw" and ?c = "client_at (iw_world iw) i"
  have kn: "known commands name" using c(1) by (simp add: known_def)
  obtain iw1 s cmd sub q' rd' m A where a: "bind_res (handle_event (News i False) iw) (io_turn e commands k) = Inr iw1" "waiting n k [] 0 iw1" "served_by iw1 i k"
      "iw_world iw1 = (set_client ?w i (in_block ?c cmd sub None))\<lparr>w_queue := q'\<rparr>"
      "iw_readers iw1 = (iw_readers iw)(i := rd')" "rd_sock rd' = ev" "rd_size rd' = rd_size (iw_readers iw i)" "length (rd_data rd') = length (rd_data (iw_readers iw i))"
      "as_sent s (name, args)" "holds_list m A q' [direct_block commands i ?c s]"
    using request_arrives [where e = e, OF idle e(1) s kn] by blast
  let ?bk = "direct_block commands i ?c s" and ?w1 = "iw_world iw1"
  let ?tx = "\<lparr>tx_args = snd s, tx_command = j, tx_database = cl_database ?c\<rparr>"
  let ?en = "\<lparr>en_client = Some (cl_protover ?c), en_args = snd s, en_permissions = pw_permissions pw\<rparr>"
  have s: "fst s = name" "list_all2 (\<lambda>a b. \<exists>rest. a = arg b (CRLF @ rest)) (snd s) args" using a(9) by (simp_all add: as_sent_def)
  have bk: "bk_type ?bk = TX_DIRECT" "bk_client ?bk = i" "bk_transactions ?bk = [?tx]" "bk_password ?bk = cl_password ?c"
    using s(1) c(1) by (simp_all add: direct_block_def)
  have i: "i < length (cs_slots (w_clients ?w))" "connected ?w i" using idle by (simp_all add: idle_def connected_def)
  then have c1: "client_at ?w1 i = in_block ?c cmd sub None" using a(4) by simp
  then have pv: "cl_protover (client_at ?w1 i) = cl_protover ?c" by (simp add: in_block_def)
  have sw: "w_auth ?w1 = w_auth ?w" "database_at ?w1 = database_at ?w" "w_keyspace ?w1 = w_keyspace ?w" "w_out ?w1 = w_out ?w" "w_queue ?w1 = q'"
      "quiet (g_time (te 0)) (on_data c) ?w1" "live (client_at ?w1 i)"
    using a(3,4) te(3) by (simp_all add: set_client_def database_at_def quiet_def served_by_def fun_eq_iff)
  have ks: "wf_vector (w_keyspace ?w1)" "vec_list (w_keyspace ?w1) = []" using idle sw(3) by (simp_all add: idle_def)
  have "\<exists>w'. transaction_turn g commands te ?w1 = Inr w' \<and> w_out w' = w_out ?w1 @ [Requested i response] \<and> w_clients w' = w_clients ?w1 \<and> w_auth w' = w_auth ?w1 \<and>
      holds_list m (A + 1) (w_queue w') [] \<and> wf_vector (w_keyspace w') \<and> vec_list (w_keyspace w') = [] \<and>
      (\<exists>db''. database_at w' (tx_database ?tx) = Inr db'' \<and> ok db'')"
    by (rule data_command_runs [where bk = ?bk and c = c and pw = pw and now = now and db = db and en = ?en and response = response])
      (use a(10) bk sw c pw db ks te r pv run [OF s(2) refl] in simp_all)
  then obtain w' db'' where t: "transaction_turn g commands te ?w1 = Inr w'" "w_out w' = w_out ?w @ [Requested i response]" "w_clients w' = w_clients ?w1"
      "w_auth w' = w_auth ?w" "holds_list m (A + 1) (w_queue w') []" "wf_vector (w_keyspace w')" "vec_list (w_keyspace w') = []"
      "database_at w' (cl_database ?c) = Inr db''" "ok db''"
    using sw(1,4) by auto
  obtain iw' where l: "bind_res (tx_turn g commands te iw1) (io_turn e' commands k) = Inr iw'" "waiting n k [] 0 iw'" "served_by iw' i k"
      "iw_world iw' = emit (Sent i response) w'" "iw_readers iw' = iw_readers iw1"
    using response_leaves [where e = e', OF a(2,3) t(1) _ t(3) e(2)] t(2) sw(4) by auto
  have "round_trip g commands e te e' i k iw = bind_res (bind_res (handle_event (News i False) iw) (io_turn e commands k)) (\<lambda>iw.
      bind_res (tx_turn g commands te iw) (io_turn e' commands k))"
    by (simp add: round_trip_def bind_res_assoc)
  then have trip: "round_trip g commands e te e' i k iw = Inr iw'" using a(1) l(1) by simp
  have c2: "client_at (iw_world iw') i = in_block ?c cmd sub None" using l(4) t(3) c1 by (simp add: emit_def client_at_def)
  have cn: "connected (iw_world iw') i" using i c2 l(4) t(3) a(4) by (simp add: connected_def emit_def in_block_def live_def)
  have "holds_list m (A + 1) (w_queue (iw_world iw')) []" using l(4) t(5) by (simp add: emit_def)
  then have "idle n k i iw'" using idle l t(6,7) c2 cn a(5,7,8) unfolding idle_def by (auto simp: emit_def in_block_def)
  moreover have "same_login i iw iw'" using l(4,5) t(4) c2 a(5,7) by (simp add: same_login_def emit_def in_block_def)
  moreover have "database_at (iw_world iw') (cl_database ?c) = Inr db''" using l(4) t(8) by (simp add: emit_def database_at_def)
  ultimately show ?thesis using trip l(4,5) t(2,9) a(5,6) by (auto simp: emit_def)
qed

section \<open>A value that is stored is read\<close>

lemma command_numbers:
  "get_command_index (command_list :: ('z, 'f) handler list) ''GET'' 0 = Some 33" "(command_list :: ('z, 'f) handler list) ! 33 = on_data cmd_get"
  "get_command_index (command_list :: ('z, 'f) handler list) ''SET'' 0 = Some 37" "(command_list :: ('z, 'f) handler list) ! 37 = on_data cmd_set"
  unfolding command_hash_index [symmetric] by (simp_all add: command_hash_def command_list_def)

lemma line_end_no_number: "\<not> is_digit (CHR 0x0D)" "CHR 0x0D \<noteq> CHR ''-''"
  by code_simp+

lemma sound_db_purge: "\<lbrakk>sound_db db; wf_db db'; db_map db' = purge now ks (db_map db)\<rbrakk> \<Longrightarrow> sound_db db'"
  by (auto simp: sound_db_def purge_def split: if_splits)

text \<open>\<open>SET\<close> over the wire, and \<open>GET\<close> of a key that is there and does not expire.\<close>

lemma set_answered:
  fixes iw :: "('z, 'f) io_world"
  assumes idle: "idle n k i iw" and e: "calm_io (e 0)" "\<And>m. ie_write (e' m) = []" and s: "sends i (encode_command ''SET'' [key, v]) ev iw"
    and pw: "au_heap (w_auth (iw_world iw)) (cl_password (client_at (iw_world iw) i)) = Some pw" "pw_permissions pw AND P_WRITE = P_WRITE"
    and db: "database_at (iw_world iw) (cl_database (client_at (iw_world iw) i)) = Inr db" "sound_db db"
    and te: "roomy (g_keys (te 0))" "g_clock (te 0) 31 = Some now" "quiet (g_time (te 0)) (on_data cmd_set) (iw_world iw)" "calm (g_env (te 0))"
  shows "\<exists>iw' db''. round_trip g command_list e te e' i k iw = Inr iw' \<and> idle n k i iw' \<and> same_login i iw iw' \<and> rd_sock (iw_readers iw' i) = ev \<and>
    w_out (iw_world iw') = w_out (iw_world iw) @ [Requested i RESP_OK, Sent i RESP_OK] \<and>
    database_at (iw_world iw') (cl_database (client_at (iw_world iw) i)) = Inr db'' \<and>
    (sound_db db'' \<and> db_map db'' = (purge now {key} (db_map db))(key \<mapsto> \<lparr>kv_value = Prim (value_of g v), kv_expiry = None\<rparr>))"
proof (rule request_answered [where e = e and e' = e' and te = te and c = cmd_set, OF idle e s command_numbers(3,4) _ pw(1) _ db(1) _ te(1-3)])
  fix args' en and db' :: "('z, 'f) database"
  assume a: "list_all2 (\<lambda>a b. \<exists>rest. a = arg b (CRLF @ rest)) args' [key, v]"
    "en = \<lparr>en_client = Some (cl_protover (client_at (iw_world iw) i)), en_args = args', en_permissions = pw_permissions pw\<rparr>"
    "wf_db db'" "db_map db' = purge now (str_bytes ` set (c_get_keys cmd_set en)) (db_map db)"
  then obtain r1 r2 where args: "en_args en = [arg key (CRLF @ r1), arg v (CRLF @ r2)]" by (auto simp: list_all2_Cons2)
  have m: "db_map db' = purge now {key} (db_map db)" using a(4) args by (simp add: cmd_set_def get_keys_set_def arg_count_def arg_at_def)
  have s': "sound_db db'" by (rule sound_db_purge [OF db(2) a(3) m])
  have "\<exists>db''. run_set g (g_env (te 0)) en db' = Inr (db'', RESP_OK) \<and> sound_db db'' \<and>
      db_map db'' = (db_map db')(str_bytes (arg key (CRLF @ r1)) \<mapsto> \<lparr>kv_value = Prim (value_of g v), kv_expiry = None\<rparr>)"
    by (rule run_set_plain [where v = v and x = "CHR 0x0D" and rest = "CHR 0x0A # r2", OF s' _ te(4)]) (use a(2) args line_end_no_number in simp_all)
  then show "\<exists>db''. c_run cmd_set g (g_env (te 0)) en db' = Inr (db'', RESP_OK) \<and>
      (sound_db db'' \<and> db_map db'' = (purge now {key} (db_map db))(key \<mapsto> \<lparr>kv_value = Prim (value_of g v), kv_expiry = None\<rparr>))"
    using m by (simp add: cmd_set_def)
qed (use pw db in \<open>simp_all add: cmd_set_def sound_db_def RESP_OK_def\<close>)

lemma get_answered:
  fixes iw :: "('z, 'f) io_world"
  assumes idle: "idle n k i iw" and e: "calm_io (e 0)" "\<And>m. ie_write (e' m) = []" and s: "sends i (encode_command ''GET'' [key]) ev iw"
    and pw: "au_heap (w_auth (iw_world iw)) (cl_password (client_at (iw_world iw) i)) = Some pw" "pw_permissions pw AND P_READ = P_READ"
    and db: "database_at (iw_world iw) (cl_database (client_at (iw_world iw) i)) = Inr db" "wf_db db"
    and te: "roomy (g_keys (te 0))" "g_clock (te 0) 31 = Some now"
    and v: "db_map db key = Some kv" "\<not> expired now kv" "write_value g (kv_value kv) (cl_protover (client_at (iw_world iw) i)) [] = Inr response" "response \<noteq> []"
  shows "\<exists>iw' db''. round_trip g command_list e te e' i k iw = Inr iw' \<and> idle n k i iw' \<and> same_login i iw iw' \<and> rd_sock (iw_readers iw' i) = ev \<and>
    w_out (iw_world iw') = w_out (iw_world iw) @ [Requested i response, Sent i response] \<and>
    database_at (iw_world iw') (cl_database (client_at (iw_world iw) i)) = Inr db'' \<and> (wf_db db'' \<and> db_map db'' = db_map db)"
proof (rule request_answered [where e = e and e' = e' and te = te and c = cmd_get, OF idle e s command_numbers(1,2) _ pw(1) _ db te(1,2)])
  fix args' en and db' :: "('z, 'f) database"
  assume a: "list_all2 (\<lambda>a b. \<exists>rest. a = arg b (CRLF @ rest)) args' [key]"
    "en = \<lparr>en_client = Some (cl_protover (client_at (iw_world iw) i)), en_args = args', en_permissions = pw_permissions pw\<rparr>"
    "wf_db db'" "db_map db' = purge now (str_bytes ` set (c_get_keys cmd_get en)) (db_map db)"
  then obtain r1 where args: "en_args en = [arg key (CRLF @ r1)]" by (auto simp: list_all2_Cons2)
  have "db_map db' = purge now {key} (db_map db)" using a(4) args by (simp add: cmd_get_def get_keys_get_def arg_count_def arg_at_def)
  then have m: "db_map db' = db_map db" using v(1,2) by (auto simp: purge_def fun_eq_iff)
  have "run_get g (g_env (te 0)) en db' = (case db_map db' (str_bytes (arg key (CRLF @ r1))) of None \<Rightarrow> Inr (db', RESP_NULL (cl_protover (client_at (iw_world iw) i)))
    | Some kv \<Rightarrow> bind_res (write_value g (kv_value kv) (cl_protover (client_at (iw_world iw) i)) []) (\<lambda>bs. Inr (db', bs)))"
    by (rule run_get_correct [OF a(3)]) (use a(2) args in simp_all)
  then show "\<exists>db''. c_run cmd_get g (g_env (te 0)) en db' = Inr (db'', response) \<and> (wf_db db'' \<and> db_map db'' = db_map db)"
    using m v(1,3) a(3) by (simp add: cmd_get_def)
qed (use pw v(4) in \<open>simp_all add: cmd_get_def quiet_def on_data_def\<close>)

text \<open>A client that sends \<open>SET\<close> and, after its answer, \<open>GET\<close> is answered OK and the value.\<close>

lemma set_then_get:
  fixes iw :: "('z, 'f) io_world"
  assumes idle: "idle n k i iw" and e: "\<And>j. calm_io (e j)" "\<And>j m. ie_write (e' j m) = []"
    and s: "sends i (encode_command ''SET'' [key, v]) (Recv (encode_command ''GET'' [key]) # Again # ev) iw"
      "length (encode_command ''GET'' [key]) < unat (rd_size (iw_readers iw i))"
    and pw: "au_heap (w_auth (iw_world iw)) (cl_password (client_at (iw_world iw) i)) = Some pw" "pw_permissions pw AND (P_READ OR P_WRITE) = P_READ OR P_WRITE"
    and db: "database_at (iw_world iw) (cl_database (client_at (iw_world iw) i)) = Inr db" "sound_db db"
    and te: "\<And>j. roomy (g_keys (te j 0))" "\<And>j. g_clock (te j 0) 31 = Some (now j)" "quiet (g_time (te 0 0)) (on_data cmd_set) (iw_world iw)" "calm (g_env (te 0 0))"
    and v: "write_value g (Prim (value_of g v)) (cl_protover (client_at (iw_world iw) i)) [] = Inr response" "response \<noteq> []"
  shows "\<exists>iw'. bind_res (round_trip g command_list (\<lambda>_. e 0) (te 0) (e' 0) i k iw) (round_trip g command_list (\<lambda>_. e 1) (te 1) (e' 1) i k) = Inr iw' \<and>
    w_out (iw_world iw') = w_out (iw_world iw) @ [Requested i RESP_OK, Sent i RESP_OK, Requested i response, Sent i response] \<and> idle n k i iw'"
proof -
  have p: "pw_permissions pw AND P_READ = P_READ" "pw_permissions pw AND P_WRITE = P_WRITE"
  proof -
    have "pw_permissions pw AND (P_READ OR P_WRITE) AND P_READ = (P_READ OR P_WRITE) AND P_READ"
      "pw_permissions pw AND (P_READ OR P_WRITE) AND P_WRITE = (P_READ OR P_WRITE) AND P_WRITE" using pw(2) by (simp_all only: flip: and.assoc)
    then show "pw_permissions pw AND P_READ = P_READ" "pw_permissions pw AND P_WRITE = P_WRITE" by (simp_all add: P_READ_def P_WRITE_def)
  qed
  obtain iw1 db1 where a: "round_trip g command_list (\<lambda>_. e 0) (te 0) (e' 0) i k iw = Inr iw1" "idle n k i iw1" "same_login i iw iw1"
      "rd_sock (iw_readers iw1 i) = Recv (encode_command ''GET'' [key]) # Again # ev" "w_out (iw_world iw1) = w_out (iw_world iw) @ [Requested i RESP_OK, Sent i RESP_OK]"
      "database_at (iw_world iw1) (cl_database (client_at (iw_world iw) i)) = Inr db1" "sound_db db1"
      "db_map db1 = (purge (now 0) {key} (db_map db))(key \<mapsto> \<lparr>kv_value = Prim (value_of g v), kv_expiry = None\<rparr>)"
    using set_answered [where e = "\<lambda>_. e 0" and e' = "e' 0" and te = "te 0", OF idle e s(1) pw(1) p(2) db te(1-4)] by blast
  have s1: "sends i (encode_command ''GET'' [key]) ev iw1" using a(3,4) s(2) by (simp add: sends_def same_login_def)
  have l: "w_auth (iw_world iw1) = w_auth (iw_world iw)" "cl_password (client_at (iw_world iw1) i) = cl_password (client_at (iw_world iw) i)"
      "cl_database (client_at (iw_world iw1) i) = cl_database (client_at (iw_world iw) i)" "cl_protover (client_at (iw_world iw1) i) = cl_protover (client_at (iw_world iw) i)"
    using a(3) by (simp_all add: same_login_def)
  have "\<exists>iw' db''. round_trip g command_list (\<lambda>_. e 1) (te 1) (e' 1) i k iw1 = Inr iw' \<and> idle n k i iw' \<and> same_login i iw1 iw' \<and> rd_sock (iw_readers iw' i) = ev \<and>
      w_out (iw_world iw') = w_out (iw_world iw1) @ [Requested i response, Sent i response] \<and>
      database_at (iw_world iw') (cl_database (client_at (iw_world iw1) i)) = Inr db'' \<and> (wf_db db'' \<and> db_map db'' = db_map db1)"
    by (rule get_answered [where pw = pw and key = key and kv = "\<lparr>kv_value = Prim (value_of g v), kv_expiry = None\<rparr>" and now = "now 1", OF a(2) e s1])
      (use pw(1) p(1) l a(6-8) te(1,2) v in \<open>simp_all add: expired_def sound_db_def\<close>)
  then show ?thesis using a(1,5) by auto
qed

end
