(* ===== verification/Life_Samples.thy ===== *)
theory Life_Samples
  imports World_Samples Server Round_Trip
begin

text \<open>Concrete states of the process: I/O threads, query buffers, logs, a start and its end.\<close>

section \<open>I/O threads\<close>

definition sample_thread :: io_thread where
  "sample_thread = \<lparr>it_queue = sample_queue, it_signals = 0, it_status = IO_THREAD_ACTIVE\<rparr>"

definition sample_reader :: "sock_event list \<Rightarrow> reader" where
  "sample_reader ev = \<lparr>rd_data = replicate 4096 NUL, rd_size = 4096, rd_at = 0, rd_used = 0, rd_sock = ev\<rparr>"

definition sample_io :: "sock_event list \<Rightarrow> (int, int) io_world" where
  "sample_io ev = \<lparr>iw_world = sample_world (sample_client 4) sample_queue (one_db ''k'' (Prim (PInt 3))), iw_threads = [Some sample_thread, Some sample_thread],
     iw_readers = (\<lambda>_. sample_reader ev)\<rparr>"

definition sample_read :: read_env where
  "sample_read = \<lparr>rv_ssl = False, rv_realloc = (\<lambda>d n. None), rv_args = (\<lambda>_. True), rv_shared = (\<lambda>_. False), rv_new = (\<lambda>_. None),
     rv_ok1 = (\<lambda>_. True), rv_ok2 = (\<lambda>_. True)\<rparr>"

definition sample_io_env :: io_env where
  "sample_io_env = \<lparr>ie_read = sample_read, ie_write = [], ie_removed = True\<rparr>"

lemma sample_read_calm [simp]: "calm_read sample_read" "calm_io sample_io_env" "ie_write sample_io_env = []"
  by (simp_all add: calm_read_def sample_read_def calm_io_def sample_io_env_def)

lemma sample_reader_simps [simp]:
  "rd_size (sample_reader ev) = 4096" "length (rd_data (sample_reader ev)) = 4096" "rd_sock (sample_reader ev) = ev"
  by (simp_all add: sample_reader_def)

lemma sample_io_simps [simp]:
  "iw_world (sample_io ev) = sample_world (sample_client 4) sample_queue (one_db ''k'' (Prim (PInt 3)))" "iw_readers (sample_io ev) i = sample_reader ev"
  by (simp_all add: sample_io_def)

lemma sample_io_waits [simp]: "waiting 3 1 [] 0 (sample_io ev)"
  using sample_queue_holds by (auto simp: waiting_def sample_io_def sample_thread_def)

lemma sample_io_served [simp]: "served_by (sample_io ev) 1 1"
  by (simp add: served_by_def thread_index_def live_def sample_client_def) (simp add: sample_io_def)

lemma sample_findable [simp]: "findable (sample_clients (sample_client p)) 1"
  using sample_clients_wf [of p] by (auto simp: findable_def sample_clients_def live_def free_slot_client_def sample_client_def)

text \<open>The same with the index in the form the simplifier gives it.\<close>

lemmas sample_io_suc [simp] =
  sample_io_waits [unfolded One_nat_def] sample_io_served [unfolded One_nat_def] sample_findable [unfolded One_nat_def]
  sample_connected [unfolded One_nat_def]

lemma sample_client_simps [simp]: "\<not> cl_locked (sample_client p)" "cl_waiting_block (sample_client p) = None"
  by (simp_all add: sample_client_def)

lemma get_command_index_some: "get_command_index hs name n \<noteq> None \<longleftrightarrow> name \<in> set (map h_name hs)"
  by (induction hs arbitrary: n) auto

lemma known_name: "name \<in> set (map fst command_docs) \<Longrightarrow> known (command_list :: ('z, 'f) handler list) name"
  unfolding known_def get_command_index_some command_names .

lemma sample_io_idle: "idle 3 1 1 (sample_io ev)"
proof -
  have "holds_list 3 0 (sample_queue :: block tqueue) []" by (rule sample_queue_holds)
  then have "\<exists>m A. holds_list m A (sample_queue :: block tqueue) []" by blast
  then show ?thesis unfolding idle_def by simp
qed

section \<open>Logs\<close>

definition sample_tm :: tm where
  "sample_tm = \<lparr>tm_mday = 1, tm_mon = 1, tm_year = 0, tm_hour = 0, tm_min = 0, tm_sec = 0\<rparr>"

definition sample_log :: log_env where
  "sample_log = \<lparr>le_time = Some 0, le_localtime = (\<lambda>_. sample_tm), le_alloc = True, le_written = True\<rparr>"

definition sample_open :: open_env where
  "sample_open = \<lparr>oe_opened = True, oe_queue = Some sample_queue, oe_mapping = Mapped, oe_page = 4096, oe_line = (\<lambda>_. True)\<rparr>"

definition sample_conf :: config where
  "sample_conf = default_conf\<lparr>cf_max_log_lines := 8\<rparr>"

lemma sample_queue_fresh: "fresh_tqueue 3 (sample_queue :: 'a tqueue)"
proof -
  obtain q :: "'a tqueue" where "create_tqueue True True True (\<lambda>_. \<lparr>sl_seq = 0, sl_data = 0\<rparr>) (word_of_nat (2 ^ 3)) 8 = Some q" "fresh_tqueue 3 q"
    using create_tqueue_fresh [of 3 "\<lambda>_. \<lparr>sl_seq = 0, sl_data = 0\<rparr>"] by auto
  then show ?thesis by (simp add: sample_queue_def)
qed

lemma sample_open_calm [simp]: "calm_open 3 sample_open" "oe_page sample_open = 4096"
  using sample_queue_fresh by (auto simp: calm_open_def sample_open_def)

lemma sample_conf_simps [simp]: "c_string (cf_log_file sample_conf) \<noteq> []" "cf_max_log_lines sample_conf = 8" "cf_log_levels sample_conf = 15"
  by (simp_all add: sample_conf_def default_conf_def c_string_def)

lemma sample_date: "generate_date_string (replicate 21 NUL) sample_tm = Inr ''01 Feb 1900 00:00:00''"
proof -
  have d: "sint (word_of_int 1900 :: 64 word) = 1900" "int_text 1900 = ''1900''"
    by (simp_all add: int_text_def decimal.simps digit_char_def char_of_def bit_0)
  show ?thesis
    using ltoa_text [of "word_of_int 1900" "replicate 14 NUL"] d
    by (simp add: generate_date_string_def sample_tm_def months_def number_pad_def two_digits_def digit_char_def char_of_def bit_0)
qed

lemma sample_call_good [simp]: "msg \<noteq> [] \<Longrightarrow> NUL \<notin> set msg \<Longrightarrow> good_call sample_conf (sample_log, LOG_INFO, msg)"
  using sample_date by (simp add: good_call_def sample_log_def LOG_INFO_def level_tag_def c_string_id)

lemma sample_call_line: "NUL \<notin> set msg \<Longrightarrow> length msg \<le> 4096 \<Longrightarrow>
   call_line (sample_log, LOG_INFO, msg) = ''[01 Feb 1900 00:00:00 / INFO] | '' @ msg @ [LF]"
  using sample_date by (simp add: call_line_def sample_log_def log_message_def level_tag_def LOG_LENGTH_def c_string_id)

section \<open>A life\<close>

text \<open>A log of one line and two I/O threads.\<close>

definition sample_life :: "(step \<Rightarrow> bool) \<Rightarrow> life_env" where
  "sample_life fails = \<lparr>lv_fails = fails, lv_tls = False, lv_conf = sample_conf, lv_open = sample_open, lv_log = sample_log,
     lv_content = ''old'' @ [LF], lv_threads = [Some sample_thread, Some sample_thread], lv_truncated = True, lv_mapping = Mapped, lv_page = 4096\<rparr>"

lemma sample_life_simps [simp]:
  "lv_fails (sample_life fails) = fails" "lv_conf (sample_life fails) = sample_conf" "lv_open (sample_life fails) = sample_open"
  "lv_log (sample_life fails) = sample_log" "lv_content (sample_life fails) = ''old'' @ [LF]" "lv_truncated (sample_life fails)"
  "lv_mapping (sample_life fails) = Mapped" "lv_page (sample_life fails) = 4096" "\<not> lv_tls (sample_life fails)" "destroyable (lv_threads (sample_life fails))"
  by (simp_all add: sample_life_def destroyable_def sample_thread_def)

lemma sample_life_log:
  "\<exists>lg. initialize_logs sample_open sample_log sample_conf (''old'' @ [LF]) = Inr (lg, True) \<and>
     save_and_close_logs True Mapped 4096 sample_conf lg = Inr (''old'' @ [LF])"
proof -
  have c: "cf_max_log_lines sample_conf = 2 ^ 3" by simp
  obtain lg where lg: "initialize_logs sample_open sample_log sample_conf (concat (map line_of [''old''])) = Inr (lg, True)"
      "holding_lines 3 (map line_of [''old'']) lg"
    using initialize_logs_correct [OF sample_open_calm(1) sample_conf_simps(1) c, of "[''old'']" sample_log] by (auto simp: line_of_def)
  have "save_and_close_logs True Mapped 4096 sample_conf lg = Inr (concat (map line_of [''old'']))"
    by (rule save_logs_correct [OF lg(2)]) (simp_all add: line_of_def)
  then show ?thesis using lg(1) by (simp add: line_of_def)
qed

end
