(* ===== verification/Spec2Isabelle.thy ===== *)
theory Spec2Isabelle
  imports Samples Cmd_Server Multi Expiry HashSet Queue Arena Resp_Parse Config World_Samples Aligned Life_Samples
begin

text \<open>
  A model of \<^bold>\<open>tellydb\<close>, an in-memory key-value server in C that speaks the Redis protocol (RESP2 and RESP3), and the
  theorems that make it correct or say where it is not. All paths are below \<open>src/\<close> of the repository.

  \<^bold>\<open>The program.\<close> The main thread (\<open>server/server.c\<close>, \<open>server/events.c\<close>) accepts connections and turns what \<open>epoll\<close> reports into requests. Each
  request waits in the shared queue (\<open>utils/tqueue.c\<close>) of one of the I/O threads (\<open>io/\<close>), which reads the socket, parses commands (\<open>resp/\<close>,
  \<open>server/read_command.c\<close>), and either adds them to the block of a client in \<open>MULTI\<close> or puts a block of one command into the shared queue of the
  transaction thread (\<open>transactions/\<close>). That thread removes the expired keys a command names, runs the command (\<open>commands/\<close>) on a database
  (\<open>database/\<close>), and requests the response to be written by an I/O thread. Databases are hash tables (\<open>utils/hashtable.c\<close>) from keys to
  values; a value is a number of GMP, a string, a boolean, null, a list (\<open>utils/linkedlist.c\<close>) or a hash table. Passwords (\<open>server/auth.c\<close>) carry the
  permissions of clients (\<open>server/client.c\<close>). The databases and passwords are saved to one file, block by block (\<open>database/file\<close>, \<open>database/read\<close>).

  \<^bold>\<open>How code is modelled.\<close> A C function is a function into \<open>'a res\<close>: a fault (NULL dereferenced, use after free, access out of bounds, a failed \<open>ASSERT\<close>,
  undefined behaviour, division by zero, a loop that never ends) or a value. Structs are records, enums datatypes, machine integers words of their width
  where they can wrap, and natural numbers where memory bounds them (the theories say where). Pointers into a structure are indices or addresses of an
  explicit store when aliasing matters (list nodes, passwords, blocks); a command that changes a value through a pointer writes the value back to its
  slot. The result of every allocation and system call is an argument. Effects on the server are explicit: the record \<open>world\<close>, of which \<open>w_out\<close>
  records what leaves the server, and \<open>io_world\<close> around it.

  \<^bold>\<open>The theories\<close>, from the bottom:
  \<^item> \<open>Telly_Prelude\<close>, \<open>Bytes\<close>: results, memory as bytes, C strings, little-endian numbers, circular arithmetic.
  \<^item> \<open>Number\<close>, \<open>Text\<close> (\<open>utils/number.c\<close>, \<open>string.c\<close>): recognising, reading and printing numbers; hash and comparison of keys.
  \<^item> \<open>HashTable\<close>, \<open>HashSet\<close>, \<open>Vector\<close>, \<open>Queue\<close>, \<open>LinkedList\<close>, \<open>Arena\<close>, \<open>Aligned\<close> (\<open>utils/\<close>): the containers, with their invariants, an abstract value
    (\<open>ht_map\<close>, \<open>ll_list\<close>, \<open>queue_vals\<close>), and what each operation does to it. \<open>TQueue\<close>: the lock-free queue, as functions and as a step relation
    of any number of threads over single atomic accesses; reachable states are characterised by an invariant (\<open>tinv\<close>).
  \<^item> \<open>Resp_Parse\<close>, \<open>Resp_Write\<close> (\<open>resp/\<close>, parts of \<open>server/utils.c\<close>): the protocol, from a query buffer that is refilled from the socket, and into the write buffer.
  \<^item> \<open>Store\<close> (\<open>database/kv.c\<close>, \<open>get.c\<close>, \<open>set.c\<close>, \<open>delete.c\<close>, \<open>databases.c\<close>), and \<open>Command\<close>, \<open>Cmd_KV\<close>, \<open>Cmd_Set\<close>, \<open>Cmd_List\<close>, \<open>Cmd_Hash\<close> (\<open>commands/kv\<close>, \<open>list\<close>, \<open>hashtable\<close>):
    commands on data, as functions of an entry and a database.
  \<^item> \<open>Clients\<close>, \<open>Auth\<close> (\<open>server/client.c\<close>, \<open>password.c\<close>, \<open>auth.c\<close>), \<open>Transactions\<close> (\<open>transactions/transactions.c\<close>), \<open>Cmd_Generic\<close>, \<open>Cmd_Server\<close> (\<open>commands/generic\<close>,
    \<open>commands/database\<close>, \<open>server/commands.c\<close>): the world, the handlers of all 47 commands, blocks and their execution. \<open>Multi\<close>, \<open>Expiry\<close>, \<open>Sessions\<close> are about what they do together.
  \<^item> \<open>File_Write\<close>, \<open>File_Read\<close> (\<open>database/file\<close>, \<open>database/read\<close>): the two sides of the database file; \<open>File_Facts\<close>, \<open>File_Values\<close>, \<open>File_Saved\<close>, \<open>File_Loaded\<close>: they
    fit together below a block; \<open>File_Limits\<close>: where they do not.
  \<^item> \<open>Config\<close>, \<open>Logs\<close> (\<open>utils/config.c\<close>, \<open>logging.c\<close>): the configuration, on the bytes of its struct, and the log.
  \<^item> \<open>Reading\<close> (\<open>server/read_command.c\<close>), \<open>IO_Threads\<close> (\<open>io/\<close>, \<open>utils/notifier.c\<close>, \<open>server/events.c\<close>), \<open>Server\<close> (\<open>server/server.c\<close>, \<open>transactions/thread.c\<close>, \<open>telly.c\<close>): from a
    connection to the queue and back, and the life of the process. \<open>Round_Trip\<close> composes them: a command from the socket to the database, and its response.
  \<^item> \<open>Samples\<close>, \<open>World_Samples\<close>, \<open>Life_Samples\<close>: the concrete states that the witnesses below use.

  \<^bold>\<open>Interfaces.\<close> The tables promise \<open>kv_table\<close> (interpreted as \<open>ht\<close>), the queues \<open>fifo\<close> (\<open>ring\<close>, and \<open>shared\<close> for one thread at a time), the lists \<open>deque\<close> (\<open>ll\<close>),
  and the two ends that \<open>LPUSH\<close> and \<open>RPUSH\<close> push to \<open>list_end\<close> (\<open>at_front\<close>, \<open>at_back\<close>). What the code needs of GMP is in the records \<open>gmp\<close> and \<open>hex_gmp\<close>, with the laws
  \<open>gmp_ok\<close> and \<open>hex_ok\<close> of its manual, which \<open>int_gmp\<close> and the samples satisfy.

  \<^bold>\<open>The properties\<close> below, by subject: the protocol (C1), the way of a command through the whole server (C2), tables (C3, C4, C38, C39), the database
  file (C5, C33, C36), transactions, reading and writing (C6 to C10), expiry (C11), the shared queue (C12, C13, C37), commands on keys, lists and
  tables (C14 to C26), passwords and permissions (C27, C28, C31), the start and the end of the process (C29, C30), clients (C32), configuration and log (C34, C35), and
  copies of bytes (C40). Where the code does not do what it should, the property says what it does.

  \<^bold>\<open>Bounds and fuel.\<close> Loops whose end is not evident are \<open>partial_function\<close>s into \<open>option\<close>, where \<open>None\<close> is a loop for ever (the fault \<open>Endless\<close>); the properties
  show \<open>Some\<close> for them. No fuel is used. Capacities and counts that are natural numbers in the model are far below their width because the
  arrays fit into memory. The shared queue has a capacity of \<open>2 ^ k\<close> with \<open>k\<close> at least 1, as \<open>create_tqueue\<close> wants, but for 1 itself, with which it breaks. Positions of the queue wrap.
  What is read back from a file is shown for files shorter than a block, without passwords, and with strings of up to 63 bytes; \<open>File_Limits\<close> shows what
  fails for longer files and strings.

  \<^bold>\<open>Not modelled\<close>, and why:
  \<^item> the calls of the operating system behind parameters: \<open>utils/file.c\<close> (\<open>open\<close>, \<open>lockf\<close>), \<open>utils/tsleep.c\<close>, \<open>epoll_ctl\<close>, signals, sockets; TLS and the key derivation (OpenSSL), GMP; the
    code for Apple systems;
  \<^item> the interleaving of the transaction thread with the I/O threads beyond the shared queue: a turn of a thread is one step of the world; relaxed
    memory orders of the queue beyond what acquire and release give;
  \<^item> the counts of references to query buffers: whether a buffer is shared is an answer of the environment; and responses that share the write buffer of a client before they are sent;
  \<^item> the thread of \<open>BGSAVE\<close>, the flag that a saving is under way, closing the database file; \<open>generate_random_string\<close> (\<open>rand\<close>); functions that only free memory, but for
    those of lists, transaction blocks and the end of the process;
  \<^item> messages of a running server to the log; vendored code, tests, benchmarks and tools of the repository.
\<close>

text \<open>
  C1. Reading what a client sent: a command in the array form of the protocol, with any bytes in
  its name and arguments, is read back as exactly that name and those arguments, and the reader
  stops right behind it.
\<close>

theorem command_roundtrip:
  assumes "ready rd (encode_command name args @ t)" "\<And>n. args_ok n"
  shows "\<exists>cd. get_command_data ssl realloc args_ok rd = accept (advance rd (length (encode_command name args))) cd \<and>
    is_slice rd (cd_name cd) name \<and> list_all2 (is_slice rd) (cd_args cd) args"
  by (rule get_command_data_ready [OF assms])

theorem command_roundtrip_witness:
  "\<exists>cd rd'. get_command_data False (\<lambda>d n. None) (\<lambda>n. True)
      \<lparr>rd_data = encode_command ''GET'' [''k''], rd_size = 100, rd_at = 0, rd_used = 20, rd_sock = []\<rparr> = accept rd' cd \<and>
    rd_at rd' = 20"
proof -
  let ?rd = "\<lparr>rd_data = encode_command ''GET'' [''k''], rd_size = 100, rd_at = 0, rd_used = 20, rd_sock = []\<rparr>"
  have len: "length (encode_command ''GET'' [''k'']) = 20"
    by (simp add: encode_command_def bulk_def decimal.simps)
  have "ready ?rd (encode_command ''GET'' [''k''] @ [])"
    unfolding ready_def using len by simp
  then show ?thesis
    using command_roundtrip [of ?rd "''GET''" "[''k'']" "[]" "\<lambda>n. True" False "\<lambda>d n. None"] len
    by (fastforce simp: advance_def)
qed

text \<open>
  C2. The whole way of two commands, from the socket and back: when a client that may read and write sends \<open>SET\<close> and, after its answer,
  \<open>GET\<close> of the key, each in one piece, then with its event, a turn of its I/O thread, a turn of the transaction thread and another one of the I/O thread for
  each, the client is sent OK and then the value that the text it had set denotes, and nothing else, and the server is idle again.
\<close>

theorem set_get_answered:
  fixes iw :: "('z, 'f) io_world"
  assumes idle: "idle n k i iw" and e: "\<And>j. calm_io (e j)" "\<And>j m. ie_write (e' j m) = []"
    and s: "sends i (encode_command ''SET'' [key, v]) (Recv (encode_command ''GET'' [key]) # Again # ev) iw"
      "length (encode_command ''GET'' [key]) < unat (rd_size (iw_readers iw i))"
    and pw: "au_heap (w_auth (iw_world iw)) (cl_password (client_at (iw_world iw) i)) = Some pw" "pw_permissions pw AND (P_READ OR P_WRITE) = P_READ OR P_WRITE"
    and db: "database_at (iw_world iw) (cl_database (client_at (iw_world iw) i)) = Inr db" "sound_db db"
    and te: "\<And>j. roomy (g_keys (te j 0))" "\<And>j. g_clock (te j 0) 31 = Some (now j)" "quiet (g_time (te 0 0)) (on_data cmd_set) (iw_world iw)" "calm (g_env (te 0 0))"
    and v: "write_value g (Prim (value_of g v)) (cl_protover (client_at (iw_world iw) i)) [] = Inr response" "response \<noteq> []"
  shows "\<exists>iw'. bind_res (round_trip g command_list (\<lambda>_. e 0) (te 0) (e' 0) i k iw) (round_trip g command_list (\<lambda>_. e 1) (te 1) (e' 1) i k) = Inr iw' \<and>
    w_out (iw_world iw') = w_out (iw_world iw) @ [Requested i RESP_OK, Sent i RESP_OK, Requested i response, Sent i response] \<and> idle n k i iw'"
  by (rule set_then_get [where e = e and e' = e' and te = te, OF assms])

theorem set_get_answered_witness:
  "\<exists>iw'. bind_res (round_trip int_gmp command_list (\<lambda>_. sample_io_env) (\<lambda>_. sample_genv) (\<lambda>_. sample_io_env) 1 1
      (sample_io [Recv (encode_command ''SET'' [''a'', ''hi'']), Again, Recv (encode_command ''GET'' [''a'']), Again]))
    (round_trip int_gmp command_list (\<lambda>_. sample_io_env) (\<lambda>_. sample_genv) (\<lambda>_. sample_io_env) 1 1) = Inr iw' \<and>
    w_out (iw_world iw') = [Requested 1 (''+OK'' @ CRLF), Sent 1 (''+OK'' @ CRLF), Requested 1 (''$2'' @ CRLF @ ''hi'' @ CRLF), Sent 1 (''$2'' @ CRLF @ ''hi'' @ CRLF)]"
proof -
  let ?iw = "sample_io [Recv (encode_command ''SET'' [''a'', ''hi'']), Again, Recv (encode_command ''GET'' [''a'']), Again]"
  have l: "length (encode_command ''SET'' [''a'', ''hi'']) = 28" "length (encode_command ''GET'' [''a'']) = 20" by (simp_all add: encode_command_def bulk_def decimal.simps)
  have s: "sends 1 (encode_command ''SET'' [''a'', ''hi'']) [Recv (encode_command ''GET'' [''a'']), Again] ?iw" using l(1) by (simp add: sends_def)
  have p: "all_permissions AND (P_READ OR P_WRITE) = P_READ OR P_WRITE" by code_simp
  have d: "sound_db (one_db ''k'' (Prim (PInt 3)) :: (int, int) database)" by simp
  have q: "quiet (Some 0) (on_data cmd_set) (sample_world (sample_client 4) sample_queue (one_db ''k'' (Prim (PInt 3))) :: (int, int) world)" by (simp add: quiet_def)
  have r: "write_value int_gmp (Prim (PStr ''hi'')) RESP3 [] = Inr (''$2'' @ CRLF @ ''hi'' @ CRLF)"
  proof -
    have "decimal 2 = ''2''" by code_simp
    then show ?thesis using create_resp_string_text [of "[]" "''hi''"] by (simp add: write_value_def write_prim_def resp_bulk_def answer_def MAX_RESPONSE_SIZE_def numeral_2_eq_2)
  qed
  have c: "cl_password (sample_client p) = p" "cl_database (sample_client p) = 10" "cl_protover (sample_client p) = RESP3" for p by (simp_all add: sample_client_def)
  have v: "value_of int_gmp ''hi'' = PStr ''hi''" by code_simp
  have "\<exists>iw'. bind_res (round_trip int_gmp command_list (\<lambda>_. sample_io_env) (\<lambda>_. sample_genv) (\<lambda>_. sample_io_env) 1 1 ?iw)
      (round_trip int_gmp command_list (\<lambda>_. sample_io_env) (\<lambda>_. sample_genv) (\<lambda>_. sample_io_env) 1 1) = Inr iw' \<and>
    w_out (iw_world iw') = w_out (iw_world ?iw) @ [Requested 1 RESP_OK, Sent 1 RESP_OK, Requested 1 (''$2'' @ CRLF @ ''hi'' @ CRLF), Sent 1 (''$2'' @ CRLF @ ''hi'' @ CRLF)] \<and> idle 3 1 1 iw'"
    by (rule set_get_answered [where key = "''a''" and v = "''hi''" and ev = "[]" and db = "one_db ''k'' (Prim (PInt 3))" and now = "\<lambda>_. 1000" and e = "\<lambda>_. sample_io_env" and e' = "\<lambda>_ _. sample_io_env"
          and te = "\<lambda>_ _. sample_genv" and pw = "\<lparr>pw_data = ''two'', pw_permissions = all_permissions\<rparr>", OF sample_io_idle _ _ s])
      (use l(2) v p d q r c in \<open>simp_all add: sample_auth_def\<close>)
  then show ?thesis by (auto simp: RESP_OK_def)
qed



text \<open>
  C4. Deleting a key from a hash table: the operation returns whether the key was there, keeps the
  table well formed and removes exactly that key.
\<close>

theorem table_delete:
  assumes "wf_table t"
  shows "\<exists>t'. delete_from_hashtable t k = Inr (t', ht_map t k \<noteq> None) \<and> wf_table t' \<and> ht_map t' = (ht_map t)(k := None)"
  by (rule ht.del_law [OF assms])

theorem table_delete_witness:
  "\<exists>t'. delete_from_hashtable (one_table (3 :: nat) ''x'' word_of_nat (=)) 3 = Inr (t', True) \<and> wf_table t' \<and> ht_map t' 3 = None"
  using table_delete [of "one_table (3 :: nat) ''x'' word_of_nat (=)" 3]
  by (auto simp: one_table_wf key_eq_def)

text \<open>
  C5. The database file: what \<open>save_data\<close> writes for databases of strings of 1 to 63 bytes, whole numbers, truth values, lists and
  hash tables that fit into one block is read back by \<open>open_database_fd\<close> with the same databases, keys and values (an expiry is lost), and
  the initial database is the one of the configured name.
\<close>

theorem file_roundtrip:
  fixes fresh :: "nat \<Rightarrow> nat option"
  assumes "hex_ok g rep" "roomy_builder bd" "wf_list l" "ended l" "\<forall>db \<in> set (ll_list l). storable_db rep db"
    "\<exists>db \<in> set (ll_list l). db_name db = name" "inj fresh" "\<forall>i. fresh i \<noteq> None" "ok 0"
  shows "\<exists>fb m. \<forall>capacity. length fb < capacity \<longrightarrow>
    save_data g True True ok True capacity age [] (Some l) old = Inr (fb, True) \<and>
    (\<forall>junk mem. length junk = capacity \<longrightarrow> m \<le> mem \<longrightarrow>
      (\<exists>l' initial. open_database g bd fresh last_fresh mem name junk pjunk fb = Inr (Some (age, [], Some l', initial)) \<and>
        wf_list l' \<and> list_all2 (same_db rep) (ll_list l) (ll_list l') \<and> is_initial name l' initial))"
  by (rule saved_is_opened [where ok = ok and fresh = fresh, OF assms])

theorem file_roundtrip_witness:
  "\<exists>fb m. \<forall>capacity. length fb < capacity \<longrightarrow>
    save_data int_hex True True (\<lambda>_. True) True capacity 7 [] (Some (two_list (one_db ''numbers'' sample_list_val) (one_db ''h'' sample_hash_val))) [] = Inr (fb, True) \<and>
    (\<forall>junk mem. length junk = capacity \<longrightarrow> m \<le> mem \<longrightarrow>
      (\<exists>l' initial. open_database int_hex sample_builder Some None mem ''db0'' junk [] fb = Inr (Some (7, [], Some l', initial)) \<and>
        wf_list l' \<and> list_all2 (same_db id) [one_db ''numbers'' sample_list_val, one_db ''h'' sample_hash_val] (ll_list l') \<and> is_initial ''db0'' l' initial))"
  using file_roundtrip [of int_hex id sample_builder "two_list (one_db ''numbers'' sample_list_val) (one_db ''h'' sample_hash_val)" "''db0''" Some "\<lambda>_. True" 7 "[]" None "[]"]
  by (simp add: one_db_storable short_def inj_def)



text \<open>
  C7. Between \<open>MULTI\<close> and \<open>EXEC\<close> the commands of a client are only kept: each one is answered with \<open>QUEUED\<close> and appended to the
  waiting block of the client, in order, and neither the databases nor the shared queue nor any other client changes.
\<close>

theorem commands_are_queued:
  assumes "i < length (cs_slots (w_clients w))" "\<not> cl_locked (client_at w i)" "cl_waiting_block (client_at w i) = Some bk" "list_all (queueable commands) cs"
  shows "\<exists>cmd sub. hand_over_all commands i cs w =
    Inr ((set_client w i ((client_at w i)\<lparr>cl_command := cmd, cl_subcommand := sub, cl_waiting_block :=
      Some (bk\<lparr>bk_transactions := bk_transactions bk @ map (transaction_of commands (cl_database (client_at w i))) cs\<rparr>)\<rparr>))
      \<lparr>w_out := w_out w @ replicate (length cs) (Sent i QUEUED)\<rparr>)"
  using hand_over_all_queued [OF assms] by (simp only: in_block_def)

theorem commands_are_queued_witness:
  "\<exists>w'. hand_over_all command_list 1 [(''GET'', [arg ''k'' []]), (''INCR'', [arg ''k'' []])]
     (sample_world ((sample_client 4)\<lparr>cl_waiting_block := Some \<lparr>bk_type = TX_WAITING, bk_client = 1, bk_password = 4, bk_transactions = []\<rparr>\<rparr>)
       sample_queue (one_db ''k'' (Prim (PInt 3)) :: (int, int) database)) = Inr w' \<and>
   map tx_command (bk_transactions (the (cl_waiting_block (client_at w' 1)))) = [33, 34] \<and> w_out w' = [Sent 1 QUEUED, Sent 1 QUEUED] \<and> w_queue w' = sample_queue"
proof -
  let ?w = "sample_world ((sample_client 4)\<lparr>cl_waiting_block := Some \<lparr>bk_type = TX_WAITING, bk_client = 1, bk_password = 4, bk_transactions = []\<rparr>\<rparr>)
       sample_queue (one_db ''k'' (Prim (PInt 3)) :: (int, int) database)"
  have k: "get_command_index (command_list :: (int, int) handler list) ''GET'' 0 = Some 33" "get_command_index (command_list :: (int, int) handler list) ''INCR'' 0 = Some 34"
    using command_index [of 33] command_index [of 34] by (simp_all add: command_list_def on_data_def cmd_get_def cmd_incr_def)
  have q: "list_all (queueable (command_list :: (int, int) handler list)) [(''GET'', [arg ''k'' []]), (''INCR'', [arg ''k'' []])]"
    using k by (simp add: queueable_def command_list_def on_data_def cmd_get_def cmd_incr_def)
  show ?thesis using commands_are_queued [of 1 ?w _ command_list, OF _ _ _ q] k
    by (auto simp: transaction_of_def sample_client_def numeral_2_eq_2)
qed

text \<open>
  C8. Commands that a client sends in one piece, without waiting for answers, reach the transaction thread: when the piece does not
  fill the query buffer, the client is not locked and not in \<open>MULTI\<close>, and there is room, the shared queue holds one
  block for each command behind what it held, in the order in which they were sent, with the name and the arguments that were sent.
\<close>

theorem pipelined_commands:
  assumes "calm_read e" "cs \<noteq> []" "rd_sock rd = Recv (encode_all cs) # Again # ev"
    and "length (encode_all cs) < unat (rd_size rd)" "unat (rd_size rd) \<le> length (rd_data rd)" "unat (rd_size rd) < 2 ^ 31"
    and "connected w i" "\<not> cl_locked (client_at w i)" "cl_waiting_block (client_at w i) = None"
    and "\<forall>s \<in> set cs. known commands (fst s)" "holds_list n A (w_queue w) bks" "length bks + length cs \<le> 2 ^ n"
  shows "\<exists>rd' w' cs'. read_command e commands i rd w = Inr (rd', w', False) \<and> list_all2 as_sent cs' cs \<and>
    holds_list n A (w_queue w') (bks @ map (direct_block commands i (client_at w i)) cs') \<and> w_out w' = w_out w \<and> w_dbs w' = w_dbs w"
  using commands_reach_queue [OF assms] by fastforce

theorem pipelined_commands_witness:
  "\<exists>rd' w' cs'. read_command sample_read command_list 1 (sample_reader [Recv (encode_all [(''GET'', [''k'']), (''DEL'', [''k''])]), Again])
      (sample_world (sample_client 4) sample_queue (one_db ''k'' (Prim (PInt 3))) :: (int, int) world) = Inr (rd', w', False) \<and>
    list_all2 as_sent cs' [(''GET'', [''k'']), (''DEL'', [''k''])] \<and> length (tq_vals (w_queue w')) = 2"
proof -
  let ?cs = "[(''GET'', [''k'']), (''DEL'', [''k''])]" and ?w = "sample_world (sample_client 4) sample_queue (one_db ''k'' (Prim (PInt 3))) :: (int, int) world"
  have l: "length (encode_all ?cs) = 40" by (simp add: encode_all_def encode_command_def bulk_def decimal.simps)
  have k: "\<forall>s \<in> set ?cs. known (command_list :: (int, int) handler list) (fst s)"
    using known_name [of "''GET''"] known_name [of "''DEL''"] by (simp add: command_docs_def)
  have "\<exists>rd' w' cs'. read_command sample_read command_list 1 (sample_reader [Recv (encode_all ?cs), Again]) ?w = Inr (rd', w', False) \<and>
      list_all2 as_sent cs' ?cs \<and> holds_list 3 0 (w_queue w') ([] @ map (direct_block (command_list :: (int, int) handler list) 1 (client_at ?w 1)) cs') \<and>
      w_out w' = w_out ?w \<and> w_dbs w' = w_dbs ?w"
    by (rule pipelined_commands [where cs = ?cs and n = 3 and A = 0 and bks = "[]" and ev = "[]"]) (use k l sample_queue_holds in simp_all)
  then obtain rd' w' cs' where r: "read_command sample_read command_list 1 (sample_reader [Recv (encode_all ?cs), Again]) ?w = Inr (rd', w', False)"
      "list_all2 as_sent cs' ?cs" "holds_list 3 0 (w_queue w') ([] @ map (direct_block (command_list :: (int, int) handler list) 1 (client_at ?w 1)) cs')"
    by blast
  have "length cs' = 2" using list_all2_lengthD [OF r(2)] by simp
  then show ?thesis using r holds_vals(1) [OF r(3)] by auto
qed



text \<open>
  C10. Two notices of a client that reach its I/O thread before it has read anything disconnect the client: the first read takes all that
  came, the second finds nothing, and an empty read is taken for the end of the connection.
\<close>

theorem second_notice_disconnects:
  fixes iw :: "('z, 'f) io_world"
  assumes "waiting n k [] 0 iw" "1 \<le> n" "served_by iw i k" "\<And>m. calm_io (e m)" "\<And>m. calm_io (e' m)"
    and "cs \<noteq> []" "rd_sock (iw_readers iw i) = Recv (encode_all cs) # Again # Again # ev"
    and "length (encode_all cs) < unat (rd_size (iw_readers iw i))" "unat (rd_size (iw_readers iw i)) \<le> length (rd_data (iw_readers iw i))"
      "unat (rd_size (iw_readers iw i)) < 2 ^ 31"
    and "findable (w_clients (iw_world iw)) i" "\<not> cl_locked (client_at (iw_world iw) i)" "cl_waiting_block (client_at (iw_world iw) i) = None"
    and "\<forall>s \<in> set cs. known commands (fst s)" "holds_list m A (w_queue (iw_world iw)) bks" "length bks + length cs \<le> 2 ^ m"
  shows "\<exists>iw'. bind_res (handle_events [News i False, News i False] iw) (\<lambda>iw.
      bind_res (io_turn e commands k iw) (io_turn e' commands k)) = Inr iw' \<and> \<not> live (client_at (iw_world iw') i)"
  by (rule notice_too_many [where e = e and e' = e', OF assms])

theorem second_notice_disconnects_witness:
  "\<exists>iw'. bind_res (handle_events [News 1 False, News 1 False] (sample_io [Recv (encode_all [(''GET'', [''k''])]), Again, Again])) (\<lambda>iw.
      bind_res (io_turn (\<lambda>_. sample_io_env) command_list 1 iw) (io_turn (\<lambda>_. sample_io_env) command_list 1)) = Inr iw' \<and> \<not> live (client_at (iw_world iw') 1)"
proof -
  have l: "length (encode_all [(''GET'', [''k''])]) = 20" by (simp add: encode_all_def encode_command_def bulk_def decimal.simps)
  have k: "known (command_list :: (int, int) handler list) ''GET''" by (rule known_name) (simp add: command_docs_def)
  show ?thesis
    by (rule second_notice_disconnects [where n = 3 and m = 3 and A = 0 and bks = "[]" and cs = "[(''GET'', [''k''])]" and ev = "[]"])
      (use l k sample_queue_holds in simp_all)
qed


text \<open>
  C12. Threads that share a queue: however the accesses of any number of pushing and popping threads
  interleave, the values claimed by pops are the values pushed, in the order in which the pushes claimed
  their slots, each exactly once; no pop overtakes a push, and never more than the capacity is in flight.
\<close>

theorem shared_queue_order:
  assumes "tq_reach q s" "fresh_tqueue k q" "length (ty_pushed s) < 2 ^ 63"
  shows "ty_popped s = map Some (take (length (ty_popped s)) (ty_pushed s)) \<and> length (ty_popped s) \<le> length (ty_pushed s) \<and>
    length (ty_pushed s) \<le> length (ty_popped s) + 2 ^ k"
  using tq_fifo [OF assms] by blast

theorem shared_queue_order_witness:
  "\<exists>q s. create_tqueue True True True (\<lambda>_. \<lparr>sl_seq = 9, sl_data = 9\<rparr>) (word_of_nat (2 ^ 3)) 8 = Some q \<and> tq_reach q s \<and>
     ty_pushed s = [''job''] \<and> ty_popped s = map Some (take (length (ty_popped s)) [''job''])"
proof -
  obtain q :: "bytes tqueue" where q: "create_tqueue True True True (\<lambda>_. \<lparr>sl_seq = 9, sl_data = 9\<rparr>) (word_of_nat (2 ^ 3)) 8 = Some q" "fresh_tqueue 3 q"
    using create_tqueue_fresh [of 3 "\<lambda>_. \<lparr>sl_seq = 9, sl_data = 9\<rparr>"] by auto
  obtain s where s: "tq_reach q s" "ty_pushed s = [''job'']" using one_job [OF q(2), of "''job''"] by blast
  have "length (ty_pushed s) < 2 ^ 63" by (simp add: s(2))
  from shared_queue_order [OF s(1) q(2) this] show ?thesis unfolding s(2) using q(1) s(1,2) by blast
qed

text \<open>
  C13. What a pop copies out of its slot is the value whose push claimed the same position, and two
  threads never copy out of the same slot at the same time: the slot is handed on only when the copy is done.
\<close>

theorem shared_queue_delivers:
  assumes "tq_reach q s" "fresh_tqueue k q" "length (ty_pushed s) < 2 ^ 63" "ty_pc s t = PopFree w x"
  shows "(\<exists>p < length (ty_popped s). w = word_of_nat p \<and> x = Some (ty_pushed s ! p)) \<and> (\<forall>u y. u \<noteq> t \<longrightarrow> ty_pc s u \<noteq> PopFree w y)"
  using tq_delivers(1) [OF assms] tq_delivers(2) [OF assms] by blast

theorem shared_queue_delivers_witness:
  "\<exists>q s. create_tqueue True True True (\<lambda>_. \<lparr>sl_seq = 9, sl_data = 9\<rparr>) (word_of_nat (2 ^ 3)) 8 = Some q \<and> tq_reach q s \<and>
     ty_pc s 0 = PopFree 0 (Some ''job'') \<and> 0 < length (ty_popped s) \<and> (\<forall>u y. u \<noteq> 0 \<longrightarrow> ty_pc s u \<noteq> PopFree 0 y)"
proof -
  obtain q :: "bytes tqueue" where q: "create_tqueue True True True (\<lambda>_. \<lparr>sl_seq = 9, sl_data = 9\<rparr>) (word_of_nat (2 ^ 3)) 8 = Some q" "fresh_tqueue 3 q"
    using create_tqueue_fresh [of 3 "\<lambda>_. \<lparr>sl_seq = 9, sl_data = 9\<rparr>"] by auto
  obtain s where s: "tq_reach q s" "ty_pushed s = [''job'']" "ty_pc s 0 = PopFree 0 (Some ''job'')" using one_job [OF q(2), of "''job''"] by blast
  have "length (ty_pushed s) < 2 ^ 63" by (simp add: s(2))
  note d = shared_queue_delivers [OF s(1) q(2) this s(3)]
  have "0 < length (ty_popped s)" "\<forall>u y. u \<noteq> 0 \<longrightarrow> ty_pc s u \<noteq> PopFree 0 y"
    using conjunct1 [OF d] conjunct2 [OF d] by (auto intro: le_less_trans)
  then show ?thesis using q(1) s(1,3) by blast
qed



text \<open>
  C15. \<open>SET\<close> without options stores the value the text denotes (an integer, a double, a boolean,
  null, or the bytes themselves) without expiry, and answers OK.
\<close>

theorem set_stores:
  assumes "sound_db db" "en_client en = Some protover" "calm e" "en_args en = [k, arg v (x # rest)]" "\<not> is_digit x" "x \<noteq> CHR ''-''"
  shows "\<exists>db'. run_set g e en db = Inr (db', RESP_OK) \<and> sound_db db' \<and>
    db_map db' = (db_map db)(str_bytes k \<mapsto> \<lparr>kv_value = Prim (value_of g v), kv_expiry = None\<rparr>)"
  by (rule run_set_plain [OF assms])

theorem set_stores_witness:
  "\<exists>db'. run_set int_gmp calm_env (sample_entry [arg ''k'' CRLF, arg ''-17'' CRLF]) (one_db ''q'' (Prim (PStr ''x''))) = Inr (db', RESP_OK) \<and>
     db_map db' ''k'' = Some \<lparr>kv_value = Prim (PInt (int_of_text ''-17'')), kv_expiry = None\<rparr>"
  using set_stores [of "one_db ''q'' (Prim (PStr ''x''))" "sample_entry [arg ''k'' CRLF, arg ''-17'' CRLF]" RESP3 calm_env "arg ''k'' CRLF"
      "''-17''" "CHR 0x0D" "[CHR 0x0A]" int_gmp]
  by (auto simp: value_of_def int_literal_def is_digit_def int_gmp_def)

text \<open>
  C16. \<open>GET\<close> answers null for a key that is not there and the stored value otherwise, and changes
  nothing; \<open>TYPE\<close> answers the name of its type.
\<close>

theorem get_answers:
  assumes "sound_db db" "en_client en = Some protover" "en_args en = [k]"
  shows "run_get g e en db = (case db_map db (str_bytes k) of None \<Rightarrow> Inr (db, RESP_NULL protover)
      | Some kv \<Rightarrow> bind_res (write_value g (kv_value kv) protover []) (\<lambda>bs. Inr (db, bs))) \<and>
    run_type g e en db = Inr (db, case db_map db (str_bytes k) of None \<Rightarrow> RESP_NULL protover | Some kv \<Rightarrow> get_resp_type_name (kv_value kv))"
  using run_get_correct [OF _ assms(2,3)] run_type_correct [OF _ assms(2,3)] assms(1) unfolding sound_db_def by blast

theorem get_answers_witness:
  "run_get int_gmp calm_env (sample_entry [arg ''k'' CRLF]) (one_db ''k'' (Prim (PInt 42))) = Inr (one_db ''k'' (Prim (PInt 42)), '':42'' @ CRLF)"
proof -
  have "int_text 42 = ''42''" by code_simp
  then show ?thesis
    using get_answers [of "one_db ''k'' (Prim (PInt 42))" "sample_entry [arg ''k'' CRLF]" RESP3 "arg ''k'' CRLF" int_gmp calm_env]
      write_int_value [of int_gmp id 42 RESP3] by (simp add: resp_int_def)
qed

text \<open>
  C17. \<open>DEL\<close> answers how many of the different keys named were there, and removes exactly these.
\<close>

theorem del_removes:
  assumes "sound_db db" "en_client en = Some protover" "en_args en \<noteq> []" "length (en_args en) < 2 ^ 32"
  shows "\<exists>db'. run_del g e en db = Inr (db', resp_int (int (card (str_bytes ` set (en_args en) \<inter> dom (db_map db))))) \<and> sound_db db' \<and>
    db_map db' = db_map db |` (- (str_bytes ` set (en_args en)))"
  by (rule run_del_correct [OF assms])

theorem del_removes_witness:
  "\<exists>db'. run_del int_gmp calm_env (sample_entry [arg ''k'' CRLF, arg ''z'' CRLF, arg ''k'' CRLF]) (one_db ''k'' (Prim (PInt 42))) = Inr (db', '':1'' @ CRLF) \<and>
     db_map db' ''k'' = None"
proof -
  have "int_text 1 = ''1''" by code_simp
  then show ?thesis
    using del_removes [of "one_db ''k'' (Prim (PInt 42))" "sample_entry [arg ''k'' CRLF, arg ''z'' CRLF, arg ''k'' CRLF]" RESP3 int_gmp calm_env]
    by (auto simp: resp_int_def)
qed

text \<open>
  C18. \<open>RENAME\<close> to a name that is free moves the value with its expiry; when the new name is taken by
  another key, that key keeps its value and the renamed one is lost, although the answer is OK.
\<close>

theorem rename_moves:
  assumes "sound_db db" "en_client en = Some protover" "en_args en = [old, new]" "calm e" "db_map db (str_bytes old) = Some kv"
  shows "\<exists>db'. run_rename g e en db = Inr (db', RESP_OK) \<and> sound_db db' \<and> db_map db' =
    (if str_bytes new \<noteq> str_bytes old \<and> db_map db (str_bytes new) \<noteq> None then (db_map db)(str_bytes old := None)
     else (db_map db)(str_bytes old := None, str_bytes new \<mapsto> kv))"
  using run_rename_correct [OF assms, of g] by (auto simp: fun_upd_def split: if_splits)

theorem rename_moves_witness:
  "\<exists>db'. run_rename int_gmp calm_env (sample_entry [arg ''k'' CRLF, arg ''z'' CRLF]) (one_db ''k'' (Prim (PInt 42))) = Inr (db', RESP_OK) \<and>
     db_map db' = [''z'' \<mapsto> \<lparr>kv_value = Prim (PInt 42), kv_expiry = None\<rparr>]"
  using rename_moves [of "one_db ''k'' (Prim (PInt 42))" "sample_entry [arg ''k'' CRLF, arg ''z'' CRLF]" RESP3 "arg ''k'' CRLF" "arg ''z'' CRLF"
      calm_env "\<lparr>kv_value = Prim (PInt 42), kv_expiry = None\<rparr>" int_gmp] by auto

text \<open>
  C19. \<open>INCR\<close> and \<open>DECR\<close> of an integer store its successor or predecessor, keep the expiry, and answer
  the key and the new number.
\<close>

theorem incr_decr:
  assumes "gmp_ok g val" "sound_db db" "en_client en = Some protover" "en_args en = [k]"
    "db_map db (str_bytes k) = Some kv" "kv_value kv = Prim (PInt z)" "\<bar>val z\<bar> < 2 ^ 63 - 1" "length (str_bytes k) < 200000"
  shows "(\<exists>db' z'. run_incr g e en db = Inr (db', count_response protover (str_bytes k) (val z + 1)) \<and> sound_db db' \<and> val z' = val z + 1 \<and>
      db_map db' = (db_map db)(str_bytes k \<mapsto> kv\<lparr>kv_value := Prim (PInt z')\<rparr>)) \<and>
    (\<exists>db' z'. run_decr g e en db = Inr (db', count_response protover (str_bytes k) (val z - 1)) \<and> sound_db db' \<and> val z' = val z - 1 \<and>
      db_map db' = (db_map db)(str_bytes k \<mapsto> kv\<lparr>kv_value := Prim (PInt z')\<rparr>))"
proof -
  have up: "val (mpz_add_ui g z 1) = val z + 1" and down: "val (mpz_sub_ui g z 1) = val z - 1" using assms(1) by (simp_all add: gmp_ok_def)
  show ?thesis
    using run_count_correct [OF assms(1-6) _ _ assms(8), of "\<lambda>z. mpz_add_ui g z 1" "''INCR''" "\<lambda>f. mpf_add_ui g f 1" e]
      run_count_correct [OF assms(1-6) _ _ assms(8), of "\<lambda>z. mpz_sub_ui g z 1" "''DECR''" "\<lambda>f. mpf_sub_ui g f 1" e]
      assms(7) up down
    unfolding run_incr_def run_decr_def by fastforce
qed

theorem incr_decr_witness:
  "\<exists>db'. run_incr int_gmp calm_env (sample_entry [arg ''k'' CRLF]) (one_db ''k'' (Prim (PInt 41))) = Inr (db', count_response RESP3 ''k'' 42) \<and>
     db_map db' ''k'' = Some \<lparr>kv_value = Prim (PInt 42), kv_expiry = None\<rparr>"
  using incr_decr [of int_gmp id "one_db ''k'' (Prim (PInt 41))" "sample_entry [arg ''k'' CRLF]" RESP3 "arg ''k'' CRLF"
      "\<lparr>kv_value = Prim (PInt 41), kv_expiry = None\<rparr>" 41 calm_env] by auto

text \<open>
  C20. \<open>RPUSH\<close> appends the values of its arguments to the list in their order, \<open>LPUSH\<close> puts them in
  front one after the other, so in reverse; both answer how many were pushed, start a new list when
  the key is not there, and leave every other key alone.
\<close>

theorem push_values:
  assumes "sound_db db" "en_client en = Some protover" "calm e" "en_args en = k # map as_arg as" "as \<noteq> []" "\<forall>a \<in> set as. readable a"
    "list_at db (str_bytes k) = Some xs" "length as < 2 ^ 62" "fresh_for e db (str_bytes k)"
  shows "(\<exists>db'. run_rpush g e en db = Inr (db', resp_int (int (length as))) \<and> sound_db db' \<and>
      list_at db' (str_bytes k) = Some (xs @ map (\<lambda>a. value_of g (fst a)) as) \<and> (\<forall>k'. k' \<noteq> str_bytes k \<longrightarrow> db_map db' k' = db_map db k')) \<and>
    (\<exists>db'. run_lpush g e en db = Inr (db', resp_int (int (length as))) \<and> sound_db db' \<and>
      list_at db' (str_bytes k) = Some (rev (map (\<lambda>a. value_of g (fst a)) as) @ xs) \<and> (\<forall>k'. k' \<noteq> str_bytes k \<longrightarrow> db_map db' k' = db_map db k'))"
proof -
  have r: "foldl (\<lambda>xs x. xs @ [x]) xs ys = xs @ ys" "foldl (\<lambda>xs x. x # xs) xs ys = rev ys @ xs" for xs ys :: "('a, 'b) prim list"
    by (induction ys arbitrary: xs) simp_all
  show ?thesis
    using at_back.run_push_all [OF assms, of "''RPUSH''" g] at_front.run_push_all [OF assms, of "''LPUSH''" g]
    unfolding run_rpush_def run_lpush_def r by blast
qed

theorem push_values_witness:
  "\<exists>db'. run_rpush int_gmp calm_env (sample_entry [arg ''k'' CRLF, arg ''new'' CRLF]) (one_db ''k'' (VList (two_list (PInt 1) (PInt 2)))) = Inr (db', resp_int 1) \<and>
     list_at db' ''k'' = Some [PInt 1, PInt 2, PStr ''new'']"
proof -
  let ?a = "(''new'', CHR 0x0D, [CHR 0x0A])"
  have "readable ?a" "value_of int_gmp ''new'' = PStr ''new''" "as_arg ?a = arg ''new'' CRLF"
    by (simp_all add: readable_def int_literal_def double_literal_def is_digit_def value_of_def as_arg_def)
  then show ?thesis
    using push_values [of "one_db ''k'' (VList (two_list (PInt 1) (PInt 2)))" "sample_entry [arg ''k'' CRLF, arg ''new'' CRLF]" RESP3 calm_env
        "arg ''k'' CRLF" "[?a]" "[PInt 1, PInt 2]" int_gmp] by auto
qed

text \<open>C21. \<open>LPOP\<close> answers the first element of the list and removes it; the list stays sound, also when it becomes empty.\<close>

theorem lpop_takes_first:
  assumes "sound_db db" "en_client en = Some protover" "en_args en = [k]" "list_at db (str_bytes k) = Some (x # xs)"
    "write_prim g x protover [] = Inr bs"
  shows "\<exists>db'. run_lpop g e en db = Inr (db', bs) \<and> sound_db db' \<and> list_at db' (str_bytes k) = Some xs \<and>
    (\<forall>k'. k' \<noteq> str_bytes k \<longrightarrow> db_map db' k' = db_map db k')"
  by (rule run_lpop_front [OF assms])

theorem lpop_takes_first_witness:
  "\<exists>db'. run_lpop int_gmp calm_env (sample_entry [arg ''k'' CRLF]) (one_db ''k'' (VList (two_list (PBool True) PNull))) = Inr (db', ''#t'' @ CRLF) \<and>
     list_at db' ''k'' = Some [PNull]"
proof -
  have "write_prim int_gmp (PBool True) RESP3 [] = Inr (''#t'' @ CRLF)"
    by (simp add: write_prim_def bool_text_def put_def MAX_RESPONSE_SIZE_def)
  then show ?thesis
    using lpop_takes_first [of "one_db ''k'' (VList (two_list (PBool True) PNull))" "sample_entry [arg ''k'' CRLF]" RESP3 "arg ''k'' CRLF" "PBool True" "[PNull]"
        int_gmp "''#t'' @ CRLF" calm_env] by auto
qed

text \<open>
  C22. \<open>RPOP\<close> answers the last element of the list and removes it, but the list it leaves cannot be
  freed any more: a later \<open>DEL\<close> of the key, when elements are left, follows the \<open>next\<close> pointer of the new last node into the freed one.
\<close>

theorem rpop_leaves_dangling:
  assumes "sound_db db" "en_client en = Some protover" "en_args en = [k]" "list_at db (str_bytes k) = Some (xs @ [x])" "xs \<noteq> []"
    "write_prim g x protover [] = Inr bs"
  shows "\<exists>db'. run_rpop g e en db = Inr (db', bs) \<and> list_at db' (str_bytes k) = Some xs \<and>
    (\<forall>k'. k' \<noteq> str_bytes k \<longrightarrow> db_map db' k' = db_map db k') \<and> run_del g e en db' = Inl UseAfterFree"
proof -
  obtain db' where r: "run_rpop g e en db = Inr (db', bs)" "wf_db db'" "list_at db' (str_bytes k) = Some xs"
      "\<forall>k'. k' \<noteq> str_bytes k \<longrightarrow> db_map db' k' = db_map db k'"
      and f: "\<forall>kv' l'. db_map db' (str_bytes k) = Some kv' \<longrightarrow> kv_value kv' = VList l' \<longrightarrow> wf_list l' \<and> ll_free l' = Inl UseAfterFree"
    using run_rpop_back [OF assms(1-4,6), of e] by blast
  obtain kv l where "db_map db' (str_bytes k) = Some kv" "kv_value kv = VList l"
    using r(3) assms(5) by (auto simp: list_at_def split: option.splits val.splits)
  then have "delete_data db' (str_bytes k) = Inl UseAfterFree" using f delete_after_rpop [OF r(2)] by blast
  then have "run_del g e en db' = Inl UseAfterFree" using assms(3) by (simp add: run_del_def arg_count_def)
  then show ?thesis using r by blast
qed

theorem rpop_leaves_dangling_witness:
  "\<exists>db'. run_rpop int_gmp calm_env (sample_entry [arg ''k'' CRLF]) (one_db ''k'' (VList (two_list PNull (PBool True)))) = Inr (db', ''#t'' @ CRLF) \<and>
     list_at db' ''k'' = Some [PNull] \<and> run_del int_gmp calm_env (sample_entry [arg ''k'' CRLF]) db' = Inl UseAfterFree"
proof -
  have w: "write_prim int_gmp (PBool True) RESP3 [] = Inr (''#t'' @ CRLF)"
    by (simp add: write_prim_def bool_text_def put_def MAX_RESPONSE_SIZE_def)
  have l: "list_at (one_db ''k'' (VList (two_list PNull (PBool True)))) (str_bytes (arg ''k'' CRLF)) = Some ([PNull] @ [PBool True])" by simp
  show ?thesis
    using rpop_leaves_dangling [OF _ _ _ l _ w, of "sample_entry [arg ''k'' CRLF]" calm_env] by auto
qed

text \<open>
  C23. \<open>LRANGE\<close> of a list of strings, from \<open>a\<close> to \<open>b\<close> with \<open>a < b\<close> inside the list. When the range lies in the front half
  (\<open>a + b \<le> length\<close>) the reply holds exactly its elements. Otherwise the elements
  are collected from the back, but starting at position \<open>length - b - 1\<close> counted from the front: the
  reply holds the wrong elements, or the walk runs into the NULL pointer in front of the list.
\<close>

theorem lrange_answers:
  assumes "sound_db db" "en_client en = Some protover" "en_args en = [k, arg n (x # rest), arg m (y # rest')]"
    "list_all is_digit n" "n \<noteq> []" "\<not> is_digit x" "x \<noteq> CHR ''-''" "list_all is_digit m" "m \<noteq> []" "\<not> is_digit y" "y \<noteq> CHR ''-''"
    "db_map db (str_bytes k) = Some kv" "kv_value kv = VList l" "ll_list l = map PStr ss" "closed l"
    "dec_val n = a" "dec_val m = b" "a < b" "b < length ss" "length ss < 2 ^ 63"
    "\<And>vs. \<lbrakk>length vs = b - a + 1; set vs \<subseteq> set ss\<rbrakk> \<Longrightarrow> length (lrange_reply vs) \<le> MAX_RESPONSE_SIZE"
  shows "run_lrange g e en db =
    (if a + b \<le> length ss then Inr (db, lrange_reply (take (b - a + 1) (drop a ss)))
     else if b - a \<le> length ss - b - 1 then Inr (db, lrange_reply (take (b - a + 1) (drop (length ss - b - 1 - (b - a)) ss)))
     else Inl NullDeref)"
  using run_lrange_strings [OF assms(1-14) assms(18-21) [folded assms(16,17)], of g e] assms(15)
  unfolding assms(16,17) by (simp add: not_le)

theorem lrange_answers_witness:
  "run_lrange int_gmp calm_env (sample_entry [arg ''k'' CRLF, arg ''0'' CRLF, arg ''1'' CRLF]) (one_db ''k'' (VList (two_list (PStr ''ab'') (PStr ''c'')))) =
     Inr (one_db ''k'' (VList (two_list (PStr ''ab'') (PStr ''c''))), lrange_reply [''ab'', ''c''])"
proof -
  let ?l = "two_list (PStr ''ab'') (PStr ''c'')" let ?kv = "\<lparr>kv_value = VList ?l, kv_expiry = None\<rparr>"
  have v: "dec_val ''0'' = 0" "dec_val ''1'' = 1" by (simp_all add: dec_val_def digit_val_def)
  have c: "closed ?l" by (simp add: closed_def two_list_def)
  have room: "length (lrange_reply vs) \<le> MAX_RESPONSE_SIZE" if vs: "length vs = 1 - 0 + 1" "set vs \<subseteq> set [''ab'', ''c'']" for vs
  proof -
    have d: "length (decimal n) = 1" if "n < 10" for n using that by (simp add: decimal.simps)
    obtain u v where "vs = [u, v]" "u \<in> {''ab'', ''c''}" "v \<in> {''ab'', ''c''}" using vs by (auto simp: length_Suc_conv)
    then show ?thesis using d by (auto simp: lrange_reply_def resp_bulk_def MAX_RESPONSE_SIZE_def)
  qed
  show ?thesis
    using lrange_answers [of "one_db ''k'' (VList ?l)" "sample_entry [arg ''k'' CRLF, arg ''0'' CRLF, arg ''1'' CRLF]" RESP3 "arg ''k'' CRLF" "''0''" "CHR 0x0D" "[CHR 0x0A]"
        "''1''" "CHR 0x0D" "[CHR 0x0A]" ?kv ?l "[''ab'', ''c'']" 0 1 int_gmp calm_env, OF _ _ _ _ _ _ _ _ _ _ _ _ _ _ c v _ _ _ room]
    by (simp add: is_digit_def)
qed

text \<open>
  C24. \<open>HSET\<close> adds the fields that are new to the hash and leaves every field alone that is there (or
  came earlier in the same command); it answers the number of pairs it was given either way.
\<close>

theorem hset_adds:
  assumes "sound_db db" "wf_hash db (str_bytes k)" "en_client en = Some protover" "calm e"
    "en_args en = k # concat (map (\<lambda>p. [fst p, as_arg (snd p)]) ps)" "ps \<noteq> []" "\<forall>p \<in> set ps. hset_readable (snd p)"
    "hash_at db (str_bytes k) = Some m" "length ps < 2 ^ 62"
  shows "\<exists>db'. run_hset g e en db = Inr (db', resp_int (int (length ps))) \<and> sound_db db' \<and> wf_hash db' (str_bytes k) \<and>
    hash_at db' (str_bytes k) = Some (map_of (map (\<lambda>p. (str_bytes (fst p), value_of g (fst (snd p)))) ps) ++ m) \<and>
    (\<forall>k'. k' \<noteq> str_bytes k \<longrightarrow> db_map db' k' = db_map db k')"
proof -
  have "foldl put_new m xs = map_of xs ++ m" for m :: "bytes \<rightharpoonup> ('a, 'b) prim" and xs
    by (induction xs arbitrary: m) (auto simp: put_new_def map_add_def fun_eq_iff split: option.splits)
  then show ?thesis using run_hset_all [OF assms, of g] by simp
qed

theorem hset_adds_witness:
  "\<exists>db'. run_hset int_gmp calm_env (sample_entry [arg ''k'' CRLF, arg ''f'' CRLF, arg ''new'' CRLF]) (one_db ''k'' (one_hash ''f'' PNull)) = Inr (db', resp_int 1) \<and>
     hash_at db' ''k'' = Some [''f'' \<mapsto> PNull]"
proof -
  let ?p = "(arg ''f'' CRLF, ''new'', CHR 0x0D, [CHR 0x0A])"
  have "hset_readable (snd ?p)" "as_arg (snd ?p) = arg ''new'' CRLF"
    by (simp_all add: hset_readable_def int_literal_def double_literal_def is_digit_def as_arg_def)
  then show ?thesis
    using hset_adds [of "one_db ''k'' (one_hash ''f'' PNull)" "arg ''k'' CRLF" "sample_entry [arg ''k'' CRLF, arg ''f'' CRLF, arg ''new'' CRLF]" RESP3 calm_env
        "[?p]" "[''f'' \<mapsto> PNull]" int_gmp]
    by auto
qed

text \<open>
  C25. \<open>HDEL\<close> removes the named fields and answers how many of them were there; when no field is left
  the key itself is deleted, and only then.
\<close>

theorem hdel_removes:
  assumes "sound_db db" "wf_hash db (str_bytes k)" "en_client en = Some protover" "may_read (en_permissions en)" "en_args en = k # fs" "fs \<noteq> []"
    "hash_at db (str_bytes k) = Some m" "card (dom m) < 2 ^ 32"
  shows "\<exists>db' m'. m' = m |` (- set (map str_bytes fs)) \<and> run_hdel g e en db = Inr (db', resp_int (int (card (dom m) - card (dom m')))) \<and>
    sound_db db' \<and> hash_at db' (str_bytes k) = Some m' \<and> (m \<noteq> Map.empty \<longrightarrow> (db_map db' (str_bytes k) = None \<longleftrightarrow> m' = Map.empty)) \<and>
    (\<forall>k'. k' \<noteq> str_bytes k \<longrightarrow> db_map db' k' = db_map db k')"
proof -
  obtain db' where "run_hdel g e en db = Inr (db', resp_int (int (card (dom m) - card (dom (m |` (- set (map str_bytes fs)))))))" "sound_db db'"
      "hash_at db' (str_bytes k) = Some (m |` (- set (map str_bytes fs)))"
      "m \<noteq> Map.empty \<longrightarrow> (db_map db' (str_bytes k) = None \<longleftrightarrow> m |` (- set (map str_bytes fs)) = Map.empty)"
      "\<forall>k'. k' \<noteq> str_bytes k \<longrightarrow> db_map db' k' = db_map db k'"
    using run_hdel_fields [OF assms, of g e] by (elim exE conjE) (rule that)
  then show ?thesis by (intro exI [of _ db'] exI [of _ "m |` (- set (map str_bytes fs))"] conjI) (rule refl | assumption)+
qed

theorem hdel_removes_witness:
  "\<exists>db'. run_hdel int_gmp calm_env (sample_entry [arg ''k'' CRLF, arg ''f'' CRLF]) (one_db ''k'' (one_hash ''f'' (PBool True))) = Inr (db', resp_int 1) \<and>
     db_map db' ''k'' = None"
proof -
  let ?en = "sample_entry [arg ''k'' CRLF, arg ''f'' CRLF]" and ?db = "one_db ''k'' (one_hash ''f'' (PBool True))"
  have p: "may_read (en_permissions ?en)" by (simp add: sample_entry_def may_read_def P_READ_def P_WRITE_def)
  have m: "[''f'' \<mapsto> PBool True :: (int, int) prim] \<noteq> Map.empty" "[''f'' \<mapsto> PBool True :: (int, int) prim] |` (- {''f''}) = Map.empty"
    by (auto simp: restrict_map_def fun_eq_iff)
  have h: "hash_at ?db (str_bytes (arg ''k'' CRLF)) = Some [''f'' \<mapsto> PBool True :: (int, int) prim]" "card (dom [''f'' \<mapsto> PBool True :: (int, int) prim]) < 2 ^ 32"
    by simp_all
  have st: "sound_db ?db" "wf_hash ?db (str_bytes (arg ''k'' CRLF))" "en_client ?en = Some RESP3"
    "en_args ?en = arg ''k'' CRLF # [arg ''f'' CRLF]" "[arg ''f'' CRLF] \<noteq> []" by simp_all
  obtain db' m' where d: "m' = [''f'' \<mapsto> PBool True :: (int, int) prim] |` (- set (map str_bytes [arg ''f'' CRLF]))"
      "run_hdel int_gmp calm_env ?en ?db = Inr (db', resp_int (int (card (dom [''f'' \<mapsto> PBool True :: (int, int) prim]) - card (dom m'))))"
      "[''f'' \<mapsto> PBool True :: (int, int) prim] \<noteq> Map.empty \<longrightarrow> (db_map db' (str_bytes (arg ''k'' CRLF)) = None \<longleftrightarrow> m' = Map.empty)"
    using hdel_removes [OF st(1-3) p st(4,5) h, of int_gmp calm_env] by (elim exE conjE) (rule that; assumption)
  have "m' = Map.empty" using d(1) m(2) by simp
  then show ?thesis using d(2,3) m(1) by simp
qed



text \<open>
  C27. \<open>AUTH\<close> by a client that has no password yet: it gets the password whose derived key is on the list, and its permissions with it;
  a text that derives to none of the keys changes nothing.
\<close>

theorem auth_decides:
  assumes "wf_auth (w_auth w)" "g_kdf e (str_bytes text) = Some d" "we_client we = Some i" "we_args we = [text]" "we_password we = au_empty (w_auth w)"
  shows "if d \<in> pw_data ` set (passwords (w_auth w))
    then \<exists>p pw. Some p \<in> set (au_list (w_auth w)) \<and> au_heap (w_auth w) p = Some pw \<and> pw_data pw = d \<and>
      run_auth g e we w = Inr (set_client w i ((client_at w i)\<lparr>cl_password := p\<rparr>), RESP_OK)
    else run_auth g e we w = Inr (w, RESP_ERROR_MESSAGE ''This password does not exist'')"
  by (rule auth_login [OF assms])

theorem auth_decides_witness:
  "\<exists>p pw. au_heap sample_auth p = Some pw \<and> pw_data pw = ''two'' \<and>
     run_auth int_gmp sample_genv \<lparr>we_client = Some 1, we_args = [arg ''two'' []], we_database = 10, we_password = 1\<rparr>
       (sample_world (sample_client 1) sample_queue (one_db ''k'' (Prim (PInt 3)) :: (int, int) database)) =
     Inr (set_client (sample_world (sample_client 1) sample_queue (one_db ''k'' (Prim (PInt 3)))) 1 ((sample_client 1)\<lparr>cl_password := p\<rparr>), RESP_OK)"
  using auth_decides [of "sample_world (sample_client 1) sample_queue (one_db ''k'' (Prim (PInt 3)) :: (int, int) database)" sample_genv "arg ''two'' []" "''two''"
      "\<lparr>we_client = Some 1, we_args = [arg ''two'' []], we_database = 10, we_password = 1\<rparr>" 1 int_gmp]
  by auto

text \<open>
  C28. A command that the password of its client does not permit changes nothing: the turn takes it from the queue, the client is told,
  and the databases, the passwords and the clients stay as they are (between two automatic saves).
\<close>

theorem denied_command:
  assumes "connected w i" "holds_list n A (w_queue w) (\<lparr>bk_type = TX_DIRECT, bk_client = i, bk_password = p, bk_transactions = [tx]\<rparr> # bks)"
    "au_heap (w_auth w) p = Some pw" "pw_permissions pw AND h_permissions (commands ! tx_command tx) \<noteq> h_permissions (commands ! tx_command tx)"
    "g_time (e 0) = Some now" "w_operations w + 1 < w_count w"
  shows "\<exists>q' w'. transaction_turn g commands e w = Inr w' \<and> holds_list n (A + 1) q' bks \<and> w_queue w' = q' \<and> w_dbs w' = w_dbs w \<and> w_auth w' = w_auth w \<and>
    w_clients w' = w_clients w \<and> w_keyspace w' = w_keyspace w \<and> w_out w' = w_out w @ [Sent i NO_PERMISSION] \<and> w_processed w' = w_processed w + 1"
  by (rule denied_turn [where e = e, OF assms])

theorem denied_command_witness:
  "\<exists>w'. transaction_turn int_gmp command_list (\<lambda>_. sample_genv)
     (sample_world (sample_client 3) (queue_with \<lparr>bk_type = TX_DIRECT, bk_client = 1, bk_password = 3, bk_transactions = [\<lparr>tx_args = [arg ''k'' []], tx_command = 34, tx_database = 10\<rparr>]\<rparr>)
       (one_db ''k'' (Prim (PInt 3)))) = Inr w' \<and> database_at w' 10 = Inr (one_db ''k'' (Prim (PInt 3))) \<and> w_out w' = [Sent 1 NO_PERMISSION]"
proof -
  let ?tx = "\<lparr>tx_args = [arg ''k'' []], tx_command = 34, tx_database = 10\<rparr>"
  let ?w = "sample_world (sample_client 3) (queue_with \<lparr>bk_type = TX_DIRECT, bk_client = 1, bk_password = 3, bk_transactions = [?tx]\<rparr>) (one_db ''k'' (Prim (PInt 3)) :: (int, int) database)"
  have p: "au_heap (w_auth ?w) 3 = Some \<lparr>pw_data = ''one'', pw_permissions = P_READ\<rparr>" by (simp add: sample_auth_def)
  have h: "h_permissions ((command_list :: (int, int) handler list) ! 34) = P_READ OR P_WRITE" by (simp add: command_list_def on_data_def cmd_incr_def)
  have q: "holds_list 3 0 (w_queue ?w) [\<lparr>bk_type = TX_DIRECT, bk_client = 1, bk_password = 3, bk_transactions = [?tx]\<rparr>]" using queue_with_holds by simp
  obtain w' where "transaction_turn int_gmp command_list (\<lambda>_. sample_genv) ?w = Inr w'" "w_dbs w' = w_dbs ?w" "w_out w' = [Sent 1 NO_PERMISSION]"
    using denied_command [OF sample_connected(1) q p, of command_list "\<lambda>_. sample_genv" 0 int_gmp] h by (auto simp: P_READ_def P_WRITE_def)
  moreover then have "database_at w' 10 = database_at ?w 10" by (simp add: database_at_def)
  ultimately show ?thesis by simp
qed





text \<open>
  C31. \<open>PWD REMOVE\<close> of one of several passwords revokes it: it is not found any more, the others keep their order and permissions, and
  no connected client is left with a pointer to the freed object.
\<close>

theorem password_revoked:
  assumes "wf_auth au" "1 < length (au_list au)" "kdf value = Some d" "i < length (passwords au)" "pw_data (passwords au ! i) = d"
  shows "\<exists>au' cs'. remove_password kdf True au cs executor value = Inr (au', cs', True) \<and> wf_auth au' \<and>
    passwords au' = take i (passwords au) @ drop (i + 1) (passwords au) \<and> where_password kdf au' value = Inr (au', None) \<and>
    (\<forall>c \<in> set (cs_slots cs'). live c \<longrightarrow> au_heap au' (cl_password c) = None \<longrightarrow> au_heap au (cl_password c) = None)"
  by (rule removed_password [where kdf = kdf, OF assms])

theorem password_revoked_witness:
  "\<exists>au' cs'. remove_password Some True sample_auth (sample_clients (sample_client 3)) (Some 1) ''one'' = Inr (au', cs', True) \<and>
     passwords au' = [\<lparr>pw_data = ''two'', pw_permissions = all_permissions\<rparr>] \<and> where_password Some au' ''one'' = Inr (au', None)"
  using password_revoked [of sample_auth Some "''one''" "''one''" 0 "sample_clients (sample_client 3)" "Some 1"] by auto




text \<open>
  C33. A database file of at least one block is never opened again, whatever it holds (with no passwords in it): every read after the
  last block fails the \<open>ASSERT\<close> that it is a whole one, and the last byte of a block is only taken by such a read.
\<close>

theorem full_block_never_opens:
  assumes "length junk \<le> length fb" "fb ! 6 = NUL" "7 < length junk"
  shows "open_database g bd fresh last_fresh mem name junk pjunk fb \<noteq> Inr (Some x)"
  by (rule never_opens [OF assms])

theorem full_block_never_opens_witness:
  "\<forall>x. open_database int_hex (sample_builder :: (int, int) builder) Some None 100 ''db0'' (replicate 4096 NUL) [] (file_bytes 7 [replicate 5000 (CHR ''x'')]) \<noteq> Inr (Some x)"
  by (intro allI full_block_never_opens) (simp_all add: file_bytes_def generate_headers_def byte_def nth_append char_of_def)

text \<open>
  C34. A configuration that is printed and read again keeps every setting but two: the two numbers of \<open>save\<close> are printed on one
  line and read back as a single number of seconds and a count of zero, and \<open>expire_check_batch_size\<close> becomes zero.
\<close>

theorem config_roundtrip:
  assumes "valid_config c"
  shows "\<exists>m. parse_config (get_config_string c) = Inr (Inr m) \<and> read_config m = reread c"
  by (rule config_reread [OF assms])

theorem config_roundtrip_witness:
  "\<exists>m. parse_config (get_config_string default_conf) = Inr (Inr m) \<and> cf_autosave_seconds (read_config m) = 60100000 \<and> cf_port (read_config m) = cf_port default_conf"
proof -
  have v: "valid_config default_conf" by (simp add: valid_config_def default_conf_def plain_text_def)
  have d: "dec_val (decimal 60 @ decimal 100000) = 60100000" by (simp add: dec_val_def decimal.simps)
  have "cf_autosave_seconds (reread default_conf) = 60100000" "cf_port (reread default_conf) = cf_port default_conf"
    by (simp_all add: reread_def default_conf_def d del: decimal.simps)
  then show ?thesis using config_roundtrip [OF v] by metis
qed

text \<open>
  C35. What a log keeps: opening a log file of whole lines, no more than the limit (a power of two), writing any number of messages, and
  closing leaves a file with exactly the latest lines and messages, up to the limit and in their order, if neither the old nor the new file
  is a whole number of pages.
\<close>

theorem log_keeps_latest:
  assumes "calm_open k oe" "c_string (cf_log_file conf) \<noteq> []" "cf_max_log_lines conf = 2 ^ k"
    and "\<forall>l \<in> set ls. NUL \<notin> set l \<and> LF \<notin> set l" "length ls \<le> 2 ^ k" "ls = [] \<or> length (concat (map line_of ls)) mod oe_page oe \<noteq> 0"
    and "list_all (good_call conf) cs" "kept = concat (keep_last (2 ^ k) (map line_of ls @ map call_line cs))" "0 < page" "length kept mod page \<noteq> 0"
  shows "bind_res (initialize_logs oe e conf (concat (map line_of ls))) (\<lambda>(lg, ok).
    bind_res (write_logs conf cs lg) (save_and_close_logs True Mapped page conf)) = Inr kept"
  by (rule log_life [OF assms])

theorem log_keeps_latest_witness:
  "bind_res (initialize_logs sample_open sample_log sample_conf (''old'' @ [LF])) (\<lambda>(lg, ok).
     bind_res (write_logs sample_conf [(sample_log, LOG_INFO, ''hi'')] lg) (save_and_close_logs True Mapped 4096 sample_conf)) =
   Inr (''old'' @ [LF] @ ''[01 Feb 1900 00:00:00 / INFO] | hi'' @ [LF])"
  using log_keeps_latest [OF sample_open_calm(1) sample_conf_simps(1), of "[''old'']" "[(sample_log, LOG_INFO, ''hi'')]" _ 4096 sample_log]
  by (simp add: line_of_def sample_call_line)

text \<open>
  C36. Saving a database whose only value is a string of 64 to 255 bytes writes past the buffer that \<open>get_maximum_keyvalue_size\<close> asked
  for: the estimate counts one byte for the length of the string, and two are written.
\<close>

theorem long_string_overflow:
  assumes "wf_list l" "ll_list l = [db]" "foreach_hashtable (db_data db) = [(key, kv)]" "kv_value kv = Prim (PStr v)"
    "short key" "64 \<le> length v" "length v < 256" "15 + length (generate_string_value (db_name db)) \<le> capacity"
  shows "save_data g True True ok True capacity age [] (Some l) old = Inl OutOfBounds"
  by (rule long_string_overflows [OF assms])

theorem long_string_overflow_witness:
  "save_data int_hex True True (\<lambda>_. True) True 4096 7 [] (Some (one_list (one_db ''k'' (Prim (PStr (replicate 100 (CHR ''x'')))) :: (int, int) database))) [] = Inl OutOfBounds"
  by (rule long_string_overflow [OF one_list_simps(1,2) one_db_name(2) kv.select_convs(1)]) (simp_all add: short_def generate_string_value_def byte_count_small [of 0, simplified] Let_def byte_def)

text \<open>
  C37. One thread alone: the shared queue is a bounded queue. A push appends its value when there is
  room and answers NULL when there is none, a pop takes the oldest value or answers false when there is none.
\<close>

theorem shared_queue_sequential:
  assumes "wf_tqueue q"
  shows "(\<exists>q' slot. push_tqueue q x = Inr (q', slot) \<and> (slot \<noteq> None \<longleftrightarrow> 0 < tq_room q) \<and> wf_tqueue q' \<and>
      tq_vals q' = (if 0 < tq_room q then tq_vals q @ [x] else tq_vals q)) \<and>
    (\<exists>q'. pop_tqueue q = Inr (q', case tq_vals q of [] \<Rightarrow> None | v # _ \<Rightarrow> Some v) \<and> wf_tqueue q' \<and> tq_vals q' = tl (tq_vals q))"
proof
  obtain q' where "tpush q x = Inr (q', 0 < tq_room q)" and q': "wf_tqueue q'" "tq_room q = 0 \<longrightarrow> q' = q" "0 < tq_room q \<longrightarrow> tq_vals q' = tq_vals q @ [x]"
    using shared.push_law [OF assms] by blast
  then obtain slot where "push_tqueue q x = Inr (q', slot)" "slot \<noteq> None \<longleftrightarrow> 0 < tq_room q"
    by (auto simp: tpush_def bind_res_eq_Inr_iff)
  then show "\<exists>q' slot. push_tqueue q x = Inr (q', slot) \<and> (slot \<noteq> None \<longleftrightarrow> 0 < tq_room q) \<and> wf_tqueue q' \<and>
      tq_vals q' = (if 0 < tq_room q then tq_vals q @ [x] else tq_vals q)" using q' by auto
  show "\<exists>q'. pop_tqueue q = Inr (q', case tq_vals q of [] \<Rightarrow> None | v # _ \<Rightarrow> Some v) \<and> wf_tqueue q' \<and> tq_vals q' = tl (tq_vals q)"
    using shared.pop_empty [OF assms] shared.pop_law [OF assms] assms by (cases "tq_vals q") fastforce+
qed

theorem shared_queue_sequential_witness:
  "\<exists>q q'. create_tqueue True True True (\<lambda>_. \<lparr>sl_seq = 9, sl_data = 9\<rparr>) (word_of_nat (2 ^ 3)) 8 = Some (q :: nat tqueue) \<and> pop_tqueue q = Inr (q', None)"
proof -
  obtain q :: "nat tqueue" where q: "create_tqueue True True True (\<lambda>_. \<lparr>sl_seq = 9, sl_data = 9\<rparr>) (word_of_nat (2 ^ 3)) 8 = Some q" "fresh_tqueue 3 q"
    using create_tqueue_fresh [of 3 "\<lambda>_. \<lparr>sl_seq = 9, sl_data = 9\<rparr>"] by auto
  have h: "holds_list 3 0 q []" by (rule fresh_holds [OF q(2)])
  then have "wf_tqueue q" "tq_vals q = []" using holds_vals [OF h] by (auto simp: wf_tqueue_def)
  then show ?thesis using shared_queue_sequential [of q undefined] q(1) by auto
qed


text \<open>
  C39. The next probe after a table has grown never ends when the new block happens to be full of
  non-NULL words: \<open>grow_hashtable\<close> takes the block from \<open>malloc\<close> and does not clear it.
\<close>

theorem table_grow_junk:
  assumes "wf_table t" "3 * ht_capacity t \<le> 4 * ht_count t" "mem (2 * ht_capacity t) = Some block"
    and "length block = 2 * ht_capacity t" "None \<notin> set block"
  shows "insert_into_hashtable mem t k v = Inl Endless"
proof -
  have "filter (\<lambda>e. e \<noteq> None) block = block" using assms(5) by (intro filter_True) metis
  then have "occupied block = length block" by (simp only: occupied_def)
  then show ?thesis by (rule grow_into_junk [of t mem block, OF assms(1-4)])
qed

theorem table_grow_junk_witness:
  "insert_into_hashtable (\<lambda>n. Some (replicate n (Some (7, ''z'')))) (one_table (3 :: nat) ''x'' word_of_nat (=)) 5 ''y'' = Inl Endless"
proof -
  have "wf_table (one_table (3 :: nat) ''x'' word_of_nat (=))" by (simp add: one_table_wf key_eq_def)
  then show ?thesis by (rule table_grow_junk [where block = "replicate 2 (Some (7, ''z''))"]) (simp_all add: one_table_def)
qed

text \<open>
  C40. The copy and the fill in steps of a vector register do what the plain ones do, for every size and every set of instructions the
  program can be built for, but that a fill of two registers or more stores to an address that must be a multiple of the register's width.
\<close>

theorem aligned_copies:
  assumes "n \<le> length s" "n \<le> length d"
  shows "memcpy_aligned v d s n = Inr (take n s @ drop n d) \<and>
    memset_aligned v address d c n =
      (if too_small v n \<or> v \<notin> {AVX2, SSE2} \<or> vector_width v dvd address then Inr (replicate n c @ drop n d) else Inl Undefined)"
  by (intro conjI memcpy_aligned_correct [OF assms] memset_aligned_correct [OF assms(2)])

theorem aligned_copies_witness:
  "memcpy_aligned AVX2 (replicate 100 CHR ''x'') (replicate 70 CHR ''y'') 70 = Inr (replicate 70 CHR ''y'' @ replicate 30 CHR ''x'') \<and>
   memset_aligned AVX2 16 (replicate 100 CHR ''x'') NUL 70 = Inl Undefined"
  using aligned_copies [of 70 "replicate 70 CHR ''y''" "replicate 100 CHR ''x''" AVX2 16 NUL]
  by (simp add: too_small_def)

end
